(* ===== verification/Prelude.thy ===== *)
theory Prelude
  imports Main "HOL-Library.Word" "HOL-Library.Multiset" "HOL-Library.Monad_Syntax"
begin

text \<open>
  Shared vocabulary of the development: the machine types of the C and C++ sources, the
  result type of code that can stop with an error, and the generic lemmas on words, lists
  and heaps that several components use.
\<close>

unbundle bit_operations_syntax

section \<open>Machine types\<close>

type_synonym u8 = "8 word"
type_synonym u16 = "16 word"
type_synonym u32 = "32 word"
type_synonym u64 = "64 word"
type_synonym addr = "64 word"
type_synonym tick = "64 word"

section \<open>Collections of facts\<close>

named_theorems word_bits \<open>bit-level characterisations of machine operations\<close>
named_theorems keeps \<open>an operation leaves a field or a property unchanged\<close>

section \<open>Fallible code\<close>

text \<open>
  Code that can stop returns an option: \<^term>\<open>None\<close> stands for a failed assertion, a panic or an
  access through an invalid pointer.  \<open>c_assert\<close> is the C macro.
\<close>

definition c_assert :: "bool \<Rightarrow> unit option"
  where "c_assert b = (if b then Some () else None)"

lemma c_assert_simps [simp]:
  "c_assert True = Some ()" "c_assert False = None"
  by (simp_all add: c_assert_def)

lemma c_assert_bind_Some [simp]:
  "(c_assert b \<bind> f = Some y) \<longleftrightarrow> (b \<and> f () = Some y)"
  by (cases b) simp_all

lemma c_assert_eq_Some [simp]: "c_assert b = Some u \<longleftrightarrow> b"
  by (cases b) simp_all

lemma c_assert_bind_True: "b \<Longrightarrow> c_assert b \<bind> f = f ()"
  by simp

section \<open>Words\<close>

lemma unat_drop_bit_div: "unat (drop_bit k x) = unat x div 2 ^ k"
  for x :: "'a::len word"
  unfolding unat_drop_bit_eq by (simp add: drop_bit_eq_div)

lemma take_bit_word_eq_self: "unat x < 2 ^ k \<Longrightarrow> take_bit k x = x"
  for x :: "'a::len word"
  by (metis take_bit_nat_eq_self_iff unsigned_take_bit_eq word_eq_iff_unsigned)

lemma and_high_mask_eq: "x AND push_bit k (mask j) = push_bit k (take_bit j (drop_bit k x))"
  for x :: "'a::len word"
  by (rule bit_word_eqI) (auto simp: bit_simps)

lemma push_drop_eq_0: "push_bit k (drop_bit k x) = 0 \<longleftrightarrow> drop_bit k x = 0"
  for x :: "'a::len word"
proof
  assume "push_bit k (drop_bit k x) = 0"
  then have "drop_bit k (push_bit k (drop_bit k x)) = 0" by simp
  moreover have "drop_bit k (push_bit k (drop_bit k x)) = drop_bit k x"
    by (rule bit_word_eqI) (auto simp: bit_simps dest: bit_imp_le_length)
  ultimately show "drop_bit k x = 0" by simp
qed simp

lemma and_high_mask_eq_0_iff: 
  fixes x :: "'a::len word"
  assumes "unat x < 2 ^ (2 * k)"
  shows "x AND push_bit k (mask k) = 0 \<longleftrightarrow> unat x < 2 ^ k"
proof -
  have "unat (drop_bit k x) < 2 ^ k"
    using assms by (simp add: unat_drop_bit_div less_mult_imp_div_less mult_2 flip: power_add)
  then have "take_bit k (drop_bit k x) = drop_bit k x"
    by (rule take_bit_word_eq_self)
  moreover have "drop_bit k x = 0 \<longleftrightarrow> unat x < 2 ^ k"
    by (simp add: div_eq_0_iff unat_drop_bit_div flip: unat_eq_0)
  ultimately show ?thesis
    by (simp add: and_high_mask_eq push_drop_eq_0)
qed

lemma unat_exp: "k < LENGTH('a) \<Longrightarrow> unat (2 ^ k :: 'a::len word) = 2 ^ k"
  unfolding push_bit_of_1 [symmetric]
  by (simp only: unsigned_push_bit_eq unsigned_1) (simp add: take_bit_eq_mod push_bit_eq_mult)

lemma exp_neq_0: "k < LENGTH('a) \<Longrightarrow> (2 ^ k :: 'a::len word) \<noteq> 0"
  using unat_exp [of k, where ?'a = 'a] by fastforce

lemma bit_top:
  fixes w :: "'a::len word"
  assumes "2 ^ k \<le> unat w" "unat w < 2 ^ Suc k"
  shows "bit w k"
proof -
  have "unat w div 2 ^ k = 1"
    using assms by (intro div_nat_eqI) auto
  then have "bit (unat w) k"
    by (simp add: bit_iff_odd)
  then show ?thesis
    by (simp add: bit_unsigned_iff)
qed

lemma ex_log_bracket: "0 < n \<Longrightarrow> \<exists>k. 2 ^ k \<le> n \<and> n < (2::nat) ^ Suc k"
  using ex_power_ivl1 [of 2 n] by auto

lemma unat_and_not_mask: "unat (x AND NOT (mask k)) = unat x div 2 ^ k * 2 ^ k"
  for x :: "'a::len word"
proof -
  have "x AND NOT (mask k) = push_bit k (drop_bit k x)"
    by (rule bit_word_eqI) (auto simp: bit_simps)
  moreover have "unat x div 2 ^ k * 2 ^ k < 2 ^ LENGTH('a)"
    by (rule le_less_trans [OF div_times_less_eq_dividend]) simp
  ultimately show ?thesis
    by (simp only: unsigned_push_bit_eq unat_drop_bit_div) 
      (simp add: push_bit_eq_mult take_bit_nat_eq_self)
qed

lemma log_bracket_unique:
  assumes "2 ^ y \<le> n" "n < 2 ^ Suc y" "2 ^ z \<le> n" "n < (2::nat) ^ Suc z"
  shows "y = z"
proof -
  have "y < Suc z" "z < Suc y"
    using assms by (meson le_less_trans one_less_numeral_iff power_less_imp_less_exp semiring_norm(76))+
  then show ?thesis by simp
qed

end
