(* ===== verification/EventQueue.thy ===== *)
theory EventQueue
  imports Prelude "HOL-Library.Product_Lexorder"
begin

text \<open>
  The event queue of the simulator (\<open>sim/eventq.hh\<close>, \<open>sim/eventq.cc\<close>, \<open>sim/eventq_impl.hh\<close>): a
  linked list of bins, each bin a stack of events with the same time and priority.  The model
  keeps the pointers: events live in a heap, the links \<open>nextBin\<close> and \<open>nextInBin\<close> are addresses,
  and the link \<open>nextBin\<close> of an event below the top of its bin may be stale, as in the code.
  The refinement relates the pointer structure to a sorted association list from the key
  (time, priority) to the stack of events.
\<close>

section \<open>Flags\<close>

definition isSet :: "u16 \<Rightarrow> u16 \<Rightarrow> bool"
  where "isSet fl m \<longleftrightarrow> fl AND m \<noteq> 0"

definition noneSet :: "u16 \<Rightarrow> u16 \<Rightarrow> bool"
  where "noneSet fl m \<longleftrightarrow> fl AND m = 0"

definition flags_clear :: "u16 \<Rightarrow> u16 \<Rightarrow> u16"
  where "flags_clear fl m = fl AND NOT m"

definition flags_set :: "u16 \<Rightarrow> u16 \<Rightarrow> u16"
  where "flags_set fl m = fl OR m"

definition PublicRead :: u16 where "PublicRead = 0x003f"
definition PublicWrite :: u16 where "PublicWrite = 0x001d"
definition Squashed :: u16 where "Squashed = 0x0001"
definition Scheduled :: u16 where "Scheduled = 0x0002"
definition Managed :: u16 where "Managed = 0x0004"
definition IsExitEvent :: u16 where "IsExitEvent = 0x0010"
definition IsMainQueue :: u16 where "IsMainQueue = 0x0020"
definition Initialized :: u16 where "Initialized = 0x7a40"
definition InitMask :: u16 where "InitMask = 0xffc0"

lemmas flag_consts = PublicRead_def PublicWrite_def Squashed_def Scheduled_def Managed_def
  IsExitEvent_def IsMainQueue_def Initialized_def InitMask_def

lemmas flag_ops = isSet_def noneSet_def flags_clear_def flags_set_def

section \<open>Events\<close>

type_synonym event_ptr = nat

record event =
  nextBin :: "event_ptr option"
  nextInBin :: "event_ptr option"
  ev_when :: tick
  ev_priority :: u8
  ev_flags :: u16
  ev_queue :: "nat option"

type_synonym event_heap = "event_ptr \<Rightarrow> event option"

definition new_event :: "u8 \<Rightarrow> u16 \<Rightarrow> event option"
  where "new_event p f = do {
    c_assert (noneSet f (NOT PublicWrite));
    Some \<lparr>nextBin = None, nextInBin = None, ev_when = 0, ev_priority = p,
          ev_flags = Initialized OR f, ev_queue = None\<rparr> }"

definition setWhen :: "tick \<Rightarrow> nat \<Rightarrow> event \<Rightarrow> event"
  where "setWhen t q e = e\<lparr>ev_when := t, ev_queue := Some q\<rparr>"

definition initialized :: "event \<Rightarrow> bool"
  where "initialized e \<longleftrightarrow> ev_flags e AND InitMask = Initialized"

definition getFlags :: "event \<Rightarrow> u16"
  where "getFlags e = ev_flags e AND PublicRead"

definition isFlagSet :: "event \<Rightarrow> u16 \<Rightarrow> bool option"
  where "isFlagSet e f = do { c_assert (noneSet f (NOT PublicRead)); Some (isSet (ev_flags e) f) }"

definition setFlags :: "event \<Rightarrow> u16 \<Rightarrow> event option"
  where "setFlags e f = do { c_assert (noneSet f (NOT PublicWrite));
    Some (e\<lparr>ev_flags := flags_set (ev_flags e) f\<rparr>) }"

definition clearFlags :: "event \<Rightarrow> u16 \<Rightarrow> event option"
  where "clearFlags e f = do { c_assert (noneSet f (NOT PublicWrite));
    Some (e\<lparr>ev_flags := flags_clear (ev_flags e) f\<rparr>) }"

definition scheduled :: "event \<Rightarrow> bool"
  where "scheduled e \<longleftrightarrow> isSet (ev_flags e) Scheduled"

definition squash :: "event \<Rightarrow> event"
  where "squash e = e\<lparr>ev_flags := flags_set (ev_flags e) Squashed\<rparr>"

definition squashed :: "event \<Rightarrow> bool"
  where "squashed e \<longleftrightarrow> isSet (ev_flags e) Squashed"

definition isExitEvent :: "event \<Rightarrow> bool"
  where "isExitEvent e \<longleftrightarrow> isSet (ev_flags e) IsExitEvent"

definition isManaged :: "event \<Rightarrow> bool"
  where "isManaged e \<longleftrightarrow> isSet (ev_flags e) Managed"

text \<open>
  The comparison operators.  \<open>int8_t\<close> priorities compare as signed numbers.
\<close>

definition ev_lt :: "event \<Rightarrow> event \<Rightarrow> bool"
  where "ev_lt l r \<longleftrightarrow> ev_when l < ev_when r \<or>
    (ev_when l = ev_when r \<and> sint (ev_priority l) < sint (ev_priority r))"

definition ev_le :: "event \<Rightarrow> event \<Rightarrow> bool"
  where "ev_le l r \<longleftrightarrow> ev_when l < ev_when r \<or>
    (ev_when l = ev_when r \<and> sint (ev_priority l) \<le> sint (ev_priority r))"

definition ev_eq :: "event \<Rightarrow> event \<Rightarrow> bool"
  where "ev_eq l r \<longleftrightarrow> ev_when l = ev_when r \<and> ev_priority l = ev_priority r"

section \<open>Pointer operations\<close>

text \<open>
  \<open>Event::insertBefore\<close> and \<open>EventQueue::insert\<close>.  The loop of \<open>insert\<close> and of \<open>remove\<close>
  walks the tops of the bins and is \<open>find_bin\<close>.
\<close>

definition insertBefore :: "event_heap \<Rightarrow> event_ptr \<Rightarrow> event_ptr option \<Rightarrow> (event_heap \<times> event_ptr) option"
  where "insertBefore h event cur = do {
    e \<leftarrow> h event;
    (case cur of
       None \<Rightarrow> Some (h(event \<mapsto> e\<lparr>nextBin := None, nextInBin := None\<rparr>), event)
     | Some c \<Rightarrow> do {
         ce \<leftarrow> h c;
         if ev_lt e ce
         then Some (h(event \<mapsto> e\<lparr>nextBin := Some c, nextInBin := None\<rparr>), event)
         else Some (h(event \<mapsto> e\<lparr>nextBin := nextBin ce, nextInBin := Some c\<rparr>), event) }) }"

partial_function (option) find_bin ::
    "event_heap \<Rightarrow> event \<Rightarrow> event_ptr \<Rightarrow> event_ptr option \<Rightarrow> (event_ptr \<times> event_ptr option) option"
  where "find_bin h e prev cur =
    (if cur = None then Some (prev, None)
     else Option.bind (h (the cur)) (\<lambda>ce.
       if ev_lt ce e then find_bin h e (the cur) (nextBin ce) else Some (prev, cur)))"

definition set_nextBin :: "event_heap \<Rightarrow> event_ptr \<Rightarrow> event_ptr option \<Rightarrow> event_heap option"
  where "set_nextBin h p q = do { e \<leftarrow> h p; Some (h(p \<mapsto> e\<lparr>nextBin := q\<rparr>)) }"

definition set_nextInBin :: "event_heap \<Rightarrow> event_ptr \<Rightarrow> event_ptr option \<Rightarrow> event_heap option"
  where "set_nextInBin h p q = do { e \<leftarrow> h p; Some (h(p \<mapsto> e\<lparr>nextInBin := q\<rparr>)) }"

definition eq_insert ::
    "event_heap \<Rightarrow> event_ptr option \<Rightarrow> event_ptr \<Rightarrow> (event_heap \<times> event_ptr option) option"
  where "eq_insert h top0 event =
    (case top0 of
       None \<Rightarrow> do { (h', p) \<leftarrow> insertBefore h event None; Some (h', Some p) }
     | Some hp \<Rightarrow> do {
         e \<leftarrow> h event;
         he \<leftarrow> h hp;
         if ev_le e he
         then do { (h', p) \<leftarrow> insertBefore h event top0; Some (h', Some p) }
         else do {
           (prev, cur) \<leftarrow> find_bin h e hp (nextBin he);
           (h', p) \<leftarrow> insertBefore h event cur;
           h'' \<leftarrow> set_nextBin h' prev (Some p);
           Some (h'', top0) } })"

text \<open>
  \<open>Event::removeItem\<close> and \<open>EventQueue::remove\<close>.  A panic is \<^term>\<open>None\<close>.
\<close>

partial_function (option) find_item ::
    "event_heap \<Rightarrow> event_ptr \<Rightarrow> event_ptr \<Rightarrow> event_ptr option \<Rightarrow> event_ptr option"
  where "find_item h event cur next =
    (if next = Some event then Some cur
     else if next = None then None
     else Option.bind (h (the next)) (\<lambda>ne. find_item h event (the next) (nextInBin ne)))"

definition removeItem ::
    "event_heap \<Rightarrow> event_ptr \<Rightarrow> event_ptr \<Rightarrow> (event_heap \<times> event_ptr option) option"
  where "removeItem h event tp = do {
    te \<leftarrow> h tp;
    if event = tp
    then (case nextInBin te of
            None \<Rightarrow> Some (h, nextBin te)
          | Some n \<Rightarrow> do { h' \<leftarrow> set_nextBin h n (nextBin te); Some (h', Some n) })
    else do {
      cur \<leftarrow> find_item h event tp (nextInBin te);
      ne \<leftarrow> h event;
      h' \<leftarrow> set_nextInBin h cur (nextInBin ne);
      Some (h', Some tp) } }"

definition eq_remove ::
    "nat \<Rightarrow> event_heap \<Rightarrow> event_ptr option \<Rightarrow> event_ptr \<Rightarrow> (event_heap \<times> event_ptr option) option"
  where "eq_remove this h top0 event =
    (case top0 of
       None \<Rightarrow> None
     | Some hp \<Rightarrow> do {
         e \<leftarrow> h event;
         c_assert (ev_queue e = Some this);
         he \<leftarrow> h hp;
         if ev_eq he e then removeItem h event hp
         else do {
           (prev, cur) \<leftarrow> find_bin h e hp (nextBin he);
           c \<leftarrow> cur;
           ce \<leftarrow> h c;
           c_assert (ev_eq ce e);
           (h', p) \<leftarrow> removeItem h event c;
           h'' \<leftarrow> set_nextBin h' prev p;
           Some (h'', top0) } })"

section \<open>The queue object\<close>

text \<open>
  One queue together with the heap of events and the two globals its operations read.
  \<open>this_queue\<close> and \<open>curEventQueue\<close> identify queues; \<open>process\<close> is the virtual handler of an
  event, which may do anything to the state or stop.
\<close>

record eqstate =
  heap :: event_heap
  head :: "event_ptr option"
  curTick :: tick
  async_queue :: "event_ptr list"
  this_queue :: nat
  curEventQueue :: nat
  inParallelMode :: bool

definition eq_init :: "nat \<Rightarrow> event_heap \<Rightarrow> nat \<Rightarrow> bool \<Rightarrow> eqstate"
  where "eq_init q h cq par = \<lparr>heap = h, head = None, curTick = 0, async_queue = [],
    this_queue = q, curEventQueue = cq, inParallelMode = par\<rparr>"

definition set_flags_of :: "(u16 \<Rightarrow> u16) \<Rightarrow> event_ptr \<Rightarrow> eqstate \<Rightarrow> eqstate option"
  where "set_flags_of f p s = do {
    e \<leftarrow> heap s p;
    Some (s\<lparr>heap := (heap s)(p \<mapsto> e\<lparr>ev_flags := f (ev_flags e)\<rparr>)\<rparr>) }"

definition acquire :: "event_ptr \<Rightarrow> eqstate \<Rightarrow> eqstate option"
  where "acquire p s = do { e \<leftarrow> heap s p; Some s }"

definition release :: "event_ptr \<Rightarrow> eqstate \<Rightarrow> eqstate option"
  where "release p s = do {
    e \<leftarrow> heap s p;
    Some (if isManaged e \<and> \<not> scheduled e then s\<lparr>heap := (heap s)(p := None)\<rparr> else s) }"

definition insert_ev :: "event_ptr \<Rightarrow> eqstate \<Rightarrow> eqstate option"
  where "insert_ev p s = do {
    (h', hd') \<leftarrow> eq_insert (heap s) (head s) p;
    Some (s\<lparr>heap := h', head := hd'\<rparr>) }"

definition remove_ev :: "event_ptr \<Rightarrow> eqstate \<Rightarrow> eqstate option"
  where "remove_ev p s = do {
    (h', hd') \<leftarrow> eq_remove (this_queue s) (heap s) (head s) p;
    Some (s\<lparr>heap := h', head := hd'\<rparr>) }"

definition asyncInsert :: "event_ptr \<Rightarrow> eqstate \<Rightarrow> eqstate"
  where "asyncInsert p s = s\<lparr>async_queue := async_queue s @ [p]\<rparr>"

definition schedule :: "event_ptr \<Rightarrow> tick \<Rightarrow> bool \<Rightarrow> eqstate \<Rightarrow> eqstate option"
  where "schedule p t global s = do {
    c_assert (t \<ge> curTick s);
    e \<leftarrow> heap s p;
    c_assert (\<not> scheduled e);
    c_assert (initialized e);
    let s1 = s\<lparr>heap := (heap s)(p \<mapsto> setWhen t (this_queue s) e)\<rparr>;
    s2 \<leftarrow> (if inParallelMode s \<and> (this_queue s \<noteq> curEventQueue s \<or> global)
          then Some (asyncInsert p s1) else insert_ev p s1);
    s3 \<leftarrow> set_flags_of (\<lambda>f. flags_set f Scheduled) p s2;
    acquire p s3 }"

definition deschedule :: "event_ptr \<Rightarrow> eqstate \<Rightarrow> eqstate option"
  where "deschedule p s = do {
    e \<leftarrow> heap s p;
    c_assert (scheduled e);
    c_assert (initialized e);
    c_assert (\<not> inParallelMode s \<or> this_queue s = curEventQueue s);
    s1 \<leftarrow> remove_ev p s;
    s2 \<leftarrow> set_flags_of (\<lambda>f. flags_clear f Squashed) p s1;
    s3 \<leftarrow> set_flags_of (\<lambda>f. flags_clear f Scheduled) p s2;
    release p s3 }"

definition reschedule :: "event_ptr \<Rightarrow> tick \<Rightarrow> bool \<Rightarrow> eqstate \<Rightarrow> eqstate option"
  where "reschedule p t always s = do {
    c_assert (t \<ge> curTick s);
    e \<leftarrow> heap s p;
    c_assert (always \<or> scheduled e);
    c_assert (initialized e);
    c_assert (\<not> inParallelMode s \<or> this_queue s = curEventQueue s);
    s1 \<leftarrow> (if scheduled e then remove_ev p s else acquire p s);
    e1 \<leftarrow> heap s1 p;
    s2 \<leftarrow> insert_ev p (s1\<lparr>heap := (heap s1)(p \<mapsto> setWhen t (this_queue s1) e1)\<rparr>);
    s3 \<leftarrow> set_flags_of (\<lambda>f. flags_clear f Squashed) p s2;
    set_flags_of (\<lambda>f. flags_set f Scheduled) p s3 }"

text \<open>
  \<open>serviceOne\<close>: the head event leaves the queue (\<open>pop_head\<close>), then it is processed unless it
  is squashed.  The result is the exit event, if the event was one.
\<close>

definition pop_head :: "eqstate \<Rightarrow> (event_ptr \<times> eqstate) option"
  where "pop_head s = do {
    p \<leftarrow> head s;
    e \<leftarrow> heap s p;
    let h1 = (heap s)(p \<mapsto> e\<lparr>ev_flags := flags_clear (ev_flags e) Scheduled\<rparr>);
    (case nextInBin e of
       Some n \<Rightarrow> do {
         h2 \<leftarrow> set_nextBin h1 n (nextBin e);
         Some (p, s\<lparr>heap := h2, head := Some n\<rparr>) }
     | None \<Rightarrow> Some (p, s\<lparr>heap := h1, head := nextBin e\<rparr>)) }"

definition serviceOne ::
    "(event_ptr \<Rightarrow> eqstate \<Rightarrow> eqstate option) \<Rightarrow> eqstate \<Rightarrow> (event_ptr option \<times> eqstate) option"
  where "serviceOne process s = do {
    (p, s1) \<leftarrow> pop_head s;
    e \<leftarrow> heap s1 p;
    if \<not> squashed e
    then do {
      s2 \<leftarrow> process p (s1\<lparr>curTick := ev_when e\<rparr>);
      e2 \<leftarrow> heap s2 p;
      if isExitEvent e2
      then do {
        c_assert (\<not> isManaged e2 \<or> \<not> isSet (ev_flags e2) IsMainQueue);
        Some (Some p, s2) }
      else do { s3 \<leftarrow> release p s2; Some (None, s3) } }
    else do {
      s2 \<leftarrow> set_flags_of (\<lambda>f. flags_clear f Squashed) p s1;
      s3 \<leftarrow> release p s2;
      Some (None, s3) } }"

definition nextTick :: "eqstate \<Rightarrow> tick option"
  where "nextTick s = do { p \<leftarrow> head s; e \<leftarrow> heap s p; Some (ev_when e) }"

definition setCurTick :: "tick \<Rightarrow> eqstate \<Rightarrow> eqstate"
  where "setCurTick t s = s\<lparr>curTick := t\<rparr>"

definition eq_empty :: "eqstate \<Rightarrow> bool"
  where "eq_empty s \<longleftrightarrow> head s = None"

partial_function (option) serviceEvents ::
    "(event_ptr \<Rightarrow> eqstate \<Rightarrow> eqstate option) \<Rightarrow> tick \<Rightarrow> eqstate \<Rightarrow> eqstate option"
  where "serviceEvents process t s =
    (if eq_empty s then Some (setCurTick t s)
     else Option.bind (nextTick s) (\<lambda>nt.
       if nt > t then Some (setCurTick t s)
       else Option.bind (serviceOne process s) (\<lambda>r. serviceEvents process t (snd r))))"

primrec async_drain :: "event_ptr list \<Rightarrow> eqstate \<Rightarrow> eqstate option"
  where
    "async_drain [] s = Some (s\<lparr>async_queue := []\<rparr>)"
  | "async_drain (p # ps) s = do { s' \<leftarrow> insert_ev p s; async_drain ps s' }"

definition handleAsyncInsertions :: "eqstate \<Rightarrow> eqstate option"
  where "handleAsyncInsertions s = do {
    c_assert (this_queue s = curEventQueue s);
    async_drain (async_queue s) s }"

definition checkpointReschedule :: "event_ptr \<Rightarrow> eqstate \<Rightarrow> eqstate option"
  where "checkpointReschedule p s = do {
    e \<leftarrow> heap s p;
    if isSet (ev_flags e) Scheduled then insert_ev p s else Some s }"

definition replaceHead :: "event_ptr option \<Rightarrow> eqstate \<Rightarrow> event_ptr option \<times> eqstate"
  where "replaceHead p s = (head s, s\<lparr>head := p\<rparr>)"

text \<open>
  Checkpoints keep the time, the priority and the flags of an event.
\<close>

record event_cp =
  cp_when :: tick
  cp_priority :: u8
  cp_flags :: u16

definition serialize :: "event \<Rightarrow> event_cp"
  where "serialize e = \<lparr>cp_when = ev_when e, cp_priority = ev_priority e, cp_flags = ev_flags e\<rparr>"

definition unserialize :: "event_cp \<Rightarrow> event \<Rightarrow> event option"
  where "unserialize cp e = do {
    c_assert (\<not> scheduled e);
    c_assert (initialized e);
    let fl = flags_set (cp_flags cp) Initialized;
    let fl' = (if isSet fl Scheduled \<and> \<not> isSet fl Squashed
               then flags_clear fl (Squashed OR Scheduled) else fl);
    Some (e\<lparr>ev_when := cp_when cp, ev_priority := cp_priority cp, ev_flags := fl'\<rparr>) }"

text \<open>
  \<open>debugVerify\<close>: the nested loops, with the table of the addresses seen so far and the last
  time and priority.  The outer loop continues through \<open>nextBin\<close> of the top of the bin.
\<close>

partial_function (option) verify_bin ::
    "event_heap \<Rightarrow> event_ptr option \<Rightarrow> event_ptr list \<times> tick \<times> int \<Rightarrow>
      (event_ptr list \<times> tick \<times> int) option option"
  where "verify_bin h p st =
    (if p = None then Some (Some st)
     else Option.bind (h (the p)) (\<lambda>e.
       if ev_when e < fst (snd st) then Some None
       else if ev_when e = fst (snd st) \<and> sint (ev_priority e) < snd (snd st) then Some None
       else if the p \<in> set (fst st) then Some None
       else verify_bin h (nextInBin e) (the p # fst st, ev_when e, sint (ev_priority e))))"

partial_function (option) verify_bins ::
    "event_heap \<Rightarrow> event_ptr option \<Rightarrow> event_ptr list \<times> tick \<times> int \<Rightarrow> bool option"
  where "verify_bins h p st =
    (if p = None then Some True
     else Option.bind (verify_bin h p st) (\<lambda>r.
       if r = None then Some False
       else Option.bind (h (the p)) (\<lambda>e. verify_bins h (nextBin e) (the r))))"

definition debugVerify :: "eqstate \<Rightarrow> bool option"
  where "debugVerify s = verify_bins (heap s) (head s) ([], 0, 0)"

section \<open>Keys and the abstract queue\<close>

type_synonym ev_key = "tick \<times> int"

definition key_of :: "event \<Rightarrow> ev_key"
  where "key_of e = (ev_when e, sint (ev_priority e))"

lemma ev_lt_key: "ev_lt l r \<longleftrightarrow> key_of l < key_of r"
  by (auto simp: ev_lt_def key_of_def less_prod_def)

lemma ev_le_key: "ev_le l r \<longleftrightarrow> key_of l \<le> key_of r"
  by (auto simp: ev_le_def key_of_def less_eq_prod_def)

lemma ev_eq_key: "ev_eq l r \<longleftrightarrow> key_of l = key_of r"
  by (auto simp: ev_eq_def key_of_def word_eq_iff_signed [where ?'a = int])

lemmas ev_cmp = ev_lt_key ev_le_key ev_eq_key

lemma key_of_upd [simp]:
  "key_of (e\<lparr>nextBin := a\<rparr>) = key_of e" "key_of (e\<lparr>nextInBin := b\<rparr>) = key_of e"
  "key_of (e\<lparr>ev_flags := f\<rparr>) = key_of e" "key_of (e\<lparr>ev_queue := q\<rparr>) = key_of e"
  by (simp_all add: key_of_def)

type_synonym 'k bin_list = "('k \<times> event_ptr list) list"
type_synonym bins = "ev_key bin_list"

fun ins_bins :: "'k::linorder \<Rightarrow> event_ptr \<Rightarrow> 'k bin_list \<Rightarrow> 'k bin_list"
  where
    "ins_bins k p [] = [(k, [p])]"
  | "ins_bins k p ((k', b) # bs) =
      (if k < k' then (k, [p]) # (k', b) # bs
       else if k = k' then (k, p # b) # bs
       else (k', b) # ins_bins k p bs)"

fun rem_bins :: "'k::linorder \<Rightarrow> event_ptr \<Rightarrow> 'k bin_list \<Rightarrow> 'k bin_list"
  where
    "rem_bins k p [] = []"
  | "rem_bins k p ((k', b) # bs) =
      (if k = k' then (if remove1 p b = [] then bs else (k', remove1 p b) # bs)
       else (k', b) # rem_bins k p bs)"

definition bin_events :: "'k bin_list \<Rightarrow> ('k \<times> event_ptr) list"
  where "bin_events bs = concat (map (\<lambda>(k, b). map (Pair k) b) bs)"

definition bin_ptrs :: "'k bin_list \<Rightarrow> event_ptr set"
  where "bin_ptrs bs = \<Union> (set ` snd ` set bs)"

definition bins_ok :: "'k::linorder bin_list \<Rightarrow> bool"
  where "bins_ok bs \<longleftrightarrow> sorted_wrt (<) (map fst bs) \<and> distinct (concat (map snd bs)) \<and> [] \<notin> snd ` set bs"

lemma bin_ptrs_simps [simp]:
  "bin_ptrs [] = {}" "bin_ptrs ((k, b) # bs) = set b \<union> bin_ptrs bs"
  "bin_ptrs (as @ bs) = bin_ptrs as \<union> bin_ptrs bs"
  by (auto simp: bin_ptrs_def)

lemma bin_events_simps [simp]:
  "bin_events [] = []" "bin_events ((k, b) # bs) = map (Pair k) b @ bin_events bs"
  "bin_events (as @ bs) = bin_events as @ bin_events bs"
  by (auto simp: bin_events_def)

lemma bin_ptrs_events: "bin_ptrs bs = snd ` set (bin_events bs)"
  by (induction bs) (simp, force simp: image_Un image_image)

lemma set_concat_ptrs [simp]: "set (concat (map snd bs)) = bin_ptrs bs"
  by (auto simp: bin_ptrs_def)

lemma bins_ok_Nil [simp]: "bins_ok []"
  by (simp add: bins_ok_def)

lemma bins_ok_Cons:
  "bins_ok ((k, b) # bs) \<longleftrightarrow>
    (\<forall>x\<in>set bs. k < fst x) \<and> b \<noteq> [] \<and> distinct b \<and> set b \<inter> bin_ptrs bs = {} \<and> bins_ok bs"
  by (auto simp: bins_ok_def bin_ptrs_def)

lemma bins_ok_append:
  "bins_ok (as @ bs) \<longleftrightarrow> bins_ok as \<and> bins_ok bs \<and> bin_ptrs as \<inter> bin_ptrs bs = {} \<and>
    (\<forall>x\<in>set as. \<forall>y\<in>set bs. fst x < fst y)"
proof (induction as)
  case (Cons x as)
  obtain k b where x: "x = (k, b)"
    by (cases x)
  have "set b \<inter> (bin_ptrs as \<union> bin_ptrs bs) = {} \<longleftrightarrow> set b \<inter> bin_ptrs as = {} \<and> set b \<inter> bin_ptrs bs = {}"
    "(set b \<union> bin_ptrs as) \<inter> bin_ptrs bs = {} \<longleftrightarrow> set b \<inter> bin_ptrs bs = {} \<and> bin_ptrs as \<inter> bin_ptrs bs = {}"
    by blast+
  with Cons.IH show ?case
    unfolding x append_Cons bins_ok_Cons bin_ptrs_simps set_append by (simp add: ball_Un) (intro iffI; elim conjE; intro conjI; assumption)
qed simp

lemma ins_bins_keys: "fst ` set (ins_bins k p bs) = insert k (fst ` set bs)"
  by (induction k p bs rule: ins_bins.induct) auto

lemma ins_bins_ptrs [simp]: "bin_ptrs (ins_bins k p bs) = insert p (bin_ptrs bs)"
  by (induction k p bs rule: ins_bins.induct) auto

lemma ins_bins_events: "mset (bin_events (ins_bins k p bs)) = add_mset (k, p) (mset (bin_events bs))"
  by (induction k p bs rule: ins_bins.induct) auto

lemma ins_bins_lower: "\<forall>x\<in>set bs. k' < fst x \<Longrightarrow> k' < k \<Longrightarrow> \<forall>x\<in>set (ins_bins k p bs). k' < fst x"
  by (induction k p bs rule: ins_bins.induct) auto

lemma ins_bins_ok: "bins_ok bs \<Longrightarrow> p \<notin> bin_ptrs bs \<Longrightarrow> bins_ok (ins_bins k p bs)"
proof (induction k p bs rule: ins_bins.induct)
  case (2 k p k' b bs)
  consider "k < k'" | "k = k'" | "k' < k"
    by (rule linorder_cases)
  thus ?case
  proof cases
    case 1
    with 2(2) have "\<forall>x\<in>set bs. k < fst x"
      unfolding bins_ok_Cons using order.strict_trans by blast
    with 1 2 show ?thesis
      by (simp add: bins_ok_Cons)
  next
    case 3
    hence "\<not> k < k'" "k \<noteq> k'"
      by (simp_all add: order.asym)
    moreover have "\<forall>x\<in>set (ins_bins k p bs). k' < fst x"
      using 2(2) 3 by (intro ins_bins_lower) (simp_all add: bins_ok_Cons)
    ultimately show ?thesis
      using 2 by (simp add: bins_ok_Cons)
  qed (use 2 in \<open>simp add: bins_ok_Cons\<close>)
qed (simp add: bins_ok_Cons)

lemma ins_bins_append:
  "\<forall>x\<in>set as. fst x < k \<Longrightarrow> ins_bins k p (as @ bs) = as @ ins_bins k p bs"
  by (induction as) auto

lemma rem_bins_append:
  "\<forall>x\<in>set as. fst x < k \<Longrightarrow> rem_bins k p (as @ bs) = as @ rem_bins k p bs"
  by (induction as) auto

lemma rem_bins_keys: "set (map fst (rem_bins k p bs)) \<subseteq> fst ` set bs"
  by (induction k p bs rule: rem_bins.induct) auto

lemma rem_bins_notin:
  assumes "bins_ok bs" "(k, p) \<in> set (bin_events bs)"
  shows "bin_ptrs (rem_bins k p bs) = bin_ptrs bs - {p}"
    and "mset (bin_events (rem_bins k p bs)) = mset (bin_events bs) - {#(k, p)#}"
    and "bins_ok (rem_bins k p bs)"
proof -
  have r: "bin_ptrs (rem_bins k p bs) = bin_ptrs bs - {p} \<and>
    add_mset (k, p) (mset (bin_events (rem_bins k p bs))) = mset (bin_events bs) \<and> bins_ok (rem_bins k p bs)"
    using assms
  proof (induction k p bs rule: rem_bins.induct)
    case (2 k p k' b bs)
    show ?case
    proof (cases "k = k'")
      case True
      with 2(2,3) have "p \<in> set b"
        by (fastforce simp: bins_ok_Cons bin_events_def)
      hence b: "mset b = add_mset p (mset (remove1 p b))"
        by simp
      have e: "remove1 p b = [] \<Longrightarrow> set b = {p}" "set (remove1 p b) = set b - {p}" "distinct (remove1 p b)"
        using 2(2) b set_remove1_eq [of b p] by (auto simp: bins_ok_Cons)
      have "mset (map (Pair k) b) = add_mset (k, p) (mset (map (Pair k) (remove1 p b)))"
        unfolding mset_map by (subst b) simp
      moreover have "remove1 p b = [] \<Longrightarrow> mset b - {#p#} = {#}"
        by (metis mset_remove1 mset_zero_iff)
      ultimately show ?thesis
        using True e 2(2) \<open>p \<in> set b\<close> by (auto simp: bins_ok_Cons)
    next
      case False
      have "p \<in> bin_ptrs bs"
        using False 2(3) by (force simp: bin_ptrs_events)
      moreover have "\<forall>x\<in>set (rem_bins k p bs). k' < fst x"
        using 2(2) rem_bins_keys [of k p bs] by (fastforce simp: bins_ok_Cons)
      moreover have "(k, p) \<in> set (bin_events bs)"
        using False 2(3) by auto
      ultimately show ?thesis
        using False 2(1) 2(2) by (auto simp: bins_ok_Cons)
    qed
  qed simp
  thus "bin_ptrs (rem_bins k p bs) = bin_ptrs bs - {p}" "bins_ok (rem_bins k p bs)"
    by blast+
  show "mset (bin_events (rem_bins k p bs)) = mset (bin_events bs) - {#(k, p)#}"
    by (simp flip: r [THEN conjunct2, THEN conjunct1])
qed

lemma bin_events_head:
  assumes "bins_ok cs" "(k, p) \<in> set (bin_events cs)" "k \<le> fst (hd cs)"
  shows "\<exists>b cs'. cs = (k, b) # cs' \<and> p \<in> set b"
proof (cases cs)
  case (Cons x cs')
  obtain k' b where x: "x = (k', b)"
    by (cases x)
  have "(k, p) \<notin> set (bin_events cs')"
  proof
    assume "(k, p) \<in> set (bin_events cs')"
    hence "k \<in> fst ` set cs'"
      by (force simp: bin_events_def)
    with assms(1,3) Cons x show False
      by (auto simp: bins_ok_Cons)
  qed
  with assms(2) Cons x show ?thesis
    by auto
qed (use assms in simp)

section \<open>The pointer structure represents the abstract queue\<close>

text \<open>
  \<open>bin_stack h k p b\<close>: following \<open>nextInBin\<close> from \<open>p\<close> visits exactly the events \<open>b\<close>, all with
  key \<open>k\<close>.  \<open>bin_seg h p bs q\<close>: following \<open>nextBin\<close> from \<open>p\<close> visits the tops of the bins \<open>bs\<close>
  and ends at \<open>q\<close>.
\<close>

fun bin_stack :: "event_heap \<Rightarrow> ev_key \<Rightarrow> event_ptr option \<Rightarrow> event_ptr list \<Rightarrow> bool"
  where
    "bin_stack h k p [] \<longleftrightarrow> p = None"
  | "bin_stack h k p (x # xs) \<longleftrightarrow> p = Some x \<and>
      (case h x of None \<Rightarrow> False | Some e \<Rightarrow> key_of e = k \<and> bin_stack h k (nextInBin e) xs)"

fun bin_seg :: "event_heap \<Rightarrow> event_ptr option \<Rightarrow> bins \<Rightarrow> event_ptr option \<Rightarrow> bool"
  where
    "bin_seg h p [] q \<longleftrightarrow> p = q"
  | "bin_seg h p ((k, b) # bs) q \<longleftrightarrow> b \<noteq> [] \<and> bin_stack h k p b \<and>
      (case h (hd b) of None \<Rightarrow> False | Some e \<Rightarrow> bin_seg h (nextBin e) bs q)"

lemma bin_stack_frame:
  assumes "bin_stack h k p b"
    and "\<And>x. x \<in> set b \<Longrightarrow> map_option (\<lambda>e. (key_of e, nextInBin e)) (h' x) = map_option (\<lambda>e. (key_of e, nextInBin e)) (h x)"
  shows "bin_stack h' k p b"
  using assms
proof (induction b arbitrary: p)
  case (Cons x xs)
  from Cons.prems(1) obtain e where e: "h x = Some e" "key_of e = k" "bin_stack h k (nextInBin e) xs" "p = Some x"
    by (auto split: option.splits)
  with Cons.prems(2) [of x] obtain e' where "h' x = Some e'" "key_of e' = k" "nextInBin e' = nextInBin e"
    by auto
  with e Cons.IH [OF e(3)] Cons.prems(2) show ?case
    by simp
qed simp

lemma bin_stack_alloc: "bin_stack h k p b \<Longrightarrow> x \<in> set b \<Longrightarrow> \<exists>e. h x = Some e \<and> key_of e = k"
  by (induction b arbitrary: p) (auto split: option.splits)

definition links :: "event \<Rightarrow> ev_key \<times> event_ptr option \<times> event_ptr option"
  where "links e = (key_of e, nextBin e, nextInBin e)"

lemma bin_seg_frame:
  assumes "bin_seg h p bs q"
    and "\<And>x. x \<in> bin_ptrs bs \<Longrightarrow> map_option links (h' x) = map_option links (h x)"
  shows "bin_seg h' p bs q"
  using assms
proof (induction bs arbitrary: p)
  case (Cons kb bs)
  obtain k b where kb: "kb = (k, b)"
    by (cases kb)
  have st: "bin_stack h' k p b"
  proof (rule bin_stack_frame)
    show "bin_stack h k p b"
      using Cons.prems(1) kb by simp
    show "map_option (\<lambda>e. (key_of e, nextInBin e)) (h' x) = map_option (\<lambda>e. (key_of e, nextInBin e)) (h x)"
      if "x \<in> set b" for x
      using Cons.prems(2) [of x] that kb by (cases "h x"; cases "h' x") (auto simp: links_def)
  qed
  from Cons.prems(1) kb obtain e where e: "b \<noteq> []" "h (hd b) = Some e" "bin_seg h (nextBin e) bs q"
    by (auto split: option.splits)
  hence "hd b \<in> bin_ptrs (kb # bs)"
    using kb by simp
  from Cons.prems(2) [OF this] e(2) obtain e' where "h' (hd b) = Some e'" "nextBin e' = nextBin e"
    by (auto simp: links_def)
  with st e kb Cons.IH [OF e(3)] Cons.prems(2) show ?case
    by simp
qed simp

lemma bin_seg_append: "bin_seg h p (as @ bs) q \<longleftrightarrow> (\<exists>r. bin_seg h p as r \<and> bin_seg h r bs q)"
  by (induction as arbitrary: p) (auto split: option.splits)

lemma bin_seg_Cons_D:
  assumes "bin_seg h p ((k, b) # bs) q"
  obtains e where "b \<noteq> []" "p = Some (hd b)" "h (hd b) = Some e" "key_of e = k"
    "bin_stack h k p b" "bin_seg h (nextBin e) bs q"
  using assms by (cases b) (auto split: option.splits)

lemma bin_seg_alloc: "bin_seg h p bs q \<Longrightarrow> x \<in> bin_ptrs bs \<Longrightarrow> \<exists>e. h x = Some e"
  by (induction bs arbitrary: p) (fastforce split: option.splits dest: bin_stack_alloc)+

lemma bin_seg_key: "bin_seg h p bs q \<Longrightarrow> (k, x) \<in> set (bin_events bs) \<Longrightarrow> \<exists>e. h x = Some e \<and> key_of e = k"
  by (induction bs arbitrary: p) (auto split: option.splits dest: bin_stack_alloc)

lemma bin_seg_ptr_key:
  assumes "bin_seg h p bs q" "x \<in> bin_ptrs bs" "h x = Some e"
  shows "(key_of e, x) \<in> set (bin_events bs)"
proof -
  from assms(2) obtain k where "(k, x) \<in> set (bin_events bs)"
    unfolding bin_ptrs_events by force
  with bin_seg_key [OF assms(1) this] assms(3) show ?thesis
    by auto
qed

lemma bin_seg_set_last:
  assumes seg: "bin_seg h p (as @ [(k, b)]) q" and fresh: "hd b \<notin> bin_ptrs as"
    and hb: "h (hd b) = Some e" and h': "h' = h(hd b \<mapsto> e\<lparr>nextBin := q'\<rparr>)"
  shows "bin_seg h' p (as @ [(k, b)]) q'"
proof -
  from seg obtain r where r: "bin_seg h p as r" "bin_seg h r [(k, b)] q"
    unfolding bin_seg_append by blast
  have "bin_seg h' p as r"
    by (rule bin_seg_frame [OF r(1)]) (use fresh h' in auto)
  moreover have "bin_stack h' k r b"
    by (rule bin_stack_frame [of h]) (use r(2) hb h' in auto)
  hence "bin_seg h' r [(k, b)] q'"
    using r(2) h' by simp
  ultimately show ?thesis
    unfolding bin_seg_append by blast
qed

lemma insertBefore_rep:
  assumes seg: "bin_seg h cur bs None" and ev: "h p = Some e" "p \<notin> bin_ptrs bs"
    and le: "bs = [] \<or> key_of e \<le> fst (hd bs)"
  shows "\<exists>a b. insertBefore h p cur = Some (h(p \<mapsto> e\<lparr>nextBin := a, nextInBin := b\<rparr>), p) \<and>
    bin_seg (h(p \<mapsto> e\<lparr>nextBin := a, nextInBin := b\<rparr>)) (Some p) (ins_bins (key_of e) p bs) None"
proof (cases bs)
  case Nil
  with seg ev show ?thesis
    by (auto simp: insertBefore_def)
next
  case (Cons kb bs')
  obtain k b where kb: "kb = (k, b)"
    by (cases kb)
  from seg [unfolded Cons kb] obtain ce where c: "b \<noteq> []" "cur = Some (hd b)" "h (hd b) = Some ce"
    "key_of ce = k" "bin_stack h k cur b" "bin_seg h (nextBin ce) bs' None"
    by (rule bin_seg_Cons_D)
  have fr: "bin_seg (h(p \<mapsto> x)) q ds r" if "bin_seg h q ds r" "p \<notin> bin_ptrs ds" for x q ds r
    by (rule bin_seg_frame [OF that(1)]) (use that(2) in auto)
  have st: "bin_stack (h(p \<mapsto> x)) k cur b" for x
    by (rule bin_stack_frame [OF c(5)]) (use ev(2) kb Cons in auto)
  have "hd b \<noteq> p"
    using c(1) ev(2) kb Cons by auto
  show ?thesis
  proof (cases "key_of e < k")
    case True
    with c ev seg Cons kb fr [OF seg ev(2)] show ?thesis
      by (auto simp: insertBefore_def ev_cmp)
  next
    case False
    with le Cons kb have "key_of e = k"
      by simp
    with False c ev Cons kb st fr [OF c(6)] \<open>hd b \<noteq> p\<close> show ?thesis
      by (auto simp: insertBefore_def ev_cmp)
  qed
qed

lemma find_bin_spec:
  assumes "bin_seg h cur bs None"
  shows "\<exists>as cs. bs = as @ cs \<and> (\<forall>x\<in>set as. fst x < key_of e) \<and> (cs = [] \<or> key_of e \<le> fst (hd cs)) \<and>
    find_bin h e prev cur = Some (if as = [] then prev else hd (snd (last as)),
                                  if cs = [] then None else Some (hd (snd (hd cs))))"
  using assms
proof (induction bs arbitrary: cur prev)
  case Nil
  thus ?case
    by (simp add: find_bin.simps)
next
  case (Cons kb bs)
  obtain k b where kb: "kb = (k, b)"
    by (cases kb)
  from Cons.prems [unfolded kb] obtain ce where c: "b \<noteq> []" "cur = Some (hd b)" "h (hd b) = Some ce"
    "key_of ce = k" "bin_seg h (nextBin ce) bs None"
    by (rule bin_seg_Cons_D)
  show ?case
  proof (cases "k < key_of e")
    case True
    with c have step: "find_bin h e prev cur = find_bin h e (hd b) (nextBin ce)"
      by (subst find_bin.simps) (simp add: ev_cmp)
    from Cons.IH [OF c(5), of "hd b"] obtain as cs where I: "bs = as @ cs" "\<forall>x\<in>set as. fst x < key_of e"
      "cs = [] \<or> key_of e \<le> fst (hd cs)"
      "find_bin h e (hd b) (nextBin ce) = Some (if as = [] then hd b else hd (snd (last as)),
          if cs = [] then None else Some (hd (snd (hd cs))))"
      by blast
    show ?thesis
      by (rule exI [of _ "kb # as"], rule exI [of _ cs]) (use step I True kb in simp)
  next
    case False
    hence "find_bin h e prev cur = Some (prev, cur)"
      using c by (subst find_bin.simps) (simp add: ev_cmp)
    with False c kb show ?thesis
      by (intro exI [of _ "[]"] exI [of _ "kb # bs"]) simp
  qed
qed

text \<open>
  What \<open>insert\<close> and \<open>remove\<close> share after the loop: the bins up to \<open>prev\<close> keep their place and
  \<open>prev->nextBin\<close> is set to the new rest.
\<close>

lemma relink:
  assumes seg: "bin_seg h p0 (as @ [(kp, bp)]) q" and fr: "\<And>x. x \<in> bin_ptrs (as @ [(kp, bp)]) \<Longrightarrow> h' x = h x"
    and fresh: "hd bp \<notin> bin_ptrs as" "hd bp \<notin> bin_ptrs cs" and rest: "bin_seg h' p' cs None"
  shows "\<exists>h''. set_nextBin h' (hd bp) p' = Some h'' \<and> bin_seg h'' p0 (as @ (kp, bp) # cs) None \<and>
    (\<forall>x. map_option (\<lambda>e. e\<lparr>nextBin := None\<rparr>) (h'' x) = map_option (\<lambda>e. e\<lparr>nextBin := None\<rparr>) (h' x)) \<and>
    (\<forall>x. x \<noteq> hd bp \<longrightarrow> h'' x = h' x)"
proof -
  have seg': "bin_seg h' p0 (as @ [(kp, bp)]) q"
    by (rule bin_seg_frame [OF seg]) (use fr in simp)
  hence "bp \<noteq> []"
    by (auto simp: bin_seg_append)
  hence "hd bp \<in> bin_ptrs (as @ [(kp, bp)])"
    by simp
  then obtain e where e: "h' (hd bp) = Some e"
    using bin_seg_alloc [OF seg'] by blast
  have "bin_seg (h'(hd bp \<mapsto> e\<lparr>nextBin := p'\<rparr>)) p0 (as @ [(kp, bp)]) p'"
    by (rule bin_seg_set_last [OF seg' fresh(1) e refl])
  moreover have "bin_seg (h'(hd bp \<mapsto> e\<lparr>nextBin := p'\<rparr>)) p' cs None"
    by (rule bin_seg_frame [OF rest]) (use fresh(2) in auto)
  ultimately have "bin_seg (h'(hd bp \<mapsto> e\<lparr>nextBin := p'\<rparr>)) p0 ((as @ [(kp, bp)]) @ cs) None"
    unfolding bin_seg_append by blast
  with e show ?thesis
    by (auto simp: set_nextBin_def)
qed

definition same_data :: "event_heap \<Rightarrow> event_heap \<Rightarrow> bool"
  where "same_data h h' \<longleftrightarrow> (\<forall>x. map_option (\<lambda>e. e\<lparr>nextBin := None, nextInBin := None\<rparr>) (h' x) =
    map_option (\<lambda>e. e\<lparr>nextBin := None, nextInBin := None\<rparr>) (h x))"

lemma same_data_upd:
  "h p = Some e \<Longrightarrow> e'\<lparr>nextBin := None, nextInBin := None\<rparr> = e\<lparr>nextBin := None, nextInBin := None\<rparr> \<Longrightarrow>
    same_data h (h(p \<mapsto> e'))"
  by (simp add: same_data_def)

lemma same_data_trans: "same_data h h' \<Longrightarrow> same_data h' h'' \<Longrightarrow> same_data h h''"
  by (simp add: same_data_def)

lemma same_data_refl [simp]: "same_data h h"
  by (simp add: same_data_def)

lemma same_data_set: "set_nextBin h p q = Some h' \<Longrightarrow> same_data h h'" "set_nextInBin h p q = Some h' \<Longrightarrow> same_data h h'"
  by (auto simp: set_nextBin_def set_nextInBin_def bind_eq_Some_conv intro!: same_data_upd)

lemma same_data_D:
  assumes "same_data h h'" "h p = Some e"
  shows "\<exists>a b. h' p = Some (e\<lparr>nextBin := a, nextInBin := b\<rparr>)"
proof -
  from assms obtain e' where e': "h' p = Some e'"
      "e'\<lparr>nextBin := None, nextInBin := None\<rparr> = e\<lparr>nextBin := None, nextInBin := None\<rparr>"
    unfolding same_data_def by (metis (no_types, lifting) map_option_eq_Some)
  hence "e' = e\<lparr>nextBin := nextBin e', nextInBin := nextInBin e'\<rparr>"
    by (cases e, cases e') simp
  with e' show ?thesis
    by metis
qed

lemma same_data_sym: "same_data h h' \<Longrightarrow> same_data h' h"
  by (simp add: same_data_def)

lemma same_data_mask: "same_data (h(p := x)) h' \<Longrightarrow> same_data (h(p := None)) (h'(p := None))"
  by (auto simp: same_data_def)

lemma same_data_None: "same_data h h' \<Longrightarrow> h' p = None \<longleftrightarrow> h p = None"
  by (simp add: same_data_def) (metis map_option_is_None)

lemma bins_ok_prev:
  assumes "bins_ok (pre @ (kp, bp) # cs)"
  shows "hd bp \<in> set bp" "hd bp \<notin> bin_ptrs pre" "hd bp \<notin> bin_ptrs cs"
proof -
  show hb: "hd bp \<in> set bp"
    using assms by (simp add: bins_ok_append bins_ok_Cons)
  show "hd bp \<notin> bin_ptrs pre" "hd bp \<notin> bin_ptrs cs"
    using assms hb unfolding bins_ok_append bins_ok_Cons bin_ptrs_simps by blast+
qed

lemma eq_insert_rep:
  assumes seg: "bin_seg h top0 bs None" and ok: "bins_ok bs" and ev: "h p = Some e" "p \<notin> bin_ptrs bs"
  shows "\<exists>h' t'. eq_insert h top0 p = Some (h', t') \<and> bin_seg h' t' (ins_bins (key_of e) p bs) None \<and> same_data h h'"
proof (cases bs)
  case Nil
  with seg insertBefore_rep [of h None "[]" p e] ev show ?thesis
    by (auto simp: eq_insert_def intro!: same_data_upd)
next
  case (Cons kb rest)
  obtain k b where kb: "kb = (k, b)"
    by (cases kb)
  from seg [unfolded Cons kb] obtain he where c: "b \<noteq> []" "top0 = Some (hd b)" "h (hd b) = Some he"
    "key_of he = k" "bin_seg h (nextBin he) rest None"
    by (rule bin_seg_Cons_D)
  show ?thesis
  proof (cases "key_of e \<le> k")
    case True
    with insertBefore_rep [OF seg ev] Cons kb c ev show ?thesis
      by (auto simp: eq_insert_def ev_cmp intro!: same_data_upd)
  next
    case False
    from find_bin_spec [OF c(5), of e "hd b"] obtain as cs where s: "rest = as @ cs"
      "\<forall>x\<in>set as. fst x < key_of e" "cs = [] \<or> key_of e \<le> fst (hd cs)"
      "find_bin h e (hd b) (nextBin he) = Some (if as = [] then hd b else hd (snd (last as)),
          if cs = [] then None else Some (hd (snd (hd cs))))"
      by blast
    define cur where "cur = (if cs = [] then None else Some (hd (snd (hd cs))))"
    have "((k, b) # as) \<noteq> []"
      by simp
    then obtain pre kp bp where pre: "(k, b) # as = pre @ [(kp, bp)]"
      by (metis rev_exhaust surj_pair)
    hence prev: "(if as = [] then hd b else hd (snd (last as))) = hd bp"
      by (metis last.simps last_snoc snd_conv)
    have bs: "bs = (pre @ [(kp, bp)]) @ cs"
      using Cons kb s(1) pre by simp
    from seg [unfolded this bin_seg_append [of h top0 "pre @ [(kp, bp)]"]]
    obtain r where r: "bin_seg h top0 (pre @ [(kp, bp)]) r" "bin_seg h r cs None"
      by blast
    have "r = cur"
      using r(2) by (cases cs) (auto simp: cur_def elim: bin_seg_Cons_D)
    with r(2) ev s(3) bs obtain a d where ib: "insertBefore h p cur = Some (h(p \<mapsto> e\<lparr>nextBin := a, nextInBin := d\<rparr>), p)"
      "bin_seg (h(p \<mapsto> e\<lparr>nextBin := a, nextInBin := d\<rparr>)) (Some p) (ins_bins (key_of e) p cs) None"
      using insertBefore_rep [of h cur cs p e] by auto
    let ?h1 = "h(p \<mapsto> e\<lparr>nextBin := a, nextInBin := d\<rparr>)"
    have bp: "hd bp \<notin> bin_ptrs pre" "hd bp \<notin> bin_ptrs cs" "hd bp \<noteq> p"
      using bins_ok_prev [of pre kp bp cs] ok ev(2) bs by auto
    obtain h2 where h2: "set_nextBin ?h1 (hd bp) (Some p) = Some h2"
      "bin_seg h2 top0 (pre @ (kp, bp) # ins_bins (key_of e) p cs) None"
      using relink [OF r(1), of ?h1 "ins_bins (key_of e) p cs" "Some p"] ib(2) bp ev(2) bs by fastforce
    have keys: "\<forall>x\<in>set (pre @ [(kp, bp)]). fst x < key_of e"
      unfolding pre [symmetric] using s(2) False by auto
    have "ins_bins (key_of e) p bs = pre @ (kp, bp) # ins_bins (key_of e) p cs"
      unfolding bs using ins_bins_append [OF keys] by simp
    moreover have "eq_insert h top0 p = Some (h2, top0)"
      using False c ev ib(1) h2(1) s(4) prev by (simp add: eq_insert_def ev_cmp cur_def)
    moreover have "same_data h h2"
      by (rule same_data_trans [OF same_data_upd same_data_set(1) [OF h2(1)]]) (use ev(1) in simp_all)
    ultimately show ?thesis
      using h2(2) by auto
  qed
qed

lemma find_item_spec:
  assumes "bin_stack h k nxt b" "p \<in> set b"
  shows "\<exists>xs ys. b = xs @ p # ys \<and> p \<notin> set xs \<and> find_item h p cur nxt = Some (if xs = [] then cur else last xs)"
  using assms
proof (induction b arbitrary: cur nxt)
  case (Cons x b)
  from Cons.prems obtain e where e: "nxt = Some x" "h x = Some e" "bin_stack h k (nextInBin e) b"
    by (auto split: option.splits)
  show ?case
  proof (cases "x = p")
    case True
    with e show ?thesis
      by (intro exI [of _ "[]"] exI [of _ b]) (simp add: find_item.simps)
  next
    case False
    with e have "find_item h p cur nxt = find_item h p x (nextInBin e)"
      by (subst find_item.simps) simp
    moreover from Cons.IH [OF e(3), of x] Cons.prems(2) False obtain xs ys
      where "b = xs @ p # ys" "p \<notin> set xs" "find_item h p x (nextInBin e) = Some (if xs = [] then x else last xs)"
      by auto
    ultimately show ?thesis
      using False by (intro exI [of _ "x # xs"] exI [of _ ys]) simp
  qed
qed simp

lemma bin_stack_unlink:
  assumes "bin_stack h k q (xs @ c # p # ys)" "distinct (xs @ c # p # ys)" "h c = Some ce" "h p = Some pe"
  shows "bin_stack (h(c \<mapsto> ce\<lparr>nextInBin := nextInBin pe\<rparr>)) k q (xs @ c # ys)"
  using assms
proof (induction xs arbitrary: q)
  case Nil
  hence "bin_stack h k (nextInBin pe) ys" "key_of ce = k"
    by auto
  moreover have "bin_stack (h(c \<mapsto> ce\<lparr>nextInBin := nextInBin pe\<rparr>)) k (nextInBin pe) ys"
    by (rule bin_stack_frame [OF calculation(1)]) (use Nil in auto)
  ultimately show ?case
    using Nil by (simp del: fun_upd_apply add: fun_upd_same)
qed (auto split: option.splits)

lemma removeItem_rep:
  assumes seg: "bin_seg h (Some tp) ((k, b) # bs) None" and ok: "bins_ok ((k, b) # bs)" and p: "p \<in> set b"
  shows "\<exists>h' p'. removeItem h p tp = Some (h', p') \<and> bin_seg h' p' (rem_bins k p ((k, b) # bs)) None \<and>
    same_data h h' \<and> (\<forall>x. x \<notin> set b \<longrightarrow> h' x = h x)"
proof -
  from seg obtain te where c: "b \<noteq> []" "tp = hd b" "h tp = Some te" "key_of te = k"
    "bin_stack h k (Some tp) b" "bin_seg h (nextBin te) bs None"
    by (rule bin_seg_Cons_D) auto
  then obtain b' where b: "b = tp # b'"
    by (cases b) auto
  have st: "bin_stack h k (nextInBin te) b'"
    using c(3,5) b by simp
  have d: "distinct b" "set b \<inter> bin_ptrs bs = {}"
    using ok by (simp_all add: bins_ok_Cons)
  show ?thesis
  proof (cases "p = tp")
    case True
    show ?thesis
    proof (cases b')
      case Nil
      with True b c(3,6) st show ?thesis
        by (auto simp: removeItem_def)
    next
      case (Cons n b'')
      with st obtain ne where n: "nextInBin te = Some n" "h n = Some ne" "key_of ne = k"
        by (auto split: option.splits)
      let ?h = "h(n \<mapsto> ne\<lparr>nextBin := nextBin te\<rparr>)"
      have "bin_stack ?h k (Some n) b'"
        by (rule bin_stack_frame [of h]) (use st n in auto)
      moreover have "bin_seg ?h (nextBin te) bs None"
        by (rule bin_seg_frame [OF c(6)]) (use d(2) b Cons in auto)
      ultimately show ?thesis
        using True b c(3) n Cons same_data_upd [of h n ne "ne\<lparr>nextBin := nextBin te\<rparr>"]
        by (simp add: removeItem_def set_nextBin_def del: fun_upd_apply add: fun_upd_same) simp
    qed
  next
    case False
    with p b have "p \<in> set b'"
      by simp
    from find_item_spec [OF st this, of tp] obtain xs ys where x: "b' = xs @ p # ys" "p \<notin> set xs"
      "find_item h p tp (nextInBin te) = Some (if xs = [] then tp else last xs)"
      by blast
    obtain zs z where zs: "tp # xs = zs @ [z]"
      by (metis rev_exhaust list.distinct(1))
    hence z: "(if xs = [] then tp else last xs) = z"
      by (metis last.simps last_snoc)
    have bz: "b = zs @ z # p # ys"
      using b x(1) zs by simp
    obtain ze pe where e: "h z = Some ze" "h p = Some pe"
      using bin_stack_alloc [OF c(5), of z] bin_stack_alloc [OF c(5), of p] bz by auto
    let ?h = "h(z \<mapsto> ze\<lparr>nextInBin := nextInBin pe\<rparr>)"
    have rm: "remove1 p b = zs @ z # ys"
      using d(1) unfolding bz by (simp add: remove1_append)
    have "bin_stack ?h k (Some tp) (remove1 p b)"
      unfolding rm by (rule bin_stack_unlink) (use c(5) d(1) e bz in auto)
    moreover have "bin_seg ?h (nextBin te) bs None"
      by (rule bin_seg_frame [OF c(6)]) (use d(2) bz in auto)
    moreover have "remove1 p b \<noteq> []" "hd (remove1 p b) = tp"
      using rm bz c(2) by (auto simp: hd_append)
    moreover obtain te' where "?h tp = Some te'" "nextBin te' = nextBin te"
      using c(3) e(1) by (cases "z = tp") auto
    ultimately have "bin_seg ?h (Some tp) (rem_bins k p ((k, b) # bs)) None"
      by (simp del: fun_upd_apply)
    moreover have "removeItem h p tp = Some (?h, Some tp)"
      using False c(3) x(3) z e by (simp add: removeItem_def set_nextInBin_def)
    moreover have "\<forall>y. y \<notin> set b \<longrightarrow> ?h y = h y"
      using bz by auto
    ultimately show ?thesis
      using same_data_upd [of h z ze "ze\<lparr>nextInBin := nextInBin pe\<rparr>"] e(1) by fastforce
  qed
qed

lemma eq_remove_rep:
  assumes seg: "bin_seg h top0 bs None" and ok: "bins_ok bs" and ev: "h p = Some e" "p \<in> bin_ptrs bs"
    and q: "ev_queue e = Some this"
  shows "\<exists>h' t'. eq_remove this h top0 p = Some (h', t') \<and> bin_seg h' t' (rem_bins (key_of e) p bs) None \<and> same_data h h'"
proof (cases bs)
  case (Cons kb rest)
  obtain k b where kb: "kb = (k, b)"
    by (cases kb)
  from seg [unfolded Cons kb] obtain he where c: "b \<noteq> []" "top0 = Some (hd b)" "h (hd b) = Some he"
    "key_of he = k" "bin_seg h (nextBin he) rest None"
    by (rule bin_seg_Cons_D)
  have pe: "(key_of e, p) \<in> set (bin_events bs)"
    by (rule bin_seg_ptr_key [OF seg ev(2,1)])
  show ?thesis
  proof (cases "key_of e = k")
    case True
    have "p \<in> set b"
    proof (rule ccontr)
      assume "p \<notin> set b"
      with pe Cons kb have "(k, p) \<in> set (bin_events rest)"
        using True by auto
      hence "k \<in> fst ` set rest"
        by (force simp: bin_events_def)
      with ok Cons kb show False
        by (auto simp: bins_ok_Cons)
    qed
    with True removeItem_rep [of h "hd b" k b rest p] seg ok Cons kb c ev q show ?thesis
      by (auto simp: eq_remove_def ev_cmp)
  next
    case False
    from find_bin_spec [OF c(5), of e "hd b"] obtain as cs where s: "rest = as @ cs"
      "\<forall>x\<in>set as. fst x < key_of e" "cs = [] \<or> key_of e \<le> fst (hd cs)"
      "find_bin h e (hd b) (nextBin he) = Some (if as = [] then hd b else hd (snd (last as)),
          if cs = [] then None else Some (hd (snd (hd cs))))"
      by blast
    have "((k, b) # as) \<noteq> []"
      by simp
    then obtain pre kp bp where pre: "(k, b) # as = pre @ [(kp, bp)]"
      by (metis rev_exhaust surj_pair)
    hence prev: "(if as = [] then hd b else hd (snd (last as))) = hd bp"
      by (metis last.simps last_snoc snd_conv)
    have bs: "bs = (pre @ [(kp, bp)]) @ cs"
      using Cons kb s(1) pre by simp
    have k: "k < key_of e"
      using pe Cons kb ok False by (force simp: bins_ok_Cons bin_events_def)
    have keys: "\<forall>x\<in>set (pre @ [(kp, bp)]). fst x < key_of e"
      unfolding pre [symmetric] using s(2) k by auto
    hence pcs: "(key_of e, p) \<in> set (bin_events cs)"
      using pe unfolding bs by (force simp: bin_events_def)
    have okcs: "bins_ok cs"
      using ok unfolding bs bins_ok_append by blast
    have "key_of e \<le> fst (hd cs)"
      using s(3) pcs by auto
    from bin_events_head [OF okcs pcs this] obtain b2 cs' where cs: "cs = (key_of e, b2) # cs'" "p \<in> set b2"
      by blast
    from seg [unfolded bs bin_seg_append [of h top0 "pre @ [(kp, bp)]"]]
    obtain r where r: "bin_seg h top0 (pre @ [(kp, bp)]) r" "bin_seg h r cs None"
      by blast
    from r(2) [unfolded cs(1)] obtain ce where ce: "r = Some (hd b2)" "h (hd b2) = Some ce" "key_of ce = key_of e"
      by (rule bin_seg_Cons_D)
    obtain h1 p1 where h1: "removeItem h p (hd b2) = Some (h1, p1)" "bin_seg h1 p1 (rem_bins (key_of e) p cs) None"
      "same_data h h1" "\<forall>x. x \<notin> set b2 \<longrightarrow> h1 x = h x"
      using removeItem_rep [of h "hd b2" "key_of e" b2 cs' p] r(2) ce(1) okcs cs by auto
    have okp: "bins_ok (pre @ (kp, bp) # cs)"
      using ok bs by simp
    have fr: "h1 x = h x" if "x \<in> bin_ptrs (pre @ [(kp, bp)])" for x
    proof -
      have "bin_ptrs (pre @ [(kp, bp)]) \<inter> bin_ptrs cs = {}"
        using ok unfolding bs bins_ok_append [of "pre @ [(kp, bp)]" cs] by blast
      with that cs(1) have "x \<notin> set b2"
        by auto
      thus ?thesis
        using h1(4) by blast
    qed
    have "hd bp \<notin> bin_ptrs (rem_bins (key_of e) p cs)"
      using bins_ok_prev [OF okp] rem_bins_notin(1) [OF okcs pcs] by simp
    with relink [OF r(1) fr _ _ h1(2)] bins_ok_prev [OF okp]
    obtain h2 where h2: "set_nextBin h1 (hd bp) p1 = Some h2"
      "bin_seg h2 top0 (pre @ (kp, bp) # rem_bins (key_of e) p cs) None"
      by auto
    have "rem_bins (key_of e) p bs = pre @ (kp, bp) # rem_bins (key_of e) p cs"
      unfolding bs using rem_bins_append [OF keys] by simp
    moreover have "eq_remove this h top0 p = Some (h2, top0)"
      using False c ev q h1(1) h2(1) s(4) prev cs(1) ce by (simp add: eq_remove_def ev_cmp)
    moreover have "same_data h h2"
      using h1(3) same_data_set(1) [OF h2(1)] by (rule same_data_trans)
    ultimately show ?thesis
      using h2(2) by auto
  qed
qed (use ev in simp)

section \<open>Operations on the queue state\<close>

lemma isSet_bit:
  "isSet f Squashed \<longleftrightarrow> bit f 0" "isSet f Scheduled \<longleftrightarrow> bit f 1" "isSet f Managed \<longleftrightarrow> bit f 2"
proof -
  show "isSet f Squashed \<longleftrightarrow> bit f 0" "isSet f Scheduled \<longleftrightarrow> bit f 1" "isSet f Managed \<longleftrightarrow> bit f 2"
    using bit_iff_and_push_bit_not_eq_0 [of f 0] bit_iff_and_push_bit_not_eq_0 [of f 1]
      bit_iff_and_push_bit_not_eq_0 [of f 2]
    by (simp_all add: flag_ops flag_consts)
qed

lemma flag_bits [simp]:
  "isSet (flags_set f Scheduled) Scheduled"
  "\<not> isSet (flags_clear f Scheduled) Scheduled"
  "isSet (flags_clear f Squashed) Scheduled \<longleftrightarrow> isSet f Scheduled"
  "isSet (flags_set f Squashed) Scheduled \<longleftrightarrow> isSet f Scheduled"
  "isSet (flags_clear f Scheduled) Squashed \<longleftrightarrow> isSet f Squashed"
proof -
  have b: "bit Scheduled 1" "\<not> bit Scheduled 0" "bit Squashed 0" "\<not> bit Squashed 1"
    by (simp_all add: flag_consts bit_iff_odd)
  show "isSet (flags_set f Scheduled) Scheduled"
    "\<not> isSet (flags_clear f Scheduled) Scheduled"
    "isSet (flags_clear f Squashed) Scheduled \<longleftrightarrow> isSet f Scheduled"
    "isSet (flags_set f Squashed) Scheduled \<longleftrightarrow> isSet f Scheduled"
    "isSet (flags_clear f Scheduled) Squashed \<longleftrightarrow> isSet f Squashed"
    using b unfolding isSet_bit flags_set_def flags_clear_def bit_and_iff bit_or_iff bit_not_iff_eq
    by simp_all
qed

definition eq_rep :: "eqstate \<Rightarrow> bins \<Rightarrow> bool"
  where "eq_rep s bs \<longleftrightarrow> bin_seg (heap s) (head s) bs None \<and> bins_ok bs"

definition on_queue :: "eqstate \<Rightarrow> event_ptr \<Rightarrow> bool"
  where "on_queue s p \<longleftrightarrow>
    (case heap s p of None \<Rightarrow> False | Some e \<Rightarrow> scheduled e \<and> ev_queue e = Some (this_queue s))"

text \<open>
  The invariant: the pointers represent the bins, and an event carries the flag \<open>Scheduled\<close> for
  this queue exactly when it is in a bin or in the queue of asynchronous insertions.
\<close>

definition eq_inv :: "eqstate \<Rightarrow> bins \<Rightarrow> bool"
  where "eq_inv s bs \<longleftrightarrow> eq_rep s bs \<and> distinct (async_queue s) \<and> set (async_queue s) \<inter> bin_ptrs bs = {} \<and>
    (\<forall>p. on_queue s p \<longleftrightarrow> p \<in> bin_ptrs bs \<union> set (async_queue s))"

lemma eq_rep_upd:
  assumes "eq_rep s bs" "\<And>x. x \<in> bin_ptrs bs \<Longrightarrow> map_option links (h x) = map_option links (heap s x)"
    "head s' = head s" "heap s' = h"
  shows "eq_rep s' bs"
  using assms bin_seg_frame [of "heap s" "head s" bs None h] by (simp add: eq_rep_def)

lemma links_flags [simp]: "links (e\<lparr>ev_flags := f\<rparr>) = links e"
  by (simp add: links_def)

lemma scheduled_links [simp]: "scheduled (e\<lparr>nextBin := a\<rparr>) = scheduled e" "scheduled (e\<lparr>nextInBin := b\<rparr>) = scheduled e"
  by (simp_all add: scheduled_def)

lemma same_data_on_queue:
  assumes "same_data (heap s) (heap s')" "this_queue s' = this_queue s"
  shows "on_queue s' p = on_queue s p"
proof (cases "heap s p")
  case None
  with same_data_None [OF assms(1), of p] show ?thesis
    by (simp add: on_queue_def)
next
  case (Some e)
  with same_data_D [OF assms(1) Some] assms(2) show ?thesis
    by (auto simp: on_queue_def)
qed

lemma insert_ev_rep:
  assumes "eq_rep s bs" "heap s p = Some e" "p \<notin> bin_ptrs bs"
  shows "\<exists>h' t'. insert_ev p s = Some (s\<lparr>heap := h', head := t'\<rparr>) \<and>
    eq_rep (s\<lparr>heap := h', head := t'\<rparr>) (ins_bins (key_of e) p bs) \<and> same_data (heap s) h'"
  using assms eq_insert_rep [of "heap s" "head s" bs p e] ins_bins_ok [of bs p "key_of e"]
  unfolding eq_rep_def insert_ev_def by fastforce

lemma remove_ev_rep:
  assumes "eq_rep s bs" "heap s p = Some e" "p \<in> bin_ptrs bs" "ev_queue e = Some (this_queue s)"
  shows "\<exists>h' t'. remove_ev p s = Some (s\<lparr>heap := h', head := t'\<rparr>) \<and>
    eq_rep (s\<lparr>heap := h', head := t'\<rparr>) (rem_bins (key_of e) p bs) \<and> same_data (heap s) h' \<and>
    bin_ptrs (rem_bins (key_of e) p bs) = bin_ptrs bs - {p}"
proof -
  have seg: "bin_seg (heap s) (head s) bs None" and ok: "bins_ok bs"
    using assms(1) by (simp_all add: eq_rep_def)
  have k: "(key_of e, p) \<in> set (bin_events bs)"
    by (rule bin_seg_ptr_key [OF seg assms(3,2)])
  from eq_remove_rep [OF seg ok assms(2,3,4)] rem_bins_notin [OF ok k] show ?thesis
    unfolding eq_rep_def remove_ev_def by fastforce
qed

lemma set_flags_of_Some: "heap s p = Some e \<Longrightarrow>
  set_flags_of f p s = Some (s\<lparr>heap := (heap s)(p \<mapsto> e\<lparr>ev_flags := f (ev_flags e)\<rparr>)\<rparr>)"
  by (simp add: set_flags_of_def)

lemma schedule_cases:
  assumes inv: "eq_inv s bs" and e: "heap s p = Some e"
    and g: "curTick s \<le> t" "\<not> scheduled e" "initialized e"
  shows "\<exists>s'. schedule p t global s = Some s' \<and> curTick s' = curTick s \<and> this_queue s' = this_queue s \<and>
    inParallelMode s' = inParallelMode s \<and> same_data ((heap s)(p := None)) ((heap s')(p := None)) \<and>
    (\<exists>e'. heap s' p = Some e' \<and> ev_flags e' = flags_set (ev_flags e) Scheduled \<and>
      key_of e' = (t, sint (ev_priority e)) \<and> ev_queue e' = Some (this_queue s)) \<and>
    (if inParallelMode s \<and> (this_queue s \<noteq> curEventQueue s \<or> global)
     then eq_inv s' bs \<and> async_queue s' = async_queue s @ [p]
     else eq_inv s' (ins_bins (t, sint (ev_priority e)) p bs) \<and> async_queue s' = async_queue s)"
proof -
  let ?e = "setWhen t (this_queue s) e"
  let ?s1 = "s\<lparr>heap := (heap s)(p \<mapsto> ?e)\<rparr>"
  have fresh: "p \<notin> bin_ptrs bs" "p \<notin> set (async_queue s)"
    using inv e g(2) unfolding eq_inv_def on_queue_def by (metis (no_types, lifting) Un_iff option.simps(5))+
  have rep1: "eq_rep ?s1 bs"
    by (rule eq_rep_upd [of s]) (use inv fresh in \<open>auto simp: eq_inv_def\<close>)
  have key: "key_of ?e = (t, sint (ev_priority e))"
    by (simp add: key_of_def setWhen_def)
  show ?thesis
  proof (cases "inParallelMode s \<and> (this_queue s \<noteq> curEventQueue s \<or> global)")
    case True
    let ?s3 = "?s1\<lparr>async_queue := async_queue s @ [p],
      heap := (heap ?s1)(p \<mapsto> ?e\<lparr>ev_flags := flags_set (ev_flags ?e) Scheduled\<rparr>)\<rparr>"
    have "schedule p t global s = Some ?s3"
      using True e g by (simp add: schedule_def set_flags_of_def asyncInsert_def acquire_def)
    moreover have "eq_rep ?s3 bs"
      by (rule eq_rep_upd [OF rep1]) (use fresh in auto)
    moreover have "on_queue ?s3 q \<longleftrightarrow> (if q = p then True else on_queue s q)" for q
      by (simp add: on_queue_def scheduled_def setWhen_def split: option.split)
    ultimately show ?thesis
      using True inv fresh key by (auto simp: eq_inv_def same_data_def setWhen_def)
  next
    case False
    from insert_ev_rep [OF rep1, of p ?e] fresh obtain h' t' where i: "insert_ev p ?s1 = Some (?s1\<lparr>heap := h', head := t'\<rparr>)"
      "eq_rep (?s1\<lparr>heap := h', head := t'\<rparr>) (ins_bins (key_of ?e) p bs)" "same_data (heap ?s1) h'"
      by auto
    let ?s2 = "?s1\<lparr>heap := h', head := t'\<rparr>"
    from same_data_D [OF i(3), of p ?e] obtain a b where h': "h' p = Some (?e\<lparr>nextBin := a, nextInBin := b\<rparr>)"
      by auto
    let ?f = "flags_set (ev_flags e) Scheduled"
    let ?s3 = "?s2\<lparr>heap := h'(p \<mapsto> ?e\<lparr>nextBin := a, nextInBin := b, ev_flags := ?f\<rparr>)\<rparr>"
    have "schedule p t global s = Some ?s3"
      using False e g i(1) h' by (auto simp: schedule_def set_flags_of_def acquire_def setWhen_def)
    moreover have "eq_rep ?s3 (ins_bins (key_of ?e) p bs)"
      by (rule eq_rep_upd [OF i(2)]) (use h' in auto)
    moreover have "on_queue ?s3 q \<longleftrightarrow> (if q = p then True else on_queue s q)" for q
      using same_data_on_queue [of ?s1 ?s2 q] i(3)
      by (auto simp: on_queue_def scheduled_def setWhen_def split: option.split)
    ultimately show ?thesis
      using False inv fresh key same_data_mask [of "heap s" p "Some ?e" h'] i(3) by (auto simp: eq_inv_def setWhen_def)
  qed
qed

lemma find_item_None: "bin_stack h k nxt b \<Longrightarrow> p \<notin> set b \<Longrightarrow> find_item h p cur nxt = None"
proof (induction b arbitrary: cur nxt)
  case Nil
  thus ?case
    by (simp add: find_item.simps)
next
  case (Cons x b)
  thus ?case
    by (subst find_item.simps) (auto split: option.splits)
qed

lemma removeItem_None:
  assumes "bin_seg h (Some tp) ((k, b) # bs) None" "p \<notin> set b"
  shows "removeItem h p tp = None"
proof -
  from assms obtain te where c: "tp \<in> set b" "h tp = Some te" "bin_stack h k (nextInBin te) (tl b)"
    by (cases b) (auto split: option.splits)
  with assms(2) have "p \<noteq> tp" "p \<notin> set (tl b)"
    by (auto dest: list.set_sel(2) [rotated])
  with c find_item_None [OF c(3), of p tp] show ?thesis
    by (simp add: removeItem_def)
qed

text \<open>
  Removing an event that is in no bin stops: the search ends with \<open>panic("event not found!")\<close>.
\<close>

lemma eq_remove_None:
  assumes seg: "bin_seg h top0 bs None" and p: "p \<notin> bin_ptrs bs"
  shows "eq_remove this h top0 p = None"
proof (cases bs)
  case Nil
  with seg show ?thesis
    by (simp add: eq_remove_def)
next
  case (Cons kb rest)
  obtain k b where kb: "kb = (k, b)"
    by (cases kb)
  from seg [unfolded Cons kb] obtain he where c: "top0 = Some (hd b)" "h (hd b) = Some he"
    "bin_seg h (nextBin he) rest None"
    by (rule bin_seg_Cons_D)
  have hd: "removeItem h p (hd b) = None"
    using removeItem_None [of h "hd b" k b rest p] seg c(1) Cons kb p by simp
  have "\<exists>prev cur. find_bin h e (hd b) (nextBin he) = Some (prev, cur) \<and>
      (\<forall>x. cur = Some x \<longrightarrow> removeItem h p x = None)" for e
  proof -
    from find_bin_spec [OF c(3), of e "hd b"] obtain as cs prev where s: "rest = as @ cs"
      "find_bin h e (hd b) (nextBin he) = Some (prev, if cs = [] then None else Some (hd (snd (hd cs))))"
      by blast
    from c(3) [unfolded s(1) bin_seg_append] obtain r where r: "bin_seg h r cs None"
      by blast
    have "removeItem h p (hd (snd (hd cs))) = None" if "cs \<noteq> []"
    proof -
      from that obtain k2 b2 cs' where cs: "cs = (k2, b2) # cs'"
        by (metis list.exhaust surj_pair)
      from r [unfolded this] have "r = Some (hd b2)"
        by (rule bin_seg_Cons_D)
      with r removeItem_None [of h "hd b2" k2 b2 cs' p] cs p Cons s(1) kb show ?thesis
        by simp
    qed
    with s(2) show ?thesis
      by auto
  qed
  note fb = this
  show ?thesis
  proof (cases "h p")
    case (Some e)
    from fb [of e] obtain prev cur where f: "find_bin h e (hd b) (nextBin he) = Some (prev, cur)"
      "\<forall>x. cur = Some x \<longrightarrow> removeItem h p x = None"
      by blast
    have "cur = Some x \<Longrightarrow> removeItem h p x = None" for x
      using f(2) by blast
    with Some hd c f(1) show ?thesis
      by (cases cur; cases "ev_queue e = Some this") (auto simp: eq_remove_def bind_eq_None_conv)
  qed (simp add: eq_remove_def c(1))
qed

lemma on_queue_Some: "on_queue s p \<longleftrightarrow> (\<exists>e. heap s p = Some e \<and> scheduled e \<and> ev_queue e = Some (this_queue s))"
  by (auto simp: on_queue_def split: option.splits)

lemma eq_inv_bin_D:
  assumes "eq_inv s bs" "p \<in> bin_ptrs bs"
  shows "\<exists>e. heap s p = Some e \<and> scheduled e \<and> ev_queue e = Some (this_queue s) \<and> (key_of e, p) \<in> set (bin_events bs)"
proof -
  from assms obtain e where e: "heap s p = Some e" "scheduled e" "ev_queue e = Some (this_queue s)"
    unfolding eq_inv_def on_queue_Some by blast
  moreover have "bin_seg (heap s) (head s) bs None"
    using assms(1) by (simp add: eq_inv_def eq_rep_def)
  from bin_seg_ptr_key [OF this assms(2) e(1)] have "(key_of e, p) \<in> set (bin_events bs)" .
  ultimately show ?thesis
    by blast
qed

lemma release_inv:
  assumes "eq_inv s bs" "heap s p = Some e" "\<not> scheduled e"
  shows "\<exists>s'. release p s = Some s' \<and> eq_inv s' bs \<and> curTick s' = curTick s \<and> this_queue s' = this_queue s \<and>
    async_queue s' = async_queue s"
proof (cases "isManaged e")
  case True
  let ?s = "s\<lparr>heap := (heap s)(p := None)\<rparr>"
  have "\<not> on_queue s p"
    using assms by (simp add: on_queue_def)
  hence p: "p \<notin> bin_ptrs bs \<union> set (async_queue s)"
    using assms(1) unfolding eq_inv_def by blast
  have "eq_rep ?s bs"
    by (rule eq_rep_upd [of s]) (use assms p in \<open>auto simp: eq_inv_def\<close>)
  moreover have "on_queue ?s q \<longleftrightarrow> q \<noteq> p \<and> on_queue s q" for q
    by (simp add: on_queue_def split: option.split)
  ultimately have "eq_inv ?s bs"
    using assms(1) p by (auto simp: eq_inv_def)
  with True assms show ?thesis
    by (auto simp: release_def)
next
  case False
  with assms show ?thesis
    by (auto simp: release_def)
qed

lemma deschedule_cases:
  assumes inv: "eq_inv s bs" and e: "heap s p = Some e" "p \<in> bin_ptrs bs"
    and g: "initialized e" "\<not> inParallelMode s \<or> this_queue s = curEventQueue s"
  shows "\<exists>s'. deschedule p s = Some s' \<and> eq_inv s' (rem_bins (key_of e) p bs) \<and>
    curTick s' = curTick s \<and> this_queue s' = this_queue s \<and> async_queue s' = async_queue s"
proof -
  have ev: "scheduled e" "ev_queue e = Some (this_queue s)"
    using eq_inv_bin_D [OF inv e(2)] e(1) by auto
  have rep: "eq_rep s bs"
    using inv by (simp add: eq_inv_def)
  from remove_ev_rep [OF rep e ev(2)] obtain h' t' where r: "remove_ev p s = Some (s\<lparr>heap := h', head := t'\<rparr>)"
    "eq_rep (s\<lparr>heap := h', head := t'\<rparr>) (rem_bins (key_of e) p bs)" "same_data (heap s) h'"
    "bin_ptrs (rem_bins (key_of e) p bs) = bin_ptrs bs - {p}"
    by blast
  let ?s2 = "s\<lparr>heap := h', head := t'\<rparr>"
  from same_data_D [OF r(3) e(1)] obtain a b where h': "h' p = Some (e\<lparr>nextBin := a, nextInBin := b\<rparr>)"
    by auto
  let ?e3 = "e\<lparr>nextBin := a, nextInBin := b, ev_flags := flags_clear (flags_clear (ev_flags e) Squashed) Scheduled\<rparr>"
  let ?s3 = "?s2\<lparr>heap := h'(p \<mapsto> ?e3)\<rparr>"
  have d: "deschedule p s = release p ?s3"
    using e ev g r(1) h' by (auto simp: deschedule_def set_flags_of_def)
  have "eq_rep ?s3 (rem_bins (key_of e) p bs)"
    by (rule eq_rep_upd [OF r(2)]) (use h' in auto)
  moreover have "on_queue ?s3 q \<longleftrightarrow> q \<noteq> p \<and> on_queue s q" for q
    using same_data_on_queue [of s ?s2 q] r(3) by (auto simp: on_queue_def scheduled_def split: option.split)
  ultimately have "eq_inv ?s3 (rem_bins (key_of e) p bs)"
    using inv r(4) e(2) by (auto simp: eq_inv_def)
  moreover have "heap ?s3 p = Some ?e3" "\<not> scheduled ?e3"
    by (simp_all add: scheduled_def)
  ultimately have "\<exists>s'. release p ?s3 = Some s' \<and> eq_inv s' (rem_bins (key_of e) p bs) \<and> curTick s' = curTick ?s3 \<and>
      this_queue s' = this_queue ?s3 \<and> async_queue s' = async_queue ?s3"
    by (rule release_inv)
  thus ?thesis
    unfolding d by simp
qed

lemma reschedule_cases:
  assumes inv: "eq_inv s bs" and e: "heap s p = Some e" and q: "scheduled e \<Longrightarrow> p \<in> bin_ptrs bs"
    and g: "curTick s \<le> t" "always \<or> scheduled e" "initialized e" "\<not> inParallelMode s \<or> this_queue s = curEventQueue s"
  shows "\<exists>s'. reschedule p t always s = Some s' \<and>
    eq_inv s' (ins_bins (t, sint (ev_priority e)) p (if scheduled e then rem_bins (key_of e) p bs else bs)) \<and>
    curTick s' = curTick s \<and> this_queue s' = this_queue s \<and> async_queue s' = async_queue s"
proof -
  let ?bs = "if scheduled e then rem_bins (key_of e) p bs else bs"
  have rep: "eq_rep s bs"
    using inv by (simp add: eq_inv_def)
  have "\<exists>h1 t1. (if scheduled e then remove_ev p s else acquire p s) = Some (s\<lparr>heap := h1, head := t1\<rparr>) \<and>
      eq_rep (s\<lparr>heap := h1, head := t1\<rparr>) ?bs \<and> same_data (heap s) h1 \<and> bin_ptrs ?bs = bin_ptrs bs - {p}"
  proof (cases "scheduled e")
    case True
    with eq_inv_bin_D [OF inv q] e have "ev_queue e = Some (this_queue s)"
      by auto
    from remove_ev_rep [OF rep e q [OF True] this] True show ?thesis
      by auto
  next
    case False
    hence "p \<notin> bin_ptrs bs"
      using eq_inv_bin_D [OF inv, of p] e by auto
    moreover have "s\<lparr>heap := heap s, head := head s\<rparr> = s"
      by simp
    ultimately show ?thesis
      using False e rep by (intro exI [of _ "heap s"] exI [of _ "head s"]) (simp add: acquire_def)
  qed
  then obtain h1 t1 where r: "(if scheduled e then remove_ev p s else acquire p s) = Some (s\<lparr>heap := h1, head := t1\<rparr>)"
      "eq_rep (s\<lparr>heap := h1, head := t1\<rparr>) ?bs" "same_data (heap s) h1" "bin_ptrs ?bs = bin_ptrs bs - {p}"
    by blast
  from same_data_D [OF r(3) e(1)] obtain a b where h1: "h1 p = Some (e\<lparr>nextBin := a, nextInBin := b\<rparr>)"
    by auto
  let ?e2 = "setWhen t (this_queue s) (e\<lparr>nextBin := a, nextInBin := b\<rparr>)"
  let ?s2 = "(s\<lparr>heap := h1, head := t1\<rparr>)\<lparr>heap := h1(p \<mapsto> ?e2)\<rparr>"
  have rep2: "eq_rep ?s2 ?bs"
    by (rule eq_rep_upd [OF r(2)]) (use r(4) in auto)
  have key: "key_of ?e2 = (t, sint (ev_priority e))"
    by (simp add: key_of_def setWhen_def)
  from insert_ev_rep [OF rep2, of p ?e2] r(4) obtain h3 t3 where i: "insert_ev p ?s2 = Some (?s2\<lparr>heap := h3, head := t3\<rparr>)"
    "eq_rep (?s2\<lparr>heap := h3, head := t3\<rparr>) (ins_bins (key_of ?e2) p ?bs)" "same_data (heap ?s2) h3"
    by auto
  let ?s3 = "?s2\<lparr>heap := h3, head := t3\<rparr>"
  from same_data_D [OF i(3), of p ?e2] obtain c d where h3: "h3 p = Some (?e2\<lparr>nextBin := c, nextInBin := d\<rparr>)"
    by auto
  let ?e4 = "?e2\<lparr>nextBin := c, nextInBin := d, ev_flags := flags_set (flags_clear (ev_flags e) Squashed) Scheduled\<rparr>"
  let ?s4 = "?s3\<lparr>heap := h3(p \<mapsto> ?e4)\<rparr>"
  have "reschedule p t always s = Some ?s4"
    using e g r(1) h1 i(1) h3 by (auto simp: reschedule_def set_flags_of_def setWhen_def)
  moreover have "eq_rep ?s4 (ins_bins (key_of ?e2) p ?bs)"
    by (rule eq_rep_upd [OF i(2)]) (use h3 in auto)
  moreover have on: "on_queue ?s4 x \<longleftrightarrow> x = p \<or> on_queue s x" for x
  proof (cases "x = p")
    case False
    have "on_queue ?s4 x = on_queue ?s3 x" "on_queue ?s2 x = on_queue (s\<lparr>heap := h1, head := t1\<rparr>) x"
      using False by (simp_all add: on_queue_Some)
    moreover have "on_queue ?s3 x = on_queue ?s2 x" "on_queue (s\<lparr>heap := h1, head := t1\<rparr>) x = on_queue s x"
      using same_data_on_queue [of ?s2 ?s3 x] same_data_on_queue [of s "s\<lparr>heap := h1, head := t1\<rparr>" x] i(3) r(3)
      by simp_all
    ultimately show ?thesis
      using False by simp
  qed (simp add: on_queue_def scheduled_def setWhen_def)
  have notas: "p \<notin> set (async_queue s)"
  proof
    assume "p \<in> set (async_queue s)"
    with inv have "on_queue s p" "p \<notin> bin_ptrs bs"
      by (auto simp: eq_inv_def)
    with q e show False
      by (simp add: on_queue_def)
  qed
  have "eq_inv ?s4 (ins_bins (key_of ?e2) p ?bs)"
    unfolding eq_inv_def on using inv r(4) notas calculation(2)
    by (auto simp: eq_inv_def simp del: if_split_asm)
  ultimately show ?thesis
    using key by auto
qed

lemma pop_head_removeItem:
  assumes "head s = Some p" "heap s p = Some e"
  shows "pop_head s = do { (h', t') \<leftarrow> removeItem ((heap s)(p \<mapsto> e\<lparr>ev_flags := flags_clear (ev_flags e) Scheduled\<rparr>)) p p;
    Some (p, s\<lparr>heap := h', head := t'\<rparr>) }"
  using assms by (cases "nextInBin e") (simp_all add: pop_head_def removeItem_def bind_assoc)

lemma pop_head_cases:
  assumes inv: "eq_inv s ((k, p # b) # bs)"
  shows "\<exists>e s'. pop_head s = Some (p, s') \<and> heap s p = Some e \<and> key_of e = k \<and>
    eq_inv s' (rem_bins k p ((k, p # b) # bs)) \<and>
    (\<exists>e'. heap s' p = Some e' \<and> \<not> scheduled e' \<and> ev_when e' = ev_when e \<and> ev_priority e' = ev_priority e \<and> (squashed e' \<longleftrightarrow> squashed e)) \<and>
    curTick s' = curTick s \<and> this_queue s' = this_queue s \<and> async_queue s' = async_queue s"
proof -
  let ?bs = "(k, p # b) # bs"
  have seg: "bin_seg (heap s) (head s) ?bs None" and ok: "bins_ok ?bs"
    using inv by (simp_all add: eq_inv_def eq_rep_def)
  from seg obtain e where e: "heap s p = Some e" "key_of e = k" "head s = Some p"
    by (rule bin_seg_Cons_D) auto
  let ?e1 = "e\<lparr>ev_flags := flags_clear (ev_flags e) Scheduled\<rparr>"
  let ?h1 = "(heap s)(p \<mapsto> ?e1)"
  have "bin_seg ?h1 (Some p) ?bs None"
    by (rule bin_seg_frame [OF seg [unfolded e(3)]]) (use e in auto)
  from removeItem_rep [OF this ok, of p] obtain h' t' where r: "removeItem ?h1 p p = Some (h', t')"
    "bin_seg h' t' (rem_bins k p ?bs) None" "same_data ?h1 h'"
    by auto
  let ?s = "s\<lparr>heap := h', head := t'\<rparr>"
  have "(k, p) \<in> set (bin_events ?bs)"
    by simp
  note rm = rem_bins_notin [OF ok this]
  from same_data_D [OF r(3), of p ?e1] obtain a c where h': "h' p = Some (?e1\<lparr>nextBin := a, nextInBin := c\<rparr>)"
    by auto
  have on: "on_queue ?s x \<longleftrightarrow> x \<noteq> p \<and> on_queue s x" for x
    using same_data_on_queue [of "s\<lparr>heap := ?h1\<rparr>" ?s x] r(3)
    by (auto simp: on_queue_def scheduled_def split: option.split)
  have "p \<notin> set (async_queue s)"
    using inv by (auto simp: eq_inv_def)
  hence "eq_inv ?s (rem_bins k p ?bs)"
    unfolding eq_inv_def on using inv r(2) rm by (auto simp: eq_inv_def eq_rep_def simp del: rem_bins.simps)
  moreover have "pop_head s = Some (p, ?s)"
    using pop_head_removeItem [OF e(3,1)] r(1) by simp
  moreover have "\<exists>e'. heap ?s p = Some e' \<and> \<not> scheduled e' \<and> ev_when e' = ev_when e \<and> ev_priority e' = ev_priority e \<and> (squashed e' \<longleftrightarrow> squashed e)"
    using h' by (simp add: scheduled_def squashed_def)
  ultimately show ?thesis
    using e by auto
qed

lemma async_drain_cases:
  assumes "eq_rep s bs" "distinct ps" "set ps \<inter> bin_ptrs bs = {}" "\<forall>p\<in>set ps. on_queue s p"
    "\<forall>p. on_queue s p \<longleftrightarrow> p \<in> bin_ptrs bs \<union> set ps"
  shows "\<exists>s' bs'. async_drain ps s = Some s' \<and> eq_inv s' bs' \<and> async_queue s' = [] \<and> curTick s' = curTick s \<and>
    this_queue s' = this_queue s \<and>
    mset (bin_events bs') = mset (bin_events bs) + mset (map (\<lambda>p. (key_of (the (heap s p)), p)) ps)"
  using assms
proof (induction ps arbitrary: s bs)
  case Nil
  have "eq_rep (s\<lparr>async_queue := []\<rparr>) bs" "\<And>p. on_queue (s\<lparr>async_queue := []\<rparr>) p = on_queue s p"
    using Nil.prems(1) by (simp_all add: eq_rep_def on_queue_Some)
  with Nil.prems show ?case
    by (auto simp: eq_inv_def intro!: exI [of _ bs])
next
  case (Cons p ps)
  from Cons.prems(4) obtain e where e: "heap s p = Some e"
    by (auto simp: on_queue_Some)
  from insert_ev_rep [OF Cons.prems(1) e] Cons.prems(3) obtain h' t' where
    i: "insert_ev p s = Some (s\<lparr>heap := h', head := t'\<rparr>)"
    "eq_rep (s\<lparr>heap := h', head := t'\<rparr>) (ins_bins (key_of e) p bs)" "same_data (heap s) h'"
    by auto
  let ?s = "s\<lparr>heap := h', head := t'\<rparr>"
  have on: "on_queue ?s x = on_queue s x" for x
    by (rule same_data_on_queue) (simp_all add: i(3))
  have k: "key_of (the (h' x)) = key_of (the (heap s x))" if "x \<in> set ps" for x
  proof -
    from that Cons.prems(4) obtain e' where "heap s x = Some e'"
      by (auto simp: on_queue_Some)
    with same_data_D [OF i(3) this] show ?thesis
      by auto
  qed
  have "\<exists>s' bs'. async_drain ps ?s = Some s' \<and> eq_inv s' bs' \<and> async_queue s' = [] \<and> curTick s' = curTick ?s \<and>
      this_queue s' = this_queue ?s \<and> mset (bin_events bs') =
        mset (bin_events (ins_bins (key_of e) p bs)) + mset (map (\<lambda>p. (key_of (the (heap ?s p)), p)) ps)"
    by (rule Cons.IH [OF i(2)]) (use Cons.prems on in auto)
  also have "map (\<lambda>p. (key_of (the (heap ?s p)), p)) ps = map (\<lambda>p. (key_of (the (heap s p)), p)) ps"
    using k by simp
  finally show ?case
    using i(1) e by (simp add: ins_bins_events del: mset_map)
qed

section \<open>Reachable states\<close>

text \<open>
  The steps a simulation object can take between two services: creating, squashing, scheduling,
  descheduling and rescheduling events, and merging the asynchronous insertions.  The merge
  carries the obligation that the class comment states: an asynchronous event lies at least one
  quantum ahead, hence not in the past of the queue that merges it.
\<close>

inductive eq_step :: "eqstate \<Rightarrow> eqstate \<Rightarrow> bool"
  where
    step_new: "heap s p = None \<Longrightarrow> new_event pri f = Some e \<Longrightarrow> eq_step s (s\<lparr>heap := (heap s)(p \<mapsto> e)\<rparr>)"
  | step_squash: "heap s p = Some e \<Longrightarrow> eq_step s (s\<lparr>heap := (heap s)(p \<mapsto> squash e)\<rparr>)"
  | step_schedule: "schedule p t g s = Some s' \<Longrightarrow> eq_step s s'"
  | step_deschedule: "deschedule p s = Some s' \<Longrightarrow> eq_step s s'"
  | step_reschedule: "reschedule p t a s = Some s' \<Longrightarrow> eq_step s s'"
  | step_async: "handleAsyncInsertions s = Some s' \<Longrightarrow>
      (\<forall>p\<in>set (async_queue s). \<forall>e. heap s p = Some e \<longrightarrow> curTick s \<le> ev_when e) \<Longrightarrow> eq_step s s'"

definition eq_ok :: "eqstate \<Rightarrow> bool"
  where "eq_ok s \<longleftrightarrow> (\<exists>bs. eq_inv s bs \<and> (\<forall>x\<in>set (bin_events bs). curTick s \<le> fst (fst x)))"

lemma eq_okI: "eq_inv s bs \<Longrightarrow> (\<And>k p. (k, p) \<in> set (bin_events bs) \<Longrightarrow> curTick s \<le> fst k) \<Longrightarrow> eq_ok s"
  unfolding eq_ok_def by fastforce

lemma ins_bins_events_set: "set (bin_events (ins_bins k p bs)) = insert (k, p) (set (bin_events bs))"
  using arg_cong [OF ins_bins_events [of k p bs], of set_mset] by simp

lemma rem_bins_events_sub: "set (bin_events (rem_bins k p bs)) \<subseteq> set (bin_events bs)"
proof (induction k p bs rule: rem_bins.induct)
  case (2 k p k' b bs)
  moreover have "set (remove1 p b) \<subseteq> set b"
    by (rule set_remove1_subset)
  ultimately show ?case
    by auto
qed simp

lemma new_event_not_scheduled: "new_event p f = Some e \<Longrightarrow> \<not> scheduled e"
proof -
  assume a: "new_event p f = Some e"
  hence f: "f AND NOT PublicWrite = 0" and e: "ev_flags e = Initialized OR f"
    by (auto simp: new_event_def noneSet_def)
  have "\<not> bit PublicWrite 1"
    by (simp add: PublicWrite_def bit_iff_odd)
  hence "bit (f AND NOT PublicWrite) 1 = bit f 1"
    unfolding bit_and_iff bit_not_iff_eq by simp
  hence "\<not> bit f 1"
    using f by simp
  moreover have "\<not> bit Initialized 1"
    by (simp add: Initialized_def bit_iff_odd)
  ultimately show ?thesis
    unfolding scheduled_def isSet_bit e bit_or_iff by simp
qed

lemma remove_ev_mem: "eq_rep s bs \<Longrightarrow> remove_ev p s = Some s1 \<Longrightarrow> p \<in> bin_ptrs bs"
  using eq_remove_None [of "heap s" "head s" bs p "this_queue s"]
  by (cases "p \<in> bin_ptrs bs") (simp_all add: eq_rep_def remove_ev_def)

lemma reschedule_guards:
  assumes "reschedule p t a s = Some s'"
  shows "\<exists>e. heap s p = Some e \<and> curTick s \<le> t \<and> (a \<or> scheduled e) \<and> initialized e \<and>
    (\<not> inParallelMode s \<or> this_queue s = curEventQueue s) \<and> (scheduled e \<longrightarrow> remove_ev p s \<noteq> None)"
proof (cases "heap s p")
  case (Some e)
  with assms show ?thesis
    by (cases "scheduled e"; cases "remove_ev p s") (simp_all add: reschedule_def)
qed (use assms in \<open>simp add: reschedule_def bind_eq_Some_conv\<close>)

lemma eq_step_ok:
  assumes "eq_step s s'" "eq_ok s"
  shows "eq_ok s' \<and> curTick s' = curTick s"
proof -
  from assms(2) obtain bs where inv: "eq_inv s bs" and tm: "\<And>k p. (k, p) \<in> set (bin_events bs) \<Longrightarrow> curTick s \<le> fst k"
    unfolding eq_ok_def by force
  from assms(1) show ?thesis
  proof cases
    case (step_new p pri f e)
    have "\<not> on_queue s p"
      using step_new(2) by (simp add: on_queue_def)
    hence p: "p \<notin> bin_ptrs bs \<union> set (async_queue s)"
      using inv unfolding eq_inv_def by blast
    have "eq_rep s' bs"
      unfolding step_new(1) by (rule eq_rep_upd [of s]) (use inv p in \<open>auto simp: eq_inv_def\<close>)
    moreover have "on_queue s' q \<longleftrightarrow> on_queue s q" for q
      using step_new(2) new_event_not_scheduled [OF step_new(3)] by (simp add: on_queue_def step_new(1) split: option.split)
    ultimately have "eq_inv s' bs"
      using inv by (simp add: eq_inv_def step_new(1))
    thus ?thesis
      using tm by (auto simp: step_new(1) intro!: eq_okI [of _ bs])
  next
    case (step_squash p e)
    have "eq_rep s' bs"
      unfolding step_squash(1) by (rule eq_rep_upd [of s]) (use inv step_squash(2) in \<open>auto simp: eq_inv_def squash_def\<close>)
    moreover have "on_queue s' q \<longleftrightarrow> on_queue s q" for q
      using step_squash(2) by (simp add: on_queue_def step_squash(1) squash_def scheduled_def split: option.split)
    ultimately have "eq_inv s' bs"
      using inv by (simp add: eq_inv_def step_squash(1))
    thus ?thesis
      using tm by (auto simp: step_squash(1) intro!: eq_okI [of _ bs])
  next
    case (step_schedule p t g)
    then obtain e where e: "heap s p = Some e" "curTick s \<le> t" "\<not> scheduled e" "initialized e"
      by (auto simp: schedule_def bind_eq_Some_conv)
    from schedule_cases [OF inv e, of g] step_schedule obtain bs' where "eq_inv s' bs'" "curTick s' = curTick s"
      "set (bin_events bs') \<subseteq> insert ((t, sint (ev_priority e)), p) (set (bin_events bs))"
      by (auto simp: ins_bins_events_set split: if_splits)
    thus ?thesis
      using tm e(2) by (auto intro!: eq_okI [of s' bs'])
  next
    case (step_deschedule p)
    then obtain e s1 where e: "heap s p = Some e" "initialized e" "\<not> inParallelMode s \<or> this_queue s = curEventQueue s"
      "remove_ev p s = Some s1"
      by (auto simp: deschedule_def bind_eq_Some_conv)
    have "p \<in> bin_ptrs bs"
      using remove_ev_mem [OF _ e(4)] inv by (simp add: eq_inv_def)
    from deschedule_cases [OF inv e(1) this e(2,3)] step_deschedule rem_bins_events_sub [of "key_of e" p bs]
    show ?thesis
      using tm by (auto intro!: eq_okI [of s' "rem_bins (key_of e) p bs"])
  next
    case (step_reschedule p t a)
    from reschedule_guards [OF this] obtain e where e: "heap s p = Some e" "curTick s \<le> t" "a \<or> scheduled e" "initialized e"
      "\<not> inParallelMode s \<or> this_queue s = curEventQueue s" "scheduled e \<longrightarrow> remove_ev p s \<noteq> None"
      by blast
    have "scheduled e \<Longrightarrow> p \<in> bin_ptrs bs"
      using remove_ev_mem [of s bs p] e(6) inv by (auto simp: eq_inv_def)
    from reschedule_cases [OF inv e(1) this e(2-5)] step_reschedule
    have r: "eq_inv s' (ins_bins (t, sint (ev_priority e)) p (if scheduled e then rem_bins (key_of e) p bs else bs))"
      "curTick s' = curTick s"
      by auto
    from r(1) show ?thesis
      by (rule eq_okI [THEN conjI]) (use r(2) tm e(2) rem_bins_events_sub [of "key_of e" p bs] in
          \<open>auto simp: ins_bins_events_set split: if_splits\<close>)
  next
    case step_async
    have d: "async_drain (async_queue s) s = Some s'"
      using step_async(1) by (simp add: handleAsyncInsertions_def)
    have on: "\<forall>p\<in>set (async_queue s). on_queue s p"
      using inv by (simp add: eq_inv_def)
    have "\<exists>s' bs'. async_drain (async_queue s) s = Some s' \<and> eq_inv s' bs' \<and> async_queue s' = [] \<and> curTick s' = curTick s \<and>
      this_queue s' = this_queue s \<and>
      mset (bin_events bs') = mset (bin_events bs) + mset (map (\<lambda>p. (key_of (the (heap s p)), p)) (async_queue s))"
      by (rule async_drain_cases) (use inv on in \<open>simp_all add: eq_inv_def\<close>)
    with d obtain bs' where b: "eq_inv s' bs'" "curTick s' = curTick s"
      "mset (bin_events bs') = mset (bin_events bs) + mset (map (\<lambda>p. (key_of (the (heap s p)), p)) (async_queue s))"
      by auto
    from arg_cong [OF b(3), of set_mset] have st:
      "set (bin_events bs') = set (bin_events bs) \<union> (\<lambda>p. (key_of (the (heap s p)), p)) ` set (async_queue s)"
      by simp
    have tm': "curTick s \<le> fst (key_of (the (heap s p)))" if "p \<in> set (async_queue s)" for p
    proof -
      from that on obtain e where "heap s p = Some e"
        by (auto simp: on_queue_Some)
      with step_async(2) that show ?thesis
        by (simp add: key_of_def)
    qed
    from b(1) show ?thesis
      by (rule eq_okI [THEN conjI]) (use b(2) tm tm' in \<open>auto simp: st\<close>)
  qed
qed

section \<open>Servicing events\<close>

lemma eq_steps_ok: "eq_step\<^sup>*\<^sup>* s s' \<Longrightarrow> eq_ok s \<Longrightarrow> eq_ok s' \<and> curTick s' = curTick s"
  by (induction rule: rtranclp_induct) (auto dest: eq_step_ok)

lemma release_ok:
  assumes "release p s = Some s'" "eq_ok s"
  shows "eq_ok s' \<and> curTick s' = curTick s"
proof -
  from assms(2) obtain bs where inv: "eq_inv s bs" and tm: "\<And>k p. (k, p) \<in> set (bin_events bs) \<Longrightarrow> curTick s \<le> fst k"
    unfolding eq_ok_def by force
  from assms(1) obtain e where e: "heap s p = Some e"
    by (auto simp: release_def bind_eq_Some_conv)
  show ?thesis
  proof (cases "scheduled e")
    case True
    with assms e show ?thesis
      by (simp add: release_def)
  next
    case False
    from release_inv [OF inv e False] assms(1) have "eq_inv s' bs" "curTick s' = curTick s"
      by auto
    thus ?thesis
      using tm by (auto intro!: eq_okI [of s' bs])
  qed
qed

lemma bin_head_least:
  assumes "bins_ok ((k, b) # bs)" "(k', q) \<in> set (bin_events ((k, b) # bs))"
  shows "k \<le> k'"
proof -
  from assms(2) have "k' = k \<or> k' \<in> fst ` set bs"
    by (force simp: bin_events_def)
  with assms(1) show ?thesis
    by (auto simp: bins_ok_Cons)
qed

lemma eq_inv_set_time: "eq_inv (s\<lparr>curTick := t\<rparr>) bs = eq_inv s bs"
  by (simp add: eq_inv_def eq_rep_def on_queue_Some)

lemma set_flags_keeps:
  assumes "eq_inv s bs" "heap s p = Some e" "isSet (f (ev_flags e)) Scheduled = scheduled e"
    "set_flags_of f p s = Some s'"
  shows "eq_inv s' bs \<and> curTick s' = curTick s"
proof -
  have s': "s' = s\<lparr>heap := (heap s)(p \<mapsto> e\<lparr>ev_flags := f (ev_flags e)\<rparr>)\<rparr>"
    using assms(2,4) by (simp add: set_flags_of_def)
  have "eq_rep s' bs"
    unfolding s' by (rule eq_rep_upd [of s]) (use assms in \<open>auto simp: eq_inv_def\<close>)
  moreover have "on_queue s' q = on_queue s q" for q
    using assms by (auto simp: on_queue_Some s' scheduled_def)
  ultimately show ?thesis
    using assms(1) by (simp add: eq_inv_def s')
qed

lemma pop_head_ok:
  assumes ok: "eq_ok s" and pop: "pop_head s = Some (p, s1)"
  obtains bs k b bs' e1 where "eq_inv s ((k, p # b) # bs)" "eq_inv s1 bs'" "bs' = rem_bins k p ((k, p # b) # bs)"
    "heap s1 p = Some e1" "\<not> scheduled e1" "key_of e1 = k" "curTick s1 = curTick s" "curTick s \<le> ev_when e1"
    "\<And>k' q. (k', q) \<in> set (bin_events bs') \<Longrightarrow> k \<le> k'"
proof -
  from ok obtain bs0 where inv: "eq_inv s bs0" and tm: "\<And>k p. (k, p) \<in> set (bin_events bs0) \<Longrightarrow> curTick s \<le> fst k"
    unfolding eq_ok_def by force
  have "bs0 \<noteq> []"
    using inv pop by (auto simp: eq_inv_def eq_rep_def pop_head_def)
  then obtain k b0 bs where bs0: "bs0 = (k, b0) # bs"
    by (metis list.exhaust surj_pair)
  moreover have "b0 \<noteq> []"
    using inv bs0 by (simp add: eq_inv_def eq_rep_def)
  ultimately obtain p0 b where b: "bs0 = (k, p0 # b) # bs"
    by (metis list.exhaust)
  from pop_head_cases [OF inv [unfolded b]] pop obtain e e1 where c: "p0 = p" "heap s p = Some e" "key_of e = k"
    "eq_inv s1 (rem_bins k p ((k, p # b) # bs))" "heap s1 p = Some e1" "\<not> scheduled e1" "ev_when e1 = ev_when e"
    "ev_priority e1 = ev_priority e" "curTick s1 = curTick s"
    by auto
  have "(k, p) \<in> set (bin_events bs0)"
    using b c(1) by simp
  hence "curTick s \<le> ev_when e1"
    using tm c(3,7) by (auto simp: key_of_def)
  moreover have "bins_ok ((k, p # b) # bs)"
    using inv b c(1) by (simp add: eq_inv_def eq_rep_def)
  hence "k \<le> k'" if "(k', q) \<in> set (bin_events (rem_bins k p ((k, p # b) # bs)))" for k' q
    using bin_head_least that rem_bins_events_sub [of k p "(k, p # b) # bs"] by blast
  moreover have "key_of e1 = k"
    using c(3,7,8) by (simp add: key_of_def)
  ultimately show thesis
    using that inv b c by blast
qed

lemma bins_head:
  assumes "eq_inv s bs" "bs \<noteq> []"
  obtains k p b bs' where "bs = (k, p # b) # bs'" "bins_ok ((k, p # b) # bs')"
proof -
  from assms(2) obtain k b0 bs' where b: "bs = (k, b0) # bs'"
    by (metis list.exhaust surj_pair)
  with assms(1) have "b0 \<noteq> []" "bins_ok bs"
    by (simp_all add: eq_inv_def eq_rep_def)
  with b that show thesis
    by (metis list.exhaust)
qed

lemma eq_pop_least:
  assumes "eq_inv s bs" "bs \<noteq> []"
  shows "\<exists>k p s'. pop_head s = Some (p, s') \<and> (k, p) \<in> set (bin_events bs) \<and> (\<forall>x\<in>set (bin_events bs). k \<le> fst x) \<and>
    eq_inv s' (rem_bins k p bs) \<and> mset (bin_events (rem_bins k p bs)) = mset (bin_events bs) - {#(k, p)#}"
proof -
  obtain k p b bs' where b: "bs = (k, p # b) # bs'" "bins_ok ((k, p # b) # bs')"
    using bins_head [OF assms] .
  have m: "(k, p) \<in> set (bin_events bs)"
    using b(1) by simp
  from pop_head_cases [of s k p b bs'] assms(1) b(1) obtain s' where s': "pop_head s = Some (p, s')" "eq_inv s' (rem_bins k p bs)"
    by auto
  have "\<forall>x\<in>set (bin_events bs). k \<le> fst x"
    using bin_head_least [OF b(2)] b(1) by fastforce
  with s' m rem_bins_notin(2) [OF b(2) m [unfolded b(1)]] show ?thesis
    unfolding b(1) [symmetric] by blast
qed

lemma release_keeps_bins:
  assumes "release p s = Some s'" "eq_inv s bs"
  shows "eq_inv s' bs \<and> curTick s' = curTick s"
proof -
  from assms(1) obtain e where e: "heap s p = Some e"
    by (auto simp: release_def bind_eq_Some_conv)
  show ?thesis
  proof (cases "scheduled e")
    case True
    with assms e show ?thesis
      by (simp add: release_def)
  next
    case False
    from release_inv [OF assms(2) e False] assms(1) show ?thesis
      by auto
  qed
qed

text \<open>
  What one call of \<open>serviceOne\<close> did: it took the event \<open>p\<close> with key \<open>k\<close> out of the bins \<open>bs\<close>, which left the
  state \<open>s1\<close>; a squashed event was dropped, and for any other the handler ran in \<open>s1\<close> with the clock
  at the time of the event, and the queue is the one the handler left.
\<close>

definition serviced ::
    "(event_ptr \<Rightarrow> eqstate \<Rightarrow> eqstate option) \<Rightarrow> eqstate \<Rightarrow> bins \<Rightarrow> ev_key \<Rightarrow> event_ptr \<Rightarrow> event_ptr option \<Rightarrow> eqstate \<Rightarrow> bool"
  where "serviced process s bs k p r s' \<longleftrightarrow> head s = Some p \<and> (\<exists>s1 e. eq_inv s1 (rem_bins k p bs) \<and>
    mset (bin_events (rem_bins k p bs)) = mset (bin_events bs) - {#(k, p)#} \<and>
    heap s1 p = Some e \<and> key_of e = k \<and> \<not> scheduled e \<and> curTick s1 = curTick s \<and>
    (if squashed e then r = None \<and> eq_inv s' (rem_bins k p bs) \<and> curTick s' = curTick s
     else (\<exists>s2 e2. process p (s1\<lparr>curTick := fst k\<rparr>) = Some s2 \<and> heap s2 p = Some e2 \<and>
       r = (if isExitEvent e2 then Some p else None) \<and> (\<forall>bs2. eq_inv s2 bs2 \<longrightarrow> eq_inv s' bs2) \<and> curTick s' = curTick s2)))"

lemma serviceOne_serviced:
  assumes inv: "eq_inv s bs" and sv: "serviceOne process s = Some (r, s')"
  obtains k p where "(k, p) \<in> set (bin_events bs)" "\<forall>x\<in>set (bin_events bs). k \<le> fst x" "serviced process s bs k p r s'"
proof -
  from sv obtain p s1 where pop: "pop_head s = Some (p, s1)"
    by (auto simp: serviceOne_def bind_eq_Some_conv)
  hence "bs \<noteq> []"
    using inv by (auto simp: eq_inv_def eq_rep_def pop_head_def)
  from eq_pop_least [OF inv this] pop obtain k where k: "(k, p) \<in> set (bin_events bs)" "\<forall>x\<in>set (bin_events bs). k \<le> fst x"
    "eq_inv s1 (rem_bins k p bs)" "mset (bin_events (rem_bins k p bs)) = mset (bin_events bs) - {#(k, p)#}"
    by auto
  obtain k' q b bs0 where b: "bs = (k', q # b) # bs0" "bins_ok ((k', q # b) # bs0)"
    using bins_head [OF inv \<open>bs \<noteq> []\<close>] by metis
  from pop_head_cases [OF inv [unfolded b(1)]] pop obtain e e1 where e: "q = p" "heap s p = Some e" "key_of e = k'"
    "heap s1 p = Some e1" "\<not> scheduled e1" "ev_when e1 = ev_when e" "ev_priority e1 = ev_priority e" "curTick s1 = curTick s"
    by auto
  have "(k', p) \<in> set (bin_events bs)"
    using b(1) e(1) by simp
  hence "k = k'"
    using k(1,2) bin_head_least [OF b(2), folded b(1)] by (metis fst_conv order.antisym)
  hence e1: "key_of e1 = k"
    using e(3,6,7) by (simp add: key_of_def)
  have hd: "head s = Some p"
    using pop by (auto simp: pop_head_def bind_eq_Some_conv Let_def split: option.splits)
  have "serviced process s bs k p r s'"
  proof (cases "squashed e1")
    case True
    with sv pop e(4) obtain s2 where s2: "r = None" "set_flags_of (\<lambda>f. flags_clear f Squashed) p s1 = Some s2" "release p s2 = Some s'"
      by (auto simp: serviceOne_def bind_eq_Some_conv)
    from set_flags_keeps [OF k(3) e(4) _ s2(2)] have "eq_inv s2 (rem_bins k p bs)" "curTick s2 = curTick s1"
      by (simp_all add: scheduled_def)
    with release_keeps_bins [OF s2(3)] True s2(1) hd k(3,4) e(4,5,8) e1 show ?thesis
      unfolding serviced_def by auto
  next
    case False
    with sv pop e(4) e1 obtain s2 e2 where s2: "process p (s1\<lparr>curTick := fst k\<rparr>) = Some s2" "heap s2 p = Some e2"
      "r = (if isExitEvent e2 then Some p else None)" "s' = s2 \<or> release p s2 = Some s'"
      by (auto simp: serviceOne_def bind_eq_Some_conv key_of_def split: if_splits)
    have "\<forall>bs2. eq_inv s2 bs2 \<longrightarrow> eq_inv s' bs2" "curTick s' = curTick s2"
      using s2(4) release_keeps_bins [of p s2 s'] by (auto simp: release_def bind_eq_Some_conv)
    with False s2(1-3) hd k(3,4) e(4,5,8) e1 show ?thesis
      unfolding serviced_def by auto
  qed
  with k(1,2) show thesis
    by (rule that)
qed

lemma serviceOne_ok:
  assumes ok: "eq_ok s" and sv: "serviceOne process s = Some (r, s')"
    and h: "\<And>p s s'. process p s = Some s' \<Longrightarrow> eq_step\<^sup>*\<^sup>* s s'"
  shows "eq_ok s' \<and> curTick s \<le> curTick s'"
proof -
  from ok obtain bs where inv: "eq_inv s bs" and tm: "\<And>k p. (k, p) \<in> set (bin_events bs) \<Longrightarrow> curTick s \<le> fst k"
    unfolding eq_ok_def by force
  from serviceOne_serviced [OF inv sv] obtain k p where k: "(k, p) \<in> set (bin_events bs)" "\<forall>x\<in>set (bin_events bs). k \<le> fst x"
    "serviced process s bs k p r s'" .
  from k(3) obtain s1 e where s1: "eq_inv s1 (rem_bins k p bs)" "curTick s1 = curTick s"
    "if squashed e then r = None \<and> eq_inv s' (rem_bins k p bs) \<and> curTick s' = curTick s
     else (\<exists>s2 e2. process p (s1\<lparr>curTick := fst k\<rparr>) = Some s2 \<and> heap s2 p = Some e2 \<and>
       r = (if isExitEvent e2 then Some p else None) \<and> (\<forall>bs2. eq_inv s2 bs2 \<longrightarrow> eq_inv s' bs2) \<and> curTick s' = curTick s2)"
    unfolding serviced_def by blast
  have sub: "(k', q) \<in> set (bin_events bs)" if "(k', q) \<in> set (bin_events (rem_bins k p bs))" for k' q
    using that rem_bins_events_sub by blast
  show ?thesis
  proof (cases "squashed e")
    case True
    with s1(3) have "eq_inv s' (rem_bins k p bs)" "curTick s' = curTick s"
      by simp_all
    thus ?thesis
      by (auto intro!: eq_okI [of s' "rem_bins k p bs"] dest!: sub tm)
  next
    case False
    with s1(3) obtain s2 where s2: "process p (s1\<lparr>curTick := fst k\<rparr>) = Some s2" "\<forall>bs2. eq_inv s2 bs2 \<longrightarrow> eq_inv s' bs2" "curTick s' = curTick s2"
      by auto
    have "fst k \<le> fst k'" if "(k', q) \<in> set (bin_events (rem_bins k p bs))" for k' q
      using k(2) sub [OF that] by (force simp: less_eq_prod_def)
    hence "eq_ok (s1\<lparr>curTick := fst k\<rparr>)"
      using s1(1) by (auto intro!: eq_okI [of _ "rem_bins k p bs"] simp: eq_inv_set_time)
    with eq_steps_ok [OF h [OF s2(1)]] have "eq_ok s2" "curTick s2 = fst k"
      by simp_all
    thus ?thesis
      using s2(2,3) tm [OF k(1)] unfolding eq_ok_def by auto
  qed
qed

lemma serviceEvents_partial:
  assumes "serviceEvents process t s = Some s'" "eq_ok s" "\<And>p s s'. process p s = Some s' \<Longrightarrow> eq_step\<^sup>*\<^sup>* s s'"
  shows "curTick s' = t \<and> (\<exists>bs. eq_inv s' bs \<and> (\<forall>x\<in>set (bin_events bs). t < fst (fst x)))"
proof -
  let ?P = "\<lambda>process t s s'. eq_ok s \<longrightarrow> (\<forall>p s s'. process p s = Some s' \<longrightarrow> eq_step\<^sup>*\<^sup>* s s') \<longrightarrow>
      curTick s' = t \<and> (\<exists>bs. eq_inv s' bs \<and> (\<forall>x\<in>set (bin_events bs). t < fst (fst x)))"
  have "?P process t s s'"
  proof (rule serviceEvents.raw_induct [where P = ?P, OF _ assms(1)])
    fix sE process t s s'
    assume 1: "\<And>process t s y. sE process t s = Some y \<Longrightarrow> ?P process t s y"
      "(if eq_empty s then Some (setCurTick t s)
        else Option.bind (nextTick s) (\<lambda>nt. if nt > t then Some (setCurTick t s)
          else Option.bind (serviceOne process s) (\<lambda>r. sE process t (snd r)))) = Some s'"
    have stop: "?P process t s s'" if "s' = setCurTick t s" "eq_empty s \<or> (\<exists>nt. nextTick s = Some nt \<and> nt > t)"
    proof (intro impI)
      assume "eq_ok s"
      then obtain bs where inv: "eq_inv s bs"
        by (auto simp: eq_ok_def)
      have "t < fst k" if m: "(k, p) \<in> set (bin_events bs)" for k p
      proof (cases bs)
        case (Cons kb bs')
        obtain k0 b where kb: "kb = (k0, b)"
          by (cases kb)
        from inv have "bin_seg (heap s) (head s) ((k0, b) # bs') None" and ok: "bins_ok ((k0, b) # bs')"
          using Cons kb by (simp_all add: eq_inv_def eq_rep_def)
        then obtain e where "head s = Some (hd b)" "heap s (hd b) = Some e" "key_of e = k0"
          by (elim bin_seg_Cons_D)
        with \<open>eq_empty s \<or> _\<close> have "t < fst k0"
          by (auto simp: eq_empty_def nextTick_def key_of_def)
        moreover have "k0 \<le> k"
          using bin_head_least [OF ok] m Cons kb by simp
        ultimately show ?thesis
          by (auto simp: less_eq_prod_def)
      qed (use m in simp)
      with inv show "curTick s' = t \<and> (\<exists>bs. eq_inv s' bs \<and> (\<forall>x\<in>set (bin_events bs). t < fst (fst x)))"
        by (auto simp: \<open>s' = _\<close> setCurTick_def eq_inv_set_time intro!: exI [of _ bs])
    qed
    show "?P process t s s'"
    proof (cases "eq_empty s \<or> (\<exists>nt. nextTick s = Some nt \<and> nt > t)")
      case True
      with 1(2) stop show ?thesis
        by (auto split: if_splits)
    next
      case False
      with 1(2) obtain r s1 where r: "serviceOne process s = Some (r, s1)" "sE process t s1 = Some s'"
        by (auto simp: bind_eq_Some_conv split: if_splits)
      from 1(1) [OF r(2)] serviceOne_ok [OF _ r(1)] show ?thesis
        by blast
    qed
  qed
  thus ?thesis
    using assms(2,3) by blast
qed

section \<open>The queue as a priority queue\<close>

text \<open>
  The interface a client of the queue relies on: events enter with a key, and leave in the
  order of the keys.  \<open>service_order\<close> is the order in which repeated removal returns the events.
\<close>

primrec service_order :: "('s \<Rightarrow> ('p \<times> 's) option) \<Rightarrow> nat \<Rightarrow> 's \<Rightarrow> 'p list option"
  where
    "service_order pop 0 s = Some []"
  | "service_order pop (Suc n) s = do {
      (p, s') \<leftarrow> pop s;
      ps \<leftarrow> service_order pop n s';
      Some (p # ps) }"

primrec enter_all :: "('p \<Rightarrow> 'k \<Rightarrow> 's \<Rightarrow> 's option) \<Rightarrow> ('k \<times> 'p) list \<Rightarrow> 's \<Rightarrow> 's option"
  where
    "enter_all ins [] s = Some s"
  | "enter_all ins (x # xs) s = do { s' \<leftarrow> ins (snd x) (fst x) s; enter_all ins xs s' }"

locale event_pq =
  fixes rep :: "'s \<Rightarrow> ('k::linorder \<times> 'p) multiset \<Rightarrow> bool"
    and idle :: "'s \<Rightarrow> 'p \<Rightarrow> 'k \<Rightarrow> bool"
    and ins :: "'p \<Rightarrow> 'k \<Rightarrow> 's \<Rightarrow> 's option"
    and pop :: "'s \<Rightarrow> ('p \<times> 's) option"
  assumes pop_empty: "rep s {#} \<Longrightarrow> pop s = None"
    and pop_least: "rep s M \<Longrightarrow> M \<noteq> {#} \<Longrightarrow>
      \<exists>k p s'. pop s = Some (p, s') \<and> (k, p) \<in># M \<and> (\<forall>x\<in>#M. k \<le> fst x) \<and> rep s' (M - {#(k, p)#})"
    and ins_adds: "rep s M \<Longrightarrow> idle s p k \<Longrightarrow>
      \<exists>s'. ins p k s = Some s' \<and> rep s' (add_mset (k, p) M) \<and> (\<forall>q k'. q \<noteq> p \<longrightarrow> idle s q k' \<longrightarrow> idle s' q k')"
begin

lemma drains_sorted:
  "rep s M \<Longrightarrow> \<exists>xs. service_order pop (size M) s = Some (map snd xs) \<and> sorted (map fst xs) \<and> mset xs = M"
proof (induction "size M" arbitrary: s M)
  case 0
  thus ?case
    by simp
next
  case (Suc n)
  hence "M \<noteq> {#}"
    by auto
  from pop_least [OF Suc.prems this] obtain k p s' where p: "pop s = Some (p, s')" "(k, p) \<in># M"
    "\<forall>x\<in>#M. k \<le> fst x" "rep s' (M - {#(k, p)#})"
    by blast
  have n: "n = size (M - {#(k, p)#})"
    using Suc.hyps(2) p(2) by (simp add: size_Diff_singleton)
  from Suc.hyps(1) [OF n p(4)] n obtain xs where xs: "service_order pop n s' = Some (map snd xs)"
    "sorted (map fst xs)" "mset xs = M - {#(k, p)#}"
    by auto
  have M: "mset ((k, p) # xs) = M"
    using p(2) xs(3) by simp
  moreover have "\<forall>x\<in>set xs. k \<le> fst x"
    using p(3) unfolding M [symmetric] by auto
  ultimately show ?case
    using p(1) xs(1,2) unfolding Suc.hyps(2) [symmetric] by (intro exI [of _ "(k, p) # xs"]) simp
qed

lemma enters_all:
  "rep s M \<Longrightarrow> distinct (map snd xs) \<Longrightarrow> (\<forall>x\<in>set xs. idle s (snd x) (fst x)) \<Longrightarrow>
    \<exists>s'. enter_all ins xs s = Some s' \<and> rep s' (M + mset xs)"
proof (induction xs arbitrary: s M)
  case (Cons x xs)
  from ins_adds [OF Cons.prems(1), of "snd x" "fst x"] Cons.prems(3) obtain s1 where s1:
    "ins (snd x) (fst x) s = Some s1" "rep s1 (add_mset x M)"
    "\<forall>q k'. q \<noteq> snd x \<longrightarrow> idle s q k' \<longrightarrow> idle s1 q k'"
    by auto
  have "\<forall>y\<in>set xs. idle s1 (snd y) (fst y)"
    using s1(3) Cons.prems(2,3) by (fastforce simp: image_iff)
  with Cons.IH [OF s1(2)] Cons.prems(2) s1(1) show ?case
    by auto
qed simp

text \<open>Entering events and then removing them all sorts them by key.\<close>

lemma enter_then_drain:
  assumes "rep s {#}" "distinct (map snd xs)" "\<forall>x\<in>set xs. idle s (snd x) (fst x)"
  shows "\<exists>s' ys. enter_all ins xs s = Some s' \<and> service_order pop (length xs) s' = Some (map snd ys) \<and>
    sorted (map fst ys) \<and> mset ys = mset xs"
proof -
  from enters_all [OF assms] obtain s' where s': "enter_all ins xs s = Some s'" "rep s' (mset xs)"
    by auto
  from drains_sorted [OF s'(2)] s'(1) show ?thesis
    by auto
qed

end

definition eq_holds :: "eqstate \<Rightarrow> (ev_key \<times> event_ptr) multiset \<Rightarrow> bool"
  where "eq_holds s M \<longleftrightarrow> \<not> inParallelMode s \<and> (\<exists>bs. eq_inv s bs \<and> mset (bin_events bs) = M)"

definition eq_idle :: "eqstate \<Rightarrow> event_ptr \<Rightarrow> ev_key \<Rightarrow> bool"
  where "eq_idle s p k \<longleftrightarrow>
    (case heap s p of None \<Rightarrow> False
     | Some e \<Rightarrow> \<not> scheduled e \<and> initialized e \<and> sint (ev_priority e) = snd k \<and> curTick s \<le> fst k)"

definition schedule_key :: "event_ptr \<Rightarrow> ev_key \<Rightarrow> eqstate \<Rightarrow> eqstate option"
  where "schedule_key p k s = schedule p (fst k) False s"

lemma pop_head_mode: "pop_head s = Some (p, s') \<Longrightarrow> inParallelMode s' = inParallelMode s"
  by (auto simp: pop_head_def bind_eq_Some_conv Let_def split: option.splits)

interpretation eventq: event_pq eq_holds eq_idle schedule_key pop_head
proof
  fix s assume "eq_holds s {#}"
  then obtain bs where "eq_inv s bs" "bin_events bs = []"
    by (auto simp: eq_holds_def)
  moreover from this have "bs = []"
    by (metis bins_head bin_events_simps(2) append_Cons list.simps(9) list.distinct(1))
  ultimately show "pop_head s = None"
    by (simp add: eq_inv_def eq_rep_def pop_head_def)
next
  fix s M assume "eq_holds s M" "M \<noteq> {#}"
  then obtain bs where b: "eq_inv s bs" "mset (bin_events bs) = M" "bs \<noteq> []" "\<not> inParallelMode s"
    by (fastforce simp: eq_holds_def)
  from eq_pop_least [OF b(1,3)] obtain k p s' where p: "pop_head s = Some (p, s')" "(k, p) \<in> set (bin_events bs)"
    "\<forall>x\<in>set (bin_events bs). k \<le> fst x" "eq_inv s' (rem_bins k p bs)"
    "mset (bin_events (rem_bins k p bs)) = mset (bin_events bs) - {#(k, p)#}"
    by blast
  moreover have "eq_holds s' (M - {#(k, p)#})"
    unfolding eq_holds_def using p(4,5) pop_head_mode [OF p(1)] b(2,4) by auto
  ultimately show "\<exists>k p s'. pop_head s = Some (p, s') \<and> (k, p) \<in># M \<and> (\<forall>x\<in>#M. k \<le> fst x) \<and> eq_holds s' (M - {#(k, p)#})"
    unfolding b(2) [symmetric] set_mset_mset by blast
next
  fix s M p k assume a: "eq_holds s M" "eq_idle s p k"
  then obtain bs e where b: "eq_inv s bs" "mset (bin_events bs) = M" "\<not> inParallelMode s"
    "heap s p = Some e" "\<not> scheduled e" "initialized e" "sint (ev_priority e) = snd k" "curTick s \<le> fst k"
    by (auto simp: eq_holds_def eq_idle_def split: option.splits)
  from schedule_cases [OF b(1,4,8,5,6), of False] b(3,7) obtain s' where s': "schedule p (fst k) False s = Some s'"
    "curTick s' = curTick s" "\<not> inParallelMode s'" "same_data ((heap s)(p := None)) ((heap s')(p := None))"
    "eq_inv s' (ins_bins k p bs)"
    by auto
  have "eq_idle s' q k'" if "q \<noteq> p" "eq_idle s q k'" for q k'
  proof -
    from that(2) obtain e where e: "heap s q = Some e" "\<not> scheduled e" "initialized e" "sint (ev_priority e) = snd k'"
      "curTick s \<le> fst k'"
      by (auto simp: eq_idle_def split: option.splits)
    with same_data_D [OF s'(4), of q e] that(1) s'(2) show ?thesis
      by (auto simp: eq_idle_def initialized_def)
  qed
  moreover have "eq_holds s' (add_mset (k, p) M)"
    unfolding eq_holds_def using s'(3,5) ins_bins_events [of k p bs] b(2) by auto
  ultimately show "\<exists>s'. schedule_key p k s = Some s' \<and> eq_holds s' (add_mset (k, p) M) \<and>
      (\<forall>q k'. q \<noteq> p \<longrightarrow> eq_idle s q k' \<longrightarrow> eq_idle s' q k')"
    using s'(1) by (auto simp: schedule_key_def)
qed

section \<open>The self check\<close>

lemma verify_bin_ok:
  assumes "bin_stack h k p b" "b \<noteq> [] \<Longrightarrow> (tm, pr) \<le> k" "distinct b" "set b \<inter> set seen = {}"
  shows "verify_bin h p (seen, tm, pr) = Some (Some (rev b @ seen, if b = [] then (tm, pr) else k))"
  using assms
proof (induction b arbitrary: p seen tm pr)
  case Nil
  thus ?case
    by (simp add: verify_bin.simps)
next
  case (Cons x b)
  from Cons.prems(1) obtain e where e: "p = Some x" "h x = Some e" "key_of e = k" "bin_stack h k (nextInBin e) b"
    by (auto split: option.splits)
  have k: "(ev_when e, sint (ev_priority e)) = k"
    using e(3) by (simp add: key_of_def)
  have "\<not> ev_when e < tm" "\<not> (ev_when e = tm \<and> sint (ev_priority e) < pr)"
    using Cons.prems(2) k by (auto simp: less_eq_prod_def)
  hence "verify_bin h p (seen, tm, pr) = verify_bin h (nextInBin e) (x # seen, k)"
    using e Cons.prems(4) k by (subst verify_bin.simps) auto
  also have "\<dots> = Some (Some (rev b @ x # seen, if b = [] then k else k))"
    using Cons.IH [OF e(4), of "fst k" "snd k" "x # seen"] Cons.prems(3,4) by auto
  finally show ?case
    by simp
qed

lemma verify_bins_ok:
  assumes "bin_seg h p bs None" "bins_ok bs" "bs = [] \<or> (tm, pr) \<le> fst (hd bs)" "bin_ptrs bs \<inter> set seen = {}"
  shows "verify_bins h p (seen, tm, pr) = Some True"
  using assms
proof (induction bs arbitrary: p seen tm pr)
  case Nil
  thus ?case
    by (simp add: verify_bins.simps)
next
  case (Cons kb bs)
  obtain k b where kb: "kb = (k, b)"
    by (cases kb)
  from Cons.prems(1) [unfolded kb] obtain e where c: "b \<noteq> []" "p = Some (hd b)" "h (hd b) = Some e"
    "bin_stack h k p b" "bin_seg h (nextBin e) bs None"
    by (rule bin_seg_Cons_D)
  have d: "distinct b" "set b \<inter> bin_ptrs bs = {}" "bins_ok bs" "\<forall>x\<in>set bs. k < fst x"
    using Cons.prems(2) kb by (simp_all add: bins_ok_Cons)
  have "verify_bin h p (seen, tm, pr) = Some (Some (rev b @ seen, k))"
    using verify_bin_ok [OF c(4) _ d(1), of tm pr seen] Cons.prems(3,4) kb c(1) by auto
  hence "verify_bins h p (seen, tm, pr) = verify_bins h (nextBin e) (rev b @ seen, k)"
    using c by (subst verify_bins.simps) simp
  also have "\<dots> = Some True"
    using Cons.IH [OF c(5) d(3), of "fst k" "snd k" "rev b @ seen"] d(2,4) Cons.prems(4) kb
    by (cases bs) (auto simp: order.strict_implies_order)
  finally show ?case .
qed

lemma verify_bins_inverted:
  assumes "bin_seg h p ((k, b) # bs) None" "k < (tm, pr)"
  shows "verify_bins h p (seen, tm, pr) = Some False"
proof -
  from assms(1) obtain e where c: "p = Some (hd b)" "h (hd b) = Some e" "key_of e = k"
    by (rule bin_seg_Cons_D)
  have "verify_bin h p (seen, tm, pr) = Some None"
    using c assms(2) by (subst verify_bin.simps) (auto simp: key_of_def less_prod_def)
  thus ?thesis
    using c by (subst verify_bins.simps) simp
qed

section \<open>Properties of the event queue\<close>

lemma flags_set_init: "flags_set f Scheduled AND InitMask = f AND InitMask"
  unfolding flags_set_def bit.conj_disj_distrib2 by (simp add: flag_consts)

lemma rem_ins_bins: "bins_ok bs \<Longrightarrow> rem_bins k p (ins_bins k p bs) = bs"
  by (induction k p bs rule: ins_bins.induct) (auto simp: bins_ok_Cons)

lemma eq_inv_fresh: "eq_inv s [] \<longleftrightarrow> head s = None \<and> distinct (async_queue s) \<and> (\<forall>p. on_queue s p \<longleftrightarrow> p \<in> set (async_queue s))"
  by (auto simp: eq_inv_def eq_rep_def)

text \<open>
  C1: Entering events with \<open>schedule\<close> and then removing them the way \<open>serviceOne\<close> does returns
  every event exactly once, in increasing order of time and, at one time, of priority; every call
  succeeds.
\<close>

theorem schedule_then_service_sorted:
  assumes "eq_inv s []" "\<not> inParallelMode s" "distinct (map snd xs)"
    and "\<And>k p. (k, p) \<in> set xs \<Longrightarrow> eq_idle s p k"
  shows "\<exists>s' ys. enter_all schedule_key xs s = Some s' \<and>
    service_order pop_head (length xs) s' = Some (map snd ys) \<and> sorted (map fst ys) \<and> mset ys = mset xs"
proof (rule eventq.enter_then_drain)
  show "eq_holds s {#}"
    unfolding eq_holds_def using assms(1,2) by force
qed (use assms in auto)

text \<open>
  The states of a simulation: starting from an empty queue, simulation objects take the steps above
  between services, and the simulation loop services one event, services all events up to a tick, or
  sets the clock.  \<open>setCurTick\<close> checks nothing; its callers must not pass the next event.
\<close>

inductive eq_run :: "(event_ptr \<Rightarrow> eqstate \<Rightarrow> eqstate option) \<Rightarrow> eqstate \<Rightarrow> bool" for process
  where
    run_init: "eq_run process (eq_init q Map.empty cq par)"
  | run_step: "eq_run process s \<Longrightarrow> eq_step s s' \<Longrightarrow> eq_run process s'"
  | run_one: "eq_run process s \<Longrightarrow> serviceOne process s = Some (r, s') \<Longrightarrow> eq_run process s'"
  | run_events: "eq_run process s \<Longrightarrow> serviceEvents process t s = Some s' \<Longrightarrow> eq_run process s'"
  | run_time: "eq_run process s \<Longrightarrow> eq_empty s \<or> (\<exists>nt. nextTick s = Some nt \<and> t \<le> nt) \<Longrightarrow> eq_run process (setCurTick t s)"

lemma setCurTick_ok:
  assumes "eq_ok s" "eq_empty s \<or> (\<exists>nt. nextTick s = Some nt \<and> t \<le> nt)"
  shows "eq_ok (setCurTick t s)"
proof -
  from assms(1) obtain bs where inv: "eq_inv s bs"
    by (auto simp: eq_ok_def)
  have "t \<le> fst k" if m: "(k, p) \<in> set (bin_events bs)" for k p
  proof -
    have "bs \<noteq> []"
      using m by auto
    then obtain k0 q b bs0 where b: "bs = (k0, q # b) # bs0" "bins_ok ((k0, q # b) # bs0)"
      using bins_head [OF inv] by metis
    moreover have "bin_seg (heap s) (head s) ((k0, q # b) # bs0) None"
      using inv b(1) by (simp add: eq_inv_def eq_rep_def)
    then obtain e where "head s = Some q" "heap s q = Some e" "key_of e = k0"
      by (rule bin_seg_Cons_D) simp
    ultimately have "t \<le> fst k0"
      using assms(2) by (auto simp: eq_empty_def nextTick_def key_of_def)
    moreover have "k0 \<le> k"
      using bin_head_least [OF b(2)] m b(1) by simp
    ultimately show ?thesis
      by (auto simp: less_eq_prod_def)
  qed
  with inv show ?thesis
    by (auto simp: setCurTick_def eq_inv_set_time intro!: eq_okI [of _ bs])
qed

lemma eq_run_ok:
  assumes "eq_run process s" and h: "\<And>p s s'. process p s = Some s' \<Longrightarrow> eq_step\<^sup>*\<^sup>* s s'"
  shows "eq_ok s"
  using assms(1)
proof induction
  case (run_init q cq par)
  have "eq_inv (eq_init q Map.empty cq par) []"
    by (simp add: eq_inv_def eq_rep_def eq_init_def on_queue_def)
  thus ?case
    by (rule eq_okI) simp
next
  case (run_step s s')
  thus ?case
    by (simp add: eq_step_ok)
next
  case (run_one s r s')
  thus ?case
    using serviceOne_ok [of s process r s'] h by blast
next
  case (run_events s t s')
  have "curTick s' = t \<and> (\<exists>bs. eq_inv s' bs \<and> (\<forall>x\<in>set (bin_events bs). t < fst (fst x)))"
    using run_events(2,3) h by (rule serviceEvents_partial)
  thus ?case
    unfolding eq_ok_def by (meson less_imp_le)
next
  case (run_time s t)
  thus ?case
    by (intro setCurTick_ok)
qed

text \<open>
  C14: In every state that a simulation reaches from an empty queue by creating, squashing, scheduling,
  descheduling and rescheduling events, merging asynchronous insertions that are not late, servicing events one by one or
  up to a tick, and setting the clock to at most the next event, the linked structure is a sorted list of
  bins, an event is flagged as scheduled exactly when it is queued, and no event in the bins lies in the
  past.  The handlers may do anything that these operations on events do.
\<close>

theorem reachable_queue_ok:
  assumes "eq_run process s" and "\<And>p s s'. process p s = Some s' \<Longrightarrow> eq_step\<^sup>*\<^sup>* s s'"
  shows "\<exists>bs. eq_inv s bs \<and> (\<forall>x\<in>set (bin_events bs). curTick s \<le> fst (fst x))"
  using eq_run_ok [OF assms] by (simp add: eq_ok_def)

text \<open>
  \<open>schedule\<close> on the owning thread adds the event to the bin of its time and priority, on top
  of the events already there, and \<open>deschedule\<close> takes exactly that event out again: the bins are
  those from before.
\<close>

theorem schedule_deschedule_roundtrip:
  assumes inv: "eq_inv s bs" and e: "heap s p = Some e" "\<not> scheduled e" "initialized e"
    and t: "curTick s \<le> t" and m: "\<not> inParallelMode s"
  shows "\<exists>s1 s2. schedule p t False s = Some s1 \<and> eq_inv s1 (ins_bins (t, sint (ev_priority e)) p bs) \<and>
    deschedule p s1 = Some s2 \<and> eq_inv s2 bs"
proof -
  let ?k = "(t, sint (ev_priority e))"
  from schedule_cases [OF inv e(1) t e(2,3), of False] m obtain s1 e1 where s1: "schedule p t False s = Some s1"
    "eq_inv s1 (ins_bins ?k p bs)" "heap s1 p = Some e1" "ev_flags e1 = flags_set (ev_flags e) Scheduled"
    "key_of e1 = ?k" "\<not> inParallelMode s1"
    by auto
  have "initialized e1"
    using e(3) s1(4) by (simp add: initialized_def flags_set_init)
  from deschedule_cases [OF s1(2,3) _ this] s1(5,6) obtain s2 where "deschedule p s1 = Some s2"
    "eq_inv s2 (rem_bins ?k p (ins_bins ?k p bs))"
    by auto
  moreover have "rem_bins ?k p (ins_bins ?k p bs) = bs"
    using inv eq_inv_bin_D [OF inv, of p] e(1,2) by (intro rem_ins_bins) (auto simp: eq_inv_def eq_rep_def)
  ultimately show ?thesis
    using s1(1,2) by auto
qed

definition due :: "tick \<Rightarrow> bins \<Rightarrow> nat"
  where "due t bs = length (filter (\<lambda>x. fst (fst x) \<le> t) (bin_events bs))"

text \<open>
  The run of \<open>serviceEvents(t)\<close> from a state, event by event, and what it needs of the handler of the next
  event that is due and not squashed: the handler returns with a valid queue in which no more events
  are due by \<open>t\<close> than when it was called, the event still exists, and an exit event is not a managed one of the main
  queue, as the code asserts.
\<close>

definition service_step :: "(event_ptr \<Rightarrow> eqstate \<Rightarrow> eqstate option) \<Rightarrow> tick \<Rightarrow> eqstate \<Rightarrow> eqstate \<Rightarrow> bool"
  where "service_step process t s s' \<longleftrightarrow>
    (\<exists>nt r. nextTick s = Some nt \<and> nt \<le> t \<and> serviceOne process s = Some (r, s'))"

definition handler_returns :: "(event_ptr \<Rightarrow> eqstate \<Rightarrow> eqstate option) \<Rightarrow> tick \<Rightarrow> eqstate \<Rightarrow> bool"
  where "handler_returns process t s \<longleftrightarrow> (\<forall>p s1 e bs1. pop_head s = Some (p, s1) \<longrightarrow> heap s1 p = Some e \<longrightarrow>
    ev_when e \<le> t \<longrightarrow> \<not> squashed e \<longrightarrow> eq_inv s1 bs1 \<longrightarrow>
    (\<exists>s2 bs2 e2. process p (s1\<lparr>curTick := ev_when e\<rparr>) = Some s2 \<and> eq_inv s2 bs2 \<and> due t bs2 \<le> due t bs1 \<and>
      heap s2 p = Some e2 \<and> \<not> (isExitEvent e2 \<and> isManaged e2 \<and> isSet (ev_flags e2) IsMainQueue)))"

lemma due_mset: "due t bs = size (filter_mset (\<lambda>x. fst (fst x) \<le> t) (mset (bin_events bs)))"
  by (simp add: due_def flip: mset_filter)

lemma due_removed:
  assumes "mset (bin_events bs') = mset (bin_events bs) - {#(k, p)#}" "(k, p) \<in> set (bin_events bs)" "fst k \<le> t"
  shows "due t bs' < due t bs"
proof -
  have "mset (bin_events bs) = add_mset (k, p) (mset (bin_events bs'))"
    using assms(1,2) by simp
  thus ?thesis
    using assms(3) by (simp add: due_mset)
qed

lemma serviceOne_returns:
  assumes inv: "eq_inv s bs" "bs \<noteq> []" and h: "handler_returns process t s" and nt: "nextTick s = Some nt" "nt \<le> t"
  shows "\<exists>r s' bs'. serviceOne process s = Some (r, s') \<and> eq_inv s' bs' \<and> due t bs' < due t bs"
proof -
  from eq_pop_least [OF inv] obtain k p s1 where p: "pop_head s = Some (p, s1)" "(k, p) \<in> set (bin_events bs)"
    "\<forall>x\<in>set (bin_events bs). k \<le> fst x" "eq_inv s1 (rem_bins k p bs)"
    "mset (bin_events (rem_bins k p bs)) = mset (bin_events bs) - {#(k, p)#}"
    by blast
  obtain k' q b bs0 where b: "bs = (k', q # b) # bs0"
    using bins_head [OF inv] by metis
  from pop_head_cases [OF inv(1) [unfolded b]] p(1) obtain e e1 where e1: "heap s p = Some e" "key_of e = k'" "heap s1 p = Some e1" "\<not> scheduled e1"
    "ev_when e1 = ev_when e"
    by auto
  have hd: "head s = Some p"
    using p(1) by (auto simp: pop_head_def bind_eq_Some_conv Let_def split: option.splits)
  hence w: "ev_when e1 \<le> t"
    using nt e1(1,5) by (simp add: nextTick_def)
  have "(k', q) \<in> set (bin_events bs)"
    using b by simp
  hence kt: "fst k \<le> t"
    using p(3) w e1(2,5) by (force simp: key_of_def less_eq_prod_def)
  have "\<exists>r s' bs'. serviceOne process s = Some (r, s') \<and> eq_inv s' bs' \<and> due t bs' \<le> due t (rem_bins k p bs)"
  proof (cases "squashed e1")
    case True
    let ?f = "\<lambda>f. flags_clear f Squashed"
    obtain s2 where s2: "set_flags_of ?f p s1 = Some s2"
      "heap s2 p = Some (e1\<lparr>ev_flags := flags_clear (ev_flags e1) Squashed\<rparr>)"
      using e1(3) by (simp add: set_flags_of_def)
    have ns: "\<not> isSet (flags_clear (ev_flags e1) Squashed) Scheduled"
      using e1(4) by (simp add: scheduled_def)
    from set_flags_keeps [OF p(4) e1(3) _ s2(1)] have "eq_inv s2 (rem_bins k p bs)"
      by (simp add: scheduled_def)
    from release_inv [OF this s2(2)] ns obtain s3 where "release p s2 = Some s3" "eq_inv s3 (rem_bins k p bs)"
      by (auto simp: scheduled_def)
    with True p(1) e1(3) s2(1) show ?thesis
      by (auto simp: serviceOne_def)
  next
    case False
    with h p(1,4) e1(3) w obtain s2 bs2 e2 where s2: "process p (s1\<lparr>curTick := ev_when e1\<rparr>) = Some s2" "eq_inv s2 bs2"
      "due t bs2 \<le> due t (rem_bins k p bs)" "heap s2 p = Some e2" "\<not> (isExitEvent e2 \<and> isManaged e2 \<and> isSet (ev_flags e2) IsMainQueue)"
      unfolding handler_returns_def by blast
    obtain s3 where s3: "release p s2 = Some s3" "eq_inv s3 bs2"
      using release_inv [OF s2(2,4)] s2(2,4) by (cases "scheduled e2") (auto simp: release_def)
    show ?thesis
    proof (cases "isExitEvent e2")
      case True
      with False p(1) e1(3) s2 show ?thesis
        by (auto simp: serviceOne_def)
    next
      case notexit: False
      with False p(1) e1(3) s2(1,3,4) s3 show ?thesis
        by (auto simp: serviceOne_def)
    qed
  qed
  with due_removed [OF p(5,2) kt] show ?thesis
    by (meson le_less_trans)
qed

text \<open>
  C22: One call of \<open>serviceOne\<close> services the event that is least by time and priority: it takes exactly
  this event out of the queue, drops it without moving the clock if it is squashed, and otherwise runs
  its handler on the queue without it, with the clock at its time.  The queue afterwards is the one the
  handler left, the clock has not moved back, and no event is in the past, whatever the handler schedules
  through the operations above.
\<close>

theorem serviceOne_in_order:
  assumes ok: "eq_ok s" and sv: "serviceOne process s = Some (r, s')"
    and h: "\<And>p s s'. process p s = Some s' \<Longrightarrow> eq_step\<^sup>*\<^sup>* s s'"
  shows "\<exists>bs k p. eq_inv s bs \<and> (k, p) \<in> set (bin_events bs) \<and> (\<forall>x\<in>set (bin_events bs). k \<le> fst x) \<and>
    serviced process s bs k p r s' \<and> eq_ok s' \<and> curTick s \<le> curTick s'"
proof -
  from ok obtain bs where inv: "eq_inv s bs"
    by (auto simp: eq_ok_def)
  from serviceOne_serviced [OF inv sv] obtain k p where "(k, p) \<in> set (bin_events bs)" "\<forall>x\<in>set (bin_events bs). k \<le> fst x"
    "serviced process s bs k p r s'" .
  moreover have "eq_ok s' \<and> curTick s \<le> curTick s'"
    using ok sv h by (rule serviceOne_ok)
  ultimately show ?thesis
    using inv by blast
qed

text \<open>
  C23: \<open>serviceEvents(t)\<close> returns when every handler it comes to returns with a valid queue and with no more
  events due by \<open>t\<close> than it was called with; then the clock shows \<open>t\<close> and no event at or before \<open>t\<close> is
  left.
\<close>

theorem serviceEvents_returns:
  assumes "eq_inv s bs" "\<And>s1. (service_step process t)\<^sup>*\<^sup>* s s1 \<Longrightarrow> handler_returns process t s1"
  shows "\<exists>s' bs'. serviceEvents process t s = Some s' \<and> curTick s' = t \<and> eq_inv s' bs' \<and> due t bs' = 0"
  using assms
proof (induction "due t bs" arbitrary: s bs rule: less_induct)
  case less
  show ?case
  proof (cases "bs = []")
    case True
    with less.prems(1) have "serviceEvents process t s = Some (setCurTick t s)"
      by (subst serviceEvents.simps) (simp add: eq_empty_def eq_inv_fresh)
    with True less.prems(1) show ?thesis
      by (auto simp: setCurTick_def eq_inv_set_time due_def intro!: exI [of _ "[]"])
  next
    case False
    obtain k0 q b bs0 where b: "bs = (k0, q # b) # bs0" "bins_ok ((k0, q # b) # bs0)"
      using bins_head [OF less.prems(1) False] .
    have "bin_seg (heap s) (head s) ((k0, q # b) # bs0) None"
      using less.prems(1) b(1) by (simp add: eq_inv_def eq_rep_def)
    then obtain e where "head s = Some q" "heap s q = Some e" "key_of e = k0"
      by (rule bin_seg_Cons_D) simp
    hence nt: "nextTick s = Some (fst k0)" "\<not> eq_empty s"
      by (auto simp: nextTick_def eq_empty_def key_of_def)
    show ?thesis
    proof (cases "fst k0 \<le> t")
      case True
      have "handler_returns process t s"
        by (rule less.prems(2)) simp
      from serviceOne_returns [OF less.prems(1) False this nt(1) True] obtain r s1 bs1 where s1:
        "serviceOne process s = Some (r, s1)" "eq_inv s1 bs1" "due t bs1 < due t bs"
        by blast
      have "service_step process t s s1"
        using nt(1) True s1(1) by (auto simp: service_step_def)
      hence "handler_returns process t s2" if "(service_step process t)\<^sup>*\<^sup>* s1 s2" for s2
        using that less.prems(2) by (meson converse_rtranclp_into_rtranclp)
      from less.hyps [OF s1(3,2) this] obtain s' bs' where "serviceEvents process t s1 = Some s'" "curTick s' = t" "eq_inv s' bs'" "due t bs' = 0"
        by blast
      moreover have "\<not> t < fst k0"
        using True by (simp add: not_less)
      hence "serviceEvents process t s = serviceEvents process t s1"
        using nt s1(1) by (subst serviceEvents.simps) simp
      ultimately show ?thesis
        by auto
    next
      case late: False
      hence "t < fst k0"
        by (simp add: not_le)
      hence "serviceEvents process t s = Some (setCurTick t s)"
        using nt by (subst serviceEvents.simps) simp
      moreover have "t < fst (fst x)" if "x \<in> set (bin_events bs)" for x
        using bin_head_least [OF b(2), of "fst x" "snd x"] that b(1) late by (auto simp: less_eq_prod_def)
      hence "due t bs = 0"
        by (fastforce simp: due_def filter_empty_conv)
      ultimately show ?thesis
        using less.prems(1) by (auto simp: setCurTick_def eq_inv_set_time intro!: exI [of _ bs])
    qed
  qed
qed

text \<open>
  \<open>debugVerify\<close> on a valid queue returns, and accepts it unless the first event is at tick 0
  with a negative priority: the scan starts from time 0 and priority 0, so it reports such a valid
  queue as inverted.
\<close>

theorem debugVerify_exact:
  assumes "eq_inv s bs"
  shows "debugVerify s = Some (bs = [] \<or> (0, 0) \<le> fst (hd bs))"
proof (cases "bs = [] \<or> (0, 0) \<le> fst (hd bs)")
  case True
  with assms verify_bins_ok [of "heap s" "head s" bs 0 0 "[]"] show ?thesis
    by (simp add: debugVerify_def eq_inv_def eq_rep_def)
next
  case False
  then obtain k b bs' where b: "bs = (k, b) # bs'" "k < (0, 0)"
    by (metis list.exhaust list.sel(1) linorder_not_le surj_pair fst_conv)
  with False assms verify_bins_inverted [of "heap s" "head s" k b bs' 0 0 "[]"] show ?thesis
    by (simp add: debugVerify_def eq_inv_def eq_rep_def)
qed

text \<open>
  Restoring the checkpoint of an event that was pending clears its flag \<open>Scheduled\<close>, so
  \<open>checkpointReschedule\<close>, which the comments say re-inserts the events that were scheduled, leaves
  the queue as it is.
\<close>

theorem checkpoint_drops_pending:
  assumes "scheduled e" "\<not> squashed e" "\<not> scheduled e0" "initialized e0"
  shows "\<exists>e'. unserialize (serialize e) e0 = Some e' \<and> ev_when e' = ev_when e \<and> ev_priority e' = ev_priority e \<and>
    checkpointReschedule p (s\<lparr>heap := (heap s)(p \<mapsto> e')\<rparr>) = Some (s\<lparr>heap := (heap s)(p \<mapsto> e')\<rparr>)"
proof -
  let ?fl = "flags_set (ev_flags e) Initialized"
  have b: "bit Scheduled 1" "\<not> bit Initialized 1" "\<not> bit Initialized 0"
    by (simp_all add: flag_consts bit_iff_odd)
  have "isSet ?fl Scheduled" "\<not> isSet ?fl Squashed"
    using assms(1,2) b unfolding scheduled_def squashed_def isSet_bit flags_set_def bit_or_iff by simp_all
  moreover have "\<not> isSet (flags_clear ?fl (Squashed OR Scheduled)) Scheduled"
    using b unfolding isSet_bit flags_clear_def bit_and_iff bit_not_iff_eq bit_or_iff by simp
  ultimately show ?thesis
    using assms(3,4) by (simp add: unserialize_def serialize_def checkpointReschedule_def)
qed

section \<open>Concrete runs\<close>

text \<open>
  Two events, one with priority 0 and one with priority 5, and a queue that holds none of them.
\<close>

definition run_event :: "u8 \<Rightarrow> event"
  where "run_event pri = \<lparr>nextBin = None, nextInBin = None, ev_when = 0, ev_priority = pri,
    ev_flags = Initialized, ev_queue = None\<rparr>"

definition run_state :: eqstate
  where "run_state = eq_init 0 [1 \<mapsto> run_event 0, 2 \<mapsto> run_event 5] 0 False"

lemma run_event_idle [simp]: "\<not> scheduled (run_event x)" "initialized (run_event x)" "ev_priority (run_event x) = x"
  by (simp_all add: run_event_def scheduled_def initialized_def flag_ops flag_consts)

lemma run_state_simps [simp]:
  "heap run_state 1 = Some (run_event 0)" "heap run_state (Suc 0) = Some (run_event 0)"
  "heap run_state 2 = Some (run_event 5)" "curTick run_state = 0"
  "inParallelMode run_state = False" "this_queue run_state = 0" "async_queue run_state = []"
  by (simp_all add: run_state_def eq_init_def)

lemma run_state_inv: "eq_inv run_state []"
  unfolding eq_inv_fresh by (simp add: run_state_def eq_init_def on_queue_def)

definition run_order :: "(ev_key \<times> event_ptr) list"
  where "run_order = [((20, 0), 1), ((10, 5), 2)]"

theorem schedule_then_service_sorted_witness:
  "eq_inv run_state [] \<and> (\<exists>s' ys. enter_all schedule_key run_order run_state = Some s' \<and>
    service_order pop_head (length run_order) s' = Some (map snd ys) \<and> sorted (map fst ys) \<and> mset ys = mset run_order)"
proof
  show "\<exists>s' ys. enter_all schedule_key run_order run_state = Some s' \<and>
    service_order pop_head (length run_order) s' = Some (map snd ys) \<and> sorted (map fst ys) \<and> mset ys = mset run_order"
    by (rule schedule_then_service_sorted [OF run_state_inv]) (auto simp: eq_idle_def run_order_def)
qed (rule run_state_inv)

theorem schedule_deschedule_roundtrip_witness:
  "heap run_state 2 = Some (run_event 5) \<and>
   (\<exists>s1 s2. schedule 2 7 False run_state = Some s1 \<and> eq_inv s1 (ins_bins (7, sint (ev_priority (run_event 5))) 2 []) \<and>
    deschedule 2 s1 = Some s2 \<and> eq_inv s2 [])"
  using schedule_deschedule_roundtrip [OF run_state_inv, of 2 "run_event 5" 7] by simp

text \<open>
  A handler that schedules event 2 at tick 30 when event 1 is processed.
\<close>

definition run_handler :: "event_ptr \<Rightarrow> eqstate \<Rightarrow> eqstate option"
  where "run_handler p s = (if p = 1 then schedule 2 30 False s else Some s)"

lemma run_handler_steps: "run_handler p s = Some s' \<Longrightarrow> eq_step\<^sup>*\<^sup>* s s'"
  by (auto simp: run_handler_def intro: eq_step.step_schedule split: if_splits)

definition run_pending :: eqstate
  where "run_pending = the (schedule 1 20 False run_state)"

lemma run_pending_inv: "schedule 1 20 False run_state = Some run_pending" "eq_inv run_pending [((20, 0), [1])]"
  "curTick run_pending = 0"
  using schedule_cases [OF run_state_inv, of 1 "run_event 0" 20 False] by (auto simp: run_pending_def)

lemma run_pending_ok: "eq_ok run_pending"
  using run_pending_inv(2) by (rule eq_okI) (simp add: run_pending_inv(3))

definition run_served :: eqstate
  where "run_served = snd (the (serviceOne run_handler run_pending))"

lemma run_pending_serves: "serviceOne run_handler run_pending = Some (None, run_served)"
proof -
  have "serviceOne run_handler run_pending \<noteq> None" "fst (the (serviceOne run_handler run_pending)) = None"
    by code_simp+
  thus ?thesis
    by (auto simp: run_served_def)
qed

lemma run_served_next: "nextTick run_served = Some 30" "head run_served = Some 2" "curTick run_served = 20"
  by code_simp+

lemma run_state_run: "eq_run process run_state"
proof -
  let ?s = "eq_init 0 Map.empty 0 False"
  let ?s1 = "?s\<lparr>heap := (heap ?s)(1 \<mapsto> run_event 0)\<rparr>"
  have n: "new_event x 0 = Some (run_event x)" for x
    by (simp add: new_event_def noneSet_def run_event_def)
  have 1: "eq_step ?s ?s1"
    by (rule eq_step.step_new [OF _ n]) (simp add: eq_init_def)
  have 2: "eq_step ?s1 (?s1\<lparr>heap := (heap ?s1)(2 \<mapsto> run_event 5)\<rparr>)"
    by (rule eq_step.step_new [OF _ n]) (simp add: eq_init_def)
  have "?s1\<lparr>heap := (heap ?s1)(2 \<mapsto> run_event 5)\<rparr> = run_state"
    by (simp add: run_state_def eq_init_def)
  with run_step [OF run_step [OF run_init 1] 2] show ?thesis
    by simp
qed

lemma run_served_run: "eq_run run_handler run_served"
  using run_step [OF run_state_run eq_step.step_schedule [OF run_pending_inv(1)]] run_pending_serves by (rule run_one)

theorem reachable_queue_ok_witness:
  "eq_run run_handler run_served \<and> curTick run_served = 20 \<and> head run_served = Some 2 \<and> nextTick run_served = Some 30 \<and>
    (\<exists>bs. eq_inv run_served bs \<and> (\<forall>x\<in>set (bin_events bs). curTick run_served \<le> fst (fst x)))"
proof -
  have "\<exists>bs. eq_inv run_served bs \<and> (\<forall>x\<in>set (bin_events bs). curTick run_served \<le> fst (fst x))"
    using run_served_run run_handler_steps by (rule reachable_queue_ok)
  with run_served_run run_served_next show ?thesis
    by blast
qed

theorem serviceOne_in_order_witness:
  "eq_ok run_pending \<and> serviceOne run_handler run_pending = Some (None, run_served) \<and>
    (\<exists>bs k p. eq_inv run_pending bs \<and> (k, p) \<in> set (bin_events bs) \<and> (\<forall>x\<in>set (bin_events bs). k \<le> fst x) \<and>
      serviced run_handler run_pending bs k p None run_served \<and> eq_ok run_served \<and> curTick run_pending \<le> curTick run_served)"
proof -
  have "\<exists>bs k p. eq_inv run_pending bs \<and> (k, p) \<in> set (bin_events bs) \<and> (\<forall>x\<in>set (bin_events bs). k \<le> fst x) \<and>
      serviced run_handler run_pending bs k p None run_served \<and> eq_ok run_served \<and> curTick run_pending \<le> curTick run_served"
    using run_pending_ok run_pending_serves run_handler_steps by (rule serviceOne_in_order)
  with run_pending_serves run_pending_ok show ?thesis
    by blast
qed

text \<open>
  Up to tick 25 the run from \<open>run_pending\<close> services event 1, whose handler schedules event 2 at tick 30, and
  ends.
\<close>

lemma run_pending_next: "nextTick run_pending = Some 20"
  by code_simp

lemma run_pending_steps: "(service_step run_handler 25)\<^sup>*\<^sup>* run_pending s \<Longrightarrow> s = run_pending \<or> s = run_served"
proof (induction rule: rtranclp_induct)
  case (step y z)
  thus ?case
    using run_pending_serves run_served_next(1) by (auto simp: service_step_def)
qed simp

definition run_popped :: eqstate
  where "run_popped = snd (the (pop_head run_pending))\<lparr>curTick := 20\<rparr>"

lemma run_popped_facts:
  "case heap run_popped 2 of Some e \<Rightarrow> \<not> scheduled e \<and> initialized e \<and> ev_priority e = 5 | None \<Rightarrow> False"
  "curTick run_popped = 20" "inParallelMode run_popped = False"
  "case pop_head run_pending of Some (p, s1) \<Rightarrow> p = 1 \<and> map_option ev_when (heap s1 1) = Some 20 | None \<Rightarrow> False"
  "case Option.bind (schedule 2 30 False run_popped) (\<lambda>s. heap s 1) of Some e \<Rightarrow> \<not> isExitEvent e | None \<Rightarrow> False"
  by code_simp+

lemma run_popped_handler:
  assumes "eq_inv run_popped bs"
  shows "\<exists>s2 bs2 e2. run_handler 1 run_popped = Some s2 \<and> eq_inv s2 bs2 \<and> due 25 bs2 \<le> due 25 bs \<and>
    heap s2 1 = Some e2 \<and> \<not> isExitEvent e2"
proof -
  from run_popped_facts(1) obtain e where e: "heap run_popped 2 = Some e" "\<not> scheduled e" "initialized e"
    by (auto split: option.splits)
  from schedule_cases [OF assms e(1) _ e(2,3), of 30 False] run_popped_facts(2,3) obtain s2 where s2:
    "schedule 2 30 False run_popped = Some s2" "eq_inv s2 (ins_bins (30, sint (ev_priority e)) 2 bs)"
    by auto
  have "due 25 (ins_bins (30, sint (ev_priority e)) 2 bs) = due 25 bs"
    by (simp add: due_mset ins_bins_events)
  with s2 run_popped_facts(5) show ?thesis
    by (auto simp: run_handler_def split: option.splits)
qed

lemma run_pending_returns: "handler_returns run_handler 25 run_pending"
  unfolding handler_returns_def
proof (intro allI impI)
  fix p s1 e bs1
  assume a: "pop_head run_pending = Some (p, s1)" "heap s1 p = Some e" "eq_inv s1 bs1"
  hence p: "p = 1" "ev_when e = 20" "run_popped = s1\<lparr>curTick := 20\<rparr>"
    using run_popped_facts(4) by (auto simp: run_popped_def)
  from a(3) have "eq_inv run_popped bs1"
    unfolding p(3) by (simp add: eq_inv_set_time)
  from run_popped_handler [OF this] p show "\<exists>s2 bs2 e2. run_handler p (s1\<lparr>curTick := ev_when e\<rparr>) = Some s2 \<and> eq_inv s2 bs2 \<and>
      due 25 bs2 \<le> due 25 bs1 \<and> heap s2 p = Some e2 \<and> \<not> (isExitEvent e2 \<and> isManaged e2 \<and> isSet (ev_flags e2) IsMainQueue)"
    by auto
qed

lemma run_served_returns: "handler_returns run_handler 25 run_served"
proof -
  have "case pop_head run_served of Some (p, s1) \<Rightarrow> map_option ev_when (heap s1 p) = Some 30 | None \<Rightarrow> True"
    by code_simp
  thus ?thesis
    by (auto simp: handler_returns_def)
qed

theorem serviceEvents_returns_witness:
  "eq_inv run_pending [((20, 0), [1])] \<and> handler_returns run_handler 25 run_pending \<and> handler_returns run_handler 25 run_served \<and>
    (\<exists>s' bs'. serviceEvents run_handler 25 run_pending = Some s' \<and> curTick s' = 25 \<and> eq_inv s' bs' \<and> due 25 bs' = 0)"
proof -
  have h: "handler_returns run_handler 25 s1" if "(service_step run_handler 25)\<^sup>*\<^sup>* run_pending s1" for s1
    using run_pending_steps [OF that] run_pending_returns run_served_returns by auto
  from serviceEvents_returns [OF run_pending_inv(2) h] run_pending_inv(2) run_pending_returns run_served_returns show ?thesis
    by blast
qed

definition run_early :: eqstate
  where "run_early = the (schedule 1 0 False (eq_init 0 [1 \<mapsto> run_event 255] 0 False))"

lemma run_early_inv: "eq_inv run_early [((0, -1), [1])]"
proof -
  have "eq_inv (eq_init 0 [1 \<mapsto> run_event 255] 0 False) []"
    unfolding eq_inv_fresh by (simp add: eq_init_def on_queue_def)
  moreover have "sint (255 :: u8) = - 1"
    by simp
  ultimately show ?thesis
    using schedule_cases [of "eq_init 0 [1 \<mapsto> run_event 255] 0 False" "[]" 1 "run_event 255" 0 False]
    by (auto simp: run_early_def eq_init_def)
qed

theorem debugVerify_exact_witness: "debugVerify run_pending = Some True \<and> debugVerify run_early = Some False"
  using debugVerify_exact [OF run_pending_inv(2)] debugVerify_exact [OF run_early_inv]
  by (simp add: less_eq_prod_def)

theorem checkpoint_drops_pending_witness:
  "scheduled (run_event 0\<lparr>ev_flags := Initialized OR Scheduled\<rparr>) \<and>
   (\<exists>e'. unserialize (serialize (run_event 0\<lparr>ev_flags := Initialized OR Scheduled\<rparr>)) (run_event 0) = Some e' \<and>
    ev_when e' = ev_when (run_event 0\<lparr>ev_flags := Initialized OR Scheduled\<rparr>) \<and>
    ev_priority e' = ev_priority (run_event 0\<lparr>ev_flags := Initialized OR Scheduled\<rparr>) \<and>
    checkpointReschedule 1 (run_state\<lparr>heap := (heap run_state)(1 \<mapsto> e')\<rparr>) = Some (run_state\<lparr>heap := (heap run_state)(1 \<mapsto> e')\<rparr>))"
proof -
  let ?e = "run_event 0\<lparr>ev_flags := Initialized OR Scheduled\<rparr>"
  have "scheduled ?e" "\<not> squashed ?e"
    by (simp_all add: scheduled_def squashed_def flag_ops flag_consts)
  from checkpoint_drops_pending [OF this, of "run_event 0" 1 run_state] this(1) show ?thesis
    by simp
qed

end
