(* ===== verification/PageTable.thy ===== *)
theory PageTable
  imports Prelude
begin

text \<open>
  The page tables of the teaching kernel (\<open>Assignments/assignment1/context_mm.c\<close>): building the
  four-level tables of a context for its stack, code and data page, and tearing them down.
  Physical memory is a map from the address of an 8-byte cell to its contents.  The frame
  allocator (\<open>os_pfn_alloc\<close>, \<open>os_pfn_free\<close>) and the mapping of frames into the kernel
  (\<open>osmap\<close>) are object files of the course; they are the fields of the record \<open>kos\<close>, which
  every operation takes as a parameter.
\<close>

section \<open>Definitions\<close>

definition OS_PT_REG :: u32 where "OS_PT_REG = 1"
definition USER_REG :: u32 where "USER_REG = 2"
definition MM_WR :: u32 where "MM_WR = 2"

definition MM_SEG_CODE :: nat where "MM_SEG_CODE = 0"
definition MM_SEG_RODATA :: nat where "MM_SEG_RODATA = 1"
definition MM_SEG_DATA :: nat where "MM_SEG_DATA = 2"
definition MM_SEG_STACK :: nat where "MM_SEG_STACK = 3"

record mm_segment =
  seg_start :: u64
  seg_end :: u64
  access_flags :: u32

record exec_context =
  pgd :: u32
  mms :: "nat \<Rightarrow> mm_segment"
  arg_pfn :: u32

record 'a kos =
  osmap :: "u64 \<Rightarrow> u64"
  os_pfn_alloc :: "u32 \<Rightarrow> 'a \<Rightarrow> u32 \<times> 'a"
  os_pfn_free :: "u32 \<Rightarrow> u64 \<Rightarrow> 'a \<Rightarrow> 'a option"
  free_pages :: "u32 \<Rightarrow> 'a \<Rightarrow> nat"

type_synonym memory = "u64 \<Rightarrow> u64"

record 'a kstate =
  kmem :: memory
  kalloc :: 'a

definition cell_ptr :: "u64 \<Rightarrow> u64 \<Rightarrow> u64"
  where "cell_ptr base i = base + 8 * i"

definition initialize_page :: "u64 \<Rightarrow> memory \<Rightarrow> memory"
  where "initialize_page v m = fold (\<lambda>i m. m(cell_ptr v (of_nat i) := 0)) [0..<512] m"

definition page_entry :: "u64 \<Rightarrow> u32 \<Rightarrow> u64"
  where "page_entry frame flags =
    (let e = push_bit 9 frame;
         e = push_bit 1 e + 1;
         e = push_bit 1 e + ucast (drop_bit 1 (flags AND MM_WR))
     in push_bit 1 e + 1)"

definition assign_page_table_page :: "'a kos \<Rightarrow> u64 \<Rightarrow> u32 \<Rightarrow> 'a kstate \<Rightarrow> u64 \<times> 'a kstate"
  where "assign_page_table_page os p flags s =
    (if kmem s p AND 1 \<noteq> 0 then (osmap os (drop_bit 12 (kmem s p)), s)
     else (case os_pfn_alloc os OS_PT_REG (kalloc s) of (f, a) \<Rightarrow>
       (let m = (kmem s)(p := page_entry (ucast f) flags);
            v = osmap os (ucast f)
        in (v, \<lparr>kmem = initialize_page v m, kalloc = a\<rparr>))))"

definition assign_data_page :: "'a kos \<Rightarrow> u64 \<Rightarrow> u32 \<Rightarrow> u32 \<Rightarrow> 'a kstate \<Rightarrow> 'a kstate"
  where "assign_data_page os p flags pfn s =
    (if kmem s p AND 1 \<noteq> 0 then s
     else (case (if pfn = 0 then os_pfn_alloc os USER_REG (kalloc s) else (pfn, kalloc s)) of (f, a) \<Rightarrow>
       \<lparr>kmem = (kmem s)(p := page_entry (ucast f) flags), kalloc = a\<rparr>))"

definition l4_index :: "u64 \<Rightarrow> u64" where "l4_index a = drop_bit 39 (a AND 0xff8000000000)"
definition l3_index :: "u64 \<Rightarrow> u64" where "l3_index a = drop_bit 30 (a AND 0x007fc0000000)"
definition l2_index :: "u64 \<Rightarrow> u64" where "l2_index a = drop_bit 21 (a AND 0x00003fe00000)"
definition l1_index :: "u64 \<Rightarrow> u64" where "l1_index a = drop_bit 12 (a AND 0x0000001ff000)"

definition assign_page_table_pages :: "'a kos \<Rightarrow> u64 \<Rightarrow> u64 \<Rightarrow> u32 \<Rightarrow> 'a kstate \<Rightarrow> u64 \<times> 'a kstate"
  where "assign_page_table_pages os l4 a flags s =
    (let (l3, s) = assign_page_table_page os (cell_ptr l4 (l4_index a)) flags s;
         (l2, s) = assign_page_table_page os (cell_ptr l3 (l3_index a)) flags s;
         (l1, s) = assign_page_table_page os (cell_ptr l2 (l2_index a)) flags s
     in (cell_ptr l1 (l1_index a), s))"

definition map_page :: "'a kos \<Rightarrow> u64 \<Rightarrow> u64 \<Rightarrow> u32 \<Rightarrow> u32 \<Rightarrow> 'a kstate \<Rightarrow> 'a kstate"
  where "map_page os l4 a flags pfn s =
    (let (p, s) = assign_page_table_pages os l4 a flags s in assign_data_page os p flags pfn s)"

definition prepare_context_mm :: "'a kos \<Rightarrow> exec_context \<Rightarrow> 'a kstate \<Rightarrow> exec_context \<times> 'a kstate"
  where "prepare_context_mm os ctx s =
    (let stack = mms ctx MM_SEG_STACK; code = mms ctx MM_SEG_CODE; data = mms ctx MM_SEG_DATA;
         (f, a) = os_pfn_alloc os OS_PT_REG (kalloc s);
         ctx = ctx\<lparr>pgd := f\<rparr>;
         l4 = osmap os (ucast f);
         s = \<lparr>kmem = initialize_page l4 (kmem s), kalloc = a\<rparr>;
         s = map_page os l4 (seg_end stack - 0x1000) (access_flags stack) 0 s;
         s = map_page os l4 (seg_start code) (access_flags code) 0 s;
         s = map_page os l4 (seg_start data) (access_flags data) (arg_pfn ctx) s
     in (ctx, s))"

definition exist_in_array :: "u64 list \<Rightarrow> u64 \<Rightarrow> bool"
  where "exist_in_array arr f \<longleftrightarrow> list_ex (\<lambda>x. x = f) arr"

definition add_new :: "u64 \<Rightarrow> u64 list \<Rightarrow> u64 list"
  where "add_new f arr = (if exist_in_array arr f then arr else arr @ [f])"

definition add_pages_to_array :: "memory \<Rightarrow> u64 \<Rightarrow> u64 \<Rightarrow> u64 list \<Rightarrow> u64 \<times> u64 list"
  where "add_pages_to_array m l4 a arr =
    (let l3_pfn = drop_bit 12 (m (cell_ptr l4 (l4_index a)));
         l2_pfn = drop_bit 12 (m (cell_ptr (push_bit 12 l3_pfn) (l3_index a)));
         l1_pfn = drop_bit 12 (m (cell_ptr (push_bit 12 l2_pfn) (l2_index a)));
         data_pfn = drop_bit 12 (m (cell_ptr (push_bit 12 l1_pfn) (l1_index a)))
     in (data_pfn, add_new l1_pfn (add_new l2_pfn (add_new l3_pfn arr))))"

primrec free_all :: "'a kos \<Rightarrow> u32 \<Rightarrow> u64 list \<Rightarrow> 'a \<Rightarrow> 'a option"
  where
    "free_all os reg [] a = Some a"
  | "free_all os reg (f # fs) a = do { a' \<leftarrow> os_pfn_free os reg f a; free_all os reg fs a' }"

definition cleanup_context_mm :: "'a kos \<Rightarrow> exec_context \<Rightarrow> 'a kstate \<Rightarrow> 'a kstate option"
  where "cleanup_context_mm os ctx s =
    (let stack = mms ctx MM_SEG_STACK; code = mms ctx MM_SEG_CODE; data = mms ctx MM_SEG_DATA;
         frame = ucast (pgd ctx);
         l4 = push_bit 12 frame;
         (stack_pfn, arr) = add_pages_to_array (kmem s) l4 (seg_end stack - 0x1000) [frame];
         (code_pfn, arr) = add_pages_to_array (kmem s) l4 (seg_start code) arr;
         (data_pfn, arr) = add_pages_to_array (kmem s) l4 (seg_start data) arr
     in do {
       a \<leftarrow> free_all os OS_PT_REG arr (kalloc s);
       a \<leftarrow> os_pfn_free os USER_REG stack_pfn a;
       a \<leftarrow> os_pfn_free os USER_REG code_pfn a;
       a \<leftarrow> os_pfn_free os USER_REG data_pfn a;
       Some (s\<lparr>kalloc := a\<rparr>) })"

section \<open>Cells and entries\<close>

definition present :: "u64 \<Rightarrow> bool"
  where "present e \<longleftrightarrow> e AND 1 \<noteq> 0"

abbreviation pfn_of :: "u64 \<Rightarrow> u64"
  where "pfn_of e \<equiv> drop_bit 12 e"

abbreviation slot :: "u64 \<Rightarrow> u64 \<Rightarrow> u64"
  where "slot f i \<equiv> cell_ptr (push_bit 12 f) i"

lemma unat_slot:
  assumes "unat f < 2 ^ 32" "unat i < 512"
  shows "unat (slot f i) = unat f * 4096 + 8 * unat i"
proof -
  have f: "unat (push_bit 12 f) = unat f * 4096"
    using assms(1) by (simp add: push_bit_eq_mult unat_word_ariths)
  have i: "unat (8 * i) = 8 * unat i"
    using assms(2) by (subst unat_word_ariths) simp
  have "unat (push_bit 12 f + 8 * i) = (unat (push_bit 12 f) + unat (8 * i)) mod 2 ^ 64"
    by (simp add: unat_word_ariths)
  also have "\<dots> = unat f * 4096 + 8 * unat i"
    unfolding f i using assms by simp
  finally show ?thesis
    by (simp add: cell_ptr_def)
qed

lemma slot_inj:
  assumes "unat f < 2 ^ 32" "unat i < 512" "unat g < 2 ^ 32" "unat j < 512" "slot f i = slot g j"
  shows "f = g \<and> i = j"
proof -
  have e: "unat f * 4096 + 8 * unat i = unat g * 4096 + 8 * unat j"
    using unat_slot [OF assms(1,2)] unat_slot [OF assms(3,4)] assms(5) by simp
  have "(unat f * 4096 + 8 * unat i) div 4096 = unat f" "(unat g * 4096 + 8 * unat j) div 4096 = unat g"
    using assms(2,4) by simp_all
  with e have "unat f = unat g"
    by simp
  with e show ?thesis
    unfolding word_eq_iff_unsigned [where ?'a = nat] by simp
qed

lemma initialize_page_upto:
  "fold (\<lambda>i m. m(cell_ptr v (of_nat i) := 0)) [0..<n] m p = (if \<exists>i<n. p = cell_ptr v (of_nat i) then 0 else m p)"
  by (induction n) (auto simp: less_Suc_eq)

lemma initialize_page_at: "initialize_page v m p = (if \<exists>i<512. p = cell_ptr v (of_nat i) then 0 else m p)"
  unfolding initialize_page_def by (rule initialize_page_upto)

lemma initialize_page_slot:
  assumes "unat g < 2 ^ 32" "unat f < 2 ^ 32" "unat i < 512"
  shows "initialize_page (push_bit 12 g) m (slot f i) = (if f = g then 0 else m (slot f i))"
proof -
  have "(\<exists>j<512. slot f i = slot g (of_nat j)) \<longleftrightarrow> f = g"
  proof
    assume "\<exists>j<512. slot f i = slot g (of_nat j)"
    then obtain j where j: "j < 512" "slot f i = slot g (of_nat j)"
      by blast
    have "unat (of_nat j :: u64) < 512"
      using j(1) by (simp add: unat_of_nat)
    with slot_inj [OF assms(2,3,1) this j(2)] show "f = g"
      by blast
  next
    assume "f = g"
    thus "\<exists>j<512. slot f i = slot g (of_nat j)"
      using assms(3) by (intro exI [of _ "unat i"]) simp
  qed
  thus ?thesis
    unfolding initialize_page_at by simp
qed

lemma page_entry_eq: "page_entry f fl = push_bit 12 f + (5 + 2 * ucast (drop_bit 1 (fl AND MM_WR)))"
  by (simp add: page_entry_def Let_def push_bit_eq_mult algebra_simps)

lemma wr_bit: "ucast (drop_bit 1 (fl AND MM_WR)) = (if bit fl 1 then 1 else 0 :: u64)"
proof -
  have w: "MM_WR = push_bit 1 (mask 1)"
    by (simp add: MM_WR_def)
  have "fl AND MM_WR = push_bit 1 (take_bit 1 (drop_bit 1 fl))"
    unfolding w by (rule and_high_mask_eq)
  moreover have "take_bit 1 (drop_bit 1 fl) = of_bool (bit fl 1)"
    by (simp add: take_bit_Suc mod_2_eq_odd bit_iff_odd_drop_bit)
  ultimately show ?thesis
    by simp
qed

lemma page_entry_unat:
  assumes "unat f < 2 ^ 32"
  shows "unat (page_entry f fl) = unat f * 4096 + (if bit fl 1 then 7 else 5)"
proof -
  have "unat (push_bit 12 f) = unat f * 4096"
    using assms by (simp add: push_bit_eq_mult unat_word_ariths)
  thus ?thesis
    unfolding page_entry_eq wr_bit using assms by (auto simp: unat_word_ariths)
qed

lemma page_entry_pfn: "unat f < 2 ^ 32 \<Longrightarrow> pfn_of (page_entry f fl) = f"
proof -
  assume f: "unat f < 2 ^ 32"
  have "unat (pfn_of (page_entry f fl)) = unat f"
    unfolding unat_drop_bit_div page_entry_unat [OF f] by simp
  thus ?thesis
    unfolding word_eq_iff_unsigned [where ?'a = nat] .
qed

lemma present_odd: "present e \<longleftrightarrow> odd (unat e)"
  using bit_unsigned_iff [where ?'a = nat, of e 0] by (simp add: present_def and_one_eq mod_2_eq_odd bit_0)

lemma page_entry_present: "unat f < 2 ^ 32 \<Longrightarrow> present (page_entry f fl)"
  by (simp add: present_odd page_entry_unat)

lemma index_bounds: "unat (l4_index a) < 512" "unat (l3_index a) < 512" "unat (l2_index a) < 512" "unat (l1_index a) < 512"
proof -
  have *: "unat (drop_bit k (a AND push_bit k (mask 9))) < 512" if "k \<le> 55" for k
  proof -
    have "drop_bit k (a AND push_bit k (mask 9)) = take_bit 9 (drop_bit k a)"
      using that by (intro bit_word_eqI) (auto simp: bit_simps)
    thus ?thesis
      using take_bit_nat_less_exp [of 9 "unat (drop_bit k a)"] by (simp add: unsigned_take_bit_eq)
  qed
  show "unat (l4_index a) < 512" "unat (l3_index a) < 512" "unat (l2_index a) < 512" "unat (l1_index a) < 512"
    using *[of 39] *[of 30] *[of 21] *[of 12]
    by (simp_all add: l4_index_def l3_index_def l2_index_def l1_index_def mask_numeral)
qed

section \<open>The frame allocator and the tables\<close>

text \<open>
  What the code relies on: the kernel sees frame \<open>f\<close> at address \<open>f << 12\<close> (\<open>cleanup_context_mm\<close>
  uses that directly); while a region has free pages, allocation returns a frame that is not in use
  and records it; freeing a frame that is in use succeeds and removes it.  Freeing any other frame
  is an error.
\<close>

definition kos_ok :: "'a kos \<Rightarrow> ('a \<Rightarrow> (u32 \<times> u64) set) \<Rightarrow> bool"
  where "kos_ok os in_use \<longleftrightarrow>
    (\<forall>f. osmap os f = push_bit 12 f) \<and>
    (\<forall>reg a f a'. 0 < free_pages os reg a \<longrightarrow> os_pfn_alloc os reg a = (f, a') \<longrightarrow>
       (\<forall>r. (r, ucast f) \<notin> in_use a) \<and> f \<noteq> 0 \<and> in_use a' = insert (reg, ucast f) (in_use a) \<and>
       Suc (free_pages os reg a') = free_pages os reg a \<and> (\<forall>r. r \<noteq> reg \<longrightarrow> free_pages os r a' = free_pages os r a)) \<and>
    (\<forall>reg f a. (reg, f) \<in> in_use a \<longrightarrow>
       (\<exists>a'. os_pfn_free os reg f a = Some a' \<and> in_use a' = in_use a - {(reg, f)}))"

lemma kos_ok_map: "kos_ok os in_use \<Longrightarrow> osmap os f = push_bit 12 f"
  by (simp add: kos_ok_def)

lemma unat_ucast32: "unat (ucast (x :: u32) :: u64) < 2 ^ 32"
proof -
  have "unat (ucast x :: u64) \<le> unat x"
    by (simp add: unsigned_ucast_eq)
  also have "unat x < 2 ^ 32"
    using unsigned_less [where ?'a = nat, of x] by simp
  finally show ?thesis .
qed

lemma kos_ok_alloc:
  assumes "kos_ok os in_use" "0 < free_pages os reg a"
  obtains f a' where "os_pfn_alloc os reg a = (f, a')" "\<And>r. (r, ucast f) \<notin> in_use a" "f \<noteq> 0"
    "in_use a' = insert (reg, ucast f) (in_use a)" "Suc (free_pages os reg a') = free_pages os reg a"
    "\<And>r. r \<noteq> reg \<Longrightarrow> free_pages os r a' = free_pages os r a"
  using assms unfolding kos_ok_def by (metis (no_types, lifting) surj_pair)

text \<open>
  \<open>pt_inv\<close>: the frames with level \<open>lvl f > 0\<close> are the page-table frames; a present entry of a
  table of level at least two leads to a table one level below, and no two entries lead to the
  same table.  \<open>pt_ext\<close>: a later state has the same tables, maybe more, and every present entry is
  as it was.  \<open>leaf_keep\<close>: no entry of a lowest table became present.
\<close>

definition pt_inv :: "('a \<Rightarrow> (u32 \<times> u64) set) \<Rightarrow> (u64 \<Rightarrow> nat) \<Rightarrow> 'a kstate \<Rightarrow> bool"
  where "pt_inv in_use lvl s \<longleftrightarrow>
    (\<forall>f. 0 < lvl f \<longrightarrow> (OS_PT_REG, f) \<in> in_use (kalloc s) \<and> unat f < 2 ^ 32) \<and>
    (\<forall>f i. 2 \<le> lvl f \<longrightarrow> unat i < 512 \<longrightarrow> present (kmem s (slot f i)) \<longrightarrow>
       lvl (pfn_of (kmem s (slot f i))) = lvl f - 1) \<and>
    (\<forall>f i g j. 2 \<le> lvl f \<longrightarrow> unat i < 512 \<longrightarrow> present (kmem s (slot f i)) \<longrightarrow>
       2 \<le> lvl g \<longrightarrow> unat j < 512 \<longrightarrow> present (kmem s (slot g j)) \<longrightarrow>
       pfn_of (kmem s (slot f i)) = pfn_of (kmem s (slot g j)) \<longrightarrow> f = g \<and> i = j)"

definition pt_ext :: "(u64 \<Rightarrow> nat) \<Rightarrow> 'a kstate \<Rightarrow> (u64 \<Rightarrow> nat) \<Rightarrow> 'a kstate \<Rightarrow> bool"
  where "pt_ext lvl s lvl' s' \<longleftrightarrow>
    (\<forall>f. 0 < lvl f \<longrightarrow> lvl' f = lvl f) \<and>
    (\<forall>f i. 0 < lvl f \<longrightarrow> unat i < 512 \<longrightarrow> present (kmem s (slot f i)) \<longrightarrow> kmem s' (slot f i) = kmem s (slot f i))"

definition leaf_keep :: "(u64 \<Rightarrow> nat) \<Rightarrow> 'a kstate \<Rightarrow> (u64 \<Rightarrow> nat) \<Rightarrow> 'a kstate \<Rightarrow> bool"
  where "leaf_keep lvl s lvl' s' \<longleftrightarrow> (\<forall>f i. lvl' f = 1 \<longrightarrow> unat i < 512 \<longrightarrow> present (kmem s' (slot f i)) \<longrightarrow>
    lvl f = 1 \<and> kmem s (slot f i) = kmem s' (slot f i))"

lemma leaf_keep_refl [simp]: "leaf_keep lvl s lvl s"
  by (simp add: leaf_keep_def)

lemma leaf_keep_trans: "leaf_keep lvl s lvl' s' \<Longrightarrow> leaf_keep lvl' s' lvl'' s'' \<Longrightarrow> leaf_keep lvl s lvl'' s''"
  unfolding leaf_keep_def by metis

lemma pt_ext_refl [simp]: "pt_ext lvl s lvl s"
  by (simp add: pt_ext_def)

lemma pt_ext_trans: "pt_ext lvl s lvl' s' \<Longrightarrow> pt_ext lvl' s' lvl'' s'' \<Longrightarrow> pt_ext lvl s lvl'' s''"
  by (simp add: pt_ext_def)

lemma pt_ext_level: "pt_ext lvl s lvl' s' \<Longrightarrow> 0 < lvl f \<Longrightarrow> lvl' f = lvl f"
  by (simp add: pt_ext_def)

lemma pt_ext_cell:
  "pt_ext lvl s lvl' s' \<Longrightarrow> 0 < lvl f \<Longrightarrow> unat i < 512 \<Longrightarrow> present (kmem s (slot f i)) \<Longrightarrow>
    kmem s' (slot f i) = kmem s (slot f i)"
  by (simp add: pt_ext_def)

text \<open>What a step that may allocate table frames does to the allocator.\<close>

definition pt_used :: "'a kos \<Rightarrow> ('a \<Rightarrow> (u32 \<times> u64) set) \<Rightarrow> nat \<Rightarrow> (u64 \<Rightarrow> nat) \<Rightarrow> 'a kstate \<Rightarrow> (u64 \<Rightarrow> nat) \<Rightarrow> 'a kstate \<Rightarrow> bool"
  where "pt_used os in_use n lvl s lvl' s' \<longleftrightarrow>
    in_use (kalloc s') = in_use (kalloc s) \<union> Pair OS_PT_REG ` {f. lvl f = 0 \<and> 0 < lvl' f} \<and>
    (\<forall>f. lvl f = 0 \<longrightarrow> 0 < lvl' f \<longrightarrow> (\<forall>r. (r, f) \<notin> in_use (kalloc s))) \<and>
    free_pages os OS_PT_REG (kalloc s) \<le> free_pages os OS_PT_REG (kalloc s') + n \<and>
    free_pages os USER_REG (kalloc s') = free_pages os USER_REG (kalloc s)"

text \<open>The state after a new table \<open>g\<close> of level \<open>k\<close> has been entered in the free entry \<open>i\<close> of the table \<open>f\<close>.\<close>

definition new_table :: "('a \<Rightarrow> (u32 \<times> u64) set) \<Rightarrow> (u64 \<Rightarrow> nat) \<Rightarrow> nat \<Rightarrow> u64 \<Rightarrow> u64 \<Rightarrow> u64 \<Rightarrow> u32 \<Rightarrow> 'a kstate \<Rightarrow> 'a kstate \<Rightarrow> bool"
  where "new_table in_use lvl k f i g flags s s' \<longleftrightarrow> pt_inv in_use lvl s \<and> lvl f = Suc k \<and> 0 < k \<and> unat i < 512 \<and>
    lvl g = 0 \<and> unat g < 2 ^ 32 \<and> \<not> present (kmem s (slot f i)) \<and>
    kmem s' = initialize_page (push_bit 12 g) ((kmem s)(slot f i := page_entry g flags)) \<and>
    in_use (kalloc s') = insert (OS_PT_REG, g) (in_use (kalloc s))"

lemma pt_invD:
  assumes "pt_inv in_use lvl s"
  shows "0 < lvl h \<Longrightarrow> (OS_PT_REG, h) \<in> in_use (kalloc s) \<and> unat h < 2 ^ 32"
    "2 \<le> lvl h \<Longrightarrow> unat j < 512 \<Longrightarrow> present (kmem s (slot h j)) \<Longrightarrow> lvl (pfn_of (kmem s (slot h j))) = lvl h - 1"
    "2 \<le> lvl h \<Longrightarrow> unat j < 512 \<Longrightarrow> present (kmem s (slot h j)) \<Longrightarrow> 2 \<le> lvl h' \<Longrightarrow> unat j' < 512 \<Longrightarrow>
      present (kmem s (slot h' j')) \<Longrightarrow> pfn_of (kmem s (slot h j)) = pfn_of (kmem s (slot h' j')) \<Longrightarrow> h = h' \<and> j = j'"
  using assms unfolding pt_inv_def by blast+

lemma new_tableD:
  assumes "new_table in_use lvl k f i g flags s s'"
  shows "pt_inv in_use lvl s" "lvl f = Suc k" "0 < k" "unat i < 512" "lvl g = 0" "unat g < 2 ^ 32" "\<not> present (kmem s (slot f i))"
    "unat h < 2 ^ 32 \<Longrightarrow> unat j < 512 \<Longrightarrow>
      kmem s' (slot h j) = (if h = g then 0 else if h = f \<and> j = i then page_entry g flags else kmem s (slot h j))"
    "in_use (kalloc s') = insert (OS_PT_REG, g) (in_use (kalloc s))"
    "0 < (lvl(g := k)) h \<Longrightarrow> unat h < 2 ^ 32" "f \<noteq> g" "pfn_of (page_entry g flags) = g" "present (page_entry g flags)"
proof -
  note N = assms [unfolded new_table_def]
  show D: "pt_inv in_use lvl s" "lvl f = Suc k" "0 < k" "unat i < 512" "lvl g = 0" "unat g < 2 ^ 32" "\<not> present (kmem s (slot f i))"
    "in_use (kalloc s') = insert (OS_PT_REG, g) (in_use (kalloc s))"
    using N by blast+
  have f32: "unat f < 2 ^ 32" using pt_invD(1) [OF D(1), of f] D(2) by simp
  show "kmem s' (slot h j) = (if h = g then 0 else if h = f \<and> j = i then page_entry g flags else kmem s (slot h j))"
    if "unat h < 2 ^ 32" "unat j < 512"
    using N initialize_page_slot [OF D(6) that] slot_inj [OF that f32 D(4)] by auto
  show "unat h < 2 ^ 32" if "0 < (lvl(g := k)) h" using that pt_invD(1) [OF D(1), of h] D(6) by (cases "h = g") auto
  show "f \<noteq> g" using D(2,5) by auto
  show "pfn_of (page_entry g flags) = g" "present (page_entry g flags)"
    using page_entry_pfn [OF D(6)] page_entry_present [OF D(6)] by simp_all
qed

text \<open>A present entry of the new state is the new one or an old one.\<close>

lemma new_table_entry:
  assumes N: "new_table in_use lvl k f i g flags s s'" and a: "0 < (lvl(g := k)) h" "unat j < 512" "present (kmem s' (slot h j))"
  obtains "h = f" "j = i" "kmem s' (slot h j) = page_entry g flags"
    | "h \<noteq> g" "lvl h = (lvl(g := k)) h" "kmem s' (slot h j) = kmem s (slot h j)" "present (kmem s (slot h j))" "\<not> (h = f \<and> j = i)"
proof -
  note m = new_tableD(8) [OF N new_tableD(10) [OF N a(1)] a(2)]
  have "h \<noteq> g" using a(3) m by (auto simp: present_def)
  then show thesis using that a(3) m by (cases "h = f \<and> j = i") auto
qed

lemma new_table_inv:
  assumes N: "new_table in_use lvl k f i g flags s s'"
  shows "pt_inv in_use (lvl(g := k)) s'"
  unfolding pt_inv_def
proof (intro conjI allI impI)
  note D = new_tableD [OF N] and I = pt_invD [OF new_tableD(1) [OF N]]
  let ?lvl = "lvl(g := k)"
  show "(OS_PT_REG, h) \<in> in_use (kalloc s')" "unat h < 2 ^ 32" if "0 < ?lvl h" for h
    using that I(1) [of h] D(9,10) by (cases "h = g"; simp)+
  have old: "pfn_of (kmem s (slot h j)) \<noteq> g" if "2 \<le> lvl h" "unat j < 512" "present (kmem s (slot h j))" for h j
    using I(2) [OF that] that(1) D(5) by auto
  show "?lvl (pfn_of (kmem s' (slot h j))) = ?lvl h - 1" if a: "2 \<le> ?lvl h" "unat j < 512" "present (kmem s' (slot h j))" for h j
  proof -
    have p: "0 < ?lvl h" using a(1) by linarith
    show ?thesis
      by (rule new_table_entry [OF N p a(2,3)]) (use a I(2) [of h j] old [of h j] D(2,11,12) in auto)
  qed
  fix h j h' j' assume a: "2 \<le> ?lvl h" "unat j < 512" "present (kmem s' (slot h j))"
    "2 \<le> ?lvl h'" "unat j' < 512" "present (kmem s' (slot h' j'))" "pfn_of (kmem s' (slot h j)) = pfn_of (kmem s' (slot h' j'))"
  have p: "0 < ?lvl h" "0 < ?lvl h'" using a(1,4) by linarith+
  have "h = h' \<and> j = j'"
  proof (rule new_table_entry [OF N p(1) a(2,3)]; rule new_table_entry [OF N p(2) a(5,6)])
  qed (use a I(3) [of h j h' j'] old [of h j] old [of h' j'] D(12) in auto)
  then show "h = h'" "j = j'" by simp_all
qed

lemma new_table_ext:
  assumes N: "new_table in_use lvl k f i g flags s s'"
  shows "pt_ext lvl s (lvl(g := k)) s'" "leaf_keep lvl s (lvl(g := k)) s'"
proof -
  note D = new_tableD [OF N] and I = pt_invD(1) [OF new_tableD(1) [OF N]]
  show "pt_ext lvl s (lvl(g := k)) s'"
    unfolding pt_ext_def
  proof (intro conjI allI impI)
    show "(lvl(g := k)) h = lvl h" if "0 < lvl h" for h using that D(5) by auto
    show "kmem s' (slot h j) = kmem s (slot h j)" if "0 < lvl h" "unat j < 512" "present (kmem s (slot h j))" for h j
      using that D(8) [of h j] I [of h] D(5,7) by auto
  qed
  show "leaf_keep lvl s (lvl(g := k)) s'"
    unfolding leaf_keep_def
  proof (intro allI impI)
    fix h j assume a: "(lvl(g := k)) h = 1" "unat j < 512" "present (kmem s' (slot h j))"
    then have "0 < (lvl(g := k)) h" by linarith
    then show "lvl h = 1 \<and> kmem s (slot h j) = kmem s' (slot h j)"
      by (rule new_table_entry [OF N _ a(2,3)]) (use a(1) D(2,3,11) in auto)
  qed
qed

lemma assign_page_table_page_ok:
  assumes os: "kos_ok os in_use" and inv: "pt_inv in_use lvl s"
    and f: "lvl f = Suc k" "0 < k" "unat i < 512" and room: "0 < free_pages os OS_PT_REG (kalloc s)"
  shows "\<exists>g lvl' s'. assign_page_table_page os (slot f i) flags s = (push_bit 12 g, s') \<and>
    pt_inv in_use lvl' s' \<and> pt_ext lvl s lvl' s' \<and> lvl' g = k \<and> present (kmem s' (slot f i)) \<and>
    pfn_of (kmem s' (slot f i)) = g \<and> {x. 0 < lvl' x} = insert g {x. 0 < lvl x} \<and> pt_used os in_use 1 lvl s lvl' s' \<and>
    leaf_keep lvl s lvl' s'"
proof (cases "present (kmem s (slot f i))")
  case True
  let ?g = "pfn_of (kmem s (slot f i))"
  have g: "lvl ?g = k" using pt_invD(2) [OF inv _ f(3) True] f(1,2) by simp
  have "assign_page_table_page os (slot f i) flags s = (push_bit 12 ?g, s)"
    using True by (simp add: assign_page_table_page_def present_def kos_ok_map [OF os])
  moreover have "{x. 0 < lvl x} = insert ?g {x. 0 < lvl x}" using g f(2) by auto
  moreover have "pt_used os in_use 1 lvl s lvl s" by (auto simp: pt_used_def)
  ultimately show ?thesis using inv g True by (intro exI [of _ ?g] exI [of _ lvl] exI [of _ s]) simp
next
  case False
  from kos_ok_alloc [OF os room] obtain x a' where al: "os_pfn_alloc os OS_PT_REG (kalloc s) = (x, a')"
    "\<And>r. (r, ucast x) \<notin> in_use (kalloc s)" "in_use a' = insert (OS_PT_REG, ucast x) (in_use (kalloc s))"
    "Suc (free_pages os OS_PT_REG a') = free_pages os OS_PT_REG (kalloc s)"
    "\<And>r. r \<noteq> OS_PT_REG \<Longrightarrow> free_pages os r a' = free_pages os r (kalloc s)"
    by metis
  define g :: u64 where "g = ucast x"
  let ?s = "\<lparr>kmem = initialize_page (push_bit 12 g) ((kmem s)(slot f i := page_entry g flags)), kalloc = a'\<rparr>"
  let ?lvl = "lvl(g := k)"
  have run: "assign_page_table_page os (slot f i) flags s = (push_bit 12 g, ?s)"
    using False al(1) by (simp add: assign_page_table_page_def present_def kos_ok_map [OF os] g_def Let_def)
  have g32: "unat g < 2 ^ 32" unfolding g_def by (rule unat_ucast32)
  have g0: "lvl g = 0" using pt_invD(1) [OF inv, of g] al(2) g_def by (cases "lvl g") auto
  have N: "new_table in_use lvl k f i g flags s ?s"
    unfolding new_table_def using inv f g0 g32 False al(3) g_def by simp
  note D = new_tableD [OF N]
  have "kmem ?s (slot f i) = page_entry g flags" using D(8) [of f i] D(10) [of f] D(4,11) f(1) by simp
  moreover have "{y. 0 < ?lvl y} = insert g {y. 0 < lvl y}" "{y. lvl y = 0 \<and> 0 < ?lvl y} = {g}" using f(2) g0 by auto
  moreover from this(2) have "pt_used os in_use 1 lvl s ?lvl ?s"
    unfolding pt_used_def using al(2,3,4) al(5) [of USER_REG] g_def by (auto simp: USER_REG_def OS_PT_REG_def split: if_splits)
  ultimately show ?thesis
    using run D(12,13) new_table_inv [OF N] new_table_ext [OF N] by (intro exI [of _ g] exI [of _ ?lvl] exI [of _ ?s]) simp
qed

section \<open>Paths\<close>

definition l3_of :: "memory \<Rightarrow> u64 \<Rightarrow> u64 \<Rightarrow> u64"
  where "l3_of m r a = pfn_of (m (slot r (l4_index a)))"

definition l2_of :: "memory \<Rightarrow> u64 \<Rightarrow> u64 \<Rightarrow> u64"
  where "l2_of m r a = pfn_of (m (slot (l3_of m r a) (l3_index a)))"

definition l1_of :: "memory \<Rightarrow> u64 \<Rightarrow> u64 \<Rightarrow> u64"
  where "l1_of m r a = pfn_of (m (slot (l2_of m r a) (l2_index a)))"

definition leaf_slot :: "memory \<Rightarrow> u64 \<Rightarrow> u64 \<Rightarrow> u64"
  where "leaf_slot m r a = slot (l1_of m r a) (l1_index a)"

definition has_tables :: "memory \<Rightarrow> u64 \<Rightarrow> u64 \<Rightarrow> bool"
  where "has_tables m r a \<longleftrightarrow> present (m (slot r (l4_index a))) \<and> present (m (slot (l3_of m r a) (l3_index a))) \<and>
    present (m (slot (l2_of m r a) (l2_index a)))"

definition path_frames :: "memory \<Rightarrow> u64 \<Rightarrow> u64 \<Rightarrow> u64 set"
  where "path_frames m r a = {l3_of m r a, l2_of m r a, l1_of m r a}"

definition same_page :: "u64 \<Rightarrow> u64 \<Rightarrow> bool"
  where "same_page a b \<longleftrightarrow> l4_index a = l4_index b \<and> l3_index a = l3_index b \<and> l2_index a = l2_index b \<and> l1_index a = l1_index b"

lemma path_levels:
  assumes "pt_inv in_use lvl s" "lvl r = 4" "has_tables (kmem s) r a"
  shows "lvl (l3_of (kmem s) r a) = 3" "lvl (l2_of (kmem s) r a) = 2" "lvl (l1_of (kmem s) r a) = 1"
proof -
  have step: "lvl (pfn_of (kmem s (slot f i))) = lvl f - 1" if "2 \<le> lvl f" "unat i < 512" "present (kmem s (slot f i))" for f i
    using assms(1) that unfolding pt_inv_def by blast
  show l3: "lvl (l3_of (kmem s) r a) = 3"
    unfolding l3_of_def using step [of r "l4_index a"] assms(2,3) index_bounds(1) by (simp add: has_tables_def)
  show l2: "lvl (l2_of (kmem s) r a) = 2"
    unfolding l2_of_def using step [of "l3_of (kmem s) r a" "l3_index a"] assms(3) l3 index_bounds(2) by (simp add: has_tables_def)
  show "lvl (l1_of (kmem s) r a) = 1"
    unfolding l1_of_def using step [of "l2_of (kmem s) r a" "l2_index a"] assms(3) l2 index_bounds(3) by (simp add: has_tables_def)
qed

lemma path_ext:
  assumes inv: "pt_inv in_use lvl s" "lvl r = 4" and a: "has_tables (kmem s) r a" and ext: "pt_ext lvl s lvl' s'"
  shows "l3_of (kmem s') r a = l3_of (kmem s) r a" "l2_of (kmem s') r a = l2_of (kmem s) r a"
    "l1_of (kmem s') r a = l1_of (kmem s) r a" "has_tables (kmem s') r a"
    "leaf_slot (kmem s') r a = leaf_slot (kmem s) r a"
    "present (kmem s (leaf_slot (kmem s) r a)) \<Longrightarrow> kmem s' (leaf_slot (kmem s) r a) = kmem s (leaf_slot (kmem s) r a)"
proof -
  note lv = path_levels [OF inv a] and c = pt_ext_cell [OF ext]
  have c4: "kmem s' (slot r (l4_index a)) = kmem s (slot r (l4_index a))"
    using c [of r] inv(2) a index_bounds(1) by (simp add: has_tables_def)
  show e3: "l3_of (kmem s') r a = l3_of (kmem s) r a"
    by (simp add: l3_of_def c4)
  have c3: "kmem s' (slot (l3_of (kmem s) r a) (l3_index a)) = kmem s (slot (l3_of (kmem s) r a) (l3_index a))"
    using c [of "l3_of (kmem s) r a"] lv(1) a index_bounds(2) by (simp add: has_tables_def)
  show e2: "l2_of (kmem s') r a = l2_of (kmem s) r a"
    unfolding l2_of_def e3 c3 ..
  have c2: "kmem s' (slot (l2_of (kmem s) r a) (l2_index a)) = kmem s (slot (l2_of (kmem s) r a) (l2_index a))"
    using c [of "l2_of (kmem s) r a"] lv(2) a index_bounds(3) by (simp add: has_tables_def)
  show e1: "l1_of (kmem s') r a = l1_of (kmem s) r a"
    unfolding l1_of_def e2 c2 ..
  show "has_tables (kmem s') r a"
    using a unfolding has_tables_def e3 e2 c4 c3 c2 .
  show l: "leaf_slot (kmem s') r a = leaf_slot (kmem s) r a"
    by (simp add: leaf_slot_def e1)
  show "kmem s' (leaf_slot (kmem s) r a) = kmem s (leaf_slot (kmem s) r a)"
    if "present (kmem s (leaf_slot (kmem s) r a))"
    using that c [of "l1_of (kmem s) r a" "l1_index a"] lv(3) index_bounds(4) by (simp add: leaf_slot_def)
qed

lemma leaf_slots_differ:
  assumes inv: "pt_inv in_use lvl s" "lvl r = 4" and a: "has_tables (kmem s) r a" and b: "has_tables (kmem s) r b"
    and eq: "leaf_slot (kmem s) r a = leaf_slot (kmem s) r b"
  shows "same_page a b"
proof -
  note la = path_levels [OF inv a] and lb = path_levels [OF inv b]
  have f32: "unat f < 2 ^ 32" if "0 < lvl f" for f
    using inv(1) that by (simp add: pt_inv_def)
  have inj: "f = g \<and> i = j" if "2 \<le> lvl f" "unat i < 512" "present (kmem s (slot f i))"
    "2 \<le> lvl g" "unat j < 512" "present (kmem s (slot g j))"
    "pfn_of (kmem s (slot f i)) = pfn_of (kmem s (slot g j))" for f i g j
    using inv(1) that unfolding pt_inv_def by blast
  have "l1_of (kmem s) r a = l1_of (kmem s) r b \<and> l1_index a = l1_index b"
    by (rule slot_inj) (use f32 la lb eq index_bounds in \<open>simp_all add: leaf_slot_def\<close>)
  moreover from this have "l2_of (kmem s) r a = l2_of (kmem s) r b \<and> l2_index a = l2_index b"
    by (intro inj) (use la lb a b index_bounds in \<open>simp_all add: has_tables_def l1_of_def\<close>)
  moreover from this have "l3_of (kmem s) r a = l3_of (kmem s) r b \<and> l3_index a = l3_index b"
    by (intro inj) (use la lb a b index_bounds in \<open>simp_all add: has_tables_def l2_of_def\<close>)
  moreover from this have "r = r \<and> l4_index a = l4_index b"
    by (intro inj) (use inv(2) a b index_bounds in \<open>simp_all add: has_tables_def l3_of_def\<close>)
  ultimately show ?thesis
    by (simp add: same_page_def)
qed

lemma pt_used_trans:
  assumes "pt_used os in_use n lvl s lvl' s'" "pt_used os in_use n' lvl' s' lvl'' s''"
    "pt_ext lvl s lvl' s'" "pt_ext lvl' s' lvl'' s''"
  shows "pt_used os in_use (n + n') lvl s lvl'' s''"
proof -
  have up: "0 < lvl' f \<Longrightarrow> 0 < lvl'' f" for f
    using pt_ext_level [OF assms(4)] by simp
  have down: "lvl' f = 0 \<Longrightarrow> lvl f = 0" for f
    using pt_ext_level [OF assms(3), of f] by (cases "lvl f") auto
  have "{f. lvl f = 0 \<and> 0 < lvl'' f} = {f. lvl f = 0 \<and> 0 < lvl' f} \<union> {f. lvl' f = 0 \<and> 0 < lvl'' f}"
    using up down by auto
  moreover have "(r, f) \<notin> in_use (kalloc s)" if "lvl f = 0" "0 < lvl'' f" for r f
    using assms(1,2) that by (cases "lvl' f = 0") (auto simp: pt_used_def)
  ultimately show ?thesis
    using assms(1,2) unfolding pt_used_def image_Un by auto
qed

lemma assign_page_table_pages_ok:
  assumes os: "kos_ok os in_use" and inv: "pt_inv in_use lvl s" and r: "lvl r = 4"
    and room: "3 \<le> free_pages os OS_PT_REG (kalloc s)"
  shows "\<exists>lvl' s'. assign_page_table_pages os (push_bit 12 r) a flags s = (leaf_slot (kmem s') r a, s') \<and>
    pt_inv in_use lvl' s' \<and> pt_ext lvl s lvl' s' \<and> has_tables (kmem s') r a \<and>
    {x. 0 < lvl' x} = {x. 0 < lvl x} \<union> path_frames (kmem s') r a \<and> pt_used os in_use 3 lvl s lvl' s' \<and>
    leaf_keep lvl s lvl' s'"
proof -
  have "lvl r = Suc 3" "0 < (3::nat)"
    using r by simp_all
  from assign_page_table_page_ok [OF os inv this index_bounds(1), of a flags] room obtain g3 l3 s3 where A:
    "assign_page_table_page os (slot r (l4_index a)) flags s = (push_bit 12 g3, s3)" "pt_inv in_use l3 s3"
    "pt_ext lvl s l3 s3" "l3 g3 = 3" "present (kmem s3 (slot r (l4_index a)))" "pfn_of (kmem s3 (slot r (l4_index a))) = g3"
    "{x. 0 < l3 x} = insert g3 {x. 0 < lvl x}" "pt_used os in_use 1 lvl s l3 s3" "leaf_keep lvl s l3 s3"
    by auto
  have "l3 g3 = Suc 2" "0 < (2::nat)" "0 < free_pages os OS_PT_REG (kalloc s3)"
    using A(4,8) room by (simp_all add: pt_used_def)
  from assign_page_table_page_ok [OF os A(2) this(1,2) index_bounds(2) this(3), of a flags] obtain g2 l2 s2 where B:
    "assign_page_table_page os (slot g3 (l3_index a)) flags s3 = (push_bit 12 g2, s2)" "pt_inv in_use l2 s2"
    "pt_ext l3 s3 l2 s2" "l2 g2 = 2" "present (kmem s2 (slot g3 (l3_index a)))" "pfn_of (kmem s2 (slot g3 (l3_index a))) = g2"
    "{x. 0 < l2 x} = insert g2 {x. 0 < l3 x}" "pt_used os in_use 1 l3 s3 l2 s2" "leaf_keep l3 s3 l2 s2"
    by auto
  have "l2 g2 = Suc 1" "0 < (1::nat)" "0 < free_pages os OS_PT_REG (kalloc s2)"
    using A(8) B(4,8) room by (simp_all add: pt_used_def)
  from assign_page_table_page_ok [OF os B(2) this(1,2) index_bounds(3) this(3), of a flags] obtain g1 l1 s1 where C:
    "assign_page_table_page os (slot g2 (l2_index a)) flags s2 = (push_bit 12 g1, s1)" "pt_inv in_use l1 s1"
    "pt_ext l2 s2 l1 s1" "l1 g1 = 1" "present (kmem s1 (slot g2 (l2_index a)))" "pfn_of (kmem s1 (slot g2 (l2_index a))) = g1"
    "{x. 0 < l1 x} = insert g1 {x. 0 < l2 x}" "pt_used os in_use 1 l2 s2 l1 s1" "leaf_keep l2 s2 l1 s1"
    by auto
  have "0 < l3 r"
    using pt_ext_level [OF A(3)] r by simp
  hence c4: "kmem s1 (slot r (l4_index a)) = kmem s3 (slot r (l4_index a))"
    using pt_ext_cell [OF pt_ext_trans [OF B(3) C(3)] _ index_bounds(1) A(5)] by simp
  have c3: "kmem s1 (slot g3 (l3_index a)) = kmem s2 (slot g3 (l3_index a))"
    using pt_ext_cell [OF C(3) _ index_bounds(2) B(5)] pt_ext_level [OF B(3), of g3] A(4) by simp
  have p: "l3_of (kmem s1) r a = g3" "l2_of (kmem s1) r a = g2" "l1_of (kmem s1) r a = g1"
    using A(6) B(6) C(6) c4 c3 by (simp_all add: l3_of_def l2_of_def l1_of_def)
  have "has_tables (kmem s1) r a"
    unfolding has_tables_def p using A(5) B(5) C(5) c4 c3 by simp
  moreover have "assign_page_table_pages os (push_bit 12 r) a flags s = (leaf_slot (kmem s1) r a, s1)"
    unfolding assign_page_table_pages_def leaf_slot_def p using A(1) B(1) C(1) by simp
  moreover have "pt_ext lvl s l1 s1"
    using A(3) B(3) C(3) pt_ext_trans by blast
  moreover have "leaf_keep lvl s l1 s1"
    using A(9) B(9) C(9) leaf_keep_trans by blast
  moreover have "pt_used os in_use (1 + 1 + 1) lvl s l1 s1"
    using pt_used_trans [OF pt_used_trans [OF A(8) B(8) A(3) B(3)] C(8) pt_ext_trans [OF A(3) B(3)] C(3)] .
  moreover have "{x. 0 < l1 x} = {x. 0 < lvl x} \<union> path_frames (kmem s1) r a"
    unfolding path_frames_def p using A(7) B(7) C(7) by auto
  ultimately show ?thesis
    using C(2) by (intro exI [of _ l1] exI [of _ s1]) (simp add: numeral_3_eq_3)
qed

section \<open>Mapping pages\<close>

text \<open>
  \<open>pt_maps\<close> describes an address space under construction: \<open>r\<close> is the top table, \<open>P\<close> the
  addresses mapped so far, \<open>D\<close> the user frames allocated for them, \<open>base\<close> what was in use before.
\<close>

definition pt_maps :: "('a \<Rightarrow> (u32 \<times> u64) set) \<Rightarrow> (u32 \<times> u64) set \<Rightarrow> u64 \<Rightarrow> u64 set \<Rightarrow> u64 set \<Rightarrow> (u64 \<Rightarrow> nat) \<Rightarrow> 'a kstate \<Rightarrow> bool"
  where "pt_maps in_use base r P D lvl s \<longleftrightarrow> pt_inv in_use lvl s \<and> lvl r = 4 \<and>
    (\<forall>a\<in>P. has_tables (kmem s) r a \<and> present (kmem s (leaf_slot (kmem s) r a))) \<and>
    (\<forall>f i. lvl f = 1 \<longrightarrow> unat i < 512 \<longrightarrow> present (kmem s (slot f i)) \<longrightarrow> (\<exists>a\<in>P. slot f i = leaf_slot (kmem s) r a)) \<and>
    {x. 0 < lvl x} = insert r (\<Union>a\<in>P. path_frames (kmem s) r a) \<and>
    in_use (kalloc s) = base \<union> Pair OS_PT_REG ` {x. 0 < lvl x} \<union> Pair USER_REG ` D \<and>
    (\<forall>x q. (0 < lvl x \<or> x \<in> D) \<longrightarrow> (q, x) \<notin> base) \<and> D \<inter> {x. 0 < lvl x} = {}"

lemma path_frames_ext:
  assumes "pt_inv in_use lvl s" "lvl r = 4" "has_tables (kmem s) r a" "pt_ext lvl s lvl' s'"
  shows "path_frames (kmem s') r a = path_frames (kmem s) r a"
  using path_ext(1-3) [OF assms] by (simp add: path_frames_def)

lemma tables_then_maps:
  assumes os: "kos_ok os in_use" and M: "pt_maps in_use base r P D lvl s" and b: "\<And>a. a \<in> P \<Longrightarrow> \<not> same_page a b"
    and room: "3 \<le> free_pages os OS_PT_REG (kalloc s)"
  shows "\<exists>lvl' s'. assign_page_table_pages os (push_bit 12 r) b flags s = (leaf_slot (kmem s') r b, s') \<and>
    pt_inv in_use lvl' s' \<and> lvl' r = 4 \<and> pt_ext lvl s lvl' s' \<and> has_tables (kmem s') r b \<and>
    (\<forall>f i. lvl' f = 1 \<longrightarrow> unat i < 512 \<longrightarrow> present (kmem s' (slot f i)) \<longrightarrow> (\<exists>a\<in>P. slot f i = leaf_slot (kmem s') r a)) \<and>
    (\<forall>a\<in>P. has_tables (kmem s') r a \<and> present (kmem s' (leaf_slot (kmem s') r a))) \<and>
    \<not> present (kmem s' (leaf_slot (kmem s') r b)) \<and>
    {x. 0 < lvl' x} = insert r (\<Union>a\<in>insert b P. path_frames (kmem s') r a) \<and>
    in_use (kalloc s') = base \<union> Pair OS_PT_REG ` {x. 0 < lvl' x} \<union> Pair USER_REG ` D \<and>
    (\<forall>x q. (0 < lvl' x \<or> x \<in> D) \<longrightarrow> (q, x) \<notin> base) \<and> D \<inter> {x. 0 < lvl' x} = {} \<and>
    free_pages os OS_PT_REG (kalloc s) \<le> free_pages os OS_PT_REG (kalloc s') + 3 \<and>
    free_pages os USER_REG (kalloc s') = free_pages os USER_REG (kalloc s)"
proof -
  have inv: "pt_inv in_use lvl s" and r: "lvl r = 4"
    and tabs: "\<And>a. a \<in> P \<Longrightarrow> has_tables (kmem s) r a \<and> present (kmem s (leaf_slot (kmem s) r a))"
    and lv: "\<And>f i. lvl f = 1 \<Longrightarrow> unat i < 512 \<Longrightarrow> present (kmem s (slot f i)) \<Longrightarrow> \<exists>a\<in>P. slot f i = leaf_slot (kmem s) r a"
    and tb: "{x. 0 < lvl x} = insert r (\<Union>a\<in>P. path_frames (kmem s) r a)"
    and iu: "in_use (kalloc s) = base \<union> Pair OS_PT_REG ` {x. 0 < lvl x} \<union> Pair USER_REG ` D"
    and fr: "\<And>x q. 0 < lvl x \<or> x \<in> D \<Longrightarrow> (q, x) \<notin> base" and dj: "D \<inter> {x. 0 < lvl x} = {}"
    using M unfolding pt_maps_def by blast+
  from assign_page_table_pages_ok [OF os inv r room, of b flags] obtain lvl' s' where A:
    "assign_page_table_pages os (push_bit 12 r) b flags s = (leaf_slot (kmem s') r b, s')"
    "pt_inv in_use lvl' s'" "pt_ext lvl s lvl' s'" "has_tables (kmem s') r b"
    "{x. 0 < lvl' x} = {x. 0 < lvl x} \<union> path_frames (kmem s') r b" "pt_used os in_use 3 lvl s lvl' s'"
    "leaf_keep lvl s lvl' s'"
    by blast
  have r': "lvl' r = 4"
    using pt_ext_level [OF A(3)] r by simp
  have tabs': "has_tables (kmem s') r a \<and> present (kmem s' (leaf_slot (kmem s') r a)) \<and>
      leaf_slot (kmem s') r a = leaf_slot (kmem s) r a \<and> path_frames (kmem s') r a = path_frames (kmem s) r a"
    if "a \<in> P" for a
  proof -
    have t: "has_tables (kmem s) r a" "present (kmem s (leaf_slot (kmem s) r a))"
      using tabs [OF that] by simp_all
    note p = path_ext [OF inv r t(1) A(3)]
    show ?thesis
      using p(4) p(5) p(6) [OF t(2)] t(2) path_frames_ext [OF inv r t(1) A(3)] by simp
  qed
  have lv': "\<exists>a\<in>P. slot f i = leaf_slot (kmem s') r a"
    if a: "lvl' f = 1" "unat i < 512" "present (kmem s' (slot f i))" for f i
  proof -
    have "lvl f = 1" "present (kmem s (slot f i))"
      using A(7) a unfolding leaf_keep_def by auto
    with lv [OF _ a(2)] tabs' show ?thesis
      by metis
  qed
  have np: "\<not> present (kmem s' (leaf_slot (kmem s') r b))"
  proof
    assume "present (kmem s' (leaf_slot (kmem s') r b))"
    with lv' [of "l1_of (kmem s') r b" "l1_index b"] path_levels(3) [OF A(2) r' A(4)] index_bounds(4)
    obtain a where "a \<in> P" "leaf_slot (kmem s') r b = leaf_slot (kmem s') r a"
      by (auto simp: leaf_slot_def)
    with leaf_slots_differ [OF A(2) r' _ A(4), of a] tabs' b show False
      by simp
  qed
  have new: "{x. 0 < lvl' x} = {x. 0 < lvl x} \<union> {x. lvl x = 0 \<and> 0 < lvl' x}"
    using pt_ext_level [OF A(3)] by auto
  have newf: "(q, x) \<notin> in_use (kalloc s)" if "lvl x = 0" "0 < lvl' x" for q x
    using A(6) that by (simp add: pt_used_def)
  have dj': "D \<inter> {x. 0 < lvl' x} = {}"
    using dj newf new iu by blast
  have fr': "(q, x) \<notin> base" if "0 < lvl' x \<or> x \<in> D" for x q
    using that fr newf iu by (cases "lvl x = 0") auto
  have tb': "{x. 0 < lvl' x} = insert r (\<Union>a\<in>insert b P. path_frames (kmem s') r a)"
    using A(5) tb tabs' by auto
  have iu': "in_use (kalloc s') = base \<union> Pair OS_PT_REG ` {x. 0 < lvl' x} \<union> Pair USER_REG ` D"
    using A(6) iu unfolding pt_used_def new image_Un by auto
  have fp: "free_pages os OS_PT_REG (kalloc s) \<le> free_pages os OS_PT_REG (kalloc s') + 3"
    "free_pages os USER_REG (kalloc s') = free_pages os USER_REG (kalloc s)"
    using A(6) by (simp_all add: pt_used_def)
  show ?thesis
    by (rule exI [of _ lvl'], rule exI [of _ s'], intro conjI allI impI ballI)
      (fact A r' np tb' iu' dj' fp | rule lv' fr' | use tabs' in blast)+
qed

definition map_result :: "u64 \<Rightarrow> u32 \<Rightarrow> u64 \<Rightarrow> u64 \<Rightarrow> memory \<Rightarrow> bool"
  where "map_result r flags b d m \<longleftrightarrow> has_tables m r b \<and> m (leaf_slot m r b) = page_entry d flags"

text \<open>Writing a present entry \<open>e\<close> to a free leaf entry keeps the tables.\<close>

lemma leaf_write_inv:
  assumes "pt_inv in_use lvl s1" "lvl r = 4" "has_tables (kmem s1) r b" "\<not> present (kmem s1 (leaf_slot (kmem s1) r b))"
    "kmem s2 = (kmem s1)(leaf_slot (kmem s1) r b := e)" "in_use (kalloc s1) \<subseteq> in_use (kalloc s2)"
  shows "pt_inv in_use lvl s2" "pt_ext lvl s1 lvl s2"
proof -
  have L1: "lvl (l1_of (kmem s1) r b) = 1" by (rule path_levels [OF assms(1-3)])
  have f32: "unat f < 2 ^ 32" if "0 < lvl f" for f using pt_invD(1) [OF assms(1) that] by simp
  have notL: "slot f i \<noteq> leaf_slot (kmem s1) r b" if "2 \<le> lvl f" "unat i < 512" for f i
  proof
    assume "slot f i = leaf_slot (kmem s1) r b"
    with slot_inj [OF f32 that(2) f32 index_bounds(4), of f] that(1) L1 have "f = l1_of (kmem s1) r b" by (simp add: leaf_slot_def)
    with that(1) L1 show False by simp
  qed
  show "pt_inv in_use lvl s2" using assms(1,6) unfolding pt_inv_def by (simp add: notL subset_iff assms(5))
  show "pt_ext lvl s1 lvl s2" using assms(4) by (auto simp: pt_ext_def assms(5))
qed

lemma leaf_write_maps:
  assumes A: "pt_inv in_use lvl s1" "lvl r = 4" "has_tables (kmem s1) r b" "\<not> present (kmem s1 (leaf_slot (kmem s1) r b))"
    and K: "kmem s2 = (kmem s1)(leaf_slot (kmem s1) r b := e)" "in_use (kalloc s1) \<subseteq> in_use (kalloc s2)" "present e"
    and P: "\<forall>f i. lvl f = 1 \<longrightarrow> unat i < 512 \<longrightarrow> present (kmem s1 (slot f i)) \<longrightarrow> (\<exists>a\<in>P. slot f i = leaf_slot (kmem s1) r a)"
      "\<forall>a\<in>P. has_tables (kmem s1) r a \<and> present (kmem s1 (leaf_slot (kmem s1) r a))"
    and F: "{x. 0 < lvl x} = insert r (\<Union>a\<in>insert b P. path_frames (kmem s1) r a)"
    and U: "in_use (kalloc s2) = base \<union> Pair OS_PT_REG ` {x. 0 < lvl x} \<union> Pair USER_REG ` D"
      "\<forall>x q. (0 < lvl x \<or> x \<in> D) \<longrightarrow> (q, x) \<notin> base" "D \<inter> {x. 0 < lvl x} = {}"
  shows "pt_maps in_use base r (insert b P) D lvl s2" "has_tables (kmem s2) r b" "kmem s2 (leaf_slot (kmem s2) r b) = e"
proof -
  note W = leaf_write_inv [OF A K(1,2)]
  note pb = path_ext [OF A(1-3) W(2)]
  have pP: "leaf_slot (kmem s2) r a = leaf_slot (kmem s1) r a \<and> has_tables (kmem s2) r a \<and>
      present (kmem s2 (leaf_slot (kmem s2) r a)) \<and> path_frames (kmem s2) r a = path_frames (kmem s1) r a" if "a \<in> P" for a
  proof -
    have t: "has_tables (kmem s1) r a" "present (kmem s1 (leaf_slot (kmem s1) r a))" using P(2) that by auto
    note pa = path_ext [OF A(1,2) t(1) W(2)]
    show ?thesis using pa(4) pa(5) pa(6) [OF t(2)] t(2) path_frames_ext [OF A(1,2) t(1) W(2)] by simp
  qed
  show leaf: "kmem s2 (leaf_slot (kmem s2) r b) = e" unfolding pb(5) by (simp add: K(1))
  show "has_tables (kmem s2) r b" by (fact pb(4))
  have pf: "path_frames (kmem s2) r b = path_frames (kmem s1) r b" by (rule path_frames_ext [OF A(1-3) W(2)])
  show "pt_maps in_use base r (insert b P) D lvl s2"
    unfolding pt_maps_def
  proof (intro conjI ballI allI impI)
    show "pt_inv in_use lvl s2" "lvl r = 4" by (fact W(1) A(2))+
    show "has_tables (kmem s2) r a" "present (kmem s2 (leaf_slot (kmem s2) r a))" if "a \<in> insert b P" for a
      using that pP pb(4) leaf K(3) by (cases "a = b"; simp)+
    show "\<exists>a\<in>insert b P. slot f i = leaf_slot (kmem s2) r a" if "lvl f = 1" "unat i < 512" "present (kmem s2 (slot f i))" for f i
      using that P(1) pP pb(5) K(1) by (cases "slot f i = leaf_slot (kmem s1) r b") (simp, fastforce)
    show "{x. 0 < lvl x} = insert r (\<Union>a\<in>insert b P. path_frames (kmem s2) r a)" unfolding F using pf pP by auto
    show "in_use (kalloc s2) = base \<union> Pair OS_PT_REG ` {x. 0 < lvl x} \<union> Pair USER_REG ` D" "D \<inter> {x. 0 < lvl x} = {}"
      by (fact U(1) U(3))+
    show "(q, y) \<notin> base" if "0 < lvl y \<or> y \<in> D" for y q using U(2) that by blast
  qed
qed

text \<open>The frame of a data page: the given one, or a new one.\<close>

lemma data_frame:
  assumes "kos_ok os in_use" "(if pfn = 0 then os_pfn_alloc os USER_REG a else (pfn, a)) = (x, a')" "pfn = 0 \<longrightarrow> 0 < free_pages os USER_REG a"
  shows "pfn = 0 \<Longrightarrow> (q, ucast x) \<notin> in_use a" "in_use a' = (if pfn = 0 then insert (USER_REG, ucast x) (in_use a) else in_use a)"
    "free_pages os OS_PT_REG a' = free_pages os OS_PT_REG a" "free_pages os USER_REG a \<le> free_pages os USER_REG a' + 1"
proof -
  have "(\<forall>q. (q, ucast x) \<notin> in_use a) \<and> in_use a' = insert (USER_REG, ucast x) (in_use a) \<and>
      free_pages os OS_PT_REG a' = free_pages os OS_PT_REG a \<and> Suc (free_pages os USER_REG a') = free_pages os USER_REG a" if "pfn = 0"
  proof -
    from kos_ok_alloc [OF assms(1) assms(3) [rule_format, OF that]] obtain f a2 where "os_pfn_alloc os USER_REG a = (f, a2)"
      "\<And>q. (q, ucast f) \<notin> in_use a" "in_use a2 = insert (USER_REG, ucast f) (in_use a)"
      "Suc (free_pages os USER_REG a2) = free_pages os USER_REG a" "\<And>q. q \<noteq> USER_REG \<Longrightarrow> free_pages os q a2 = free_pages os q a"
      by metis
    with assms(2) that show ?thesis by (simp add: USER_REG_def OS_PT_REG_def)
  qed
  then show "pfn = 0 \<Longrightarrow> (q, ucast x) \<notin> in_use a" "in_use a' = (if pfn = 0 then insert (USER_REG, ucast x) (in_use a) else in_use a)"
    "free_pages os OS_PT_REG a' = free_pages os OS_PT_REG a" "free_pages os USER_REG a \<le> free_pages os USER_REG a' + 1"
    using assms(2) by (cases "pfn = 0"; auto)+
qed

lemma map_page_ok:
  assumes os: "kos_ok os in_use" and M: "pt_maps in_use base r P D lvl s" and b: "\<And>a. a \<in> P \<Longrightarrow> \<not> same_page a b"
    and room: "3 \<le> free_pages os OS_PT_REG (kalloc s)" "pfn = 0 \<Longrightarrow> 0 < free_pages os USER_REG (kalloc s)"
  shows "\<exists>lvl' d. pt_maps in_use base r (insert b P) (if pfn = 0 then insert d D else D) lvl' (map_page os (push_bit 12 r) b flags pfn s) \<and>
    pt_ext lvl s lvl' (map_page os (push_bit 12 r) b flags pfn s) \<and>
    map_result r flags b d (kmem (map_page os (push_bit 12 r) b flags pfn s)) \<and> unat d < 2 ^ 32 \<and>
    (pfn = 0 \<longrightarrow> d \<notin> D \<and> (\<forall>q. (q, d) \<notin> in_use (kalloc s))) \<and> (pfn \<noteq> 0 \<longrightarrow> d = ucast pfn) \<and>
    free_pages os OS_PT_REG (kalloc s) \<le> free_pages os OS_PT_REG (kalloc (map_page os (push_bit 12 r) b flags pfn s)) + 3 \<and>
    free_pages os USER_REG (kalloc s) \<le> free_pages os USER_REG (kalloc (map_page os (push_bit 12 r) b flags pfn s)) + 1"
proof -
  from tables_then_maps [OF os M b room(1), where flags = flags] obtain lvl' s1 where A:
    "assign_page_table_pages os (push_bit 12 r) b flags s = (leaf_slot (kmem s1) r b, s1)"
    "pt_inv in_use lvl' s1" "lvl' r = 4" "pt_ext lvl s lvl' s1" "has_tables (kmem s1) r b"
    "\<forall>f i. lvl' f = 1 \<longrightarrow> unat i < 512 \<longrightarrow> present (kmem s1 (slot f i)) \<longrightarrow> (\<exists>a\<in>P. slot f i = leaf_slot (kmem s1) r a)"
    "\<forall>a\<in>P. has_tables (kmem s1) r a \<and> present (kmem s1 (leaf_slot (kmem s1) r a))"
    "\<not> present (kmem s1 (leaf_slot (kmem s1) r b))"
    "{x. 0 < lvl' x} = insert r (\<Union>a\<in>insert b P. path_frames (kmem s1) r a)"
    "in_use (kalloc s1) = base \<union> Pair OS_PT_REG ` {x. 0 < lvl' x} \<union> Pair USER_REG ` D"
    "\<forall>x q. (0 < lvl' x \<or> x \<in> D) \<longrightarrow> (q, x) \<notin> base" "D \<inter> {x. 0 < lvl' x} = {}"
    "free_pages os OS_PT_REG (kalloc s) \<le> free_pages os OS_PT_REG (kalloc s1) + 3"
    "free_pages os USER_REG (kalloc s1) = free_pages os USER_REG (kalloc s)"
    by blast
  obtain x a' where x: "(if pfn = 0 then os_pfn_alloc os USER_REG (kalloc s1) else (pfn, kalloc s1)) = (x, a')"
    by (metis surj_pair)
  define d :: u64 where "d = ucast x"
  let ?s = "\<lparr>kmem = (kmem s1)(leaf_slot (kmem s1) r b := page_entry d flags), kalloc = a'\<rparr>"
  let ?D = "if pfn = 0 then insert d D else D"
  have run: "map_page os (push_bit 12 r) b flags pfn s = ?s"
    using A(1,8) x by (simp add: map_page_def assign_data_page_def present_def d_def)
  have d32: "unat d < 2 ^ 32" unfolding d_def by (rule unat_ucast32)
  have "pfn = 0 \<longrightarrow> 0 < free_pages os USER_REG (kalloc s1)" using room(2) A(14) by simp
  note al = data_frame [OF os x this, folded d_def]
  have iu: "in_use (kalloc s1) \<subseteq> in_use (kalloc ?s)" using al(2) by auto
  have base: "(q, d) \<notin> base" if "pfn = 0" for q using al(1) [OF that, of q] unfolding A(10) by simp
  have free: "\<not> 0 < lvl' d" if "pfn = 0" using al(1) [OF that, of OS_PT_REG] unfolding A(10) by (simp add: image_iff)
  have K: "kmem ?s = (kmem s1)(leaf_slot (kmem s1) r b := page_entry d flags)" by simp
  have U: "in_use (kalloc ?s) = base \<union> Pair OS_PT_REG ` {x. 0 < lvl' x} \<union> Pair USER_REG ` ?D"
    "\<forall>y q. (0 < lvl' y \<or> y \<in> ?D) \<longrightarrow> (q, y) \<notin> base" "?D \<inter> {x. 0 < lvl' x} = {}"
    subgoal using A(10) al(2) by (cases "pfn = 0") auto
    subgoal using A(11) base by (cases "pfn = 0") auto
    subgoal using A(12) free by (cases "pfn = 0") auto
    done
  note W = leaf_write_maps [OF A(2,3,5,8) K iu page_entry_present [OF d32] A(6,7,9) U]
  have ext: "pt_ext lvl s lvl' ?s"
    by (rule pt_ext_trans [OF A(4) leaf_write_inv(2) [OF A(2,3,5,8) K iu]])
  have "in_use (kalloc s) \<subseteq> in_use (kalloc s1)"
  proof -
    have "in_use (kalloc s) = base \<union> Pair OS_PT_REG ` {x. 0 < lvl x} \<union> Pair USER_REG ` D" using M unfolding pt_maps_def by blast
    moreover have "{x. 0 < lvl x} \<subseteq> {x. 0 < lvl' x}" using pt_ext_level [OF A(4)] by auto
    ultimately show ?thesis using A(10) by blast
  qed
  then have "pfn = 0 \<longrightarrow> (\<forall>q. (q, d) \<notin> in_use (kalloc s))" using al(1) by (meson subsetD)
  moreover have "pfn = 0 \<longrightarrow> d \<notin> D" using al(1) [of USER_REG] unfolding A(10) by auto
  moreover have "pfn \<noteq> 0 \<longrightarrow> d = ucast pfn" using x by (auto simp: d_def)
  moreover have "free_pages os OS_PT_REG (kalloc s) \<le> free_pages os OS_PT_REG (kalloc ?s) + 3"
    "free_pages os USER_REG (kalloc s) \<le> free_pages os USER_REG (kalloc ?s) + 1"
    using A(13,14) al(3,4) by simp_all
  moreover have "map_result r flags b d (kmem ?s)" unfolding map_result_def using W(2,3) by simp
  ultimately show ?thesis
    unfolding run using d32 W(1) ext by (intro exI [of _ lvl'] exI [of _ d]) simp
qed

section \<open>Building and tearing down an address space\<close>

lemma pt_maps_empty:
  assumes os: "kos_ok os in_use" and al: "os_pfn_alloc os OS_PT_REG (kalloc s) = (f, a)"
    and room: "0 < free_pages os OS_PT_REG (kalloc s)"
  shows "pt_maps in_use (in_use (kalloc s)) (ucast f) {} {} (\<lambda>x. if x = ucast f then 4 else 0)
    \<lparr>kmem = initialize_page (push_bit 12 (ucast f)) (kmem s), kalloc = a\<rparr>"
    "Suc (free_pages os OS_PT_REG a) = free_pages os OS_PT_REG (kalloc s)"
    "free_pages os USER_REG a = free_pages os USER_REG (kalloc s)"
proof -
  let ?r = "ucast f :: u64"
  let ?s = "\<lparr>kmem = initialize_page (push_bit 12 ?r) (kmem s), kalloc = a\<rparr>"
  have r32: "unat ?r < 2 ^ 32"
    by (rule unat_ucast32)
  from kos_ok_alloc [OF os room] al have fresh: "\<And>q. (q, ?r) \<notin> in_use (kalloc s)"
    "in_use a = insert (OS_PT_REG, ?r) (in_use (kalloc s))"
    and fp: "Suc (free_pages os OS_PT_REG a) = free_pages os OS_PT_REG (kalloc s)"
    "\<And>q. q \<noteq> OS_PT_REG \<Longrightarrow> free_pages os q a = free_pages os q (kalloc s)"
    by (metis prod.inject)+
  have z: "\<not> present (kmem ?s (slot ?r i))" if "unat i < 512" for i
    using initialize_page_slot [OF r32 r32 that] by (simp add: present_def)
  have "pt_inv in_use (\<lambda>x. if x = ?r then 4 else 0) ?s"
    unfolding pt_inv_def using z r32 fresh(2) by auto
  thus "pt_maps in_use (in_use (kalloc s)) ?r {} {} (\<lambda>x. if x = ?r then 4 else 0) ?s"
    unfolding pt_maps_def using fresh by auto
  show "Suc (free_pages os OS_PT_REG a) = free_pages os OS_PT_REG (kalloc s)"
    "free_pages os USER_REG a = free_pages os USER_REG (kalloc s)"
    using fp by (simp_all add: USER_REG_def OS_PT_REG_def)
qed

definition ctx_addrs :: "exec_context \<Rightarrow> u64 \<times> u64 \<times> u64"
  where "ctx_addrs ctx = (seg_end (mms ctx MM_SEG_STACK) - 0x1000, seg_start (mms ctx MM_SEG_CODE), seg_start (mms ctx MM_SEG_DATA))"

definition pages_apart :: "exec_context \<Rightarrow> bool"
  where "pages_apart ctx \<longleftrightarrow> (case ctx_addrs ctx of (st, cd, dt) \<Rightarrow>
    \<not> same_page st cd \<and> \<not> same_page st dt \<and> \<not> same_page cd dt)"

lemma map_result_ext:
  assumes "pt_maps in_use base r P D lvl s" "a \<in> P" "map_result r fl a d (kmem s)" "unat d < 2 ^ 32" "pt_ext lvl s lvl' s'"
  shows "map_result r fl a d (kmem s')"
proof -
  have i: "pt_inv in_use lvl s" "lvl r = 4" "has_tables (kmem s) r a"
    using assms(1,3) by (simp_all add: pt_maps_def map_result_def)
  have "present (kmem s (leaf_slot (kmem s) r a))"
    using assms(3,4) page_entry_present by (simp add: map_result_def)
  with path_ext [OF i assms(5)] assms(3) show ?thesis
    by (simp add: map_result_def)
qed

text \<open>The address space that \<open>prepare_context_mm\<close> builds.\<close>

lemma prepare_builds:
  assumes os: "kos_ok os in_use" and ap: "pages_apart ctx"
    and room: "10 \<le> free_pages os OS_PT_REG (kalloc s)" "3 \<le> free_pages os USER_REG (kalloc s)"
    and addrs: "ctx_addrs ctx = (st, cd, dt)"
    and run: "prepare_context_mm os ctx s = (ctx', s')"
  shows "\<exists>lvl d1 d2 d3. mms ctx' = mms ctx \<and> arg_pfn ctx' = arg_pfn ctx \<and>
    pt_maps in_use (in_use (kalloc s)) (ucast (pgd ctx')) {st, cd, dt} (if arg_pfn ctx = 0 then {d1, d2, d3} else {d1, d2}) lvl s' \<and>
    map_result (ucast (pgd ctx')) (access_flags (mms ctx MM_SEG_STACK)) st d1 (kmem s') \<and>
    map_result (ucast (pgd ctx')) (access_flags (mms ctx MM_SEG_CODE)) cd d2 (kmem s') \<and>
    map_result (ucast (pgd ctx')) (access_flags (mms ctx MM_SEG_DATA)) dt d3 (kmem s') \<and>
    unat d1 < 2 ^ 32 \<and> unat d2 < 2 ^ 32 \<and> unat d3 < 2 ^ 32 \<and> d1 \<noteq> d2 \<and>
    (if arg_pfn ctx = 0 then d3 \<noteq> d1 \<and> d3 \<noteq> d2 else d3 = ucast (arg_pfn ctx))"
proof -
  obtain f a where al: "os_pfn_alloc os OS_PT_REG (kalloc s) = (f, a)"
    by (metis surj_pair)
  define r :: u64 where "r = ucast f"
  let ?s0 = "\<lparr>kmem = initialize_page (push_bit 12 r) (kmem s), kalloc = a\<rparr>"
  let ?fs = "access_flags (mms ctx MM_SEG_STACK)" and ?fc = "access_flags (mms ctx MM_SEG_CODE)"
    and ?fd = "access_flags (mms ctx MM_SEG_DATA)"
  define s1 where "s1 = map_page os (push_bit 12 r) st ?fs 0 ?s0"
  define s2 where "s2 = map_page os (push_bit 12 r) cd ?fc 0 s1"
  define s3 where "s3 = map_page os (push_bit 12 r) dt ?fd (arg_pfn ctx) s2"
  have c: "ctx' = ctx\<lparr>pgd := f\<rparr>" "s' = s3"
    using run al addrs kos_ok_map [OF os]
    by (auto simp: prepare_context_mm_def Let_def ctx_addrs_def r_def s1_def s2_def s3_def)
  have np: "\<not> same_page st cd" "\<not> same_page st dt" "\<not> same_page cd dt"
    using ap addrs by (simp_all add: pages_apart_def)
  have "0 < free_pages os OS_PT_REG (kalloc s)"
    using room(1) by simp
  note e = pt_maps_empty [OF os al this, folded r_def]
  have r0: "3 \<le> free_pages os OS_PT_REG (kalloc ?s0)" "0 < free_pages os USER_REG (kalloc ?s0)"
    using e(2,3) room by auto
  from map_page_ok [OF os e(1) _ r0, of st 0 ?fs, folded s1_def] obtain l1 d1 where A:
    "pt_maps in_use (in_use (kalloc s)) r {st} {d1} l1 s1" "map_result r ?fs st d1 (kmem s1)" "unat d1 < 2 ^ 32"
    "free_pages os OS_PT_REG (kalloc ?s0) \<le> free_pages os OS_PT_REG (kalloc s1) + 3"
    "free_pages os USER_REG (kalloc ?s0) \<le> free_pages os USER_REG (kalloc s1) + 1"
    by auto
  have r1: "3 \<le> free_pages os OS_PT_REG (kalloc s1)" "0 < free_pages os USER_REG (kalloc s1)"
    using A(4,5) e(2,3) room by auto
  from map_page_ok [OF os A(1) _ r1, of cd 0 ?fc, folded s2_def] np obtain l2 d2 where B:
    "pt_maps in_use (in_use (kalloc s)) r {cd, st} {d2, d1} l2 s2" "pt_ext l1 s1 l2 s2" "map_result r ?fc cd d2 (kmem s2)"
    "unat d2 < 2 ^ 32" "d2 \<noteq> d1"
    "free_pages os OS_PT_REG (kalloc s1) \<le> free_pages os OS_PT_REG (kalloc s2) + 3"
    "free_pages os USER_REG (kalloc s1) \<le> free_pages os USER_REG (kalloc s2) + 1"
    by auto
  have r2: "3 \<le> free_pages os OS_PT_REG (kalloc s2)" "0 < free_pages os USER_REG (kalloc s2)"
    using A(4,5) B(6,7) e(2,3) room by auto
  have "\<And>x. x \<in> {cd, st} \<Longrightarrow> \<not> same_page x dt"
    using np by auto
  from map_page_ok [OF os B(1) this r2, of "arg_pfn ctx" ?fd, folded s3_def] obtain l3 d3 where C:
    "pt_maps in_use (in_use (kalloc s)) r {dt, cd, st} (if arg_pfn ctx = 0 then {d3, d2, d1} else {d2, d1}) l3 s3"
    "pt_ext l2 s2 l3 s3" "map_result r ?fd dt d3 (kmem s3)" "unat d3 < 2 ^ 32"
    "arg_pfn ctx = 0 \<longrightarrow> d3 \<notin> {d2, d1}" "arg_pfn ctx \<noteq> 0 \<longrightarrow> d3 = ucast (arg_pfn ctx)"
    by auto
  have m2: "map_result r ?fs st d1 (kmem s2)"
    by (rule map_result_ext [OF A(1) _ A(2,3) B(2)]) simp
  have ms: "map_result r ?fs st d1 (kmem s3)"
    by (rule map_result_ext [OF B(1) _ m2 A(3) C(2)]) simp
  have mc: "map_result r ?fc cd d2 (kmem s3)"
    by (rule map_result_ext [OF B(1) _ B(3,4) C(2)]) simp
  have eqs: "{dt, cd, st} = {st, cd, dt}"
    "(if arg_pfn ctx = 0 then {d3, d2, d1} else {d2, d1}) = (if arg_pfn ctx = 0 then {d1, d2, d3} else {d1, d2})"
    by auto
  have pg: "ucast (pgd ctx') = r" "mms ctx' = mms ctx" "arg_pfn ctx' = arg_pfn ctx"
    using c(1) by (simp_all add: r_def)
  have ds: "d1 \<noteq> d2" "if arg_pfn ctx = 0 then d3 \<noteq> d1 \<and> d3 \<noteq> d2 else d3 = ucast (arg_pfn ctx)"
    using B(5) C(5,6) by auto
  show ?thesis
    unfolding pg c(2)
    by (rule exI [of _ l3], rule exI [of _ d1], rule exI [of _ d2], rule exI [of _ d3], intro conjI)
      (fact refl C(1) [unfolded eqs] ms mc C(3) A(3) B(4) C(4) ds)+
qed

text \<open>\<open>cleanup_context_mm\<close> collects every table frame once.\<close>

lemma add_new_set [simp]: "set (add_new f arr) = insert f (set arr)"
  by (auto simp: add_new_def exist_in_array_def list_ex_iff)

lemma add_new_distinct [simp]: "distinct (add_new f arr) = distinct arr"
  by (auto simp: add_new_def exist_in_array_def list_ex_iff)

lemma add_new_length: "length (add_new f arr) \<le> length arr + 1"
  by (simp add: add_new_def)

lemma add_pages_eq:
  "add_pages_to_array m (push_bit 12 r) a arr =
    (pfn_of (m (leaf_slot m r a)), add_new (l1_of m r a) (add_new (l2_of m r a) (add_new (l3_of m r a) arr)))"
  by (simp add: add_pages_to_array_def Let_def leaf_slot_def l1_of_def l2_of_def l3_of_def)

lemma free_all_ok:
  "kos_ok os in_use \<Longrightarrow> distinct fs \<Longrightarrow> Pair reg ` set fs \<subseteq> in_use a \<Longrightarrow>
    \<exists>a'. free_all os reg fs a = Some a' \<and> in_use a' = in_use a - Pair reg ` set fs"
proof (induction fs arbitrary: a)
  case (Cons f fs)
  from Cons.prems obtain a1 where a1: "os_pfn_free os reg f a = Some a1" "in_use a1 = in_use a - {(reg, f)}"
    unfolding kos_ok_def by (metis imageI list.set_intros(1) subsetD)
  have "Pair reg ` set fs \<subseteq> in_use a1"
    using a1(2) Cons.prems(2,3) by auto
  with Cons.IH [OF Cons.prems(1), of a1] Cons.prems(2) obtain a2 where
    "free_all os reg fs a1 = Some a2" "in_use a2 = in_use a1 - Pair reg ` set fs"
    by auto
  with a1 show ?case
    by auto
qed simp

definition teardown_frames :: "exec_context \<Rightarrow> memory \<Rightarrow> u64 list"
  where "teardown_frames ctx m =
    (let r = ucast (pgd ctx) in
     snd (add_pages_to_array m (push_bit 12 r) (seg_start (mms ctx MM_SEG_DATA))
       (snd (add_pages_to_array m (push_bit 12 r) (seg_start (mms ctx MM_SEG_CODE))
         (snd (add_pages_to_array m (push_bit 12 r) (seg_end (mms ctx MM_SEG_STACK) - 0x1000) [r]))))))"

text \<open>
  C13: Building the address space of a context and tearing it down again succeeds and returns
  exactly the frames it took: every table frame and every user frame is freed once, none twice, and
  nothing else is freed but the argument frame that the caller handed over.  The array of frames
  to free holds at most ten entries, so its sixteen places suffice.
\<close>

theorem prepare_cleanup_balanced:
  assumes os: "kos_ok os in_use" and ap: "pages_apart ctx"
    and room: "10 \<le> free_pages os OS_PT_REG (kalloc s)" "3 \<le> free_pages os USER_REG (kalloc s)"
    and arg: "arg_pfn ctx \<noteq> 0 \<Longrightarrow> (USER_REG, ucast (arg_pfn ctx)) \<in> in_use (kalloc s)"
    and run: "prepare_context_mm os ctx s = (ctx', s')"
  shows "\<exists>s''. cleanup_context_mm os ctx' s' = Some s'' \<and> length (teardown_frames ctx' (kmem s')) \<le> 10 \<and>
    in_use (kalloc s'') = in_use (kalloc s) - (if arg_pfn ctx = 0 then {} else {(USER_REG, ucast (arg_pfn ctx))})"
proof -
  obtain st cd dt where addrs: "ctx_addrs ctx = (st, cd, dt)"
    by (metis surj_pair)
  from prepare_builds [OF os ap room addrs run] obtain lvl d1 d2 d3 where B:
    "mms ctx' = mms ctx" "arg_pfn ctx' = arg_pfn ctx"
    "pt_maps in_use (in_use (kalloc s)) (ucast (pgd ctx')) {st, cd, dt} (if arg_pfn ctx = 0 then {d1, d2, d3} else {d1, d2}) lvl s'"
    "map_result (ucast (pgd ctx')) (access_flags (mms ctx MM_SEG_STACK)) st d1 (kmem s')"
    "map_result (ucast (pgd ctx')) (access_flags (mms ctx MM_SEG_CODE)) cd d2 (kmem s')"
    "map_result (ucast (pgd ctx')) (access_flags (mms ctx MM_SEG_DATA)) dt d3 (kmem s')"
    "unat d1 < 2 ^ 32" "unat d2 < 2 ^ 32" "unat d3 < 2 ^ 32" "d1 \<noteq> d2"
    "if arg_pfn ctx = 0 then d3 \<noteq> d1 \<and> d3 \<noteq> d2 else d3 = ucast (arg_pfn ctx)"
    by blast
  define r :: u64 where "r = ucast (pgd ctx')"
  let ?m = "kmem s'"
  let ?D = "if arg_pfn ctx = 0 then {d1, d2, d3} else {d1, d2}"
  define arr where "arr = teardown_frames ctx' ?m"
  have a: "seg_end (mms ctx MM_SEG_STACK) - 0x1000 = st" "seg_start (mms ctx MM_SEG_CODE) = cd" "seg_start (mms ctx MM_SEG_DATA) = dt"
    using addrs by (simp_all add: ctx_addrs_def)
  have leaf: "pfn_of (?m (leaf_slot ?m r st)) = d1" "pfn_of (?m (leaf_slot ?m r cd)) = d2" "pfn_of (?m (leaf_slot ?m r dt)) = d3"
    using B(4-9) page_entry_pfn by (simp_all add: map_result_def r_def)
  have tb: "{x. 0 < lvl x} = insert r (\<Union>a\<in>{st, cd, dt}. path_frames ?m r a)"
    and iu: "in_use (kalloc s') = in_use (kalloc s) \<union> Pair OS_PT_REG ` {x. 0 < lvl x} \<union> Pair USER_REG ` ?D"
    and fr: "\<And>x q. 0 < lvl x \<or> x \<in> ?D \<Longrightarrow> (q, x) \<notin> in_use (kalloc s)"
    using B(3) unfolding pt_maps_def r_def by blast+
  have arr: "set arr = {x. 0 < lvl x}" "distinct arr"
    unfolding tb arr_def teardown_frames_def Let_def r_def [symmetric] B(1) a add_pages_eq snd_conv
    by (auto simp: path_frames_def)
  have len: "length arr \<le> 10"
    unfolding arr_def teardown_frames_def Let_def add_pages_eq snd_conv
    by (auto intro!: order_trans [OF add_new_length])
  have "\<exists>a1. free_all os OS_PT_REG arr (kalloc s') = Some a1 \<and> in_use a1 = in_use (kalloc s') - Pair OS_PT_REG ` set arr"
    by (rule free_all_ok [OF os arr(2)]) (use iu arr(1) in auto)
  then obtain a1 where a1: "free_all os OS_PT_REG arr (kalloc s') = Some a1"
    "in_use a1 = in_use (kalloc s') - Pair OS_PT_REG ` set arr"
    by blast
  have iu1: "in_use a1 = in_use (kalloc s) \<union> Pair USER_REG ` ?D"
    using a1(2) iu fr arr(1) by (auto simp: OS_PT_REG_def USER_REG_def)
  have dist: "distinct [d1, d2, d3]"
    using B(10,11) fr [of d1 USER_REG] fr [of d2 USER_REG] arg by (auto split: if_splits)
  have sub: "Pair USER_REG ` set [d1, d2, d3] \<subseteq> in_use a1"
    using iu1 B(11) arg by (auto split: if_splits)
  from free_all_ok [OF os dist sub] obtain a2 where a2: "free_all os USER_REG [d1, d2, d3] a1 = Some a2"
    "in_use a2 = in_use a1 - Pair USER_REG ` set [d1, d2, d3]"
    by blast
  have "cleanup_context_mm os ctx' s' = Some (s'\<lparr>kalloc := a2\<rparr>)"
    using a1(1) a2(1) leaf unfolding cleanup_context_mm_def arr_def teardown_frames_def Let_def r_def [symmetric] B(1) a add_pages_eq
    by (auto simp: bind_eq_Some_conv)
  moreover have "in_use a2 = in_use (kalloc s) - (if arg_pfn ctx = 0 then {} else {(USER_REG, ucast (arg_pfn ctx))})"
    unfolding a2(2) iu1 using B(11) fr [of d1 USER_REG] fr [of d2 USER_REG] fr [of d3 USER_REG] by (auto split: if_splits)
  ultimately show ?thesis
    using len arr_def by auto
qed

text \<open>
  The translation the processor performs: every level must be present, and a write is allowed only
  if every level allows it.
\<close>

definition hw_entry :: "memory \<Rightarrow> u64 \<Rightarrow> u64 \<Rightarrow> u64 option"
  where "hw_entry m f i = (if present (m (slot f i)) then Some (m (slot f i)) else None)"

definition hw_walk :: "memory \<Rightarrow> u64 \<Rightarrow> u64 \<Rightarrow> (u64 \<times> bool) option"
  where "hw_walk m r a = do {
    e4 \<leftarrow> hw_entry m r (l4_index a);
    e3 \<leftarrow> hw_entry m (pfn_of e4) (l3_index a);
    e2 \<leftarrow> hw_entry m (pfn_of e3) (l2_index a);
    e1 \<leftarrow> hw_entry m (pfn_of e2) (l1_index a);
    Some (pfn_of e1, bit e4 1 \<and> bit e3 1 \<and> bit e2 1 \<and> bit e1 1) }"

lemma page_entry_writable: "unat d < 2 ^ 32 \<Longrightarrow> bit (page_entry d fl) 1 = bit fl 1"
proof -
  assume d: "unat d < 2 ^ 32"
  have "bit (page_entry d fl) 1 = bit (unat (page_entry d fl)) 1"
    by (simp add: bit_unsigned_iff)
  also have "\<dots> = bit fl 1"
  proof -
    have "(unat d * 4096 + 7) div 2 = unat d * 2048 + 3" "(unat d * 4096 + 5) div 2 = unat d * 2048 + 2"
      by simp_all
    thus ?thesis
      unfolding page_entry_unat [OF d] by (simp add: bit_iff_odd)
  qed
  finally show ?thesis .
qed

lemma hw_walk_mapped:
  assumes "map_result r fl a d m" "unat d < 2 ^ 32"
  shows "\<exists>w. hw_walk m r a = Some (d, w) \<and> (w \<longrightarrow> bit fl 1)"
  using assms page_entry_present [OF assms(2), of fl] page_entry_pfn [OF assms(2), of fl] page_entry_writable [OF assms(2), of fl]
  by (simp add: map_result_def has_tables_def hw_walk_def hw_entry_def leaf_slot_def l1_of_def l2_of_def l3_of_def)

text \<open>
  C4: After \<open>prepare_context_mm\<close> the processor translates the last stack page, the first code
  page and the first data page, each to a frame of its own that is in use as user memory (the data
  page to the argument frame, if there is one), and a page is writable only if its segment asks
  for it.
\<close>

theorem prepare_translates:
  assumes os: "kos_ok os in_use" and ap: "pages_apart ctx"
    and room: "10 \<le> free_pages os OS_PT_REG (kalloc s)" "3 \<le> free_pages os USER_REG (kalloc s)"
    and arg: "arg_pfn ctx \<noteq> 0 \<Longrightarrow> (USER_REG, ucast (arg_pfn ctx)) \<in> in_use (kalloc s)"
    and run: "prepare_context_mm os ctx s = (ctx', s')"
  shows "\<exists>d1 d2 d3 w1 w2 w3.
    hw_walk (kmem s') (ucast (pgd ctx')) (seg_end (mms ctx MM_SEG_STACK) - 0x1000) = Some (d1, w1) \<and>
    hw_walk (kmem s') (ucast (pgd ctx')) (seg_start (mms ctx MM_SEG_CODE)) = Some (d2, w2) \<and>
    hw_walk (kmem s') (ucast (pgd ctx')) (seg_start (mms ctx MM_SEG_DATA)) = Some (d3, w3) \<and>
    distinct [d1, d2, d3] \<and> Pair USER_REG ` {d1, d2, d3} \<subseteq> in_use (kalloc s') \<and>
    (arg_pfn ctx \<noteq> 0 \<longrightarrow> d3 = ucast (arg_pfn ctx)) \<and>
    (w1 \<longrightarrow> bit (access_flags (mms ctx MM_SEG_STACK)) 1) \<and> (w2 \<longrightarrow> bit (access_flags (mms ctx MM_SEG_CODE)) 1) \<and>
    (w3 \<longrightarrow> bit (access_flags (mms ctx MM_SEG_DATA)) 1)"
proof -
  obtain st cd dt where addrs: "ctx_addrs ctx = (st, cd, dt)"
    by (metis surj_pair)
  from prepare_builds [OF os ap room addrs run] obtain lvl d1 d2 d3 where B:
    "pt_maps in_use (in_use (kalloc s)) (ucast (pgd ctx')) {st, cd, dt} (if arg_pfn ctx = 0 then {d1, d2, d3} else {d1, d2}) lvl s'"
    "map_result (ucast (pgd ctx')) (access_flags (mms ctx MM_SEG_STACK)) st d1 (kmem s')"
    "map_result (ucast (pgd ctx')) (access_flags (mms ctx MM_SEG_CODE)) cd d2 (kmem s')"
    "map_result (ucast (pgd ctx')) (access_flags (mms ctx MM_SEG_DATA)) dt d3 (kmem s')"
    "unat d1 < 2 ^ 32" "unat d2 < 2 ^ 32" "unat d3 < 2 ^ 32" "d1 \<noteq> d2"
    "if arg_pfn ctx = 0 then d3 \<noteq> d1 \<and> d3 \<noteq> d2 else d3 = ucast (arg_pfn ctx)"
    by blast
  let ?D = "if arg_pfn ctx = 0 then {d1, d2, d3} else {d1, d2}"
  have a: "seg_end (mms ctx MM_SEG_STACK) - 0x1000 = st" "seg_start (mms ctx MM_SEG_CODE) = cd" "seg_start (mms ctx MM_SEG_DATA) = dt"
    using addrs by (simp_all add: ctx_addrs_def)
  have iu: "in_use (kalloc s') = in_use (kalloc s) \<union> Pair OS_PT_REG ` {x. 0 < lvl x} \<union> Pair USER_REG ` ?D"
    and fr: "\<And>x q. x \<in> ?D \<Longrightarrow> (q, x) \<notin> in_use (kalloc s)"
    using B(1) unfolding pt_maps_def by blast+
  have d: "distinct [d1, d2, d3]"
    using B(8,9) fr [of d1 USER_REG] fr [of d2 USER_REG] arg by (auto split: if_splits)
  have u: "Pair USER_REG ` {d1, d2, d3} \<subseteq> in_use (kalloc s')"
    using iu B(9) arg by (auto split: if_splits)
  from hw_walk_mapped [OF B(2,5)] hw_walk_mapped [OF B(3,6)] hw_walk_mapped [OF B(4,7)] obtain w1 w2 w3 where w:
    "hw_walk (kmem s') (ucast (pgd ctx')) st = Some (d1, w1)" "w1 \<longrightarrow> bit (access_flags (mms ctx MM_SEG_STACK)) 1"
    "hw_walk (kmem s') (ucast (pgd ctx')) cd = Some (d2, w2)" "w2 \<longrightarrow> bit (access_flags (mms ctx MM_SEG_CODE)) 1"
    "hw_walk (kmem s') (ucast (pgd ctx')) dt = Some (d3, w3)" "w3 \<longrightarrow> bit (access_flags (mms ctx MM_SEG_DATA)) 1"
    by blast
  have "arg_pfn ctx \<noteq> 0 \<longrightarrow> d3 = ucast (arg_pfn ctx)"
    using B(9) by auto
  with w d u show ?thesis
    unfolding a by blast
qed

section \<open>A concrete kernel\<close>

text \<open>
  An allocator with three regions of a thousand frames each, handed out in order: the state counts
  the frames handed out per region and remembers the freed ones.
\<close>

definition frame_no :: "u32 \<Rightarrow> nat \<Rightarrow> nat"
  where "frame_no r i = unat r * 2000 + i"

definition run_kos :: "((u32 \<Rightarrow> nat) \<times> (u32 \<times> u64) set) kos"
  where "run_kos = \<lparr>osmap = push_bit 12,
    os_pfn_alloc = (\<lambda>r (c, F). (of_nat (frame_no r (c r + 1)),
      (c(r := c r + 1), F - {(r, of_nat (frame_no r (c r + 1)))}))),
    os_pfn_free = (\<lambda>r f (c, F). Some (c, insert (r, f) F)),
    free_pages = (\<lambda>r (c, F). if r < 3 then 1000 - c r else 0)\<rparr>"

definition run_in_use :: "(u32 \<Rightarrow> nat) \<times> (u32 \<times> u64) set \<Rightarrow> (u32 \<times> u64) set"
  where "run_in_use a = {(r, of_nat (frame_no r i)) | r i. r < 3 \<and> 0 < i \<and> i \<le> min (fst a r) 1000} - snd a"

lemma frame_no_inj:
  assumes "(of_nat (frame_no r i) :: u64) = of_nat (frame_no q j)" "r < 3" "q < 3" "i \<le> 1000" "j \<le> 1000"
  shows "r = q \<and> i = j"
proof -
  have b: "unat r < 3" "unat q < 3"
    using assms(2,3) by (simp_all add: word_less_nat_alt)
  have "frame_no r i < 2 ^ 64" "frame_no q j < 2 ^ 64"
    using b assms(4,5) by (simp_all add: frame_no_def)
  hence u: "unat (of_nat (frame_no r i) :: u64) = frame_no r i" "unat (of_nat (frame_no q j) :: u64) = frame_no q j"
    by (simp_all add: unat_of_nat)
  have "frame_no r i = frame_no q j"
    using arg_cong [OF assms(1), of unat] unfolding u .
  hence e: "unat r * 2000 + i = unat q * 2000 + j"
    by (simp add: frame_no_def)
  hence "(unat r * 2000 + i) div 2000 = (unat q * 2000 + j) div 2000"
    by simp
  hence "unat r = unat q"
    using assms(4,5) by simp
  with e show ?thesis
    unfolding word_eq_iff_unsigned [where ?'a = nat] by simp
qed

lemma run_alloc_ucast:
  assumes "r < 3" "i \<le> 1000"
  shows "ucast (of_nat (frame_no r i) :: u32) = (of_nat (frame_no r i) :: u64)" "0 < i \<Longrightarrow> (of_nat (frame_no r i) :: u32) \<noteq> 0"
proof -
  have b: "unat r < 3"
    using assms(1) by (simp add: word_less_nat_alt)
  hence n: "frame_no r i < 2 ^ 32"
    using assms(2) by (simp add: frame_no_def)
  hence u: "unat (of_nat (frame_no r i) :: u32) = frame_no r i"
    by (simp add: unat_of_nat)
  have "unat (ucast (of_nat (frame_no r i) :: u32) :: u64) = frame_no r i"
    using n by (simp add: unsigned_ucast_eq u take_bit_nat_eq_self)
  moreover have "unat (of_nat (frame_no r i) :: u64) = frame_no r i"
    using n by (simp add: unat_of_nat)
  ultimately show "ucast (of_nat (frame_no r i) :: u32) = (of_nat (frame_no r i) :: u64)"
    unfolding word_eq_iff_unsigned [where ?'a = nat] by simp
  show "(of_nat (frame_no r i) :: u32) \<noteq> 0" if "0 < i"
    using u that by (metis add_gr_0 frame_no_def less_numeral_extra(3) unsigned_0)
qed

lemma run_in_use_alloc:
  assumes "r < 3" "c r < 1000"
  defines "f \<equiv> of_nat (frame_no r (c r + 1)) :: u64"
  shows "(q, f) \<notin> run_in_use (c, F)" "run_in_use (c(r := c r + 1), F - {(r, f)}) = insert (r, f) (run_in_use (c, F))"
proof -
  show new: "(q, f) \<notin> run_in_use (c, F)" for q
  proof
    assume "(q, f) \<in> run_in_use (c, F)"
    then obtain i where i: "q < 3" "0 < i" "i \<le> min (c q) 1000" "f = of_nat (frame_no q i)"
      by (auto simp: run_in_use_def)
    with frame_no_inj [of r "c r + 1" q i] assms(1,2) show False
      by (auto simp: f_def)
  qed
  let ?S = "\<lambda>c. {(r, of_nat (frame_no r i) :: u64) | r i. r < 3 \<and> 0 < i \<and> i \<le> min (c r) 1000}"
  have "?S (c(r := c r + 1)) = insert (r, f) (?S c)"
  proof (intro equalityI subsetI)
    fix x assume "x \<in> ?S (c(r := c r + 1))"
    then obtain q i where x: "x = (q, of_nat (frame_no q i))" "q < 3" "0 < i" "i \<le> min ((c(r := c r + 1)) q) 1000"
      by blast
    show "x \<in> insert (r, f) (?S c)"
    proof (cases "q = r \<and> i = c r + 1")
      case True
      thus ?thesis
        using x(1) by (simp add: f_def)
    next
      case False
      hence "i \<le> min (c q) 1000"
        using x(4) by (auto split: if_splits)
      with x(1-3) show ?thesis
        by blast
    qed
  next
    fix x assume "x \<in> insert (r, f) (?S c)"
    thus "x \<in> ?S (c(r := c r + 1))"
    proof
      assume "x = (r, f)"
      thus ?thesis
        using assms(1,2) unfolding f_def by (intro CollectI exI [of _ r] exI [of _ "c r + 1"]) simp
    next
      assume "x \<in> ?S c"
      then obtain q i where x: "x = (q, of_nat (frame_no q i))" "q < 3" "0 < i" "i \<le> min (c q) 1000"
        by blast
      moreover have "i \<le> min ((c(r := c r + 1)) q) 1000"
        using x(4) by auto
      ultimately show ?thesis
        by blast
    qed
  qed
  moreover have "(r, f) \<notin> ?S c \<or> (r, f) \<in> F"
    using new [of r] by (auto simp: run_in_use_def)
  ultimately show "run_in_use (c(r := c r + 1), F - {(r, f)}) = insert (r, f) (run_in_use (c, F))"
    by (auto simp: run_in_use_def)
qed

lemma run_kos_ok: "kos_ok run_kos run_in_use"
  unfolding kos_ok_def
proof (intro conjI allI impI)
  fix f
  show "osmap run_kos f = push_bit 12 f"
    by (simp add: run_kos_def)
next
  fix reg a f a'
  assume a: "0 < free_pages run_kos reg a" "os_pfn_alloc run_kos reg a = (f, a')"
  obtain c F where cF: "a = (c, F)"
    by (cases a)
  have r: "reg < 3" "c reg < 1000"
    using a(1) by (auto simp: run_kos_def cF split: if_splits)
  have fa: "f = of_nat (frame_no reg (c reg + 1))" "a' = (c(reg := c reg + 1), F - {(reg, ucast f)})"
    using a(2) run_alloc_ucast(1) [OF r(1), of "c reg + 1"] r(2) by (auto simp: run_kos_def cF)
  have uf: "ucast f = (of_nat (frame_no reg (c reg + 1)) :: u64)"
    unfolding fa(1) using run_alloc_ucast(1) [OF r(1), of "c reg + 1"] r(2) by simp
  show "(q, ucast f) \<notin> run_in_use a" for q
    unfolding uf cF by (rule run_in_use_alloc(1) [where c = c, OF r])
  show "f \<noteq> 0"
    unfolding fa(1) using run_alloc_ucast(2) [OF r(1), of "c reg + 1"] r(2) by simp
  show "run_in_use a' = insert (reg, ucast f) (run_in_use a)"
    unfolding fa(2) uf cF by (rule run_in_use_alloc(2) [where c = c, OF r])
  show "Suc (free_pages run_kos reg a') = free_pages run_kos reg a"
    using r by (simp add: run_kos_def fa(2) cF)
  show "free_pages run_kos q a' = free_pages run_kos q a" if "q \<noteq> reg" for q
    using that by (simp add: run_kos_def fa(2) cF)
next
  fix reg f a
  assume "(reg, f) \<in> run_in_use a"
  show "\<exists>a'. os_pfn_free run_kos reg f a = Some a' \<and> run_in_use a' = run_in_use a - {(reg, f)}"
    by (cases a) (auto simp: run_kos_def run_in_use_def)
qed

text \<open>The layout of the segments that the kernel uses (\<open>context.h\<close>).\<close>

definition run_ctx :: exec_context
  where "run_ctx = \<lparr>pgd = 0, mms = (\<lambda>i. if i = MM_SEG_STACK then \<lparr>seg_start = 0x7ff000000, seg_end = 0x800000000, access_flags = 3\<rparr>
      else if i = MM_SEG_CODE then \<lparr>seg_start = 0x100000000, seg_end = 0x140000000, access_flags = 5\<rparr>
      else if i = MM_SEG_DATA then \<lparr>seg_start = 0x180000000, seg_end = 0x200000000, access_flags = 3\<rparr>
      else \<lparr>seg_start = 0x140000000, seg_end = 0x180000000, access_flags = 1\<rparr>), arg_pfn = 0\<rparr>"

definition run_kstate :: "((u32 \<Rightarrow> nat) \<times> (u32 \<times> u64) set) kstate"
  where "run_kstate = \<lparr>kmem = (\<lambda>_. 0), kalloc = (\<lambda>_. 0, {})\<rparr>"

lemma run_ctx_apart: "pages_apart run_ctx"
  by (simp add: pages_apart_def ctx_addrs_def run_ctx_def MM_SEG_STACK_def MM_SEG_CODE_def MM_SEG_DATA_def same_page_def
      l4_index_def l3_index_def l2_index_def l1_index_def)

lemma run_room: "10 \<le> free_pages run_kos OS_PT_REG (kalloc run_kstate)" "3 \<le> free_pages run_kos USER_REG (kalloc run_kstate)"
  "arg_pfn run_ctx = 0"
  by (simp_all add: run_kos_def run_kstate_def run_ctx_def OS_PT_REG_def USER_REG_def)

theorem prepare_cleanup_balanced_witness:
  "\<exists>ctx' s' s''. prepare_context_mm run_kos run_ctx run_kstate = (ctx', s') \<and>
    cleanup_context_mm run_kos ctx' s' = Some s'' \<and> run_in_use (kalloc s'') = run_in_use (kalloc run_kstate)"
proof -
  obtain ctx' s' where r: "prepare_context_mm run_kos run_ctx run_kstate = (ctx', s')"
    by (metis surj_pair)
  from prepare_cleanup_balanced [OF run_kos_ok run_ctx_apart run_room(1,2) _ r] r show ?thesis
    by (auto simp: run_room(3))
qed

theorem prepare_translates_witness:
  "\<exists>ctx' s' d w. prepare_context_mm run_kos run_ctx run_kstate = (ctx', s') \<and>
    hw_walk (kmem s') (ucast (pgd ctx')) 0x100000000 = Some (d, w) \<and> \<not> w"
proof -
  obtain ctx' s' where r: "prepare_context_mm run_kos run_ctx run_kstate = (ctx', s')"
    by (metis surj_pair)
  have c: "seg_start (mms run_ctx MM_SEG_CODE) = 0x100000000" "\<not> bit (access_flags (mms run_ctx MM_SEG_CODE)) 1"
    by (simp_all add: run_ctx_def MM_SEG_STACK_def MM_SEG_CODE_def bit_iff_odd)
  from prepare_translates [OF run_kos_ok run_ctx_apart run_room(1,2) _ r] r c show ?thesis
    by (auto simp: run_room(3))
qed

end
