(* ===== verification/Syscall.thy ===== *)
theory Syscall
  imports PageTable
begin

text \<open>
  System calls and the page-fault handler of the teaching kernel
  (\<open>Assignments/assignment2/entry.c\<close>): checking a user address by walking the page tables,
  growing and shrinking the data segments, freeing their pages, and mapping a page on a fault.
  The page-table routines of this file are those of \<open>context_mm.c\<close>, which the theory of the page
  tables models.
\<close>

section \<open>Definitions\<close>

record useg =
  us_start :: u64
  us_end :: u64
  us_next_free :: u64
  us_flags :: u32

record uctx =
  uc_id :: u32
  uc_pgd :: u32
  uc_mms :: "nat \<Rightarrow> useg"

record 'a uproc =
  uc :: uctx
  uk :: "'a kstate"
  uout :: "u8 list"

datatype sysres = SysRet u64 | SysExit | SysFault

definition MAP_RD :: u32 where "MAP_RD = 0"
definition MAP_WR :: u32 where "MAP_WR = 1"

definition extract_addr_from_page_entry :: "u64 \<Rightarrow> u64"
  where "extract_addr_from_page_entry e = drop_bit 12 e AND 0xFFFFFFFFFF"

definition is_valid_virtual_addr :: "'a kos \<Rightarrow> memory \<Rightarrow> u64 \<Rightarrow> u64 \<Rightarrow> bool"
  where "is_valid_virtual_addr os m a pg =
    (let l4 = osmap os pg; e4 = m (cell_ptr l4 (l4_index a)) in
     if e4 AND 1 = 0 then False else
     let l3 = osmap os (extract_addr_from_page_entry e4); e3 = m (cell_ptr l3 (l3_index a)) in
     if e3 AND 1 = 0 then False else
     let l2 = osmap os (extract_addr_from_page_entry e3); e2 = m (cell_ptr l2 (l2_index a)) in
     if e2 AND 1 = 0 then False else
     let l1 = osmap os (extract_addr_from_page_entry e2); e1 = m (cell_ptr l1 (l1_index a)) in
     if e1 AND 1 = 0 then False else True)"

definition free_data_page :: "'a kos \<Rightarrow> u64 \<Rightarrow> u64 \<Rightarrow> 'a kstate \<Rightarrow> 'a kstate option"
  where "free_data_page os a pg s =
    (let m = kmem s; l4 = osmap os pg; e4 = m (cell_ptr l4 (l4_index a)) in
     if e4 AND 1 = 0 then Some s else
     let l3 = osmap os (extract_addr_from_page_entry e4); e3 = m (cell_ptr l3 (l3_index a)) in
     if e3 AND 1 = 0 then Some s else
     let l2 = osmap os (extract_addr_from_page_entry e3); e2 = m (cell_ptr l2 (l2_index a)) in
     if e2 AND 1 = 0 then Some s else
     let l1 = osmap os (extract_addr_from_page_entry e2); p = cell_ptr l1 (l1_index a); e1 = m p in
     if e1 AND 1 = 0 then Some s else
     do {
       al \<leftarrow> os_pfn_free os USER_REG (extract_addr_from_page_entry e1) (kalloc s);
       Some \<lparr>kmem = m(p := 0), kalloc = al\<rparr> })"

text \<open>The page-fault handler.  \<^term>\<open>None\<close> is \<open>do_exit()\<close>.\<close>

definition handle_mm_seg_data_page_fault :: "'a kos \<Rightarrow> useg \<Rightarrow> u64 \<Rightarrow> u64 \<Rightarrow> 'a kstate \<Rightarrow> 'a kstate"
  where "handle_mm_seg_data_page_fault os seg a pg s =
    (let l4 = osmap os pg;
         (p, s) = assign_page_table_pages os l4 a (us_flags seg) s
     in assign_data_page os p (us_flags seg) 0 s)"

definition handle_mm_seg_rodata_page_fault :: "'a kos \<Rightarrow> useg \<Rightarrow> u64 \<Rightarrow> u64 \<Rightarrow> 'a kstate \<Rightarrow> 'a kstate"
  where "handle_mm_seg_rodata_page_fault os seg a pg s =
    (let l4 = osmap os pg;
         (p, s) = assign_page_table_pages os l4 a (us_flags seg) s
     in assign_data_page os p (us_flags seg) 0 s)"

definition handle_mm_seg_stack_page_fault :: "'a kos \<Rightarrow> useg \<Rightarrow> u64 \<Rightarrow> u64 \<Rightarrow> 'a kstate \<Rightarrow> 'a kstate"
  where "handle_mm_seg_stack_page_fault os seg a pg s =
    (let l4 = osmap os pg;
         (p, s) = assign_page_table_pages os l4 a (us_flags seg) s
     in assign_data_page os p (us_flags seg) 0 s)"

definition handle_page_fault :: "'a kos \<Rightarrow> uctx \<Rightarrow> u64 \<Rightarrow> u64 \<Rightarrow> 'a kstate \<Rightarrow> 'a kstate option"
  where "handle_page_fault os ctx cr2 error_code s =
    (let data_mm = uc_mms ctx MM_SEG_DATA; ROdata_mm = uc_mms ctx MM_SEG_RODATA; stack_mm = uc_mms ctx MM_SEG_STACK;
         pg = ucast (uc_pgd ctx) in
     if cr2 \<ge> us_start data_mm \<and> cr2 < us_next_free data_mm \<and> error_code AND 1 = 0
     then Some (handle_mm_seg_data_page_fault os data_mm cr2 pg s)
     else if cr2 \<ge> us_start ROdata_mm \<and> cr2 < us_next_free ROdata_mm
     then Some (handle_mm_seg_rodata_page_fault os ROdata_mm cr2 pg s)
     else if cr2 \<ge> us_start stack_mm \<and> cr2 < us_end stack_mm
     then Some (handle_mm_seg_stack_page_fault os stack_mm cr2 pg s)
     else None)"

text \<open>
  The loop of \<open>SYSCALL_WRITE\<close> reads the buffer byte by byte through the page tables and prints each
  byte before it reads the next; \<open>uout\<close> holds the bytes printed by \<open>write\<close>, without the kernel's own
  messages.  \<open>ub\<close> gives the byte at a user address under the tables of a kernel state.  Reading an
  address that is not mapped enters the page-fault handler with error code 0, a read by the kernel
  of a page that is not present: the handler ends the process, or it maps the page and the read is
  tried again.  \<^term>\<open>SysFault\<close> stands for a read that faults again after that.
\<close>

definition read_user_byte :: "'a kos \<Rightarrow> ('a kstate \<Rightarrow> u64 \<Rightarrow> u8) \<Rightarrow> u64 \<Rightarrow> 'a uproc \<Rightarrow> (sysres + u8) \<times> 'a uproc"
  where "read_user_byte os ub a p =
    (let pg = ucast (uc_pgd (uc p)) in
     if is_valid_virtual_addr os (kmem (uk p)) a pg then (Inr (ub (uk p) a), p)
     else (case handle_page_fault os (uc p) a 0 (uk p) of
             None \<Rightarrow> (Inl SysExit, p)
           | Some k \<Rightarrow>
               (if is_valid_virtual_addr os (kmem k) a pg then Inr (ub k a) else Inl SysFault, p\<lparr>uk := k\<rparr>)))"

fun write_loop :: "'a kos \<Rightarrow> ('a kstate \<Rightarrow> u64 \<Rightarrow> u8) \<Rightarrow> u64 \<Rightarrow> nat \<Rightarrow> 'a uproc \<Rightarrow> sysres option \<times> 'a uproc"
  where
    "write_loop os ub buf 0 p = (None, p)"
  | "write_loop os ub buf (Suc n) p =
      (case read_user_byte os ub buf p of
         (Inl r, p1) \<Rightarrow> (Some r, p1)
       | (Inr b, p1) \<Rightarrow> write_loop os ub (buf + 1) n (p1\<lparr>uout := uout p1 @ [b]\<rparr>))"

definition segment_of_flags :: "u32 \<Rightarrow> nat option"
  where "segment_of_flags flags =
    (let seg = None;
         seg = (if flags = MAP_RD then Some MM_SEG_RODATA else seg);
         seg = (if flags = MAP_WR then Some MM_SEG_DATA else seg)
     in seg)"

definition set_next_free :: "nat \<Rightarrow> u64 \<Rightarrow> 'a uproc \<Rightarrow> 'a uproc"
  where "set_next_free i v p = p\<lparr>uc := (uc p)\<lparr>uc_mms := (uc_mms (uc p))(i := (uc_mms (uc p) i)\<lparr>us_next_free := v\<rparr>)\<rparr>\<rparr>"

definition sys_write :: "'a kos \<Rightarrow> ('a kstate \<Rightarrow> u64 \<Rightarrow> u8) \<Rightarrow> u64 \<Rightarrow> u64 \<Rightarrow> 'a uproc \<Rightarrow> sysres \<times> 'a uproc"
  where "sys_write os ub buf param2 p =
    (let length = scast (ucast param2 :: u32) :: u64; pg = ucast (uc_pgd (uc p)) in
     if \<not> is_valid_virtual_addr os (kmem (uk p)) buf pg \<or>
        \<not> is_valid_virtual_addr os (kmem (uk p)) (buf + length - 1) pg
     then (SysRet (- 1), p)
     else (case write_loop os ub buf (nat (sint length)) p of
             (None, p1) \<Rightarrow> (SysRet length, p1)
           | (Some r, p1) \<Rightarrow> (r, p1)))"

definition sys_expand :: "u64 \<Rightarrow> u64 \<Rightarrow> 'a uproc \<Rightarrow> sysres \<times> 'a uproc"
  where "sys_expand param1 param2 p =
    (let size = ucast param1 :: u32; flags = ucast param2 :: u32 in
     case segment_of_flags flags of
       None \<Rightarrow> (SysFault, p)
     | Some i \<Rightarrow>
         (let res = us_next_free (uc_mms (uc p) i);
              nf = res + ucast (push_bit 12 size);
              p1 = set_next_free i nf p in
          if nf > us_end (uc_mms (uc p1) i)
          then (SysRet 0, set_next_free i (nf - ucast (push_bit 12 size)) p1)
          else (SysRet res, p1)))"

fun shrink_loop :: "'a kos \<Rightarrow> nat \<Rightarrow> nat \<Rightarrow> 'a uproc \<Rightarrow> 'a uproc option"
  where
    "shrink_loop os i 0 p = Some p"
  | "shrink_loop os i (Suc n) p =
      (let nf = us_next_free (uc_mms (uc p) i) - 0x1000;
           p1 = set_next_free i nf p in
       do {
         k \<leftarrow> free_data_page os nf (ucast (uc_pgd (uc p1))) (uk p1);
         shrink_loop os i n (p1\<lparr>uk := k\<rparr>) })"

definition sys_shrink :: "'a kos \<Rightarrow> u64 \<Rightarrow> u64 \<Rightarrow> 'a uproc \<Rightarrow> sysres \<times> 'a uproc"
  where "sys_shrink os param1 param2 p =
    (let size = ucast param1 :: u32; flags = ucast param2 :: u32 in
     case segment_of_flags flags of
       None \<Rightarrow> (SysFault, p)
     | Some i \<Rightarrow>
         if us_next_free (uc_mms (uc p) i) - ucast (push_bit 12 size) < us_start (uc_mms (uc p) i)
         then (SysRet 0, p)
         else (case shrink_loop os i (unat size) p of
                 None \<Rightarrow> (SysFault, p)
               | Some p' \<Rightarrow> (SysRet (us_next_free (uc_mms (uc p') i)), p')))"

definition do_syscall :: "'a kos \<Rightarrow> ('a kstate \<Rightarrow> u64 \<Rightarrow> u8) \<Rightarrow> nat \<Rightarrow> u64 \<Rightarrow> u64 \<Rightarrow> 'a uproc \<Rightarrow> sysres \<times> 'a uproc"
  where "do_syscall os ub syscall param1 param2 p =
    (if syscall = 1 then (SysExit, p)
     else if syscall = 2 then (SysRet (ucast (uc_id (uc p))), p)
     else if syscall = 3 then sys_write os ub param1 param2 p
     else if syscall = 4 then sys_expand param1 param2 p
     else if syscall = 5 then sys_shrink os param1 param2 p
     else (SysRet (- 1), p))"

section \<open>Checking addresses\<close>



lemma extract_small:
  assumes "unat (drop_bit 12 e) < 2 ^ 32"
  shows "extract_addr_from_page_entry e = drop_bit 12 e"
proof -
  have "unat (drop_bit 12 e) < 2 ^ 40"
    using assms by simp
  hence "take_bit 40 (drop_bit 12 e) = drop_bit 12 e"
    by (rule take_bit_word_eq_self)
  moreover have "(0xFFFFFFFFFF :: u64) = mask 40"
    by (simp add: mask_numeral)
  ultimately show ?thesis
    unfolding extract_addr_from_page_entry_def by (simp only: take_bit_eq_mask)
qed

lemma is_valid_iff_mapped:
  assumes os: "kos_ok os in_use" and inv: "pt_inv in_use lvl s" and r: "lvl r = 4"
  shows "is_valid_virtual_addr os (kmem s) a r \<longleftrightarrow> has_tables (kmem s) r a \<and> present (kmem s (leaf_slot (kmem s) r a))"
proof -
  let ?m = "kmem s"
  have u: "unat f < 2 ^ 32" if "0 < lvl f" for f
    using inv that by (simp add: pt_inv_def)
  have step: "lvl (pfn_of (?m (slot f i))) = lvl f - 1" if "2 \<le> lvl f" "unat i < 512" "present (?m (slot f i))" for f i
    using inv that unfolding pt_inv_def by blast
  have x: "extract_addr_from_page_entry (?m (slot f i)) = pfn_of (?m (slot f i))"
    if "2 \<le> lvl f" "unat i < 512" "present (?m (slot f i))" for f i
    by (rule extract_small, rule u) (use step [OF that] that(1) in linarith)
  define e4 where "e4 = ?m (slot r (l4_index a))"
  have e4: "present e4 \<Longrightarrow> extract_addr_from_page_entry e4 = l3_of ?m r a \<and> lvl (l3_of ?m r a) = 3"
    using x [of r "l4_index a"] step [of r "l4_index a"] r index_bounds(1) by (simp add: e4_def l3_of_def)
  define e3 where "e3 = ?m (slot (l3_of ?m r a) (l3_index a))"
  have e3: "present e4 \<Longrightarrow> present e3 \<Longrightarrow> extract_addr_from_page_entry e3 = l2_of ?m r a \<and> lvl (l2_of ?m r a) = 2"
    using x [of "l3_of ?m r a" "l3_index a"] step [of "l3_of ?m r a" "l3_index a"] e4 index_bounds(2) by (simp add: e3_def l2_of_def)
  define e2 where "e2 = ?m (slot (l2_of ?m r a) (l2_index a))"
  have e2: "present e4 \<Longrightarrow> present e3 \<Longrightarrow> present e2 \<Longrightarrow> extract_addr_from_page_entry e2 = l1_of ?m r a"
    using x [of "l2_of ?m r a" "l2_index a"] e3 index_bounds(3) by (simp add: e2_def l1_of_def)
  show ?thesis
    unfolding is_valid_virtual_addr_def Let_def kos_ok_map [OF os] has_tables_def leaf_slot_def e4_def [symmetric]
      e3_def [symmetric] e2_def [symmetric]
    using e4 e3 e2 by (auto simp: present_def e3_def [symmetric] e2_def [symmetric])
qed

lemma free_data_page_unmapped:
  "\<not> is_valid_virtual_addr os (kmem s) a pg \<Longrightarrow> free_data_page os a pg s = Some s"
  by (auto simp: is_valid_virtual_addr_def free_data_page_def Let_def split: if_splits)

section \<open>Writing\<close>

lemma write_loop_prefix:
  assumes "\<And>i. i < k \<Longrightarrow> is_valid_virtual_addr os (kmem (uk p)) (buf + of_nat i) (ucast (uc_pgd (uc p)))"
  shows "write_loop os ub buf (k + n) p =
    write_loop os ub (buf + of_nat k) n (p\<lparr>uout := uout p @ map (\<lambda>i. ub (uk p) (buf + of_nat i)) [0..<k]\<rparr>)"
  using assms
proof (induction k arbitrary: buf p)
  case (Suc k)
  let ?p = "p\<lparr>uout := uout p @ [ub (uk p) buf]\<rparr>"
  have "is_valid_virtual_addr os (kmem (uk ?p)) (buf + 1 + of_nat i) (ucast (uc_pgd (uc ?p)))" if "i < k" for i
    using Suc.prems [of "Suc i"] that by (simp add: algebra_simps)
  from Suc.IH [OF this] have "write_loop os ub (buf + 1) (k + n) ?p = write_loop os ub (buf + 1 + of_nat k) n
      (?p\<lparr>uout := uout ?p @ map (\<lambda>i. ub (uk ?p) (buf + 1 + of_nat i)) [0..<k]\<rparr>)" .
  moreover have "is_valid_virtual_addr os (kmem (uk p)) buf (ucast (uc_pgd (uc p)))"
    using Suc.prems [of 0] by simp
  moreover have "map (\<lambda>i. ub (uk p) (buf + of_nat i)) [0..<Suc k] = ub (uk p) buf # map (\<lambda>i. ub (uk p) (buf + 1 + of_nat i)) [0..<k]"
    by (simp only: map_upt_Suc) (simp add: algebra_simps)
  ultimately show ?case
    by (simp add: read_user_byte_def algebra_simps del: upt_Suc)
qed simp



lemma write_length:
  assumes "n < 2 ^ 31"
  shows "scast (ucast (of_nat n :: u64) :: u32) = (of_nat n :: u64)" "nat (sint (of_nat n :: u64)) = n"
proof -
  have s: "sint (of_nat n :: u32) = int n" "sint (of_nat n :: u64) = int n"
    using assms by (simp_all add: signed_of_nat signed_take_bit_int_eq_self)
  have "(ucast (of_nat n :: u64) :: u32) = of_nat n"
    using assms by (simp add: unsigned_of_nat take_bit_nat_eq_self)
  thus "scast (ucast (of_nat n :: u64) :: u32) = (of_nat n :: u64)"
    using s by (simp add: scast_eq)
  show "nat (sint (of_nat n :: u64)) = n"
    using s by simp
qed


text \<open>
  C25: On a longer buffer the checks of the two ends are not enough.  If they pass and byte \<open>i\<close> is the
  first that is not mapped and lies in no segment that the page-fault handler fills, then \<open>write\<close>
  prints the bytes before it and the fault in the kernel ends the process, where the assignment
  asks for the result -1.
\<close>

theorem sys_write_hole_exits:
  assumes n: "n < 2 ^ 31" "i < n"
    and v: "is_valid_virtual_addr os (kmem (uk p)) buf (ucast (uc_pgd (uc p)))"
      "is_valid_virtual_addr os (kmem (uk p)) (buf + of_nat n - 1) (ucast (uc_pgd (uc p)))"
      "\<And>j. j < i \<Longrightarrow> is_valid_virtual_addr os (kmem (uk p)) (buf + of_nat j) (ucast (uc_pgd (uc p)))"
    and hole: "\<not> is_valid_virtual_addr os (kmem (uk p)) (buf + of_nat i) (ucast (uc_pgd (uc p)))"
      "handle_page_fault os (uc p) (buf + of_nat i) 0 (uk p) = None"
  shows "do_syscall os ub 3 buf (of_nat n) p =
    (SysExit, p\<lparr>uout := uout p @ map (\<lambda>j. ub (uk p) (buf + of_nat j)) [0..<i]\<rparr>)"
proof -
  obtain k where k: "n = i + Suc k"
    using n(2) less_iff_Suc_add by auto
  have "write_loop os ub buf n p = (Some SysExit, p\<lparr>uout := uout p @ map (\<lambda>j. ub (uk p) (buf + of_nat j)) [0..<i]\<rparr>)"
    using write_loop_prefix [of i os p buf ub "Suc k"] v(3) hole by (simp add: k read_user_byte_def Let_def del: add_Suc_right)
  thus ?thesis
    using v(1,2) write_length [OF n(1)] by (simp add: do_syscall_def sys_write_def Let_def)
qed

section \<open>Growing and shrinking a segment\<close>

text \<open>
  Every segment of the layout starts at 4 GB or above (\<open>CODE_START\<close> and up) and ends far below the
  end of the address space.
\<close>

definition seg_ok :: "useg \<Rightarrow> bool"
  where "seg_ok g \<longleftrightarrow> 2 ^ 32 \<le> unat (us_start g) \<and> us_start g \<le> us_next_free g \<and> us_next_free g \<le> us_end g \<and>
    unat (us_end g) + 2 ^ 32 < 2 ^ 64"

lemma unat_ucast32_eq: "unat (ucast (x :: u32) :: u64) = unat x"
  using unsigned_less [where ?'a = nat, of x] by (simp add: unsigned_ucast_eq take_bit_nat_eq_self)

lemma pages_no_wrap:
  assumes "unat (x :: u32) < 2 ^ 20"
  shows "unat (ucast (push_bit 12 x) :: u64) = unat x * 4096"
proof -
  have p: "unat (push_bit 12 x) = unat x * 4096"
    using assms by (simp add: push_bit_eq_mult unat_word_ariths)
  thus ?thesis
    using assms by (simp add: unsigned_ucast_eq take_bit_nat_eq_self)
qed

lemma set_next_free_simps [simp]:
  "uc_mms (uc (set_next_free i v p)) j = (if j = i then (uc_mms (uc p) i)\<lparr>us_next_free := v\<rparr> else uc_mms (uc p) j)"
  "uk (set_next_free i v p) = uk p" "uc_pgd (uc (set_next_free i v p)) = uc_pgd (uc p)"
  "set_next_free i v (set_next_free i w p) = set_next_free i v p"
  "set_next_free i (us_next_free (uc_mms (uc p) i)) p = p"
  "(set_next_free i v p)\<lparr>uk := uk p\<rparr> = set_next_free i v p"
  by (simp_all add: set_next_free_def)

lemma shrink_loop_segs:
  "shrink_loop os i n p = Some p' \<Longrightarrow>
    uc p' = uc (set_next_free i (us_next_free (uc_mms (uc p) i) - of_nat n * 0x1000) p)"
proof (induction n arbitrary: p)
  case (Suc n)
  let ?nf = "us_next_free (uc_mms (uc p) i)"
  from Suc.prems obtain k where "shrink_loop os i n ((set_next_free i (?nf - 0x1000) p)\<lparr>uk := k\<rparr>) = Some p'"
    by (auto simp: Let_def bind_eq_Some_conv)
  from Suc.IH [OF this] show ?case
    by (simp add: set_next_free_def algebra_simps)
qed simp

lemma shrink_loop_unmapped:
  assumes "\<And>k. k < n \<Longrightarrow> \<not> is_valid_virtual_addr os (kmem (uk p)) (us_next_free (uc_mms (uc p) i) - of_nat (Suc k) * 0x1000) (ucast (uc_pgd (uc p)))"
  shows "shrink_loop os i n p = Some (set_next_free i (us_next_free (uc_mms (uc p) i) - of_nat n * 0x1000) p)"
  using assms
proof (induction n arbitrary: p)
  case (Suc n)
  let ?nf = "us_next_free (uc_mms (uc p) i)"
  let ?p = "set_next_free i (?nf - 0x1000) p"
  have "\<not> is_valid_virtual_addr os (kmem (uk p)) (?nf - 0x1000) (ucast (uc_pgd (uc p)))"
    using Suc.prems [of 0] by simp
  hence f: "free_data_page os (?nf - 0x1000) (ucast (uc_pgd (uc ?p))) (uk ?p) = Some (uk ?p)"
    by (simp add: free_data_page_unmapped)
  have "shrink_loop os i n ?p = Some (set_next_free i (us_next_free (uc_mms (uc ?p) i) - of_nat n * 0x1000) ?p)"
  proof (rule Suc.IH)
    fix k assume "k < n"
    thus "\<not> is_valid_virtual_addr os (kmem (uk ?p)) (us_next_free (uc_mms (uc ?p) i) - of_nat (Suc k) * 0x1000) (ucast (uc_pgd (uc ?p)))"
      using Suc.prems [of "Suc k"] by (simp add: algebra_simps)
  qed
  with f show ?case
    by (simp add: Let_def algebra_simps)
qed simp

lemma segment_of_flags_cases: "segment_of_flags f = Some i \<longleftrightarrow> f = MAP_RD \<and> i = MM_SEG_RODATA \<or> f = MAP_WR \<and> i = MM_SEG_DATA"
  by (auto simp: segment_of_flags_def Let_def MAP_RD_def MAP_WR_def)

text \<open>
  C26: With requests below \<open>2^20\<close> pages, \<open>expand\<close> and \<open>shrink\<close> keep every segment within its bounds:
  \<open>start \<le> next_free \<le> end\<close> holds afterwards, also when the request is refused.
\<close>

theorem brk_keeps_bounds:
  assumes ok: "\<And>j. seg_ok (uc_mms (uc p) j)" and n: "unat (ucast param1 :: u32) < 2 ^ 20" and c: "c = 4 \<or> c = 5"
    and run: "do_syscall os ub c param1 param2 p = (r, p')"
  shows "seg_ok (uc_mms (uc p') j)"
proof -
  let ?n = "ucast (push_bit 12 (ucast param1 :: u32)) :: u64"
  note pn = pages_no_wrap [OF n]
  have lt: "unat ?n < 2 ^ 32"
    using pn n by simp
  consider "p' = p" | i v where "uc p' = uc (set_next_free i v p)" "us_start (uc_mms (uc p) i) \<le> v" "v \<le> us_end (uc_mms (uc p) i)"
  proof (cases "segment_of_flags (ucast param2)")
    case None
    with run c that(1) show thesis
      by (auto simp: do_syscall_def sys_expand_def sys_shrink_def Let_def)
  next
    case (Some i)
    let ?g = "uc_mms (uc p) i"
    have g: "us_start ?g \<le> us_next_free ?g" "us_next_free ?g \<le> us_end ?g" "unat (us_end ?g) + 2 ^ 32 < 2 ^ 64"
      "2 ^ 32 \<le> unat (us_next_free ?g)"
      using ok [of i] by (auto simp: seg_ok_def word_le_nat_alt)
    from c show thesis
    proof
      assume c4: "c = 4"
      let ?v = "us_next_free ?g + ?n"
      have "unat ?v = unat (us_next_free ?g) + unat ?n"
        using g(2,3) lt by (simp add: unat_word_ariths word_le_nat_alt)
      hence "us_start ?g \<le> ?v"
        using g(1) by (simp add: word_le_nat_alt)
      moreover have "p' = (if ?v > us_end ?g then p else set_next_free i ?v p)"
        using run Some by (auto simp: c4 do_syscall_def sys_expand_def Let_def)
      ultimately show thesis
        using that(1) that(2) [of i ?v] by (auto simp: not_less split: if_splits)
    next
      assume c5: "c = 5"
      let ?k = "unat (ucast param1 :: u32)"
      have nn: "of_nat ?k * 0x1000 = ?n"
        unfolding word_eq_iff_unsigned [where ?'a = nat] pn using n by (simp add: unat_word_ariths unat_ucast32_eq)
      let ?v = "us_next_free ?g - ?n"
      have v: "?v \<le> us_next_free ?g"
        using lt g(4) by (intro word_sub_le) (simp add: word_le_nat_alt)
      have "p' = p \<or> (\<not> ?v < us_start ?g \<and> shrink_loop os i ?k p = Some p')"
        using run Some by (auto simp: c5 do_syscall_def sys_shrink_def Let_def split: if_splits option.splits)
      thus thesis
      proof
        assume "\<not> ?v < us_start ?g \<and> shrink_loop os i ?k p = Some p'"
        with shrink_loop_segs [of os i ?k p p'] that(2) [of i ?v] v g(2) show thesis
          unfolding nn by (simp add: not_less)
      qed (rule that(1))
    qed
  qed
  thus ?thesis
    using ok by cases (auto simp: seg_ok_def)
qed

text \<open>
  Shrinking a segment by the number of pages it was just expanded by undoes the expansion: the
  process is as before, and the call returns the address that \<open>expand\<close> had returned, provided the
  request was granted and none of the new pages has been touched.
\<close>

theorem expand_shrink_roundtrip:
  assumes i: "segment_of_flags (ucast param2) = Some i" and ok: "seg_ok (uc_mms (uc p) i)" and n: "n < 2 ^ 20"
    and fits: "unat (us_next_free (uc_mms (uc p) i)) + n * 4096 \<le> unat (us_end (uc_mms (uc p) i))"
    and fresh: "\<And>k. k < n \<Longrightarrow> \<not> is_valid_virtual_addr os (kmem (uk p)) (us_next_free (uc_mms (uc p) i) + of_nat k * 0x1000) (ucast (uc_pgd (uc p)))"
  shows "\<exists>p1. do_syscall os ub 4 (of_nat n) param2 p = (SysRet (us_next_free (uc_mms (uc p) i)), p1) \<and>
    us_next_free (uc_mms (uc p1) i) = us_next_free (uc_mms (uc p) i) + of_nat n * 0x1000 \<and>
    do_syscall os ub 5 (of_nat n) param2 p1 = (SysRet (us_next_free (uc_mms (uc p) i)), p)"
proof -
  let ?g = "uc_mms (uc p) i" and ?nf = "us_next_free (uc_mms (uc p) i)"
  let ?n = "of_nat n * 0x1000 :: u64"
  have un: "unat (ucast (of_nat n :: u64) :: u32) = n"
    using n by (simp add: unsigned_ucast_eq unat_of_nat take_bit_nat_eq_self)
  have sz: "ucast (push_bit 12 (ucast (of_nat n :: u64) :: u32)) = ?n"
    unfolding word_eq_iff_unsigned [where ?'a = nat]
    using pages_no_wrap [of "ucast (of_nat n :: u64)"] n by (simp add: un unat_word_ariths unat_of_nat)
  have u: "unat (?nf + ?n) = unat ?nf + n * 4096"
    using fits n unsigned_less [where ?'a = nat, of "us_end ?g"] by (simp add: unat_word_ariths unat_of_nat)
  let ?p1 = "set_next_free i (?nf + ?n) p"
  have "\<not> ?nf + ?n > us_end ?g"
    using fits u by (simp add: word_less_nat_alt)
  hence e: "do_syscall os ub 4 (of_nat n) param2 p = (SysRet ?nf, ?p1)"
    using i by (simp add: do_syscall_def sys_expand_def Let_def sz)
  have "shrink_loop os i n ?p1 = Some (set_next_free i (us_next_free (uc_mms (uc ?p1) i) - of_nat n * 0x1000) ?p1)"
  proof (rule shrink_loop_unmapped)
    fix k assume k: "k < n"
    define j where "j = n - Suc k"
    have nj: "n = j + Suc k" "j < n"
      using k by (simp_all add: j_def)
    have e: "us_next_free (uc_mms (uc ?p1) i) - of_nat (Suc k) * 0x1000 = ?nf + of_nat j * 0x1000"
      unfolding nj(1) of_nat_add by (simp add: algebra_simps)
    show "\<not> is_valid_virtual_addr os (kmem (uk ?p1)) (us_next_free (uc_mms (uc ?p1) i) - of_nat (Suc k) * 0x1000) (ucast (uc_pgd (uc ?p1)))"
      unfolding e using fresh [OF nj(2)] by simp
  qed
  hence "shrink_loop os i n ?p1 = Some p"
    by simp
  moreover have "\<not> us_next_free (uc_mms (uc ?p1) i) - ?n < us_start (uc_mms (uc ?p1) i)"
    using ok by (simp add: seg_ok_def not_less)
  ultimately have "do_syscall os ub 5 (of_nat n) param2 ?p1 = (SysRet ?nf, p)"
    using i un by (simp add: do_syscall_def sys_shrink_def Let_def sz)
  with e show ?thesis
    by auto
qed

section \<open>Page faults\<close>

lemma fault_handlers_eq:
  assumes "kos_ok os in_use"
  shows "handle_mm_seg_data_page_fault os g a pg s = map_page os (push_bit 12 pg) a (us_flags g) 0 s"
    "handle_mm_seg_rodata_page_fault os g a pg s = map_page os (push_bit 12 pg) a (us_flags g) 0 s"
    "handle_mm_seg_stack_page_fault os g a pg s = map_page os (push_bit 12 pg) a (us_flags g) 0 s"
  unfolding handle_mm_seg_data_page_fault_def handle_mm_seg_rodata_page_fault_def handle_mm_seg_stack_page_fault_def
    map_page_def kos_ok_map [OF assms] Let_def by simp_all

lemma handle_page_fault_cases:
  assumes "kos_ok os in_use" "handle_page_fault os ctx cr2 ec s = Some s'"
  obtains flags where "s' = map_page os (push_bit 12 (ucast (uc_pgd ctx))) cr2 flags 0 s"
  using assms(2) unfolding handle_page_fault_def Let_def fault_handlers_eq [OF assms(1)]
  by (auto split: if_splits)

lemma map_page_mapped:
  assumes os: "kos_ok os in_use" and t: "has_tables (kmem s) r a" and p: "present (kmem s (leaf_slot (kmem s) r a))"
  shows "map_page os (push_bit 12 r) a flags pfn s = s"
proof -
  have step: "assign_page_table_page os (slot f i) flags s = (push_bit 12 (pfn_of (kmem s (slot f i))), s)"
    if "present (kmem s (slot f i))" for f i
    using that by (simp add: assign_page_table_page_def present_def kos_ok_map [OF os])
  have "assign_page_table_pages os (push_bit 12 r) a flags s = (leaf_slot (kmem s) r a, s)"
    using t step unfolding assign_page_table_pages_def has_tables_def leaf_slot_def
    by (simp add: l3_of_def l2_of_def l1_of_def)
  with p show ?thesis
    by (simp add: map_page_def assign_data_page_def present_def)
qed

lemma hw_walk_ext:
  assumes inv: "pt_inv in_use lvl s" "lvl r = 4" and t: "has_tables (kmem s) r a"
    and p: "present (kmem s (leaf_slot (kmem s) r a))" and ext: "pt_ext lvl s lvl' s'"
  shows "hw_walk (kmem s') r a = hw_walk (kmem s) r a"
proof -
  note lv = path_levels [OF inv t] and c = pt_ext_cell [OF ext]
  have "kmem s' (slot r (l4_index a)) = kmem s (slot r (l4_index a))"
    using c [of r] inv(2) t index_bounds(1) by (simp add: has_tables_def)
  moreover have "kmem s' (slot (l3_of (kmem s) r a) (l3_index a)) = kmem s (slot (l3_of (kmem s) r a) (l3_index a))"
    using c [of "l3_of (kmem s) r a"] lv(1) t index_bounds(2) by (simp add: has_tables_def)
  moreover have "kmem s' (slot (l2_of (kmem s) r a) (l2_index a)) = kmem s (slot (l2_of (kmem s) r a) (l2_index a))"
    using c [of "l2_of (kmem s) r a"] lv(2) t index_bounds(3) by (simp add: has_tables_def)
  moreover have "kmem s' (leaf_slot (kmem s) r a) = kmem s (leaf_slot (kmem s) r a)"
    by (rule path_ext(6) [OF inv t ext p])
  ultimately show ?thesis
    using t p by (simp add: hw_walk_def hw_entry_def has_tables_def leaf_slot_def l3_of_def l2_of_def l1_of_def)
qed

lemma same_page_path:
  assumes "same_page a b"
  shows "has_tables m r a = has_tables m r b" "leaf_slot m r a = leaf_slot m r b"
  using assms by (simp_all add: same_page_def has_tables_def leaf_slot_def l3_of_def l2_of_def l1_of_def)

text \<open>
  C17: When the page-fault handler resumes the process, the faulting address is mapped, every page
  mapped before still translates to the same frame with the same permission, and the page tables
  are well formed with all their frames accounted for.
\<close>

theorem page_fault_maps:
  assumes os: "kos_ok os in_use" and M: "pt_maps in_use base (ucast (uc_pgd ctx)) P D lvl s"
    and room: "3 \<le> free_pages os OS_PT_REG (kalloc s)" "1 \<le> free_pages os USER_REG (kalloc s)"
    and run: "handle_page_fault os ctx cr2 error_code s = Some s'"
  shows "is_valid_virtual_addr os (kmem s') cr2 (ucast (uc_pgd ctx)) \<and>
    (\<forall>a\<in>P. hw_walk (kmem s') (ucast (uc_pgd ctx)) a = hw_walk (kmem s) (ucast (uc_pgd ctx)) a) \<and>
    (\<exists>P' D' lvl'. P \<subseteq> P' \<and> pt_maps in_use base (ucast (uc_pgd ctx)) P' D' lvl' s')"
proof -
  let ?r = "ucast (uc_pgd ctx) :: u64"
  obtain fl where s': "s' = map_page os (push_bit 12 ?r) cr2 fl 0 s"
    using handle_page_fault_cases [OF os run] .
  have inv: "pt_inv in_use lvl s" "lvl ?r = 4"
    and tabs: "\<And>a. a \<in> P \<Longrightarrow> has_tables (kmem s) ?r a \<and> present (kmem s (leaf_slot (kmem s) ?r a))"
    using M unfolding pt_maps_def by blast+
  show ?thesis
  proof (cases "\<exists>a\<in>P. same_page a cr2")
    case True
    then obtain a where a: "a \<in> P" "same_page a cr2"
      by blast
    have t: "has_tables (kmem s) ?r cr2" "present (kmem s (leaf_slot (kmem s) ?r cr2))"
      using tabs [OF a(1)] same_page_path [OF a(2), of "kmem s" ?r] by simp_all
    hence "s' = s"
      using s' map_page_mapped [OF os t] by simp
    with t M is_valid_iff_mapped [OF os inv] show ?thesis
      by blast
  next
    case False
    have u: "(0::u32) = 0 \<Longrightarrow> 0 < free_pages os USER_REG (kalloc s)"
      using room(2) by simp
    from map_page_ok [where pfn = 0 and flags = fl and b = cr2, OF os M _ room(1) u, folded s'] False obtain lvl' D' where A:
      "pt_maps in_use base ?r (insert cr2 P) D' lvl' s'" "pt_ext lvl s lvl' s'"
      by blast
    have "pt_inv in_use lvl' s'" "lvl' ?r = 4" "has_tables (kmem s') ?r cr2" "present (kmem s' (leaf_slot (kmem s') ?r cr2))"
      using A(1) unfolding pt_maps_def by blast+
    hence "is_valid_virtual_addr os (kmem s') cr2 ?r"
      using is_valid_iff_mapped [OF os] by blast
    moreover have "hw_walk (kmem s') ?r a = hw_walk (kmem s) ?r a" if "a \<in> P" for a
      using hw_walk_ext [OF inv _ _ A(2)] tabs [OF that] by blast
    ultimately show ?thesis
      using A(1) by blast
  qed
qed

text \<open>
  A protection fault on a mapped page of the read-only data segment (error code with the
  present bit, outside the data segment) resumes the process with nothing changed: the handler
  checks the error code only for the data segment, so the instruction faults again forever instead
  of ending the process.
\<close>

theorem rodata_protection_fault_resumes:
  assumes os: "kos_ok os in_use" and e: "error_code AND 1 \<noteq> 0"
    and a: "us_start (uc_mms ctx MM_SEG_RODATA) \<le> cr2" "cr2 < us_next_free (uc_mms ctx MM_SEG_RODATA)"
    and m: "has_tables (kmem s) (ucast (uc_pgd ctx)) cr2"
      "present (kmem s (leaf_slot (kmem s) (ucast (uc_pgd ctx)) cr2))"
  shows "handle_page_fault os ctx cr2 error_code s = Some s"
  using assms map_page_mapped [OF os m, of _ 0]
  by (simp add: handle_page_fault_def Let_def fault_handlers_eq [OF os])

section \<open>Concrete runs\<close>

definition run_uctx :: uctx
  where "run_uctx = \<lparr>uc_id = 7, uc_pgd = 1, uc_mms = (\<lambda>i.
    if i = MM_SEG_RODATA then \<lparr>us_start = 0x140000000, us_end = 0x180000000, us_next_free = 0x140001000, us_flags = 1\<rparr>
    else if i = MM_SEG_DATA then \<lparr>us_start = 0x180000000, us_end = 0x200000000, us_next_free = 0x180008000, us_flags = 3\<rparr>
    else if i = MM_SEG_STACK then \<lparr>us_start = 0x7ff000000, us_end = 0x800000000, us_next_free = 0x800000000, us_flags = 3\<rparr>
    else \<lparr>us_start = 0x100000000, us_end = 0x140000000, us_next_free = 0x100008000, us_flags = 5\<rparr>)\<rparr>"

text \<open>
  Tables in frames 1 to 4 that map the pages at 0 and at \<open>0x2000\<close>, and at \<open>0x140000000\<close>
  through frames 5 and 6.
\<close>

definition run_tables :: memory
  where "run_tables = (\<lambda>_. 0)(0x1000 := 0x2007, 0x2000 := 0x3007, 0x3000 := 0x4007, 0x4000 := 0x9007, 0x4010 := 0xa007,
    0x2028 := 0x5007, 0x5000 := 0x6007, 0x6000 := 0xb005)"

definition run_uproc :: "((u32 \<Rightarrow> nat) \<times> (u32 \<times> u64) set) uproc"
  where "run_uproc = \<lparr>uc = run_uctx, uk = \<lparr>kmem = run_tables, kalloc = (\<lambda>_. 0, {})\<rparr>, uout = []\<rparr>"

lemma run_valid:
  "is_valid_virtual_addr run_kos run_tables 0xffe 1" "is_valid_virtual_addr run_kos run_tables 0xfff 1"
  "is_valid_virtual_addr run_kos run_tables 0x2000 1" "\<not> is_valid_virtual_addr run_kos run_tables 0x1000 1"
  "\<not> is_valid_virtual_addr run_kos run_tables 0x180008000 1"
  by (simp_all add: is_valid_virtual_addr_def run_kos_def run_tables_def cell_ptr_def extract_addr_from_page_entry_def
      l4_index_def l3_index_def l2_index_def l1_index_def)


theorem sys_write_hole_exits_witness:
  "do_syscall run_kos (\<lambda>_ _. 65) 3 0xffe (of_nat 0x1003) run_uproc = (SysExit, run_uproc\<lparr>uout := [65, 65]\<rparr>)"
proof -
  have v: "is_valid_virtual_addr run_kos (kmem (uk run_uproc)) (0xffe + of_nat j) (ucast (uc_pgd (uc run_uproc)))" if "j < 2" for j
    using that run_valid by (cases "j = 0") (simp_all add: run_uproc_def run_uctx_def less_2_cases_iff)
  have h: "handle_page_fault run_kos (uc run_uproc) (0xffe + of_nat 2) 0 (uk run_uproc) = None"
    by (simp add: handle_page_fault_def Let_def run_uproc_def run_uctx_def MM_SEG_DATA_def MM_SEG_RODATA_def MM_SEG_STACK_def)
  have "do_syscall run_kos (\<lambda>_ _. 65) 3 0xffe (of_nat 0x1003) run_uproc =
      (SysExit, run_uproc\<lparr>uout := uout run_uproc @ map (\<lambda>j. 65) [0..<2]\<rparr>)"
    by (rule sys_write_hole_exits [where i = 2 and ub = "\<lambda>_ _. 65", OF _ _ _ _ v _ h])
      (use run_valid in \<open>simp_all add: run_uproc_def run_uctx_def\<close>)
  thus ?thesis
    by (simp add: run_uproc_def upt_rec)
qed

lemma run_segs_ok: "seg_ok (uc_mms run_uctx j)"
  by (simp add: seg_ok_def run_uctx_def)

theorem brk_keeps_bounds_witness:
  "\<exists>r p'. do_syscall run_kos (\<lambda>_ _. 65) 4 3 1 run_uproc = (r, p') \<and> seg_ok (uc_mms (uc p') MM_SEG_DATA)"
proof -
  obtain r p' where r: "do_syscall run_kos (\<lambda>_ _. 65) 4 3 1 run_uproc = (r, p')"
    by (metis surj_pair)
  have "seg_ok (uc_mms (uc p') MM_SEG_DATA)"
    by (rule brk_keeps_bounds [OF _ _ _ r]) (simp_all add: run_segs_ok run_uproc_def)
  with r show ?thesis
    by blast
qed

lemma run_data: "segment_of_flags 1 = Some MM_SEG_DATA"
  "uc_mms run_uctx MM_SEG_DATA = \<lparr>us_start = 0x180000000, us_end = 0x200000000, us_next_free = 0x180008000, us_flags = 3\<rparr>"
  by (simp_all add: segment_of_flags_def MAP_WR_def MAP_RD_def run_uctx_def MM_SEG_DATA_def MM_SEG_RODATA_def MM_SEG_STACK_def)

theorem expand_shrink_roundtrip_witness:
  "\<exists>p1. do_syscall run_kos (\<lambda>_ _. 65) 4 (of_nat 1) 1 run_uproc = (SysRet 0x180008000, p1) \<and>
    do_syscall run_kos (\<lambda>_ _. 65) 5 (of_nat 1) 1 p1 = (SysRet 0x180008000, run_uproc)"
proof -
  have i: "segment_of_flags (ucast (1 :: u64)) = Some MM_SEG_DATA"
    using run_data(1) by simp
  have s: "uc_mms (uc run_uproc) MM_SEG_DATA = uc_mms run_uctx MM_SEG_DATA" "kmem (uk run_uproc) = run_tables"
    "ucast (uc_pgd (uc run_uproc)) = (1 :: u64)"
    by (simp_all add: run_uproc_def run_uctx_def)
  have "\<exists>p1. do_syscall run_kos (\<lambda>_ _. 65) 4 (of_nat 1) 1 run_uproc = (SysRet (us_next_free (uc_mms (uc run_uproc) MM_SEG_DATA)), p1) \<and>
    us_next_free (uc_mms (uc p1) MM_SEG_DATA) = us_next_free (uc_mms (uc run_uproc) MM_SEG_DATA) + of_nat 1 * 0x1000 \<and>
    do_syscall run_kos (\<lambda>_ _. 65) 5 (of_nat 1) 1 p1 = (SysRet (us_next_free (uc_mms (uc run_uproc) MM_SEG_DATA)), run_uproc)"
  proof (rule expand_shrink_roundtrip [OF i])
    show "seg_ok (uc_mms (uc run_uproc) MM_SEG_DATA)"
      unfolding s by (rule run_segs_ok)
    show "unat (us_next_free (uc_mms (uc run_uproc) MM_SEG_DATA)) + 1 * 4096 \<le> unat (us_end (uc_mms (uc run_uproc) MM_SEG_DATA))"
      by (simp add: s run_data(2))
    show "\<not> is_valid_virtual_addr run_kos (kmem (uk run_uproc)) (us_next_free (uc_mms (uc run_uproc) MM_SEG_DATA) + of_nat k * 0x1000)
        (ucast (uc_pgd (uc run_uproc)))" if "k < 1" for k
      unfolding s using that run_valid(5) by (simp add: run_data(2))
  qed simp
  thus ?thesis
    by (auto simp: s run_data(2))
qed

text \<open>
  Requests of \<open>2^20\<close> pages wrap in the 32-bit shift \<open>size << 12\<close>: \<open>expand\<close> grants them
  without growing the segment, and \<open>shrink\<close> passes its bound check and then moves \<open>next_free\<close>
  four gigabytes below, past the start of the segment.
\<close>

theorem brk_size_wraps:
  "do_syscall run_kos ub 4 0x100000 1 run_uproc = (SysRet 0x180008000, run_uproc) \<and>
   (\<exists>p'. do_syscall run_kos ub 5 0x100000 1 (run_uproc\<lparr>uk := \<lparr>kmem = (\<lambda>_. 0), kalloc = (\<lambda>_. 0, {})\<rparr>\<rparr>) = (SysRet 0x80008000, p') \<and>
    us_next_free (uc_mms (uc p') MM_SEG_DATA) < us_start (uc_mms (uc p') MM_SEG_DATA))"
proof
  have d0: "uc_mms (uc run_uproc) MM_SEG_DATA = uc_mms run_uctx MM_SEG_DATA"
    by (simp add: run_uproc_def)
  show "do_syscall run_kos ub 4 0x100000 1 run_uproc = (SysRet 0x180008000, run_uproc)"
    using set_next_free_simps(5) [of MM_SEG_DATA run_uproc]
    by (simp add: do_syscall_def sys_expand_def run_data(1) d0 run_data(2))
  let ?p = "run_uproc\<lparr>uk := \<lparr>kmem = (\<lambda>_. 0), kalloc = (\<lambda>_. 0, {})\<rparr>\<rparr>"
  have nv: "\<not> is_valid_virtual_addr os (\<lambda>_. 0) a pg" for os :: "'x kos" and a pg
    by (simp add: is_valid_virtual_addr_def)
  have l: "shrink_loop run_kos MM_SEG_DATA n ?p =
      Some (set_next_free MM_SEG_DATA (us_next_free (uc_mms (uc ?p) MM_SEG_DATA) - of_nat n * 0x1000) ?p)" for n
    by (rule shrink_loop_unmapped) (simp add: nv)
  have "do_syscall run_kos ub 5 0x100000 1 ?p = (SysRet 0x80008000, set_next_free MM_SEG_DATA 0x80008000 ?p)"
    using l [of 1048576] by (simp add: do_syscall_def sys_shrink_def run_data(1) d0 run_data(2))
  thus "\<exists>p'. do_syscall run_kos ub 5 0x100000 1 ?p = (SysRet 0x80008000, p') \<and>
    us_next_free (uc_mms (uc p') MM_SEG_DATA) < us_start (uc_mms (uc p') MM_SEG_DATA)"
    by (auto simp: d0 run_data(2))
qed

theorem rodata_protection_fault_resumes_witness:
  "handle_page_fault run_kos run_uctx 0x140000010 7 (uk run_uproc) = Some (uk run_uproc)"
  by (rule rodata_protection_fault_resumes [OF run_kos_ok])
    (simp_all add: run_uctx_def run_uproc_def run_tables_def has_tables_def leaf_slot_def l3_of_def l2_of_def l1_of_def cell_ptr_def
      l4_index_def l3_index_def l2_index_def l1_index_def present_def MM_SEG_RODATA_def)

theorem page_fault_maps_witness:
  "\<exists>s s'. handle_page_fault run_kos (run_uctx\<lparr>uc_pgd := 2001\<rparr>) 0x180000010 6 s = Some s' \<and>
    is_valid_virtual_addr run_kos (kmem s') 0x180000010 2001"
proof -
  let ?ctx = "run_uctx\<lparr>uc_pgd := 2001\<rparr>"
  obtain a where a: "os_pfn_alloc run_kos OS_PT_REG (kalloc run_kstate) = (2001, a)"
    by (simp add: run_kos_def run_kstate_def frame_no_def OS_PT_REG_def)
  define s where "s = \<lparr>kmem = initialize_page (push_bit 12 (ucast (2001 :: u32))) (kmem run_kstate), kalloc = a\<rparr>"
  have "0 < free_pages run_kos OS_PT_REG (kalloc run_kstate)"
    using run_room(1) by simp
  note e = pt_maps_empty [OF run_kos_ok a this, folded s_def]
  have room: "3 \<le> free_pages run_kos OS_PT_REG (kalloc s)" "1 \<le> free_pages run_kos USER_REG (kalloc s)"
    using e(2,3) run_room(1,2) by (simp_all add: s_def)
  obtain s' where r: "handle_page_fault run_kos ?ctx 0x180000010 6 s = Some s'"
    by (simp add: handle_page_fault_def Let_def run_uctx_def MM_SEG_DATA_def MM_SEG_RODATA_def MM_SEG_STACK_def)
  have "pt_maps run_in_use (run_in_use (kalloc run_kstate)) (ucast (uc_pgd ?ctx)) {} {} (\<lambda>x. if x = ucast (2001 :: u32) then 4 else 0) s"
    using e(1) by simp
  from page_fault_maps [OF run_kos_ok this room r] r show ?thesis
    by auto
qed

end
