(* ===== verification/Sched.thy ===== *)
theory Sched
  imports Syscall
begin

text \<open>
  The scheduler of the teaching kernel (\<open>Assignments/assignment3/schedule.c\<close>): saving and
  restoring contexts, the timer tick with its sleep and alarm accounting, and the system calls
  \<open>exit\<close>, \<open>sleep\<close>, \<open>clone\<close>, \<open>signal\<close> and \<open>alarm\<close>.  The table of contexts is a function of the
  index, so that a read past its sixteen entries gives whatever memory holds there.  A null
  pointer that the code follows is \<^term>\<open>None\<close>.  The access functions of the table
  (\<open>get_current_ctx\<close>, \<open>get_ctx_by_pid\<close>, \<open>get_new_ctx\<close>), the allocator and the interrupt
  controller are object files of the course; they are the fields of the record \<open>sos\<close>.
\<close>

section \<open>Definitions\<close>

datatype process_state = UNUSED | NEW | READY | RUNNING | WAITING | EXITING

definition SIGALRM :: nat where "SIGALRM = 2"
definition MAX_SIGNALS :: nat where "MAX_SIGNALS = 3"
definition MAX_PROCESSES :: nat where "MAX_PROCESSES = 16"
definition CNAME_MAX :: nat where "CNAME_MAX = 64"

record user_regs =
  ur_r15 :: u64
  ur_r14 :: u64
  ur_r13 :: u64
  ur_r12 :: u64
  ur_r11 :: u64
  ur_r10 :: u64
  ur_r9 :: u64
  ur_r8 :: u64
  ur_rbp :: u64
  ur_rdi :: u64
  ur_rsi :: u64
  ur_rdx :: u64
  ur_rcx :: u64
  ur_rbx :: u64
  ur_rax :: u64
  ur_entry_rip :: u64
  ur_entry_cs :: u64
  ur_entry_rflags :: u64
  ur_entry_rsp :: u64
  ur_entry_ss :: u64

record pctx =
  px_pid :: u32
  px_type :: u8
  px_state :: process_state
  px_used_mem :: u16
  px_pgd :: u32
  px_os_stack_pfn :: u32
  px_os_rsp :: u64
  px_mms :: "nat \<Rightarrow> useg"
  px_name :: "u8 list"
  px_regs :: user_regs
  px_pending_signal_bitmap :: u32
  px_sighandlers :: "nat \<Rightarrow> u64"
  px_ticks_to_sleep :: u32
  px_alarm_config_time :: u32
  px_ticks_to_alarm :: u32

text \<open>The functions the scheduler calls.  \<open>get_new_ctx\<close> may initialise the entry it hands out.\<close>

record 'a sos = "'a kos" +
  get_current_ctx :: "'a \<Rightarrow> nat"
  set_current_ctx :: "nat \<Rightarrow> 'a \<Rightarrow> 'a"
  get_ctx_by_pid :: "u32 \<Rightarrow> nat option"
  get_new_ctx :: "(nat \<Rightarrow> pctx) \<Rightarrow> 'a \<Rightarrow> (nat \<times> (nat \<Rightarrow> pctx) \<times> 'a) option"
  set_tss_stack_ptr :: "pctx \<Rightarrow> 'a \<Rightarrow> 'a"
  ack_irq :: "'a \<Rightarrow> 'a"

record 'a ksched =
  sk_ctxs :: "nat \<Rightarrow> pctx"
  sk_mem :: memory
  sk_os :: 'a
  sk_numticks :: u64

text \<open>
  How an operation leaves the kernel: it returns to its caller, it executes \<open>iretq\<close> into a context
  with the full register file, it executes \<open>iretq\<close> into the swapper with only the five words of the
  interrupt frame set, or it shuts the machine down.
\<close>

datatype kexit = Returned | EnterUser nat user_regs | EnterSwapper nat "u64 list" | Cleanup

definition upd_ctx :: "nat \<Rightarrow> (pctx \<Rightarrow> pctx) \<Rightarrow> 'a ksched \<Rightarrow> 'a ksched"
  where "upd_ctx i f s = s\<lparr>sk_ctxs := (sk_ctxs s)(i := f (sk_ctxs s i))\<rparr>"

definition cur_ctx :: "'a sos \<Rightarrow> 'a ksched \<Rightarrow> nat"
  where "cur_ctx os s = get_current_ctx os (sk_os s)"

definition stack_regs :: "memory \<Rightarrow> u64 \<Rightarrow> user_regs \<Rightarrow> user_regs"
  where "stack_regs m base r = r\<lparr>
    ur_entry_rip := m (cell_ptr base 507),
    ur_entry_cs := m (cell_ptr base 508),
    ur_entry_rflags := m (cell_ptr base 509),
    ur_entry_rsp := m (cell_ptr base 510),
    ur_entry_ss := m (cell_ptr base 511),
    ur_r15 := m (cell_ptr base 493),
    ur_r14 := m (cell_ptr base 494),
    ur_r13 := m (cell_ptr base 495),
    ur_r12 := m (cell_ptr base 496),
    ur_r11 := m (cell_ptr base 497),
    ur_r10 := m (cell_ptr base 498),
    ur_r9 := m (cell_ptr base 499),
    ur_r8 := m (cell_ptr base 500),
    ur_rbp := m (cell_ptr base 501),
    ur_rdi := m (cell_ptr base 502),
    ur_rsi := m (cell_ptr base 503),
    ur_rdx := m (cell_ptr base 504),
    ur_rcx := m (cell_ptr base 505),
    ur_rbx := m (cell_ptr base 506)\<rparr>"

definition save_current_context :: "'a sos \<Rightarrow> 'a ksched \<Rightarrow> 'a ksched"
  where "save_current_context os s =
    (let c = cur_ctx os s; x = sk_ctxs s c in
     if px_pid x = 0 \<or> px_state x = UNUSED then s
     else let base = osmap os (ucast (px_os_stack_pfn x))
          in upd_ctx c (px_regs_update (stack_regs (sk_mem s) base)) s)"

text \<open>
  The common tail of a switch: point the task state at the new context, make it current and leave
  by \<open>iretq\<close>.  \<open>rbp\<close> is the frame pointer of the function that switches; its frame is overwritten
  with the interrupt frame of the new context.  \<open>ack\<close> is what the caller does to the interrupt
  controller in between.
\<close>

definition enter_context :: "'a sos \<Rightarrow> ('a \<Rightarrow> 'a) \<Rightarrow> nat \<Rightarrow> u64 \<Rightarrow> 'a ksched \<Rightarrow> kexit \<times> 'a ksched"
  where "enter_context os ack nxt rbp s =
    (let r = px_regs (sk_ctxs s nxt) in
     if px_pid (sk_ctxs s nxt) = 0
     then (EnterSwapper nxt [ur_entry_rip r, ur_entry_cs r, ur_entry_rflags r, ur_entry_rsp r, ur_entry_ss r],
           s\<lparr>sk_os := ack (set_current_ctx os nxt (set_tss_stack_ptr os (sk_ctxs s nxt) (sk_os s)))\<rparr>)
     else (EnterUser nxt r,
           s\<lparr>sk_mem := (sk_mem s)(rbp := ur_rbp r, rbp + 8 := ur_entry_rip r, rbp + 16 := ur_entry_cs r,
                          rbp + 24 := ur_entry_rflags r, rbp + 32 := ur_entry_rsp r, rbp + 40 := ur_entry_ss r),
             sk_os := ack (set_current_ctx os nxt (set_tss_stack_ptr os (sk_ctxs s nxt) (sk_os s)))\<rparr>))"

definition schedule_context :: "'a sos \<Rightarrow> u64 \<Rightarrow> nat \<Rightarrow> 'a ksched \<Rightarrow> kexit \<times> 'a ksched"
  where "schedule_context os rbp nxt s =
    (let s = save_current_context os s;
         s = upd_ctx nxt (px_state_update (\<lambda>_. RUNNING)) s
     in enter_context os id nxt rbp s)"

definition pick_next_context :: "'a sos \<Rightarrow> 'a ksched \<Rightarrow> nat option"
  where "pick_next_context os s =
    (let pid = px_pid (sk_ctxs s (cur_ctx os s)) in
     case List.find (\<lambda>i. px_state (sk_ctxs s (i + unat pid)) = READY) [1..<MAX_PROCESSES] of
       None \<Rightarrow> None
     | Some i \<Rightarrow> get_ctx_by_pid os (of_nat i + pid))"

definition schedule_next :: "'a sos \<Rightarrow> u64 \<Rightarrow> 'a ksched \<Rightarrow> kexit \<times> 'a ksched"
  where "schedule_next os rbp s =
    (case pick_next_context os s of
       None \<Rightarrow> (Returned, s)
     | Some nxt \<Rightarrow> schedule_context os rbp nxt s)"

definition sleep_account :: "pctx \<Rightarrow> pctx"
  where "sleep_account x =
    (if px_ticks_to_sleep x > 0 then x\<lparr>px_ticks_to_sleep := px_ticks_to_sleep x - 1\<rparr> else x)"

fun account_loop :: "'a sos \<Rightarrow> nat list \<Rightarrow> 'a ksched \<Rightarrow> 'a ksched option"
  where
    "account_loop os [] s = Some s"
  | "account_loop os (i # is) s =
      do {
        c \<leftarrow> get_ctx_by_pid os (of_nat i);
        account_loop os is (if c = cur_ctx os s then s else upd_ctx c sleep_account s) }"

definition do_sleep_and_alarm_account :: "'a sos \<Rightarrow> 'a ksched \<Rightarrow> 'a ksched option"
  where "do_sleep_and_alarm_account os s = account_loop os [0..<MAX_PROCESSES] s"

definition do_exit :: "'a sos \<Rightarrow> u64 \<Rightarrow> 'a ksched \<Rightarrow> (kexit \<times> 'a ksched) option"
  where "do_exit os rbp s =
    (let c = cur_ctx os s;
         s = upd_ctx c (px_state_update (\<lambda>_. UNUSED)) s in
     do {
       a \<leftarrow> os_pfn_free os OS_PT_REG (ucast (px_os_stack_pfn (sk_ctxs s c))) (sk_os s);
       let s = s\<lparr>sk_os := a\<rparr>;
           flag = (\<exists>i \<in> set [1..<MAX_PROCESSES]. px_pid (sk_ctxs s i) > 0 \<and> px_state (sk_ctxs s i) \<noteq> UNUSED)
       in Some (if flag then schedule_next os rbp s else (Cleanup, s)) })"

text \<open>Redirecting the interrupted program to its handler, with the old instruction pointer pushed.\<close>

definition deliver_signal :: "u64 \<Rightarrow> u64 \<Rightarrow> u64 \<Rightarrow> memory \<Rightarrow> memory"
  where "deliver_signal h ustackp urip m =
    (let prev_urip = m urip;
         m = m(urip := h);
         m = m(ustackp := m ustackp - 8)
     in m(m ustackp := prev_urip))"

definition invoke_sync_signal :: "'a sos \<Rightarrow> u64 \<Rightarrow> nat \<Rightarrow> u64 \<Rightarrow> u64 \<Rightarrow> 'a ksched \<Rightarrow> (kexit \<times> 'a ksched) option"
  where "invoke_sync_signal os rbp signo ustackp urip s =
    (if MAX_SIGNALS \<le> signo then None else
     let h = px_sighandlers (sk_ctxs s (cur_ctx os s)) signo;
         s' = s\<lparr>sk_mem := deliver_signal h ustackp urip (sk_mem s)\<rparr> in
     if signo = SIGALRM
     then (if h = 0 then Some (Returned, s) else Some (Returned, s'))
     else (if h \<noteq> 0 then Some (Returned, s') else do_exit os rbp s))"

fun find_expired :: "'a sos \<Rightarrow> nat list \<Rightarrow> 'a ksched \<Rightarrow> nat option option"
  where
    "find_expired os [] s = Some None"
  | "find_expired os (i # is) s =
      do {
        c \<leftarrow> get_ctx_by_pid os (of_nat i);
        if px_state (sk_ctxs s c) = WAITING \<and> px_ticks_to_sleep (sk_ctxs s c) = 0 then Some (Some c)
        else find_expired os is s }"

text \<open>
  The handler pushes the registers of the interrupted program below the stack pointer \<open>rsp\<close> that
  its prologue leaves, and pops them on the way out.
\<close>

definition push_regs :: "u64 \<Rightarrow> user_regs \<Rightarrow> memory \<Rightarrow> memory"
  where "push_regs rsp r m = m(
    rsp - 8 := ur_rax r, rsp - 16 := ur_rbx r, rsp - 24 := ur_rcx r, rsp - 32 := ur_rdx r,
    rsp - 40 := ur_rsi r, rsp - 48 := ur_rdi r, rsp - 56 := ur_r8 r, rsp - 64 := ur_r9 r,
    rsp - 72 := ur_r10 r, rsp - 80 := ur_r11 r, rsp - 88 := ur_r12 r, rsp - 96 := ur_r13 r,
    rsp - 104 := ur_r14 r, rsp - 112 := ur_r15 r)"

definition pop_regs :: "u64 \<Rightarrow> u64 \<Rightarrow> memory \<Rightarrow> user_regs"
  where "pop_regs rsp rbp m = \<lparr>
    ur_r15 = m (rsp - 112), ur_r14 = m (rsp - 104), ur_r13 = m (rsp - 96), ur_r12 = m (rsp - 88),
    ur_r11 = m (rsp - 80), ur_r10 = m (rsp - 72), ur_r9 = m (rsp - 64), ur_r8 = m (rsp - 56),
    ur_rbp = m rbp, ur_rdi = m (rsp - 48), ur_rsi = m (rsp - 40), ur_rdx = m (rsp - 32),
    ur_rcx = m (rsp - 24), ur_rbx = m (rsp - 16), ur_rax = m (rsp - 8),
    ur_entry_rip = m (rbp + 8), ur_entry_cs = m (rbp + 16), ur_entry_rflags = m (rbp + 24),
    ur_entry_rsp = m (rbp + 32), ur_entry_ss = m (rbp + 40)\<rparr>"

definition alarm_tick :: "'a sos \<Rightarrow> u64 \<Rightarrow> 'a ksched \<Rightarrow> 'a ksched option"
  where "alarm_tick os rbp s =
    (let c = cur_ctx os s; x = sk_ctxs s c in
     if px_ticks_to_alarm x > 0
     then Some (upd_ctx c (px_ticks_to_alarm_update (\<lambda>t. t - 1)) s)
     else if px_alarm_config_time x \<noteq> 0
     then do {
       (_, s) \<leftarrow> invoke_sync_signal os rbp SIGALRM (rbp + 32) (rbp + 8) s;
       Some (upd_ctx c (\<lambda>x. x\<lparr>px_ticks_to_alarm := px_alarm_config_time x\<rparr>) s) }
     else Some s)"

definition handle_timer_tick :: "'a sos \<Rightarrow> u64 \<Rightarrow> u64 \<Rightarrow> user_regs \<Rightarrow> 'a ksched \<Rightarrow> (kexit \<times> 'a ksched) option"
  where "handle_timer_tick os rbp rsp cpu s =
    (let s = s\<lparr>sk_mem := push_regs rsp cpu (sk_mem s)\<rparr>;
         s = s\<lparr>sk_numticks := sk_numticks s + 1\<rparr> in
     do {
       s \<leftarrow> do_sleep_and_alarm_account os s;
       let c = cur_ctx os s;
       s \<leftarrow> alarm_tick os rbp s;
       found \<leftarrow> find_expired os [0..<MAX_PROCESSES] s;
       case found of
         Some nxt \<Rightarrow>
           (let s = save_current_context os s;
                s = upd_ctx c (px_state_update (\<lambda>_. READY)) s;
                s = upd_ctx nxt (px_state_update (\<lambda>_. RUNNING)) s
            in Some (enter_context os (ack_irq os) nxt rbp s))
       | None \<Rightarrow>
           (let s = s\<lparr>sk_os := ack_irq os (sk_os s)\<rparr>
            in Some (EnterUser c (pop_regs rsp rbp (sk_mem s)), s)) })"

definition do_sleep :: "'a sos \<Rightarrow> u64 \<Rightarrow> u32 \<Rightarrow> 'a ksched \<Rightarrow> (kexit \<times> 'a ksched) option"
  where "do_sleep os rbp ticks s =
    (let c = cur_ctx os s;
         s = upd_ctx c (\<lambda>x. x\<lparr>px_ticks_to_sleep := ticks, px_state := WAITING\<rparr>) s in
     do {
       swapper \<leftarrow> get_ctx_by_pid os 0;
       Some (schedule_context os rbp swapper s) })"

text \<open>
  The name of a clone is the name of its parent with the process number appended.  Running off the
  end of the 64 bytes is \<^term>\<open>None\<close>.
\<close>

definition set_char :: "nat \<Rightarrow> u8 \<Rightarrow> u8 list \<Rightarrow> u8 list option"
  where "set_char i c nm = (if i < length nm then Some (nm[i := c]) else None)"

fun name_end :: "u8 list \<Rightarrow> nat option"
  where
    "name_end [] = None"
  | "name_end (c # cs) = (if c = 0 then Some 0 else map_option Suc (name_end cs))"

definition clone_name :: "u8 list \<Rightarrow> u32 \<Rightarrow> u8 list option"
  where "clone_name nm pid =
    do {
      k \<leftarrow> name_end nm;
      if pid < 10 then do {
        nm \<leftarrow> set_char k (ucast (pid + 48)) nm;
        set_char (k + 1) 0 nm }
      else do {
        nm \<leftarrow> set_char k 49 nm;
        nm \<leftarrow> set_char (k + 1) (ucast (pid mod 10 + 48)) nm;
        set_char (k + 2) 0 nm } }"

definition clone_regs :: "u64 \<Rightarrow> u64 \<Rightarrow> user_regs \<Rightarrow> user_regs"
  where "clone_regs th_func user_stack r =
    r\<lparr>ur_entry_rip := th_func, ur_entry_cs := 0x23, ur_entry_rsp := user_stack, ur_entry_ss := 0x2b\<rparr>"

definition do_clone :: "'a sos \<Rightarrow> u64 \<Rightarrow> u64 \<Rightarrow> 'a ksched \<Rightarrow> 'a ksched option"
  where "do_clone os th_func user_stack s =
    do {
      let c = cur_ctx os s;
      (n, cs, a) \<leftarrow> get_new_ctx os (sk_ctxs s) (sk_os s);
      let (f, a) = os_pfn_alloc os OS_PT_REG a;
      let cur = cs c;
      let pid = px_pid (cs n);
      nm \<leftarrow> clone_name (px_name cur) pid;
      Some (s\<lparr>sk_os := a, sk_ctxs := cs(n := (cs n)\<lparr>
        px_os_stack_pfn := f,
        px_name := nm,
        px_regs := clone_regs th_func user_stack (px_regs cur),
        px_type := px_type cur,
        px_used_mem := 0,
        px_pgd := px_pgd cur,
        px_os_rsp := px_os_rsp cur,
        px_mms := px_mms cur,
        px_pending_signal_bitmap := px_pending_signal_bitmap cur,
        px_ticks_to_sleep := 0,
        px_alarm_config_time := 0,
        px_ticks_to_alarm := 0,
        px_state := READY\<rparr>)\<rparr>) }"

text \<open>Registering a handler outside the table of signals writes past it, which is \<^term>\<open>None\<close>.\<close>

definition do_signal :: "'a sos \<Rightarrow> nat \<Rightarrow> u64 \<Rightarrow> 'a ksched \<Rightarrow> 'a ksched option"
  where "do_signal os signo handler s =
    (if MAX_SIGNALS \<le> signo then None
     else Some (upd_ctx (cur_ctx os s) (px_sighandlers_update (\<lambda>h. h(signo := handler))) s))"

definition do_alarm :: "'a sos \<Rightarrow> u32 \<Rightarrow> 'a ksched \<Rightarrow> 'a ksched"
  where "do_alarm os ticks s =
    upd_ctx (cur_ctx os s) (\<lambda>x. x\<lparr>px_ticks_to_alarm := ticks, px_alarm_config_time := ticks\<rparr>) s"

section \<open>What the scheduler relies on\<close>

text \<open>
  The current context is the one last made current; the other calls do not change it.  A process
  number below 16 is the index of its context.  A new context is an unused entry of the table,
  numbered by its index, and taking it changes no other entry.
\<close>

definition sos_ok :: "'a sos \<Rightarrow> bool"
  where "sos_ok os \<longleftrightarrow>
    (\<forall>i a. get_current_ctx os (set_current_ctx os i a) = i) \<and>
    (\<forall>x a. get_current_ctx os (set_tss_stack_ptr os x a) = get_current_ctx os a) \<and>
    (\<forall>a. get_current_ctx os (ack_irq os a) = get_current_ctx os a) \<and>
    (\<forall>r a. get_current_ctx os (snd (os_pfn_alloc os r a)) = get_current_ctx os a) \<and>
    (\<forall>r f a a'. os_pfn_free os r f a = Some a' \<longrightarrow> get_current_ctx os a' = get_current_ctx os a) \<and>
    (\<forall>p < 16. get_ctx_by_pid os p = Some (unat p)) \<and>
    (\<forall>cs a n cs' a'. get_new_ctx os cs a = Some (n, cs', a') \<longrightarrow>
       n < 16 \<and> px_state (cs n) = UNUSED \<and> (\<forall>i. i \<noteq> n \<longrightarrow> cs' i = cs i) \<and> px_pid (cs' n) = of_nat n \<and>
       get_current_ctx os a' = get_current_ctx os a)"

lemma sos_okD:
  assumes "sos_ok os"
  shows "get_current_ctx os (set_current_ctx os i a) = i"
    and "get_current_ctx os (set_tss_stack_ptr os x a) = get_current_ctx os a"
    and "get_current_ctx os (ack_irq os a) = get_current_ctx os a"
    and "os_pfn_alloc os r a = (f, a') \<Longrightarrow> get_current_ctx os a' = get_current_ctx os a"
    and "os_pfn_free os r fr a = Some a' \<Longrightarrow> get_current_ctx os a' = get_current_ctx os a"
  using assms unfolding sos_ok_def by (metis snd_conv)+

lemma sos_ok_new:
  assumes "sos_ok os" "get_new_ctx os cs a = Some (n, cs', a')"
  shows "n < 16" "px_state (cs n) = UNUSED" "i \<noteq> n \<Longrightarrow> cs' i = cs i" "px_pid (cs' n) = of_nat n"
    "get_current_ctx os a' = get_current_ctx os a"
  using assms unfolding sos_ok_def by blast+

lemma sos_ok_pid:
  assumes "sos_ok os" "i < 16"
  shows "get_ctx_by_pid os (of_nat i) = Some i"
proof -
  have u: "unat (of_nat i :: u32) = i"
    using assms(2) by (simp add: unat_of_nat)
  hence "(of_nat i :: u32) < 16"
    using assms(2) by (simp add: word_less_nat_alt)
  with assms(1) u show ?thesis
    unfolding sos_ok_def by metis
qed

lemma upd_ctx_simps [simp]:
  "sk_ctxs (upd_ctx i f s) j = (if j = i then f (sk_ctxs s i) else sk_ctxs s j)"
  "sk_mem (upd_ctx i f s) = sk_mem s"
  "sk_os (upd_ctx i f s) = sk_os s"
  "sk_numticks (upd_ctx i f s) = sk_numticks s"
  "cur_ctx os (upd_ctx i f s) = cur_ctx os s"
  by (simp_all add: upd_ctx_def cur_ctx_def)

lemma cur_ctx_simps [simp]:
  "cur_ctx os (s\<lparr>sk_mem := m\<rparr>) = cur_ctx os s"
  "cur_ctx os (s\<lparr>sk_numticks := t\<rparr>) = cur_ctx os s"
  "cur_ctx os (s\<lparr>sk_ctxs := cs\<rparr>) = cur_ctx os s"
  by (simp_all add: cur_ctx_def)

section \<open>What each step does to the table\<close>

lemma save_current_context_simps [simp]:
  "sk_mem (save_current_context os s) = sk_mem s"
  "sk_os (save_current_context os s) = sk_os s"
  "cur_ctx os (save_current_context os s) = cur_ctx os s"
  "px_state (sk_ctxs (save_current_context os s) i) = px_state (sk_ctxs s i)"
  "px_pid (sk_ctxs (save_current_context os s) i) = px_pid (sk_ctxs s i)"
  "px_ticks_to_sleep (sk_ctxs (save_current_context os s) i) = px_ticks_to_sleep (sk_ctxs s i)"
  "px_ticks_to_alarm (sk_ctxs (save_current_context os s) i) = px_ticks_to_alarm (sk_ctxs s i)"
  by (simp_all add: save_current_context_def Let_def)

lemma save_current_context_other:
  "i \<noteq> cur_ctx os s \<Longrightarrow> sk_ctxs (save_current_context os s) i = sk_ctxs s i"
  by (simp add: save_current_context_def Let_def)

lemma save_current_context_swapper:
  "px_pid (sk_ctxs s (cur_ctx os s)) = 0 \<Longrightarrow> save_current_context os s = s"
  by (simp add: save_current_context_def Let_def)

lemma save_current_context_regs:
  "px_pid (sk_ctxs s (cur_ctx os s)) \<noteq> 0 \<Longrightarrow> px_state (sk_ctxs s (cur_ctx os s)) \<noteq> UNUSED \<Longrightarrow>
    px_regs (sk_ctxs (save_current_context os s) (cur_ctx os s)) =
    stack_regs (sk_mem s) (osmap os (ucast (px_os_stack_pfn (sk_ctxs s (cur_ctx os s))))) (px_regs (sk_ctxs s (cur_ctx os s)))"
  by (simp add: save_current_context_def Let_def)

lemma enter_context_ctxs [simp]: "sk_ctxs (snd (enter_context os ack n rbp s)) = sk_ctxs s"
  by (simp add: enter_context_def Let_def)

lemma enter_context_cur:
  assumes "sos_ok os" "\<And>a. get_current_ctx os (ack a) = get_current_ctx os a"
  shows "cur_ctx os (snd (enter_context os ack n rbp s)) = n"
  using assms by (simp add: enter_context_def Let_def cur_ctx_def sos_okD)

lemma enter_context_user:
  "px_pid (sk_ctxs s n) \<noteq> 0 \<Longrightarrow> fst (enter_context os ack n rbp s) = EnterUser n (px_regs (sk_ctxs s n))"
  by (simp add: enter_context_def Let_def)

lemma account_loop_eq:
  assumes "sos_ok os" "distinct is" "\<forall>i \<in> set is. i < 16"
  shows "account_loop os is s =
    Some (s\<lparr>sk_ctxs := \<lambda>i. if i \<in> set is \<and> i \<noteq> cur_ctx os s then sleep_account (sk_ctxs s i) else sk_ctxs s i\<rparr>)"
  using assms(2,3)
proof (induction "is" arbitrary: s)
  case (Cons i "is")
  let ?s = "if i = cur_ctx os s then s else upd_ctx i sleep_account s"
  have c: "cur_ctx os ?s = cur_ctx os s"
    by simp
  have "account_loop os (i # is) s = account_loop os is ?s"
    using Cons.prems by (simp add: sos_ok_pid [OF assms(1)])
  also have "\<dots> = Some (?s\<lparr>sk_ctxs := \<lambda>j. if j \<in> set is \<and> j \<noteq> cur_ctx os s then sleep_account (sk_ctxs ?s j) else sk_ctxs ?s j\<rparr>)"
    using Cons.IH [of ?s] Cons.prems by (simp only: c list.set distinct.simps) simp
  also have "(\<lambda>j. if j \<in> set is \<and> j \<noteq> cur_ctx os s then sleep_account (sk_ctxs ?s j) else sk_ctxs ?s j) =
      (\<lambda>j. if j \<in> set (i # is) \<and> j \<noteq> cur_ctx os s then sleep_account (sk_ctxs s j) else sk_ctxs s j)"
    using Cons.prems(1) by (intro ext) auto
  finally show ?case
    by (simp add: upd_ctx_def)
qed simp

lemma do_sleep_and_alarm_account_eq:
  assumes "sos_ok os"
  shows "do_sleep_and_alarm_account os s =
    Some (s\<lparr>sk_ctxs := \<lambda>i. if i < 16 \<and> i \<noteq> cur_ctx os s then sleep_account (sk_ctxs s i) else sk_ctxs s i\<rparr>)"
  using account_loop_eq [OF assms, of "[0..<16]" s]
  by (simp add: do_sleep_and_alarm_account_def MAX_PROCESSES_def)

lemma find_expired_None:
  assumes "sos_ok os" "\<forall>i \<in> set is. i < 16"
    "\<forall>i \<in> set is. \<not> (px_state (sk_ctxs s i) = WAITING \<and> px_ticks_to_sleep (sk_ctxs s i) = 0)"
  shows "find_expired os is s = Some None"
  using assms(2,3) by (induction "is") (auto simp: sos_ok_pid [OF assms(1)])

lemma find_expired_least:
  assumes "sos_ok os" "px_state (sk_ctxs s n) = WAITING" "px_ticks_to_sleep (sk_ctxs s n) = 0"
    "\<And>i. i < n \<Longrightarrow> \<not> (px_state (sk_ctxs s i) = WAITING \<and> px_ticks_to_sleep (sk_ctxs s i) = 0)"
    "k \<le> n" "n < m" "m \<le> 16"
  shows "find_expired os [k..<m] s = Some (Some n)"
  using assms(5)
proof (induction "n - k" arbitrary: k)
  case 0
  hence "k = n"
    by simp
  with assms show ?case
    by (simp add: upt_conv_Cons sos_ok_pid [OF assms(1)])
next
  case (Suc d)
  hence k: "k < n" "k < m" "k < 16"
    using assms by simp_all
  have "find_expired os [Suc k..<m] s = Some (Some n)"
    using Suc by (intro Suc.hyps(1)) simp_all
  moreover have "find_expired os [k..<m] s = find_expired os [Suc k..<m] s"
    unfolding upt_conv_Cons [OF k(2)] using assms(4) [OF k(1)] k(3) by (auto simp: sos_ok_pid [OF assms(1)])
  ultimately show ?case
    by simp
qed

lemma find_expired_total:
  assumes "sos_ok os" "\<forall>i \<in> set is. i < 16"
  obtains (none) "find_expired os is s = Some None"
      "\<forall>i \<in> set is. \<not> (px_state (sk_ctxs s i) = WAITING \<and> px_ticks_to_sleep (sk_ctxs s i) = 0)"
  | (some) n where "find_expired os is s = Some (Some n)" "n \<in> set is"
      "px_state (sk_ctxs s n) = WAITING" "px_ticks_to_sleep (sk_ctxs s n) = 0"
proof -
  have "(find_expired os is s = Some None \<and>
      (\<forall>i \<in> set is. \<not> (px_state (sk_ctxs s i) = WAITING \<and> px_ticks_to_sleep (sk_ctxs s i) = 0))) \<or>
    (\<exists>n. find_expired os is s = Some (Some n) \<and> n \<in> set is \<and> px_state (sk_ctxs s n) = WAITING \<and> px_ticks_to_sleep (sk_ctxs s n) = 0)"
    using assms(2) by (induction "is") (auto simp: sos_ok_pid [OF assms(1)])
  with that show ?thesis
    by blast
qed

lemma alarm_update: "px_ticks_to_alarm_update f x = x\<lparr>px_ticks_to_alarm := f (px_ticks_to_alarm x)\<rparr>"
  by (cases x) simp

text \<open>The alarm part of a tick changes memory and the alarm count of the current context only.\<close>

lemma alarm_tick_some:
  obtains m t where "alarm_tick os rbp s =
    Some (upd_ctx (cur_ctx os s) (px_ticks_to_alarm_update (\<lambda>_. t)) (s\<lparr>sk_mem := m\<rparr>))"
    "px_ticks_to_alarm (sk_ctxs s (cur_ctx os s)) = 0 \<and> px_alarm_config_time (sk_ctxs s (cur_ctx os s)) = 0 \<longrightarrow>
     m = sk_mem s \<and> t = 0"
proof -
  let ?c = "cur_ctx os s"
  let ?x = "sk_ctxs s ?c"
  let ?P = "\<lambda>m t. alarm_tick os rbp s = Some (upd_ctx ?c (px_ticks_to_alarm_update (\<lambda>_. t)) (s\<lparr>sk_mem := m\<rparr>))"
  have a: "?P (sk_mem s) (px_ticks_to_alarm ?x - 1)" if "px_ticks_to_alarm ?x > 0"
    using that by (simp add: alarm_tick_def Let_def upd_ctx_def) (simp only: alarm_update [of "\<lambda>t. t - 1"])
  have b: "?P (if px_sighandlers ?x SIGALRM = 0 then sk_mem s else deliver_signal (px_sighandlers ?x SIGALRM) (rbp + 32) (rbp + 8) (sk_mem s))
      (px_alarm_config_time ?x)" if "\<not> px_ticks_to_alarm ?x > 0" "px_alarm_config_time ?x \<noteq> 0"
    using that by (simp add: alarm_tick_def Let_def invoke_sync_signal_def SIGALRM_def MAX_SIGNALS_def upd_ctx_def)
  have c: "?P (sk_mem s) 0" if "\<not> px_ticks_to_alarm ?x > 0" "px_alarm_config_time ?x = 0"
  proof -
    have "px_ticks_to_alarm ?x = 0"
      using that(1) word_neq_0_conv by blast
    hence "?x\<lparr>px_ticks_to_alarm := 0\<rparr> = ?x"
      by simp
    thus ?thesis
      using that by (simp add: alarm_tick_def Let_def upd_ctx_def)
  qed
  show ?thesis
  proof (cases "px_ticks_to_alarm ?x > 0")
    case True
    show ?thesis
      by (rule that [OF a [OF True]]) (use True in auto)
  next
    case False
    show ?thesis
    proof (cases "px_alarm_config_time ?x = 0")
      case True
      show ?thesis
        by (rule that [OF c [OF False True]]) simp
    next
      case F: False
      show ?thesis
        by (rule that [OF b [OF False F]]) (simp add: F)
    qed
  qed
qed

section \<open>The invariant of the scheduler\<close>

text \<open>
  \<open>sched_ok\<close>: the current context is an entry of the table and the only one that runs; every
  entry in use, and the entry of the swapper, is numbered by its index; the memory behind the table, which
  \<open>pick_next_context\<close> reads because it does not wrap its index around, does not look READY.
\<close>

definition sched_ok :: "'a sos \<Rightarrow> 'a ksched \<Rightarrow> bool"
  where "sched_ok os s \<longleftrightarrow>
    cur_ctx os s < 16 \<and>
    (\<forall>i < 16. px_state (sk_ctxs s i) = RUNNING \<longleftrightarrow> i = cur_ctx os s) \<and>
    (\<forall>i < 16. px_state (sk_ctxs s i) \<noteq> UNUSED \<or> i = 0 \<longrightarrow> px_pid (sk_ctxs s i) = of_nat i) \<and>
    (\<forall>i < 31. 16 \<le> i \<longrightarrow> px_state (sk_ctxs s i) \<noteq> READY)"

text \<open>
  \<open>sched_inv\<close> is what is left of it when the current context may have died: at most one context runs, and
  it is the current one, which is numbered by its index even when it is no longer in use.
\<close>

definition sched_inv :: "'a sos \<Rightarrow> 'a ksched \<Rightarrow> bool"
  where "sched_inv os s \<longleftrightarrow>
    cur_ctx os s < 16 \<and>
    (\<forall>i < 16. px_state (sk_ctxs s i) = RUNNING \<longrightarrow> i = cur_ctx os s) \<and>
    (\<forall>i < 16. px_state (sk_ctxs s i) \<noteq> UNUSED \<or> i = 0 \<or> i = cur_ctx os s \<longrightarrow> px_pid (sk_ctxs s i) = of_nat i) \<and>
    (\<forall>i < 31. 16 \<le> i \<longrightarrow> px_state (sk_ctxs s i) \<noteq> READY)"

lemma sched_invD:
  assumes "sched_inv os s"
  shows "cur_ctx os s < 16"
    and "i < 16 \<Longrightarrow> px_state (sk_ctxs s i) = RUNNING \<Longrightarrow> i = cur_ctx os s"
    and "i < 16 \<Longrightarrow> px_state (sk_ctxs s i) \<noteq> UNUSED \<or> i = 0 \<or> i = cur_ctx os s \<Longrightarrow> px_pid (sk_ctxs s i) = of_nat i"
    and "16 \<le> i \<Longrightarrow> i < 31 \<Longrightarrow> px_state (sk_ctxs s i) \<noteq> READY"
  using assms unfolding sched_inv_def by blast+

lemma sched_ok_iff: "sched_ok os s \<longleftrightarrow> sched_inv os s \<and> px_state (sk_ctxs s (cur_ctx os s)) = RUNNING"
  unfolding sched_ok_def sched_inv_def by auto

lemma sched_ok_inv: "sched_ok os s \<Longrightarrow> sched_inv os s"
  by (simp add: sched_ok_iff)

lemma sched_okD:
  assumes "sched_ok os s"
  shows "cur_ctx os s < 16"
    and "i < 16 \<Longrightarrow> px_state (sk_ctxs s i) = RUNNING \<longleftrightarrow> i = cur_ctx os s"
    and "i < 16 \<Longrightarrow> px_state (sk_ctxs s i) \<noteq> UNUSED \<or> i = 0 \<Longrightarrow> px_pid (sk_ctxs s i) = of_nat i"
    and "16 \<le> i \<Longrightarrow> i < 31 \<Longrightarrow> px_state (sk_ctxs s i) \<noteq> READY"
  using assms unfolding sched_ok_def by blast+

text \<open>Only the states, the numbers and the current index matter.\<close>

lemma sched_ok_cong:
  assumes "sched_ok os s" "cur_ctx os s' = cur_ctx os s"
    "\<And>i. px_state (sk_ctxs s' i) = px_state (sk_ctxs s i)" "\<And>i. px_pid (sk_ctxs s' i) = px_pid (sk_ctxs s i)"
  shows "sched_ok os s'"
  using assms by (simp add: sched_ok_def)

text \<open>A switch: the old context stops running, the new one runs and becomes current.\<close>

lemma sched_ok_switch:
  assumes inv: "sched_inv os s" and n: "n < 16" "px_pid (sk_ctxs s n) = of_nat n"
    and s': "cur_ctx os s' = n" "px_state (sk_ctxs s' n) = RUNNING"
    and c: "n \<noteq> cur_ctx os s \<Longrightarrow> px_state (sk_ctxs s' (cur_ctx os s)) \<noteq> RUNNING"
    and eq: "\<And>i. i \<noteq> n \<Longrightarrow> i \<noteq> cur_ctx os s \<Longrightarrow> px_state (sk_ctxs s' i) = px_state (sk_ctxs s i)"
    and pid: "\<And>i. px_pid (sk_ctxs s' i) = px_pid (sk_ctxs s i)"
  shows "sched_ok os s'"
proof -
  have "px_state (sk_ctxs s' i) = RUNNING \<longleftrightarrow> i = n" if "i < 16" for i
  proof (cases "i = n \<or> i = cur_ctx os s")
    case True
    thus ?thesis
      using s'(2) c by (cases "i = n") simp_all
  next
    case False
    thus ?thesis
      using sched_invD(2) [OF inv that] eq [of i] by auto
  qed
  moreover have "px_pid (sk_ctxs s' i) = of_nat i" if "i < 16" "px_state (sk_ctxs s' i) \<noteq> UNUSED \<or> i = 0" for i
  proof (cases "i = n \<or> i = cur_ctx os s")
    case True
    thus ?thesis
      using sched_invD(3) [OF inv that(1)] n(2) pid [of i] by (cases "i = n") simp_all
  next
    case False
    thus ?thesis
      using sched_invD(3) [OF inv that(1)] that(2) eq [of i] pid [of i] by simp
  qed
  moreover have "px_state (sk_ctxs s' i) \<noteq> READY" if "16 \<le> i" "i < 31" for i
    using n(1) eq [of i] sched_invD(1,4) [OF inv] that by simp
  ultimately show ?thesis
    using n(1) s'(1) by (simp add: sched_ok_def)
qed

lemma schedule_context_simps:
  assumes "sos_ok os"
  shows "cur_ctx os (snd (schedule_context os rbp n s)) = n"
    and "px_state (sk_ctxs (snd (schedule_context os rbp n s)) i) = (if i = n then RUNNING else px_state (sk_ctxs s i))"
    and "px_pid (sk_ctxs (snd (schedule_context os rbp n s)) i) = px_pid (sk_ctxs s i)"
  using enter_context_cur [OF assms, of id] by (simp_all add: schedule_context_def Let_def)

lemma pick_next_context_ready:
  assumes "sos_ok os" "sched_inv os s0" "cur_ctx os s = cur_ctx os s0"
    "\<And>i. i \<noteq> cur_ctx os s \<Longrightarrow> sk_ctxs s i = sk_ctxs s0 i" "px_pid (sk_ctxs s (cur_ctx os s)) = of_nat (cur_ctx os s)"
    "pick_next_context os s = Some n"
  shows "n < 16 \<and> cur_ctx os s < n \<and> px_state (sk_ctxs s0 n) = READY"
proof -
  let ?c = "cur_ctx os s"
  have c: "?c < 16"
    using sched_invD(1) [OF assms(2)] assms(3) by simp
  hence u: "unat (of_nat ?c :: u32) = ?c"
    by (simp add: unat_of_nat)
  from assms(6) obtain i where i: "List.find (\<lambda>i. px_state (sk_ctxs s (i + ?c)) = READY) [1..<16] = Some i"
    and n: "get_ctx_by_pid os (of_nat i + of_nat ?c) = Some n"
    unfolding pick_next_context_def Let_def assms(5) u MAX_PROCESSES_def by (auto split: option.splits)
  from i have r: "1 \<le> i" "i < 16" "px_state (sk_ctxs s (i + ?c)) = READY"
    by (auto simp: find_Some_iff)
  hence r0: "px_state (sk_ctxs s0 (i + ?c)) = READY"
    using assms(4) [of "i + ?c"] by simp
  hence lt: "i + ?c < 16"
    using sched_invD(4) [OF assms(2), of "i + ?c"] r c by fastforce
  hence "n = i + ?c"
    using n sos_ok_pid [OF assms(1) lt] by simp
  with lt r r0 show ?thesis
    by simp
qed

lemma tick_table:
  assumes "sos_ok os"
  obtains (stay) m t s1 where "s1 = upd_ctx (cur_ctx os s) (px_ticks_to_alarm_update (\<lambda>_. t))
         (s\<lparr>sk_mem := m, sk_numticks := sk_numticks s + 1,
           sk_ctxs := \<lambda>i. if i < 16 \<and> i \<noteq> cur_ctx os s then sleep_account (sk_ctxs s i) else sk_ctxs s i\<rparr>)"
      "handle_timer_tick os rbp rsp cpu s =
        Some (EnterUser (cur_ctx os s) (pop_regs rsp rbp m), s1\<lparr>sk_os := ack_irq os (sk_os s)\<rparr>)"
      "alarm_tick os rbp (s\<lparr>sk_mem := push_regs rsp cpu (sk_mem s), sk_numticks := sk_numticks s + 1,
           sk_ctxs := \<lambda>i. if i < 16 \<and> i \<noteq> cur_ctx os s then sleep_account (sk_ctxs s i) else sk_ctxs s i\<rparr>) = Some s1"
      "find_expired os [0..<16] s1 = Some None"
  | (switch) m t n s1 where "s1 = upd_ctx (cur_ctx os s) (px_ticks_to_alarm_update (\<lambda>_. t))
         (s\<lparr>sk_mem := m, sk_numticks := sk_numticks s + 1,
           sk_ctxs := \<lambda>i. if i < 16 \<and> i \<noteq> cur_ctx os s then sleep_account (sk_ctxs s i) else sk_ctxs s i\<rparr>)"
      "handle_timer_tick os rbp rsp cpu s =
      Some (enter_context os (ack_irq os) n rbp
        (upd_ctx n (px_state_update (\<lambda>_. RUNNING)) (upd_ctx (cur_ctx os s) (px_state_update (\<lambda>_. READY)) (save_current_context os s1))))"
      "find_expired os [0..<16] s1 = Some (Some n)" "n < 16"
      "px_state (sk_ctxs s1 n) = WAITING" "px_ticks_to_sleep (sk_ctxs s1 n) = 0"
proof -
  let ?c = "cur_ctx os s"
  let ?s0 = "s\<lparr>sk_mem := push_regs rsp cpu (sk_mem s), sk_numticks := sk_numticks s + 1,
           sk_ctxs := \<lambda>i. if i < 16 \<and> i \<noteq> ?c then sleep_account (sk_ctxs s i) else sk_ctxs s i\<rparr>"
  have ac: "do_sleep_and_alarm_account os (s\<lparr>sk_mem := push_regs rsp cpu (sk_mem s), sk_numticks := sk_numticks s + 1\<rparr>) = Some ?s0"
    by (simp add: do_sleep_and_alarm_account_eq [OF assms] cong: if_cong)
  obtain m t where at: "alarm_tick os rbp ?s0 = Some (upd_ctx (cur_ctx os ?s0) (px_ticks_to_alarm_update (\<lambda>_. t)) (?s0\<lparr>sk_mem := m\<rparr>))"
    by (rule alarm_tick_some)
  define s1 where "s1 = upd_ctx ?c (px_ticks_to_alarm_update (\<lambda>_. t))
         (s\<lparr>sk_mem := m, sk_numticks := sk_numticks s + 1,
           sk_ctxs := \<lambda>i. if i < 16 \<and> i \<noteq> ?c then sleep_account (sk_ctxs s i) else sk_ctxs s i\<rparr>)"
  have at': "alarm_tick os rbp ?s0 = Some s1"
    unfolding at s1_def by (simp add: upd_ctx_def)
  have r: "\<forall>i \<in> set [0..<16]. i < (16::nat)"
    by simp
  have h: "handle_timer_tick os rbp rsp cpu s = do {
      found \<leftarrow> find_expired os [0..<16] s1;
      case found of
        None \<Rightarrow> Some (EnterUser ?c (pop_regs rsp rbp (sk_mem s1)), s1\<lparr>sk_os := ack_irq os (sk_os s1)\<rparr>)
      | Some nxt \<Rightarrow> Some (enter_context os (ack_irq os) nxt rbp (upd_ctx nxt (px_state_update (\<lambda>_. RUNNING))
          (upd_ctx ?c (px_state_update (\<lambda>_. READY)) (save_current_context os s1)))) }"
    unfolding handle_timer_tick_def by (simp add: ac at' Let_def MAX_PROCESSES_def)
  show ?thesis
  proof (cases rule: find_expired_total [OF assms r, of s1, case_names none some])
    case none
    have "handle_timer_tick os rbp rsp cpu s = Some (EnterUser ?c (pop_regs rsp rbp m), s1\<lparr>sk_os := ack_irq os (sk_os s)\<rparr>)"
      unfolding h none(1) by (simp add: s1_def)
    thus ?thesis
      by (rule stay [OF s1_def _ at' none(1)])
  next
    case (some n)
    show ?thesis
      by (rule switch [OF s1_def _ some(1) _ some(3,4)]) (use some(2) in \<open>simp_all add: h some(1)\<close>)
  qed
qed

lemma sched_inv_cong:
  assumes "sched_inv os s" "cur_ctx os s' = cur_ctx os s"
    "\<And>i. px_state (sk_ctxs s' i) = px_state (sk_ctxs s i)" "\<And>i. px_pid (sk_ctxs s' i) = px_pid (sk_ctxs s i)"
  shows "sched_inv os s' \<and> (sched_ok os s \<longrightarrow> sched_ok os s')"
  using assms by (simp add: sched_ok_iff) (simp add: sched_inv_def)

lemma tick_keeps_sched_inv:
  assumes os: "sos_ok os" and inv: "sched_inv os s"
  shows "\<exists>e s'. handle_timer_tick os rbp rsp cpu s = Some (e, s') \<and> sched_inv os s' \<and> (sched_ok os s \<longrightarrow> sched_ok os s')"
proof (cases rule: tick_table [OF os, of s rbp rsp cpu, case_names stay switch])
  case (stay m t s1)
  have "cur_ctx os (s1\<lparr>sk_os := ack_irq os (sk_os s)\<rparr>) = cur_ctx os s"
    using os by (simp add: cur_ctx_def sos_okD)
  hence "sched_inv os (s1\<lparr>sk_os := ack_irq os (sk_os s)\<rparr>) \<and> (sched_ok os s \<longrightarrow> sched_ok os (s1\<lparr>sk_os := ack_irq os (sk_os s)\<rparr>))"
    by (rule sched_inv_cong [OF inv]) (simp_all add: stay(1) sleep_account_def)
  with stay(2) show ?thesis
    by blast
next
  case (switch m t n s1)
  let ?s = "upd_ctx n (px_state_update (\<lambda>_. RUNNING)) (upd_ctx (cur_ctx os s) (px_state_update (\<lambda>_. READY)) (save_current_context os s1))"
  have c: "cur_ctx os s1 = cur_ctx os s" and st: "px_state (sk_ctxs s1 i) = px_state (sk_ctxs s i)"
    and pid: "px_pid (sk_ctxs s1 i) = px_pid (sk_ctxs s i)" for i
    by (simp_all add: switch(1) sleep_account_def)
  have "sched_ok os (snd (enter_context os (ack_irq os) n rbp ?s))"
  proof (rule sched_ok_switch [OF inv switch(4)])
    show "px_pid (sk_ctxs s n) = of_nat n"
      using sched_invD(3) [OF inv switch(4)] switch(5) st by simp
    show "cur_ctx os (snd (enter_context os (ack_irq os) n rbp ?s)) = n"
      by (rule enter_context_cur [OF os]) (simp add: sos_okD [OF os])
  qed (simp_all add: c st pid)
  with switch(2) sched_ok_inv show ?thesis
    by (metis prod.collapse)
qed

text \<open>
  The steps of the system: user instructions, the system calls, a synchronous fault and a timer tick.
  A system call or a fault that shuts the machine down is followed by no state.
\<close>

inductive kstep :: "'a sos \<Rightarrow> 'a ksched \<Rightarrow> 'a ksched \<Rightarrow> bool" for os :: "'a sos"
  where
    user: "kstep os s (s\<lparr>sk_mem := m\<rparr>)"
  | alarm: "kstep os s (do_alarm os n s)"
  | signal: "do_signal os g h s = Some s' \<Longrightarrow> kstep os s s'"
  | clone: "do_clone os f u s = Some s' \<Longrightarrow> kstep os s s'"
  | sleep: "do_sleep os rbp n s = Some (e, s') \<Longrightarrow> kstep os s s'"
  | tick: "handle_timer_tick os rbp rsp cpu s = Some (e, s') \<Longrightarrow> kstep os s s'"
  | exit: "do_exit os rbp s = Some (e, s') \<Longrightarrow> e \<noteq> Cleanup \<Longrightarrow> kstep os s s'"
  | fault: "invoke_sync_signal os rbp g ustackp urip s = Some (e, s') \<Longrightarrow> e \<noteq> Cleanup \<Longrightarrow> kstep os s s'"

lemma clone_table:
  assumes "do_clone os f u s = Some s'" "sos_ok os"
  obtains n x where "n < 16" "px_state (sk_ctxs s n) = UNUSED" "sk_ctxs s' = (sk_ctxs s)(n := x)"
    "px_pid x = of_nat n" "px_state x = READY" "cur_ctx os s' = cur_ctx os s"
proof -
  from assms(1) obtain n cs a where new: "get_new_ctx os (sk_ctxs s) (sk_os s) = Some (n, cs, a)"
    unfolding do_clone_def Let_def by (cases "get_new_ctx os (sk_ctxs s) (sk_os s)") auto
  obtain fr a' where al: "os_pfn_alloc os OS_PT_REG a = (fr, a')"
    by (cases "os_pfn_alloc os OS_PT_REG a")
  note n = sos_ok_new [OF assms(2) new]
  from assms(1) new al obtain nm where
    s': "s' = s\<lparr>sk_os := a', sk_ctxs := cs(n := (cs n)\<lparr>
        px_os_stack_pfn := fr,
        px_name := nm,
        px_regs := clone_regs f u (px_regs (cs (cur_ctx os s))),
        px_type := px_type (cs (cur_ctx os s)),
        px_used_mem := 0,
        px_pgd := px_pgd (cs (cur_ctx os s)),
        px_os_rsp := px_os_rsp (cs (cur_ctx os s)),
        px_mms := px_mms (cs (cur_ctx os s)),
        px_pending_signal_bitmap := px_pending_signal_bitmap (cs (cur_ctx os s)),
        px_ticks_to_sleep := 0,
        px_alarm_config_time := 0,
        px_ticks_to_alarm := 0,
        px_state := READY\<rparr>)\<rparr>"
    unfolding do_clone_def Let_def by (auto split: bind_splits)
  have cs: "cs(n := x) = (sk_ctxs s)(n := x)" for x
    using n(3) by auto
  have cu: "cur_ctx os s' = cur_ctx os s"
    by (simp add: s' cur_ctx_def sos_okD(4) [OF assms(2) al] n(5))
  show ?thesis
    by (rule that [of n "sk_ctxs s' n", OF n(1,2) _ _ _ cu]) (simp_all add: s' cs n(4))
qed

lemma exit_keeps_sched_inv:
  assumes os: "sos_ok os" and inv: "sched_inv os s" and e: "do_exit os rbp s = Some (e, s')" "e \<noteq> Cleanup"
  shows "sched_inv os s' \<and> (sched_ok os s' \<or> e = Returned)"
proof -
  let ?c = "cur_ctx os s"
  from e(1) obtain a where fr: "os_pfn_free os OS_PT_REG (ucast (px_os_stack_pfn (sk_ctxs s ?c))) (sk_os s) = Some a"
    unfolding do_exit_def Let_def by (auto split: bind_splits)
  define s1 where "s1 = upd_ctx ?c (px_state_update (\<lambda>_. UNUSED)) s\<lparr>sk_os := a\<rparr>"
  have c1: "cur_ctx os s1 = ?c"
    by (simp add: s1_def cur_ctx_def sos_okD(5) [OF os fr])
  have n: "schedule_next os rbp s1 = (e, s')"
    using e fr unfolding do_exit_def Let_def s1_def by (auto split: if_splits)
  have eq: "i \<noteq> cur_ctx os s1 \<Longrightarrow> sk_ctxs s1 i = sk_ctxs s i" for i
    unfolding c1 by (simp add: s1_def)
  have pc: "px_pid (sk_ctxs s1 (cur_ctx os s1)) = of_nat (cur_ctx os s1)"
    unfolding c1 using sched_invD(1,3) [OF inv] by (simp add: s1_def)
  show ?thesis
  proof (cases "pick_next_context os s1")
    case None
    with n have "s' = s1" "e = Returned"
      by (simp_all add: schedule_next_def)
    moreover have "sched_inv os s1"
      using inv unfolding sched_inv_def c1 by (auto simp: s1_def)
    ultimately show ?thesis
      by simp
  next
    case (Some k)
    from pick_next_context_ready [OF os inv c1 eq pc Some]
    have p: "k < 16" "?c < k" "px_state (sk_ctxs s k) = READY"
      by (simp_all add: c1)
    have s': "s' = snd (schedule_context os rbp k s1)"
      using n Some by (simp add: schedule_next_def)
    have "sched_ok os s'"
    proof (rule sched_ok_switch [OF inv p(1)])
      show "px_pid (sk_ctxs s k) = of_nat k"
        using sched_invD(3) [OF inv p(1)] p(3) by simp
    qed (use p(2) in \<open>simp_all add: s' schedule_context_simps [OF os] s1_def\<close>)
    with sched_ok_inv show ?thesis
      by blast
  qed
qed

lemma clone_keeps_sched_inv:
  assumes os: "sos_ok os" and inv: "sched_inv os s" and c: "do_clone os f u s = Some s'"
  shows "sched_inv os s' \<and> (sched_ok os s \<longrightarrow> sched_ok os s')"
proof -
  from clone_table [OF c os] obtain n x where x: "n < 16" "px_state (sk_ctxs s n) = UNUSED" "sk_ctxs s' = (sk_ctxs s)(n := x)"
    "px_pid x = of_nat n" "px_state x = READY" "cur_ctx os s' = cur_ctx os s" .
  hence "sched_inv os s'"
    using inv unfolding sched_inv_def by auto
  moreover have "n \<noteq> cur_ctx os s" if "sched_ok os s"
    using that x(2) by (auto simp: sched_ok_iff)
  ultimately show ?thesis
    using x by (auto simp: sched_ok_iff)
qed

lemma sleep_keeps_sched_ok:
  assumes os: "sos_ok os" and inv: "sched_inv os s" and e: "do_sleep os rbp n s = Some (e, s')"
  shows "sched_ok os s'"
proof -
  let ?s = "upd_ctx (cur_ctx os s) (\<lambda>x. x\<lparr>px_ticks_to_sleep := n, px_state := WAITING\<rparr>) s"
  have "get_ctx_by_pid os 0 = Some 0"
    using sos_ok_pid [OF os, of 0] by simp
  hence s': "s' = snd (schedule_context os rbp 0 ?s)"
    using e unfolding do_sleep_def Let_def by simp
  show ?thesis
  proof (rule sched_ok_switch [OF inv, of 0])
    show "px_pid (sk_ctxs s 0) = of_nat 0"
      using sched_invD(3) [OF inv, of 0] by simp
  qed (simp_all add: s' schedule_context_simps [OF os])
qed

lemma sync_signal_cases:
  assumes "invoke_sync_signal os rbp g ustackp urip s = Some (e, s')"
  obtains (deliver) m where "s' = s\<lparr>sk_mem := m\<rparr>" | (exit) "do_exit os rbp s = Some (e, s')"
proof -
  have "s = s\<lparr>sk_mem := sk_mem s\<rparr>"
    by simp
  with assms that show ?thesis
    unfolding invoke_sync_signal_def Let_def by (metis Pair_inject option.distinct(1) option.inject)
qed

text \<open>A step keeps the invariant, unless it is an exit that returns to the process that just died.\<close>

lemma kstep_keeps_sched:
  assumes "kstep os s s'" "sos_ok os" "sched_inv os s"
  shows "sched_inv os s' \<and> (sched_ok os s \<longrightarrow> sched_ok os s' \<or> (\<exists>rbp. do_exit os rbp s = Some (Returned, s')))"
  using assms
proof (cases rule: kstep.cases)
  case (user m)
  have "sched_inv os s' \<and> (sched_ok os s \<longrightarrow> sched_ok os s')"
    by (rule sched_inv_cong [OF assms(3)]) (simp_all add: user)
  thus ?thesis
    by blast
next
  case (alarm n)
  have "sched_inv os s' \<and> (sched_ok os s \<longrightarrow> sched_ok os s')"
    by (rule sched_inv_cong [OF assms(3)]) (simp_all add: alarm do_alarm_def)
  thus ?thesis
    by blast
next
  case (signal g h)
  have "sched_inv os s' \<and> (sched_ok os s \<longrightarrow> sched_ok os s')"
    by (rule sched_inv_cong [OF assms(3)]) (use signal in \<open>auto simp: do_signal_def split: if_splits\<close>)
  thus ?thesis
    by blast
next
  case (clone f u)
  from clone_keeps_sched_inv [OF assms(2,3) this] show ?thesis
    by blast
next
  case (sleep rbp n e)
  from sleep_keeps_sched_ok [OF assms(2,3) this] sched_ok_inv show ?thesis
    by blast
next
  case (tick rbp rsp cpu e)
  with tick_keeps_sched_inv [OF assms(2,3), of rbp rsp cpu] show ?thesis
    by auto
next
  case (exit rbp e)
  with exit_keeps_sched_inv [OF assms(2,3) exit] show ?thesis
    by blast
next
  case (fault rbp g ustackp urip e)
  from fault(1) show ?thesis
  proof (cases rule: sync_signal_cases)
    case (deliver m)
    have "sched_inv os s' \<and> (sched_ok os s \<longrightarrow> sched_ok os s')"
      by (rule sched_inv_cong [OF assms(3)]) (simp_all add: deliver)
    thus ?thesis
      by blast
  next
    case exit
    with exit_keeps_sched_inv [OF assms(2,3) exit fault(2)] show ?thesis
      by blast
  qed
qed

section \<open>Sleeping and waking\<close>

text \<open>
  A sequence of ticks.  Each comes with the memory as the interrupted program and the interrupt
  entry of the processor leave it, the frame and stack pointers of the handler, and the registers
  of the interrupted program.
\<close>

fun timer_ticks :: "'a sos \<Rightarrow> (memory \<times> u64 \<times> u64 \<times> user_regs) list \<Rightarrow> 'a ksched \<Rightarrow> (kexit list \<times> 'a ksched) option"
  where
    "timer_ticks os [] s = Some ([], s)"
  | "timer_ticks os ((m, rbp, rsp, cpu) # fs) s =
      do {
        (e, s) \<leftarrow> handle_timer_tick os rbp rsp cpu (s\<lparr>sk_mem := m\<rparr>);
        (es, s) \<leftarrow> timer_ticks os fs s;
        Some (e # es, s) }"

lemma timer_ticks_append:
  "timer_ticks os fs s = Some (es, s1) \<Longrightarrow> timer_ticks os gs s1 = Some (es', s2) \<Longrightarrow>
    timer_ticks os (fs @ gs) s = Some (es @ es', s2)"
proof (induction fs arbitrary: s es)
  case (Cons f fs)
  obtain m rbp rsp cpu where f: "f = (m, rbp, rsp, cpu)"
    by (cases f)
  from Cons.prems(1) obtain e s0 es0 where h: "handle_timer_tick os rbp rsp cpu (s\<lparr>sk_mem := m\<rparr>) = Some (e, s0)"
    and t: "timer_ticks os fs s0 = Some (es0, s1)" and es: "es = e # es0"
    unfolding f by (auto split: bind_splits)
  from Cons.IH [OF t Cons.prems(2)] h show ?case
    by (simp add: f es)
qed simp

text \<open>Context \<open>p\<close> sleeps for \<open>k\<close> more ticks with the registers \<open>r\<close>, and no other wakes up as early.\<close>

definition asleep :: "'a sos \<Rightarrow> nat \<Rightarrow> nat \<Rightarrow> user_regs \<Rightarrow> 'a ksched \<Rightarrow> bool"
  where "asleep os p k r s \<longleftrightarrow> sched_ok os s \<and> p < 16 \<and> px_state (sk_ctxs s p) = WAITING \<and>
    unat (px_ticks_to_sleep (sk_ctxs s p)) = k \<and> px_regs (sk_ctxs s p) = r \<and>
    (\<forall>i < 16. i \<noteq> p \<longrightarrow> px_state (sk_ctxs s i) = WAITING \<longrightarrow> max 1 k < unat (px_ticks_to_sleep (sk_ctxs s i)))"

lemma sleep_account_simps [simp]:
  "px_state (sleep_account x) = px_state x"
  "px_regs (sleep_account x) = px_regs x"
  "px_pid (sleep_account x) = px_pid x"
  "px_alarm_config_time (sleep_account x) = px_alarm_config_time x"
  "px_ticks_to_alarm (sleep_account x) = px_ticks_to_alarm x"
  "px_sighandlers (sleep_account x) = px_sighandlers x"
  by (simp_all add: sleep_account_def)

lemma sleep_account_ticks: "unat (px_ticks_to_sleep (sleep_account x)) = unat (px_ticks_to_sleep x) - 1"
proof (cases "px_ticks_to_sleep x = 0")
  case False
  hence "px_ticks_to_sleep x > 0"
    using word_neq_0_conv by blast
  thus ?thesis
    using False by (simp add: sleep_account_def unat_minus_one)
qed (simp add: sleep_account_def)

lemma asleep_not_current: "asleep os p k r s \<Longrightarrow> p \<noteq> cur_ctx os s"
  using sched_okD(2) [of os s p] by (auto simp: asleep_def)

text \<open>The tables that the search for an expired sleeper sees.\<close>

lemma asleep_accounted:
  assumes a: "asleep os p k r s"
    and s1: "s1 = upd_ctx (cur_ctx os s) (px_ticks_to_alarm_update (\<lambda>_. t))
         (s\<lparr>sk_mem := m, sk_numticks := nt,
           sk_ctxs := \<lambda>i. if i < 16 \<and> i \<noteq> cur_ctx os s then sleep_account (sk_ctxs s i) else sk_ctxs s i\<rparr>)"
  shows "px_state (sk_ctxs s1 i) = px_state (sk_ctxs s i)" "px_pid (sk_ctxs s1 i) = px_pid (sk_ctxs s i)"
    "px_regs (sk_ctxs s1 i) = px_regs (sk_ctxs s i)" "cur_ctx os s1 = cur_ctx os s"
    "unat (px_ticks_to_sleep (sk_ctxs s1 p)) = k - 1"
    "i < 16 \<Longrightarrow> i \<noteq> p \<Longrightarrow> px_state (sk_ctxs s1 i) = WAITING \<Longrightarrow> max 1 k \<le> unat (px_ticks_to_sleep (sk_ctxs s1 i))"
proof -
  have p: "p \<noteq> cur_ctx os s" "p < 16" "unat (px_ticks_to_sleep (sk_ctxs s p)) = k"
    using asleep_not_current [OF a] a by (simp_all add: asleep_def)
  show "px_state (sk_ctxs s1 i) = px_state (sk_ctxs s i)" "px_pid (sk_ctxs s1 i) = px_pid (sk_ctxs s i)"
    "px_regs (sk_ctxs s1 i) = px_regs (sk_ctxs s i)" "cur_ctx os s1 = cur_ctx os s"
    by (simp_all add: s1)
  show "unat (px_ticks_to_sleep (sk_ctxs s1 p)) = k - 1"
    using p by (simp add: s1 sleep_account_ticks)
  assume i: "i < 16" "i \<noteq> p" "px_state (sk_ctxs s1 i) = WAITING"
  hence w: "px_state (sk_ctxs s i) = WAITING"
    by (simp add: s1 split: if_splits)
  hence "i \<noteq> cur_ctx os s"
    using sched_okD(2) [of os s i] a i(1) by (auto simp: asleep_def)
  hence "unat (px_ticks_to_sleep (sk_ctxs s1 i)) = unat (px_ticks_to_sleep (sk_ctxs s i)) - 1"
    using i(1) by (simp add: s1 sleep_account_ticks)
  moreover have "max 1 k < unat (px_ticks_to_sleep (sk_ctxs s i))"
    using a i w by (simp add: asleep_def)
  ultimately show "max 1 k \<le> unat (px_ticks_to_sleep (sk_ctxs s1 i))"
    by linarith
qed

lemma pid_nonzero: "p < 16 \<Longrightarrow> p \<noteq> 0 \<Longrightarrow> (of_nat p :: u32) \<noteq> 0"
proof -
  assume p: "p < 16" "p \<noteq> 0"
  have "unat (of_nat p :: u32) = p"
    using p(1) by (simp add: unat_of_nat)
  thus ?thesis
    using p(2) by (metis unat_0)
qed

lemma tick_asleep_stay:
  assumes os: "sos_ok os" and a: "asleep os p k r s" and k: "2 \<le> k"
  shows "\<exists>x s'. handle_timer_tick os rbp rsp cpu s = Some (EnterUser (cur_ctx os s) x, s') \<and>
    asleep os p (k - 1) r s' \<and> cur_ctx os s' = cur_ctx os s"
proof (cases rule: tick_table [OF os, of s rbp rsp cpu, case_names stay switch])
  case (stay m t s1)
  let ?c = "cur_ctx os s"
  let ?s' = "s1\<lparr>sk_os := ack_irq os (sk_os s)\<rparr>"
  note acc = asleep_accounted [OF a stay(1)]
  have c: "cur_ctx os ?s' = ?c"
    using os by (simp add: cur_ctx_def sos_okD)
  have ok: "sched_ok os s" "p < 16" "px_state (sk_ctxs s p) = WAITING" "px_regs (sk_ctxs s p) = r"
    using a by (simp_all add: asleep_def)
  have "sched_ok os ?s'"
    by (rule sched_ok_cong [OF ok(1) c]) (simp_all add: acc)
  moreover have "max 1 (k - 1) < unat (px_ticks_to_sleep (sk_ctxs s1 i))"
    if "i < 16" "i \<noteq> p" "px_state (sk_ctxs s1 i) = WAITING" for i
    using acc(6) [OF that] k by linarith
  ultimately have "asleep os p (k - 1) r ?s'"
    unfolding asleep_def using ok acc(1,3,5) by simp
  with stay(2) c show ?thesis
    by blast
next
  case (switch m t n s1)
  note acc = asleep_accounted [OF a switch(1)]
  have "n = p"
    using acc(6) [OF switch(4) _ switch(5)] switch(6) k by fastforce
  hence False
    using acc(5) switch(6) k by simp
  thus ?thesis ..
qed

lemma tick_asleep_wake:
  assumes os: "sos_ok os" and a: "asleep os p k r s" and k: "k \<le> 1" and p0: "p \<noteq> 0"
  shows "\<exists>s'. handle_timer_tick os rbp rsp cpu s = Some (EnterUser p r, s') \<and> cur_ctx os s' = p \<and>
    px_state (sk_ctxs s' p) = RUNNING \<and> px_state (sk_ctxs s' (cur_ctx os s)) = READY"
proof (cases rule: tick_table [OF os, of s rbp rsp cpu, case_names stay switch])
  case (stay m t s1)
  note acc = asleep_accounted [OF a stay(1)]
  have "px_ticks_to_sleep (sk_ctxs s1 p) = 0"
    using acc(5) k by (simp add: unat_eq_0)
  moreover have "px_state (sk_ctxs s1 p) = WAITING" "p < 16"
    using a acc(1) by (simp_all add: asleep_def)
  moreover have "\<not> (px_state (sk_ctxs s1 i) = WAITING \<and> px_ticks_to_sleep (sk_ctxs s1 i) = 0)" if "i < p" for i
    using acc(6) [of i] that \<open>p < 16\<close> by fastforce
  ultimately have "find_expired os [0..<16] s1 = Some (Some p)"
    by (intro find_expired_least [OF os]) simp_all
  thus ?thesis
    using stay(4) by simp
next
  case (switch m t n s1)
  let ?c = "cur_ctx os s"
  let ?s2 = "upd_ctx n (px_state_update (\<lambda>_. RUNNING)) (upd_ctx ?c (px_state_update (\<lambda>_. READY)) (save_current_context os s1))"
  note acc = asleep_accounted [OF a switch(1)]
  have n: "n = p"
    using acc(6) [OF switch(4) _ switch(5)] switch(6) by fastforce
  have w: "px_pid (sk_ctxs s p) = of_nat p" "p < 16" "px_regs (sk_ctxs s p) = r"
    using a sched_okD(3) [of os s p] by (simp_all add: asleep_def)
  have "(of_nat p :: u32) \<noteq> 0"
    by (rule pid_nonzero [OF w(2) p0])
  moreover have c: "p \<noteq> ?c"
    by (rule asleep_not_current [OF a])
  moreover have "sk_ctxs (save_current_context os s1) p = sk_ctxs s1 p"
    using c acc(4) by (simp add: save_current_context_other)
  ultimately have "fst (enter_context os (ack_irq os) n rbp ?s2) = EnterUser p r"
    using enter_context_user [of ?s2 n os "ack_irq os" rbp] w n acc(2,3) by simp
  moreover have "cur_ctx os (snd (enter_context os (ack_irq os) n rbp ?s2)) = p"
    unfolding n by (rule enter_context_cur [OF os]) (simp add: sos_okD [OF os])
  ultimately show ?thesis
    using switch(2) c n by (metis (no_types, lifting) enter_context_ctxs pctx.select_convs(3) pctx.update_convs(3) pctx.surjective prod.collapse upd_ctx_simps(1))
qed

lemma ticks_asleep_stay:
  assumes os: "sos_ok os"
  shows "asleep os p k r s \<Longrightarrow> length fs < k \<Longrightarrow>
    \<exists>es s'. timer_ticks os fs s = Some (es, s') \<and> asleep os p (k - length fs) r s' \<and> cur_ctx os s' = cur_ctx os s \<and>
      length es = length fs \<and> (\<forall>e \<in> set es. \<exists>x. e = EnterUser (cur_ctx os s) x)"
proof (induction fs arbitrary: k s)
  case (Cons f fs)
  obtain m rbp rsp cpu where f: "f = (m, rbp, rsp, cpu)"
    by (cases f)
  have "asleep os p k r (s\<lparr>sk_mem := m\<rparr>)"
    using Cons.prems(1) sched_ok_cong [of os s "s\<lparr>sk_mem := m\<rparr>"] by (simp add: asleep_def)
  from tick_asleep_stay [OF os this, of rbp rsp cpu] Cons.prems(2) obtain x s1 where
    t: "handle_timer_tick os rbp rsp cpu (s\<lparr>sk_mem := m\<rparr>) = Some (EnterUser (cur_ctx os s) x, s1)"
      "asleep os p (k - 1) r s1" "cur_ctx os s1 = cur_ctx os s"
    by auto
  have "length fs < k - 1"
    using Cons.prems(2) by simp
  from Cons.IH [OF t(2) this] obtain es s' where "timer_ticks os fs s1 = Some (es, s')"
    "asleep os p (k - 1 - length fs) r s'" "cur_ctx os s' = cur_ctx os s1" "length es = length fs"
    "\<forall>e \<in> set es. \<exists>x. e = EnterUser (cur_ctx os s1) x"
    by blast
  with t show ?case
    by (simp add: f)
qed simp

section \<open>Alarms\<close>

text \<open>
  The words the handler pushes, the words of its frame, and the registers of the program a tick
  interrupts: the saved ones and, from the frame, those the processor pushed.
\<close>

definition push_slots :: "u64 \<Rightarrow> u64 set"
  where "push_slots rsp = {rsp - 8, rsp - 16, rsp - 24, rsp - 32, rsp - 40, rsp - 48, rsp - 56, rsp - 64,
    rsp - 72, rsp - 80, rsp - 88, rsp - 96, rsp - 104, rsp - 112}"

definition frame_slots :: "u64 \<Rightarrow> u64 set"
  where "frame_slots rbp = {rbp, rbp + 8, rbp + 16, rbp + 24, rbp + 32, rbp + 40}"

definition interrupted :: "memory \<times> u64 \<times> u64 \<times> user_regs \<Rightarrow> user_regs"
  where "interrupted = (\<lambda>(m, rbp, rsp, cpu). cpu\<lparr>ur_rbp := m rbp, ur_entry_rip := m (rbp + 8), ur_entry_cs := m (rbp + 16),
    ur_entry_rflags := m (rbp + 24), ur_entry_rsp := m (rbp + 32), ur_entry_ss := m (rbp + 40)\<rparr>)"

definition frame_ok :: "memory \<times> u64 \<times> u64 \<times> user_regs \<Rightarrow> bool"
  where "frame_ok = (\<lambda>(m, rbp, rsp, cpu). frame_slots rbp \<inter> push_slots rsp = {})"

lemma push_regs_other: "a \<notin> push_slots rsp \<Longrightarrow> push_regs rsp cpu m a = m a"
  by (simp add: push_slots_def push_regs_def)

lemma push_regs_at:
  "push_regs rsp cpu m (rsp - 8) = ur_rax cpu" "push_regs rsp cpu m (rsp - 16) = ur_rbx cpu"
  "push_regs rsp cpu m (rsp - 24) = ur_rcx cpu" "push_regs rsp cpu m (rsp - 32) = ur_rdx cpu"
  "push_regs rsp cpu m (rsp - 40) = ur_rsi cpu" "push_regs rsp cpu m (rsp - 48) = ur_rdi cpu"
  "push_regs rsp cpu m (rsp - 56) = ur_r8 cpu" "push_regs rsp cpu m (rsp - 64) = ur_r9 cpu"
  "push_regs rsp cpu m (rsp - 72) = ur_r10 cpu" "push_regs rsp cpu m (rsp - 80) = ur_r11 cpu"
  "push_regs rsp cpu m (rsp - 88) = ur_r12 cpu" "push_regs rsp cpu m (rsp - 96) = ur_r13 cpu"
  "push_regs rsp cpu m (rsp - 104) = ur_r14 cpu" "push_regs rsp cpu m (rsp - 112) = ur_r15 cpu"
  by (simp_all add: push_regs_def)

lemma pop_push_regs:
  assumes "frame_ok (m, rbp, rsp, cpu)" "\<And>a. a \<in> push_slots rsp \<Longrightarrow> m' a = push_regs rsp cpu m a"
    "\<And>a. a \<in> frame_slots rbp \<Longrightarrow> m' a = m2 a"
  shows "pop_regs rsp rbp m' = interrupted (m2, rbp, rsp, cpu)"
proof -
  have "m' (rsp - 8) = ur_rax cpu" "m' (rsp - 16) = ur_rbx cpu" "m' (rsp - 24) = ur_rcx cpu" "m' (rsp - 32) = ur_rdx cpu"
    "m' (rsp - 40) = ur_rsi cpu" "m' (rsp - 48) = ur_rdi cpu" "m' (rsp - 56) = ur_r8 cpu" "m' (rsp - 64) = ur_r9 cpu"
    "m' (rsp - 72) = ur_r10 cpu" "m' (rsp - 80) = ur_r11 cpu" "m' (rsp - 88) = ur_r12 cpu" "m' (rsp - 96) = ur_r13 cpu"
    "m' (rsp - 104) = ur_r14 cpu" "m' (rsp - 112) = ur_r15 cpu"
    using assms(2) push_regs_at [of rsp cpu m] by (simp_all add: push_slots_def)
  moreover have "m' rbp = m2 rbp" "m' (rbp + 8) = m2 (rbp + 8)" "m' (rbp + 16) = m2 (rbp + 16)" "m' (rbp + 24) = m2 (rbp + 24)"
    "m' (rbp + 32) = m2 (rbp + 32)" "m' (rbp + 40) = m2 (rbp + 40)"
    using assms(3) by (simp_all add: frame_slots_def)
  ultimately show ?thesis
    by (simp add: pop_regs_def interrupted_def)
qed

text \<open>A process runs with \<open>k\<close> ticks to its alarm, the period \<open>n\<close> and the handler \<open>h\<close>; nobody sleeps.\<close>

definition ticking :: "'a sos \<Rightarrow> nat \<Rightarrow> u32 \<Rightarrow> u64 \<Rightarrow> nat \<Rightarrow> 'a ksched \<Rightarrow> bool"
  where "ticking os c n h k s \<longleftrightarrow> sched_ok os s \<and> cur_ctx os s = c \<and> (\<forall>i < 16. px_state (sk_ctxs s i) \<noteq> WAITING) \<and>
    unat (px_ticks_to_alarm (sk_ctxs s c)) = k \<and> px_alarm_config_time (sk_ctxs s c) = n \<and>
    px_sighandlers (sk_ctxs s c) SIGALRM = h"

lemma ticking_tick:
  assumes os: "sos_ok os" and t: "ticking os c n h k s"
  obtains m t s1 where "handle_timer_tick os rbp rsp cpu s = Some (EnterUser c (pop_regs rsp rbp m), s1\<lparr>sk_os := ack_irq os (sk_os s)\<rparr>)"
    "alarm_tick os rbp (s\<lparr>sk_mem := push_regs rsp cpu (sk_mem s), sk_numticks := sk_numticks s + 1,
           sk_ctxs := \<lambda>i. if i < 16 \<and> i \<noteq> c then sleep_account (sk_ctxs s i) else sk_ctxs s i\<rparr>) = Some s1"
    "sk_mem s1 = m" "px_ticks_to_alarm (sk_ctxs s1 c) = t"
    "ticking os c n h (unat t) (s1\<lparr>sk_os := ack_irq os (sk_os s)\<rparr>)"
proof (cases rule: tick_table [OF os, of s rbp rsp cpu, case_names stay switch])
  case (stay m t s1)
  have c: "cur_ctx os s = c" "sched_ok os s"
    using t by (simp_all add: ticking_def)
  have cu: "cur_ctx os (s1\<lparr>sk_os := ack_irq os (sk_os s)\<rparr>) = cur_ctx os s"
    using os by (simp add: cur_ctx_def sos_okD)
  have ok: "sched_ok os (s1\<lparr>sk_os := ack_irq os (sk_os s)\<rparr>)"
    by (rule sched_ok_cong [OF c(2) cu]) (simp_all add: stay(1))
  show ?thesis
    by (rule that [OF stay(2) [unfolded c(1)] stay(3) [unfolded c(1)]]) (use t ok cu in \<open>simp_all add: stay(1) ticking_def\<close>)
next
  case (switch m t n' s1)
  hence "px_state (sk_ctxs s n') = WAITING"
    by (simp split: if_splits)
  with t switch(4) show ?thesis
    by (simp add: ticking_def)
qed

lemma ticking_count:
  assumes os: "sos_ok os" and t: "ticking os c n h (Suc k) s" and f: "frame_ok (m, rbp, rsp, cpu)" and m: "sk_mem s = m"
  shows "\<exists>s'. handle_timer_tick os rbp rsp cpu s = Some (EnterUser c (interrupted (m, rbp, rsp, cpu)), s') \<and> ticking os c n h k s'"
proof -
  from ticking_tick [OF os t, of rbp rsp cpu] obtain m1 t1 s1 where
    h: "handle_timer_tick os rbp rsp cpu s = Some (EnterUser c (pop_regs rsp rbp m1), s1\<lparr>sk_os := ack_irq os (sk_os s)\<rparr>)"
    and al: "alarm_tick os rbp (s\<lparr>sk_mem := push_regs rsp cpu (sk_mem s), sk_numticks := sk_numticks s + 1,
           sk_ctxs := \<lambda>i. if i < 16 \<and> i \<noteq> c then sleep_account (sk_ctxs s i) else sk_ctxs s i\<rparr>) = Some s1"
    and s1: "sk_mem s1 = m1" "px_ticks_to_alarm (sk_ctxs s1 c) = t1" "ticking os c n h (unat t1) (s1\<lparr>sk_os := ack_irq os (sk_os s)\<rparr>)"
    by blast
  have c: "cur_ctx os s = c" "unat (px_ticks_to_alarm (sk_ctxs s c)) = Suc k"
    using t by (simp_all add: ticking_def)
  hence g: "0 < px_ticks_to_alarm (sk_ctxs s c)" "px_ticks_to_alarm (sk_ctxs s c) \<noteq> 0"
    by (auto simp: word_less_nat_alt)
  from al have "s1 = upd_ctx c (px_ticks_to_alarm_update (\<lambda>t. t - 1)) (s\<lparr>sk_mem := push_regs rsp cpu (sk_mem s), sk_numticks := sk_numticks s + 1,
           sk_ctxs := \<lambda>i. if i < 16 \<and> i \<noteq> c then sleep_account (sk_ctxs s i) else sk_ctxs s i\<rparr>)"
    using g(1) by (simp add: alarm_tick_def Let_def c(1))
  hence "m1 = push_regs rsp cpu m" "t1 = px_ticks_to_alarm (sk_ctxs s c) - 1"
    using s1(1,2) m by simp_all
  moreover have "unat (px_ticks_to_alarm (sk_ctxs s c) - 1) = k"
    using g(2) c(2) by (simp add: unat_minus_one)
  moreover have "pop_regs rsp rbp (push_regs rsp cpu m) = interrupted (m, rbp, rsp, cpu)"
    using f by (intro pop_push_regs push_regs_other) (auto simp: frame_ok_def)
  ultimately show ?thesis
    using h s1(3) by simp
qed

lemma ticks_count:
  assumes os: "sos_ok os"
  shows "ticking os c n h k s \<Longrightarrow> length fs \<le> k \<Longrightarrow> list_all frame_ok fs \<Longrightarrow>
    \<exists>s'. timer_ticks os fs s = Some (map (EnterUser c \<circ> interrupted) fs, s') \<and> ticking os c n h (k - length fs) s'"
proof (induction fs arbitrary: k s)
  case (Cons f fs)
  obtain m rbp rsp cpu where f: "f = (m, rbp, rsp, cpu)"
    by (cases f)
  obtain k' where k: "k = Suc k'" "length fs \<le> k'"
    using Cons.prems(2) by (cases k) auto
  have "ticking os c n h (Suc k') (s\<lparr>sk_mem := m\<rparr>)"
    using Cons.prems(1) k(1) sched_ok_cong [of os s "s\<lparr>sk_mem := m\<rparr>"] by (simp add: ticking_def)
  from ticking_count [OF os this, of m rbp rsp cpu] Cons.prems(3) f obtain s1 where
    t: "handle_timer_tick os rbp rsp cpu (s\<lparr>sk_mem := m\<rparr>) = Some (EnterUser c (interrupted (m, rbp, rsp, cpu)), s1)" "ticking os c n h k' s1"
    by auto
  from Cons.IH [OF t(2) k(2)] Cons.prems(3) obtain s' where
    "timer_ticks os fs s1 = Some (map (EnterUser c \<circ> interrupted) fs, s')" "ticking os c n h (k' - length fs) s'"
    by auto
  with t show ?case
    by (simp add: f k(1))
qed simp

lemma ticking_fire:
  assumes os: "sos_ok os" and t: "ticking os c n h 0 s" and f: "frame_ok (m, rbp, rsp, cpu)" and m: "sk_mem s = m"
    and n: "n \<noteq> 0" and h: "h \<noteq> 0" and u: "m (rbp + 32) - 8 \<notin> frame_slots rbp \<union> push_slots rsp"
  shows "\<exists>s'. handle_timer_tick os rbp rsp cpu s =
      Some (EnterUser c ((interrupted (m, rbp, rsp, cpu))\<lparr>ur_entry_rip := h, ur_entry_rsp := m (rbp + 32) - 8\<rparr>), s') \<and>
    sk_mem s' (m (rbp + 32) - 8) = m (rbp + 8) \<and> ticking os c n h (unat n) s'"
proof -
  from ticking_tick [OF os t, of rbp rsp cpu] obtain m1 t1 s1 where
    hd: "handle_timer_tick os rbp rsp cpu s = Some (EnterUser c (pop_regs rsp rbp m1), s1\<lparr>sk_os := ack_irq os (sk_os s)\<rparr>)"
    and al: "alarm_tick os rbp (s\<lparr>sk_mem := push_regs rsp cpu (sk_mem s), sk_numticks := sk_numticks s + 1,
           sk_ctxs := \<lambda>i. if i < 16 \<and> i \<noteq> c then sleep_account (sk_ctxs s i) else sk_ctxs s i\<rparr>) = Some s1"
    and s1: "sk_mem s1 = m1" "px_ticks_to_alarm (sk_ctxs s1 c) = t1" "ticking os c n h (unat t1) (s1\<lparr>sk_os := ack_irq os (sk_os s)\<rparr>)"
    by blast
  have c: "cur_ctx os s = c" "px_ticks_to_alarm (sk_ctxs s c) = 0" "px_alarm_config_time (sk_ctxs s c) = n" "px_sighandlers (sk_ctxs s c) SIGALRM = h"
    using t by (simp_all add: ticking_def unat_eq_0)
  let ?m0 = "push_regs rsp cpu m"
  have "s1 = upd_ctx c (\<lambda>x. x\<lparr>px_ticks_to_alarm := px_alarm_config_time x\<rparr>) (s\<lparr>sk_numticks := sk_numticks s + 1,
           sk_ctxs := \<lambda>i. if i < 16 \<and> i \<noteq> c then sleep_account (sk_ctxs s i) else sk_ctxs s i,
           sk_mem := deliver_signal h (rbp + 32) (rbp + 8) ?m0\<rparr>)"
    using al c n h m by (auto simp: alarm_tick_def invoke_sync_signal_def SIGALRM_def MAX_SIGNALS_def Let_def)
  hence m1: "m1 = deliver_signal h (rbp + 32) (rbp + 8) ?m0" and t1: "t1 = n"
    using s1(1,2) c(3) by simp_all
  have fr: "a \<in> frame_slots rbp \<Longrightarrow> ?m0 a = m a" for a
    using f by (intro push_regs_other) (auto simp: frame_ok_def)
  have in': "rbp + 8 \<in> frame_slots rbp" "rbp + 32 \<in> frame_slots rbp"
    by (simp_all add: frame_slots_def)
  have ne: "rbp + 32 \<noteq> rbp + 8"
    by simp
  have d: "m1 = ?m0(rbp + 8 := h, rbp + 32 := m (rbp + 32) - 8, m (rbp + 32) - 8 := m (rbp + 8))"
    unfolding m1 deliver_signal_def Let_def using ne fr [OF in'(1)] fr [OF in'(2)] by simp
  have "pop_regs rsp rbp m1 = interrupted (m(rbp + 8 := h, rbp + 32 := m (rbp + 32) - 8), rbp, rsp, cpu)"
  proof (rule pop_push_regs [OF f])
    fix a
    show "a \<in> push_slots rsp \<Longrightarrow> m1 a = ?m0 a"
      using u in' f by (auto simp: d frame_ok_def)
    show "a \<in> frame_slots rbp \<Longrightarrow> m1 a = (m(rbp + 8 := h, rbp + 32 := m (rbp + 32) - 8)) a"
      using u fr by (auto simp: d)
  qed
  hence "pop_regs rsp rbp m1 = (interrupted (m, rbp, rsp, cpu))\<lparr>ur_entry_rip := h, ur_entry_rsp := m (rbp + 32) - 8\<rparr>"
    by (simp add: interrupted_def)
  moreover have "m1 (m (rbp + 32) - 8) = m (rbp + 8)"
    by (simp add: d)
  ultimately show ?thesis
    using hd s1(1,3) t1 by (intro exI [of _ "s1\<lparr>sk_os := ack_irq os (sk_os s)\<rparr>"]) simp
qed

section \<open>Properties of the scheduler\<close>

text \<open>A small system: the swapper and two processes, the first of them running.\<close>

definition run_sos :: "nat sos"
  where "run_sos = \<lparr>osmap = push_bit 12, os_pfn_alloc = (\<lambda>_ a. (9, a)), os_pfn_free = (\<lambda>_ _ a. Some a), free_pages = (\<lambda>_ _. 1),
    get_current_ctx = id, set_current_ctx = (\<lambda>i _. i),
    get_ctx_by_pid = (\<lambda>p. if p < 16 then Some (unat p) else None),
    get_new_ctx = (\<lambda>cs a. case List.find (\<lambda>i. px_state (cs i) = UNUSED) [0..<16] of None \<Rightarrow> None
      | Some n \<Rightarrow> Some (n, cs(n := (cs n)\<lparr>px_pid := of_nat n, px_state := NEW\<rparr>), a)),
    set_tss_stack_ptr = (\<lambda>_ a. a), ack_irq = id\<rparr>"

definition run_regs :: user_regs
  where "run_regs = \<lparr>ur_r15 = 0, ur_r14 = 0, ur_r13 = 0, ur_r12 = 0, ur_r11 = 0, ur_r10 = 0, ur_r9 = 0, ur_r8 = 0, ur_rbp = 0,
    ur_rdi = 0, ur_rsi = 0, ur_rdx = 0, ur_rcx = 0, ur_rbx = 0, ur_rax = 0, ur_entry_rip = 0, ur_entry_cs = 0,
    ur_entry_rflags = 0, ur_entry_rsp = 0, ur_entry_ss = 0\<rparr>"

definition run_pctx :: "nat \<Rightarrow> process_state \<Rightarrow> pctx"
  where "run_pctx i st = \<lparr>px_pid = of_nat i, px_type = 2, px_state = st, px_used_mem = 0, px_pgd = 1, px_os_stack_pfn = 5, px_os_rsp = 0,
    px_mms = (\<lambda>_. \<lparr>us_start = 0, us_end = 0, us_next_free = 0, us_flags = 0\<rparr>), px_name = replicate 64 0, px_regs = run_regs,
    px_pending_signal_bitmap = 0, px_sighandlers = (\<lambda>_. 0x100000000), px_ticks_to_sleep = 0, px_alarm_config_time = 0, px_ticks_to_alarm = 0\<rparr>"

definition run_sched :: "process_state \<Rightarrow> nat ksched"
  where "run_sched st = \<lparr>sk_ctxs = (\<lambda>i. run_pctx i (if i = 0 then READY else if i = 1 then RUNNING else if i = 2 then st else UNUSED)),
    sk_mem = (\<lambda>_. 0), sk_os = 1, sk_numticks = 0\<rparr>"

lemma run_sos_ok: "sos_ok run_sos"
proof -
  have "n < 16 \<and> px_state (cs n) = UNUSED \<and> (\<forall>i. i \<noteq> n \<longrightarrow> cs' i = cs i) \<and> px_pid (cs' n) = of_nat n \<and> a' = a"
    if "get_new_ctx run_sos cs a = Some (n, cs', a')" for cs a n cs' a'
    using that by (auto simp: run_sos_def find_Some_iff split: option.splits)
  thus ?thesis
    unfolding sos_ok_def by (intro conjI allI impI) (simp_all add: run_sos_def)
qed

lemma run_cur: "cur_ctx run_sos (run_sched st) = 1"
  by (simp add: run_sched_def run_sos_def cur_ctx_def)

lemma run_sched_table:
  "px_pid (sk_ctxs (run_sched st) i) = of_nat i"
  "px_state (sk_ctxs (run_sched st) i) = (if i = 0 then READY else if i = 1 then RUNNING else if i = 2 then st else UNUSED)"
  "px_regs (sk_ctxs (run_sched st) i) = run_regs" "px_os_stack_pfn (sk_ctxs (run_sched st) i) = 5"
  "px_ticks_to_sleep (sk_ctxs (run_sched st) i) = 0" "px_sighandlers (sk_ctxs (run_sched st) i) g = 0x100000000"
  "sk_mem (run_sched st) = (\<lambda>_. 0)"
  by (simp_all add: run_sched_def run_pctx_def)

lemma run_sched_ok: "st \<noteq> RUNNING \<Longrightarrow> sched_ok run_sos (run_sched st)"
  unfolding sched_ok_def run_cur by (simp add: run_sched_table)

text \<open>
  C15: In every state that user instructions, timer ticks, faults and the system calls alarm, signal,
  clone, sleep and exit reach from a good one, at most one context of the table is RUNNING, it is the
  current one, and every context in use and the current one carry their index as process number.  The current one is RUNNING
  unless on the way an exit returned to the process that it had just ended.
\<close>

theorem reachable_sched_ok:
  assumes "sos_ok os" "sched_ok os s" "(kstep os)\<^sup>*\<^sup>* s s'"
  shows "sched_inv os s' \<and> (sched_ok os s' \<or>
    (\<exists>s1 s2 rbp. (kstep os)\<^sup>*\<^sup>* s s1 \<and> do_exit os rbp s1 = Some (Returned, s2) \<and> (kstep os)\<^sup>*\<^sup>* s2 s'))"
  using assms(3)
proof (induction rule: rtranclp_induct)
  case base
  with assms(2) sched_ok_inv show ?case
    by blast
next
  case (step s1 s2)
  note k = kstep_keeps_sched [OF step(2) assms(1) conjunct1 [OF step(3)]]
  from step(3) show ?case
  proof (elim conjE disjE)
    assume "sched_ok os s1"
    with k step(1) show ?thesis
      by blast
  next
    assume "\<exists>t1 t2 rbp. (kstep os)\<^sup>*\<^sup>* s t1 \<and> do_exit os rbp t1 = Some (Returned, t2) \<and> (kstep os)\<^sup>*\<^sup>* t2 s1"
    with k step(2) show ?thesis
      by (meson rtranclp.rtrancl_into_rtrancl)
  qed
qed

lemma run_clone: "\<exists>s1. do_clone run_sos 0x400000 0x7ff000 (run_sched READY) = Some s1"
proof -
  have "case do_clone run_sos 0x400000 0x7ff000 (run_sched READY) of None \<Rightarrow> False | Some _ \<Rightarrow> True"
    by code_simp
  thus ?thesis
    by (auto split: option.splits)
qed

lemma run_exit: "\<exists>s1. do_exit run_sos 0 (run_sched WAITING) = Some (Returned, s1)"
proof -
  have "case do_exit run_sos 0 (run_sched WAITING) of Some (Returned, _) \<Rightarrow> True | _ \<Rightarrow> False"
    by code_simp
  thus ?thesis
    by (auto split: option.splits kexit.splits)
qed

theorem reachable_sched_ok_witness:
  "(\<exists>s1 e2 s2 e3 s3. do_clone run_sos 0x400000 0x7ff000 (run_sched READY) = Some s1 \<and>
     do_sleep run_sos 0 3 s1 = Some (e2, s2) \<and> handle_timer_tick run_sos 0 0 run_regs s2 = Some (e3, s3) \<and> sched_inv run_sos s3) \<and>
   (\<exists>s1 e2 s2. do_exit run_sos 0 (run_sched WAITING) = Some (Returned, s1) \<and>
     handle_timer_tick run_sos 0 0 run_regs s1 = Some (e2, s2) \<and> sched_inv run_sos s2)"
proof
  obtain s1 where s1: "do_clone run_sos 0x400000 0x7ff000 (run_sched READY) = Some s1"
    using run_clone by blast
  have "get_ctx_by_pid run_sos 0 = Some 0"
    by (simp add: run_sos_def)
  then obtain e2 s2 where s2: "do_sleep run_sos 0 3 s1 = Some (e2, s2)"
    unfolding do_sleep_def Let_def by (metis bind.bind_lunit surj_pair)
  have k: "(kstep run_sos)\<^sup>*\<^sup>* (run_sched READY) s2"
    using kstep.clone [OF s1] kstep.sleep [OF s2] by (meson rtranclp.simps)
  have "sched_inv run_sos s2"
    using reachable_sched_ok [OF run_sos_ok run_sched_ok k] by simp
  from tick_keeps_sched_inv [OF run_sos_ok this] obtain e3 s3 where s3: "handle_timer_tick run_sos 0 0 run_regs s2 = Some (e3, s3)"
    by blast
  have "sched_inv run_sos s3"
    using reachable_sched_ok [OF run_sos_ok run_sched_ok rtranclp.rtrancl_into_rtrancl [OF k kstep.tick [OF s3]]] by simp
  with s1 s2 s3 show "\<exists>s1 e2 s2 e3 s3. do_clone run_sos 0x400000 0x7ff000 (run_sched READY) = Some s1 \<and>
     do_sleep run_sos 0 3 s1 = Some (e2, s2) \<and> handle_timer_tick run_sos 0 0 run_regs s2 = Some (e3, s3) \<and> sched_inv run_sos s3"
    by blast
next
  obtain s1 where s1: "do_exit run_sos 0 (run_sched WAITING) = Some (Returned, s1)"
    using run_exit by blast
  hence k: "(kstep run_sos)\<^sup>*\<^sup>* (run_sched WAITING) s1"
    by (auto intro: kstep.exit)
  have "sched_inv run_sos s1"
    using reachable_sched_ok [OF run_sos_ok run_sched_ok k] by simp
  from tick_keeps_sched_inv [OF run_sos_ok this] obtain e2 s2 where s2: "handle_timer_tick run_sos 0 0 run_regs s1 = Some (e2, s2)"
    by blast
  have "sched_inv run_sos s2"
    using reachable_sched_ok [OF run_sos_ok run_sched_ok rtranclp.rtrancl_into_rtrancl [OF k kstep.tick [OF s2]]] by simp
  with s1 s2 show "\<exists>s1 e2 s2. do_exit run_sos 0 (run_sched WAITING) = Some (Returned, s1) \<and>
     handle_timer_tick run_sos 0 0 run_regs s1 = Some (e2, s2) \<and> sched_inv run_sos s2"
    by blast
qed

text \<open>
  C12: A process that calls \<open>sleep(n)\<close>, when no other sleeper is due by then, enters the swapper and is
  running again after exactly \<open>max 1 n\<close> timer ticks, with the registers its system call had put on its
  kernel stack; the ticks before that all return to the swapper, also when other processes are READY
  and the assignment asks for one of them.  The hypothesis on the other sleepers is needed: of several that are
  due at a tick only the one with the least number is woken.
\<close>

theorem sleep_wakes:
  assumes os: "sos_ok os" and ok: "sched_ok os s" and p: "cur_ctx os s = p" "p \<noteq> 0"
    and others: "\<forall>i < 16. i \<noteq> p \<longrightarrow> px_state (sk_ctxs s i) = WAITING \<longrightarrow> max 1 (unat n) < unat (px_ticks_to_sleep (sk_ctxs s i))"
    and fs: "length fs = max 1 (unat n)"
  shows "\<exists>fr s1 es s2. do_sleep os rbp n s = Some (EnterSwapper 0 fr, s1) \<and>
    timer_ticks os fs s1 = Some (es @ [EnterUser p (stack_regs (sk_mem s)
      (osmap os (ucast (px_os_stack_pfn (sk_ctxs s p)))) (px_regs (sk_ctxs s p)))], s2) \<and>
    (\<forall>e \<in> set es. \<exists>r. e = EnterUser 0 r) \<and> cur_ctx os s2 = p"
proof -
  let ?s = "upd_ctx p (\<lambda>x. x\<lparr>px_ticks_to_sleep := n, px_state := WAITING\<rparr>) s"
  let ?r = "stack_regs (sk_mem s) (osmap os (ucast (px_os_stack_pfn (sk_ctxs s p)))) (px_regs (sk_ctxs s p))"
  define s1 where "s1 = snd (schedule_context os rbp 0 ?s)"
  have p16: "p < 16"
    using sched_okD(1) [OF ok] p(1) by simp
  have pid: "px_pid (sk_ctxs s p) = of_nat p" "px_pid (sk_ctxs s 0) = 0"
    using sched_okD(2,3) [OF ok p16] sched_okD(3) [OF ok, of 0] p(1) by auto
  have z: "get_ctx_by_pid os 0 = Some 0"
    using sos_ok_pid [OF os, of 0] by simp
  obtain fr where sl: "do_sleep os rbp n s = Some (EnterSwapper 0 fr, s1)"
    using z p pid(2) unfolding do_sleep_def Let_def s1_def
    by (simp add: schedule_context_def enter_context_def Let_def)
  have ok1: "sched_ok os s1"
    by (rule sleep_keeps_sched_ok [OF os sched_ok_inv [OF ok] sl])
  have pn: "px_pid (sk_ctxs ?s (cur_ctx os ?s)) \<noteq> 0"
    using pid_nonzero [OF p16 p(2)] pid(1) p(1) by simp
  have "px_regs (sk_ctxs s1 p) = ?r"
    using save_current_context_regs [of ?s os] pn p unfolding s1_def schedule_context_def Let_def by simp
  moreover have st: "px_state (sk_ctxs s1 i) = (if i = 0 then RUNNING else if i = p then WAITING else px_state (sk_ctxs s i))" for i
    by (simp add: s1_def schedule_context_simps [OF os])
  moreover have tk: "px_ticks_to_sleep (sk_ctxs s1 i) = (if i = p then n else px_ticks_to_sleep (sk_ctxs s i))" for i
    using p(2) by (simp add: s1_def schedule_context_def Let_def)
  moreover have c1: "cur_ctx os s1 = 0"
    by (simp add: s1_def schedule_context_simps [OF os])
  ultimately have a: "asleep os p (unat n) ?r s1"
    using ok1 others p p16 unfolding asleep_def by simp
  obtain gs f where g: "fs = gs @ [f]" "length gs = max 1 (unat n) - 1"
    using fs by (cases fs rule: rev_cases) auto
  obtain es s' where e: "timer_ticks os gs s1 = Some (es, s')" "asleep os p (unat n - length gs) ?r s'" "cur_ctx os s' = 0"
      "\<forall>e \<in> set es. \<exists>r. e = EnterUser 0 r"
  proof (cases "unat n = 0")
    case True
    thus ?thesis
      using that [of "[]" s1] g(2) a c1 by simp
  next
    case False
    hence "length gs < unat n"
      using g(2) by simp
    from ticks_asleep_stay [OF os a this] that show ?thesis
      unfolding c1 by blast
  qed
  obtain m rb rsp cpu where f: "f = (m, rb, rsp, cpu)"
    by (cases f)
  have k: "unat n - length gs \<le> 1"
    using g(2) by simp
  have "asleep os p (unat n - length gs) ?r (s'\<lparr>sk_mem := m\<rparr>)"
    using e(2) sched_ok_cong [of os s' "s'\<lparr>sk_mem := m\<rparr>"] by (simp add: asleep_def)
  from tick_asleep_wake [OF os this k p(2)] obtain s2 where
    w: "handle_timer_tick os rb rsp cpu (s'\<lparr>sk_mem := m\<rparr>) = Some (EnterUser p ?r, s2)" "cur_ctx os s2 = p"
    by blast
  have "timer_ticks os [f] s' = Some ([EnterUser p ?r], s2)"
    using w(1) by (simp add: f)
  from timer_ticks_append [OF e(1) this] have "timer_ticks os fs s1 = Some (es @ [EnterUser p ?r], s2)"
    unfolding g(1) .
  with sl e(4) w(2) show ?thesis
    by (intro exI conjI)
qed

theorem sleep_wakes_witness:
  "\<exists>fr s1 es s2. do_sleep run_sos 0 3 (run_sched READY) = Some (EnterSwapper 0 fr, s1) \<and>
    timer_ticks run_sos (replicate 3 (\<lambda>_. 0, 0, 0, run_regs)) s1 = Some (es @ [EnterUser 1 (stack_regs (\<lambda>_. 0) 0x5000 run_regs)], s2) \<and>
    (\<forall>e \<in> set es. \<exists>r. e = EnterUser 0 r) \<and> cur_ctx run_sos s2 = 1"
proof -
  have o: "osmap run_sos 5 = 0x5000"
    by (simp add: run_sos_def push_bit_eq_mult)
  show ?thesis
    using sleep_wakes [OF run_sos_ok run_sched_ok [of READY] run_cur, of 3 "replicate 3 (\<lambda>_. 0, 0, 0, run_regs)" 0]
    by (simp add: run_sched_table o)
qed

text \<open>
  C20: After \<open>alarm(n)\<close> with a handler registered and nobody sleeping, \<open>n\<close> ticks return to the process
  with its registers exactly as they were; a tick does not pass the processor to another READY
  process, although the assignment asks for it.  Tick \<open>n + 1\<close> returns to the handler, with the interrupted
  instruction pointer pushed on the user stack and every other register as it was, and restarts the
  count.  The frame of each tick lies outside the words the handler pushes, and the user stack
  outside both.
\<close>

theorem alarm_fires:
  assumes os: "sos_ok os" and ok: "sched_ok os s" and c: "cur_ctx os s = c"
    and w: "\<forall>i < 16. px_state (sk_ctxs s i) \<noteq> WAITING" and n: "n \<noteq> 0"
    and h: "px_sighandlers (sk_ctxs s c) SIGALRM = h" "h \<noteq> 0"
    and fs: "length fs = unat n" "list_all frame_ok fs"
    and f: "frame_ok (m, rbp, rsp, cpu)" "m (rbp + 32) - 8 \<notin> frame_slots rbp \<union> push_slots rsp"
  shows "\<exists>s'. timer_ticks os (fs @ [(m, rbp, rsp, cpu)]) (do_alarm os n s) =
      Some (map (EnterUser c \<circ> interrupted) fs @
        [EnterUser c ((interrupted (m, rbp, rsp, cpu))\<lparr>ur_entry_rip := h, ur_entry_rsp := m (rbp + 32) - 8\<rparr>)], s') \<and>
    sk_mem s' (m (rbp + 32) - 8) = m (rbp + 8) \<and> px_ticks_to_alarm (sk_ctxs s' c) = n"
proof -
  have "ticking os c n h (unat n) (do_alarm os n s)"
    using sched_ok_cong [OF ok, of "do_alarm os n s"] c w h(1) by (simp add: ticking_def do_alarm_def)
  from ticks_count [OF os this, of fs] fs obtain s1 where
    t: "timer_ticks os fs (do_alarm os n s) = Some (map (EnterUser c \<circ> interrupted) fs, s1)" "ticking os c n h 0 s1"
    by auto
  have "ticking os c n h 0 (s1\<lparr>sk_mem := m\<rparr>)"
    using t(2) sched_ok_cong [of os s1 "s1\<lparr>sk_mem := m\<rparr>"] by (simp add: ticking_def)
  from ticking_fire [OF os this f(1) _ n h(2) f(2)] obtain s2 where
    f2: "handle_timer_tick os rbp rsp cpu (s1\<lparr>sk_mem := m\<rparr>) =
      Some (EnterUser c ((interrupted (m, rbp, rsp, cpu))\<lparr>ur_entry_rip := h, ur_entry_rsp := m (rbp + 32) - 8\<rparr>), s2)"
      "sk_mem s2 (m (rbp + 32) - 8) = m (rbp + 8)" "ticking os c n h (unat n) s2"
    by auto
  have "timer_ticks os [(m, rbp, rsp, cpu)] s1 =
      Some ([EnterUser c ((interrupted (m, rbp, rsp, cpu))\<lparr>ur_entry_rip := h, ur_entry_rsp := m (rbp + 32) - 8\<rparr>)], s2)"
    using f2(1) by simp
  note ts = timer_ticks_append [OF t(1) this]
  have "unat (px_ticks_to_alarm (sk_ctxs s2 c)) = unat n"
    using f2(3) by (simp add: ticking_def)
  hence "px_ticks_to_alarm (sk_ctxs s2 c) = n"
    by (simp add: word_eq_iff_unsigned [where ?'a = nat])
  with ts f2(2) show ?thesis
    by (intro exI conjI)
qed

theorem alarm_fires_witness:
  "\<exists>s'. timer_ticks run_sos [(\<lambda>_. 0, 0x5fd0, 0x5f00, run_regs), ((\<lambda>_. 0)(0x5fd8 := 0x100000040, 0x5ff0 := 0x7fff00), 0x5fd0, 0x5f00, run_regs)]
      (do_alarm run_sos 1 (run_sched READY)) =
    Some ([EnterUser 1 run_regs, EnterUser 1 (run_regs\<lparr>ur_entry_rip := 0x100000000, ur_entry_rsp := 0x7ffef8\<rparr>)], s') \<and>
    sk_mem s' 0x7ffef8 = 0x100000040 \<and> px_ticks_to_alarm (sk_ctxs s' 1) = 1"
proof -
  have f: "frame_ok (m, 0x5fd0, 0x5f00, run_regs)" for m
    by (simp add: frame_ok_def frame_slots_def push_slots_def)
  have i: "interrupted (\<lambda>_. 0, 0x5fd0, 0x5f00, run_regs) = run_regs"
    by (simp add: interrupted_def run_regs_def)
  show ?thesis
    using alarm_fires [OF run_sos_ok run_sched_ok [of READY] run_cur, of 1 "0x100000000" "[(\<lambda>_. 0, 0x5fd0, 0x5f00, run_regs)]"
        "(\<lambda>_. 0)(0x5fd8 := 0x100000040, 0x5ff0 := 0x7fff00)" "0x5fd0" "0x5f00" run_regs]
    by (simp add: run_sched_table f i) (simp add: frame_slots_def push_slots_def interrupted_def run_regs_def)
qed

text \<open>
  C27: When the running process exits, another process is still alive, and no process with a larger
  number is READY, \<open>do_exit\<close> returns to its caller: the dead process stays current with its kernel
  stack already freed.  The search neither wraps around nor considers the swapper.
\<close>

theorem exit_returns_dead:
  assumes os: "sos_ok os" and ok: "sched_ok os s" and c: "cur_ctx os s = c"
    and fr: "os_pfn_free os OS_PT_REG (ucast (px_os_stack_pfn (sk_ctxs s c))) (sk_os s) = Some a"
    and alive: "0 < j" "j < 16" "j \<noteq> c" "px_state (sk_ctxs s j) \<noteq> UNUSED"
    and none: "\<forall>i. c < i \<longrightarrow> i < 16 \<longrightarrow> px_state (sk_ctxs s i) \<noteq> READY"
  shows "\<exists>s'. do_exit os rbp s = Some (Returned, s') \<and> cur_ctx os s' = c \<and> px_state (sk_ctxs s' c) = UNUSED \<and> sk_os s' = a"
proof -
  define s1 where "s1 = upd_ctx c (px_state_update (\<lambda>_. UNUSED)) s\<lparr>sk_os := a\<rparr>"
  have c16: "c < 16"
    using sched_okD(1) [OF ok] c by simp
  have pc: "px_pid (sk_ctxs s c) = of_nat c"
    using sched_okD(2,3) [OF ok c16] c by auto
  have c1: "cur_ctx os s1 = c"
    using c by (simp add: s1_def cur_ctx_def sos_okD(5) [OF os fr])
  have p: "px_pid (sk_ctxs s1 (cur_ctx os s1)) = of_nat (cur_ctx os s1)" "i \<noteq> c \<Longrightarrow> sk_ctxs s1 i = sk_ctxs s i" for i
    using pc by (simp_all add: c1) (simp_all add: s1_def)
  have "0 < px_pid (sk_ctxs s1 j)"
    using pid_nonzero [OF alive(2)] alive sched_okD(3) [OF ok alive(2)] p(2) [of j] by (simp add: word_greater_zero_iff)
  moreover have "px_state (sk_ctxs s1 j) \<noteq> UNUSED"
    using alive p(2) by simp
  ultimately have fl: "\<exists>i \<in> set [1..<MAX_PROCESSES]. px_pid (sk_ctxs s1 i) > 0 \<and> px_state (sk_ctxs s1 i) \<noteq> UNUSED"
    using alive by (intro bexI [of _ j]) (auto simp: MAX_PROCESSES_def)
  have "pick_next_context os s1 = None"
  proof (cases "pick_next_context os s1")
    case (Some n)
    have cc: "cur_ctx os s1 = cur_ctx os s"
      using c c1 by simp
    from pick_next_context_ready [OF os sched_ok_inv [OF ok] cc _ p(1) Some] p(2) c1 have "n < 16 \<and> c < n \<and> px_state (sk_ctxs s n) = READY"
      by simp
    with none show ?thesis
      by blast
  qed
  hence "do_exit os rbp s = Some (Returned, s1)"
    using fr fl c unfolding do_exit_def Let_def schedule_next_def s1_def by simp
  moreover have "px_state (sk_ctxs s1 c) = UNUSED" "sk_os s1 = a"
    by (simp_all add: s1_def)
  ultimately show ?thesis
    using c1 by blast
qed

theorem exit_returns_dead_witness:
  "\<exists>s'. do_exit run_sos 0 (run_sched WAITING) = Some (Returned, s') \<and> cur_ctx run_sos s' = 1 \<and> px_state (sk_ctxs s' 1) = UNUSED \<and> sk_os s' = 1"
proof -
  have "os_pfn_free run_sos OS_PT_REG (ucast (px_os_stack_pfn (sk_ctxs (run_sched WAITING) 1))) (sk_os (run_sched WAITING)) = Some 1"
    by (simp add: run_sos_def run_sched_def)
  from exit_returns_dead [OF run_sos_ok run_sched_ok run_cur this, of 2 0] show ?thesis
    by (simp add: run_sched_table)
qed

end
