(* ===== verification/IntMath.thy ===== *)
theory IntMath
  imports Prelude
begin

text \<open>
  The integer and bit-field helpers of gem5: \<^verbatim>\<open>base/intmath.hh\<close>, \<^verbatim>\<open>base/intmath.cc\<close>
  and \<^verbatim>\<open>base/bitfield.hh\<close>. Template functions are modelled at the width their callers use,
  or for every width where the code does not depend on it. A C++ \<^verbatim>\<open>assert\<close> or an
  arithmetic overflow that the language leaves undefined is the result \<open>None\<close>.
\<close>

unbundle bit_operations_syntax

section \<open>Bit fields (base/bitfield.hh)\<close>

definition bf_mask :: "int \<Rightarrow> u64" where
  "bf_mask nbits = (if nbits = 64 then - 1 else push_bit (nat nbits) 1 - 1)"

definition bits :: "u64 \<Rightarrow> int \<Rightarrow> int \<Rightarrow> u64" where
  "bits val first lst = (let nbits = first - lst + 1 in
     drop_bit (nat lst) val AND bf_mask nbits)"

definition bits1 :: "u64 \<Rightarrow> int \<Rightarrow> u64" where
  "bits1 val b = bits val b b"

definition mbits :: "u64 \<Rightarrow> int \<Rightarrow> int \<Rightarrow> u64" where
  "mbits val first lst = val AND (bf_mask (first + 1) AND NOT (bf_mask lst))"

definition bf_mask2 :: "int \<Rightarrow> int \<Rightarrow> u64" where
  "bf_mask2 first lst = mbits (- 1) first lst"

definition sext :: "int \<Rightarrow> u64 \<Rightarrow> u64" where
  "sext N val = (let sign_bit = bits val (N - 1) (N - 1) in
     if sign_bit \<noteq> 0 then val OR NOT (bf_mask N) else val)"

definition insertBits :: "u64 \<Rightarrow> int \<Rightarrow> int \<Rightarrow> u64 \<Rightarrow> u64" where
  "insertBits val first lst bit_val =
     (let bmask = push_bit (nat lst) (bf_mask (first - lst + 1)) in
      (push_bit (nat lst) bit_val AND bmask) OR (val AND NOT bmask))"

definition insertBits1 :: "u64 \<Rightarrow> int \<Rightarrow> u64 \<Rightarrow> u64" where
  "insertBits1 val b bit_val = insertBits val b b bit_val"

text \<open>
  One line of \<^verbatim>\<open>findMsbSet\<close> and of \<^verbatim>\<open>findLsbSet\<close>: test a field of the value, count and
  shift by \<open>k\<close>. (The last line of both functions leaves out the shift, whose result nobody reads.)
\<close>

definition msb_step :: "int \<Rightarrow> int \<Rightarrow> nat \<Rightarrow> u64 \<times> nat \<Rightarrow> u64 \<times> nat" where
  "msb_step first lst k s =
     (if bits (fst s) first lst \<noteq> 0 then (drop_bit k (fst s), snd s + k) else s)"

definition findMsbSet :: "u64 \<Rightarrow> nat" where
  "findMsbSet val =
     (if val = 0 then 0 else
      snd (msb_step 1 1 1 (msb_step 3 2 2 (msb_step 7 4 4 (msb_step 15 8 8
            (msb_step 31 16 16 (msb_step 63 32 32 (val, 0))))))))"

definition lsb_step :: "int \<Rightarrow> int \<Rightarrow> nat \<Rightarrow> u64 \<times> nat \<Rightarrow> u64 \<times> nat" where
  "lsb_step first lst k s =
     (if bits (fst s) first lst = 0 then (drop_bit k (fst s), snd s + k) else s)"

definition findLsbSet :: "u64 \<Rightarrow> nat" where
  "findLsbSet val =
     (if val = 0 then 64 else
      snd (lsb_step 0 0 1 (lsb_step 1 0 2 (lsb_step 3 0 4 (lsb_step 7 0 8
            (lsb_step 15 0 16 (lsb_step 31 0 32 (val, 0))))))))"

definition isPow2 :: "'a::len word \<Rightarrow> bool" where
  "isPow2 v \<longleftrightarrow> v AND (v - 1) = 0"

definition alignToPowerOfTwo :: "u64 \<Rightarrow> u64" where
  "alignToPowerOfTwo v0 =
     (let val = v0 - 1;
          val = val OR drop_bit 1 val;
          val = val OR drop_bit 2 val;
          val = val OR drop_bit 4 val;
          val = val OR drop_bit 8 val;
          val = val OR drop_bit 16 val;
          val = val OR drop_bit 32 val
      in val + 1)"

section \<open>Integer helpers (base/intmath.hh and intmath.cc)\<close>

definition INT_MAX :: int where "INT_MAX = 2147483647"
definition INT_MIN :: int where "INT_MIN = - 2147483648"

text \<open>
  The loop of \<^verbatim>\<open>isPrime\<close> at \<open>T = int\<close>. The test \<open>i * i \<le> n\<close> overflows a signed
  integer for the last few candidates below \<open>INT_MAX\<close>; the result is then undefined.
\<close>

function isPrime_loop :: "int \<Rightarrow> int \<Rightarrow> bool option" where
  "isPrime_loop i n =
     (if i * i > INT_MAX then None
      else if i * i \<le> n then
        (if n mod i = 0 \<or> n mod (i + 2) = 0 then Some False else isPrime_loop (i + 6) n)
      else Some True)"
  by pat_completeness auto
termination
proof (relation "measure (\<lambda>(i, n). nat (46341 - i))", goal_cases)
  case (2 i n)
  have "i < 46341"
  proof (rule ccontr)
    assume "\<not> i < 46341"
    then have "46341 * 46341 \<le> i * i"
      by (intro mult_mono) auto
    with 2 show False
      by (simp add: INT_MAX_def)
  qed
  then show ?case by simp
qed simp

declare isPrime_loop.simps [simp del]

definition isPrime :: "int \<Rightarrow> bool option" where
  "isPrime n = (if n = 2 \<or> n = 3 then Some True else isPrime_loop 5 n)"

text \<open>C's \<^verbatim>\<open>%\<close> truncates towards zero.\<close>

definition c_rem :: "int \<Rightarrow> int \<Rightarrow> int" where
  "c_rem a b = sgn a * (\<bar>a\<bar> mod \<bar>b\<bar>)"

text \<open>
  The search loop of \<^verbatim>\<open>prevPrime\<close>. The step is 2 or 4 whenever the loop goes round: the
  other values of \<open>decr\<close> come from negative \<open>n\<close>, where \<^verbatim>\<open>isPrime\<close> answers true at once.
\<close>

function prevPrime_loop :: "int \<Rightarrow> int \<Rightarrow> int option" where
  "prevPrime_loop n decr =
     (case isPrime n of
        None \<Rightarrow> None
      | Some True \<Rightarrow> Some n
      | Some False \<Rightarrow> (if decr = 2 \<or> decr = 4 then prevPrime_loop (n - decr) (6 - decr) else None))"
  by pat_completeness auto
termination
proof (relation "measure (\<lambda>(n, decr). nat n)", goal_cases)
  case (2 n decr)
  have "25 \<le> n"
  proof (rule ccontr)
    assume "\<not> 25 \<le> n"
    then have "isPrime n = Some True"
      by (simp add: isPrime_def isPrime_loop.simps [of 5 n] INT_MAX_def)
    with 2 show False by simp
  qed
  with 2 show ?case by auto
qed simp

definition prevPrime :: "int \<Rightarrow> int option" where
  "prevPrime n0 =
     (if n0 = INT_MIN then None else
      let n = (if even n0 then n0 - 1 else n0);
          decr = c_rem n 3;
          (n, decr) = (if decr = 0 then (n - 2, 2) else if decr = 1 then (n, 4) else (n, decr))
      in prevPrime_loop n decr)"

definition leastSigBit :: "'a::len word \<Rightarrow> 'a word" where
  "leastSigBit n = n AND NOT (n - 1)"

definition isPowerOf2 :: "'a::len word \<Rightarrow> bool" where
  "isPowerOf2 n \<longleftrightarrow> n \<noteq> 0 \<and> leastSigBit n = n"

text \<open>The warnings of \<^verbatim>\<open>power\<close> (a large exponent, a product that wrapped) print and do
  not change the result; the second one is returned as the flag the loop tests.\<close>

fun power_loop :: "nat \<Rightarrow> u64 \<Rightarrow> u64 \<Rightarrow> bool \<Rightarrow> u64 \<times> bool" where
  "power_loop 0 n result overflowed = (result, overflowed)"
| "power_loop (Suc k) n result overflowed =
     (let old_result = result; result = result * n
      in power_loop k n result (overflowed \<or> old_result > result))"

definition power_u32 :: "u32 \<Rightarrow> u32 \<Rightarrow> u64" where
  "power_u32 n e = (if e = 0 then 1 else fst (power_loop (unat e - 1) (ucast n) (ucast n) False))"

text \<open>One line of \<^verbatim>\<open>floorLog2\<close>: test the bits \<open>m\<close>, count and shift by \<open>k\<close>.\<close>

definition fl_step :: "'a::len word \<Rightarrow> nat \<Rightarrow> 'a word \<times> nat \<Rightarrow> 'a word \<times> nat" where
  "fl_step m k s = (if fst s AND m \<noteq> 0 then (drop_bit k (fst s), snd s + k) else s)"

definition floorLog2_u32 :: "u32 \<Rightarrow> nat option" where
  "floorLog2_u32 x =
     (if x = 0 then None else
      Some (snd (fl_step 0x00000002 1 (fl_step 0x0000000c 2 (fl_step 0x000000f0 4
             (fl_step 0x0000ff00 8 (fl_step 0xffff0000 16 (x, 0))))))))"

definition floorLog2_ul :: "u64 \<Rightarrow> nat option" where
  "floorLog2_ul x =
     (if x = 0 then None else
      Some (snd (fl_step 0x00000002 1 (fl_step 0x0000000c 2 (fl_step 0x000000f0 4
             (fl_step 0x0000ff00 8 (fl_step 0xffff0000 16
               (fl_step 0xffffffff00000000 32 (x, 0)))))))))"

definition floorLog2_ull :: "u64 \<Rightarrow> nat option" where
  "floorLog2_ull x =
     (if x = 0 then None else
      Some (snd (fl_step 0x0000000000000002 1 (fl_step 0x000000000000000c 2
             (fl_step 0x00000000000000f0 4 (fl_step 0x000000000000ff00 8
               (fl_step 0x00000000ffff0000 16 (fl_step 0xffffffff00000000 32 (x, 0)))))))))"

definition floorLog2_int :: "u32 \<Rightarrow> nat option" where
  "floorLog2_int x = (if 0 <s x then floorLog2_u32 x else None)"

definition floorLog2_long :: "u64 \<Rightarrow> nat option" where
  "floorLog2_long x = (if 0 <s x then floorLog2_ul x else None)"

definition floorLog2_llong :: "u64 \<Rightarrow> nat option" where
  "floorLog2_llong x = (if 0 <s x then floorLog2_ull x else None)"

definition ceilLog2 :: "u32 \<Rightarrow> nat option" where
  "ceilLog2 n = (if n = 1 then Some 0 else map_option Suc (floorLog2_u32 (n - 1)))"

definition floorPow2 :: "u32 \<Rightarrow> u32 option" where
  "floorPow2 n = map_option (\<lambda>k. push_bit k 1) (floorLog2_u32 n)"

definition ceilPow2 :: "u32 \<Rightarrow> u32 option" where
  "ceilPow2 n = map_option (\<lambda>k. push_bit k 1) (ceilLog2 n)"

definition divCeil :: "'a::len word \<Rightarrow> 'a word \<Rightarrow> 'a word option" where
  "divCeil a b = (if b = 0 then None else Some ((a + b - 1) div b))"

definition roundUp :: "'a::len word \<Rightarrow> 'a word \<Rightarrow> 'a word" where
  "roundUp val align = (let m = align - 1 in (val + m) AND NOT m)"

definition roundDown :: "'a::len word \<Rightarrow> 'a word \<Rightarrow> 'a word" where
  "roundDown val align = (let m = align - 1 in val AND NOT m)"

definition isHex :: "char \<Rightarrow> bool" where
  "isHex c \<longleftrightarrow> (let x = of_char c :: nat in
     (48 \<le> x \<and> x \<le> 57) \<or> (65 \<le> x \<and> x \<le> 70) \<or> (97 \<le> x \<and> x \<le> 102))"

definition isOct :: "char \<Rightarrow> bool" where
  "isOct c \<longleftrightarrow> (let x = of_char c :: nat in 48 \<le> x \<and> x \<le> 55)"

definition isDec :: "char \<Rightarrow> bool" where
  "isDec c \<longleftrightarrow> (let x = of_char c :: nat in 48 \<le> x \<and> x \<le> 57)"

definition hex2Int :: "char \<Rightarrow> nat" where
  "hex2Int c = (let x = of_char c :: nat in
     if 48 \<le> x \<and> x \<le> 57 then x - 48
     else if 65 \<le> x \<and> x \<le> 70 then (x - 65) + 10
     else if 97 \<le> x \<and> x \<le> 102 then (x - 97) + 10
     else 0)"

section \<open>Bit fields, bit by bit\<close>

lemma bf_mask_eq: "0 \<le> n \<Longrightarrow> n \<le> 64 \<Longrightarrow> bf_mask n = mask (nat n)"
  by (auto simp: bf_mask_def mask_eq_exp_minus_1 push_bit_eq_mult simp flip: mask_full)

lemma bit_bits [word_bits]:
  assumes "0 \<le> l" "l \<le> f" "f < 64"
  shows "bit (bits v f l) i \<longleftrightarrow> i \<le> nat (f - l) \<and> bit v (nat l + i)"
proof -
  have "bf_mask (f - l + 1) = mask (nat (f - l + 1))"
    using assms by (simp add: bf_mask_eq)
  then show ?thesis
    using assms by (auto simp: bits_def Let_def bit_simps)
qed

lemma bit_insertBits [word_bits]:
  assumes "0 \<le> l" "l \<le> f" "f < 64" "i < 64"
  shows "bit (insertBits v f l b) i \<longleftrightarrow>
    (if nat l \<le> i \<and> i \<le> nat f then bit b (i - nat l) else bit v i)"
proof -
  have "bf_mask (f - l + 1) = mask (nat (f - l + 1))"
    using assms by (simp add: bf_mask_eq)
  then show ?thesis
    using assms by (auto simp: insertBits_def Let_def bit_simps)
qed

lemma bit_mbits [word_bits]:
  assumes "0 \<le> l" "l \<le> f" "f < 64" 
  shows "bit (mbits v f l) i \<longleftrightarrow> nat l \<le> i \<and> i \<le> nat f \<and> bit v i"
  using assms by (auto simp: mbits_def bit_simps bf_mask_eq dest: bit_imp_le_length)

lemma bits_insertBits: 
  assumes "0 \<le> l" "l \<le> f" "f < 64" 
  shows "bits (insertBits v f l b) f l = bits b (f - l) 0"
  by (rule bit_word_eqI) (use assms in \<open>auto simp: word_bits nat_diff_distrib split: if_splits\<close>)

lemma insertBits_bits: 
  assumes "0 \<le> l" "l \<le> f" "f < 64" 
  shows "insertBits v f l (bits v f l) = v"
  by (rule bit_word_eqI) (use assms in \<open>auto simp: word_bits nat_diff_distrib\<close>)

section \<open>Logarithms\<close>

text \<open>
  What holds between two lines of \<^verbatim>\<open>floorLog2\<close>: the running value fits in \<open>j\<close> bits, is not
  zero, and is the input shifted right by the count so far.
\<close>

definition fl_inv :: "'a::len word \<Rightarrow> nat \<Rightarrow> 'a word \<times> nat \<Rightarrow> bool" where
  "fl_inv x0 j s \<longleftrightarrow>
     unat (fst s) < 2 ^ j \<and> 0 < unat (fst s) \<and> unat x0 div 2 ^ snd s = unat (fst s)"

lemma fl_inv_init: "x \<noteq> 0 \<Longrightarrow> j = LENGTH('a) \<Longrightarrow> fl_inv x j (x, 0)"
  for x :: "'a::len word"
  by (simp add: fl_inv_def unat_gt_0)

lemma fl_inv_step:
  assumes inv: "fl_inv x0 j s" and j: "j = 2 * k" and m: "m = push_bit k (mask k)"
  shows "fl_inv x0 k (fl_step m k s)"
proof (cases "fst s AND m = 0")
  case True
  with inv m j show ?thesis
    by (simp add: fl_step_def fl_inv_def and_high_mask_eq_0_iff)
next
  case False
  with inv m j have "2 ^ k \<le> unat (fst s)"
    by (simp add: fl_inv_def and_high_mask_eq_0_iff)
  moreover have "unat (fst s) div 2 ^ k < 2 ^ k"
    using inv j by (simp add: fl_inv_def less_mult_imp_div_less mult_2 flip: power_add)
  moreover have "unat x0 div 2 ^ (snd s + k) = unat (drop_bit k (fst s))"
    using inv by (simp add: fl_inv_def unat_drop_bit_div power_add div_mult2_eq)
  ultimately show ?thesis
    using False by (simp add: fl_step_def fl_inv_def unat_drop_bit_div div_greater_zero_iff)
qed

lemma fl_inv_bracket:
  assumes "fl_inv x0 1 s"
  shows "2 ^ snd s \<le> unat x0 \<and> unat x0 < 2 ^ Suc (snd s)"
proof -
  have "unat x0 div 2 ^ snd s = 1" using assms by (auto simp: fl_inv_def)
  then show ?thesis
    using div_mult_mod_eq [of "unat x0" "2 ^ snd s"]
      mod_less_divisor [of "2 ^ snd s" "unat x0"] by (simp del: mod_less_divisor)
qed

lemma floorLog2_u32_bracket:
  assumes "x \<noteq> 0"
  shows "\<exists>y. floorLog2_u32 x = Some y \<and> 2 ^ y \<le> unat x \<and> unat x < 2 ^ Suc y"
proof -
  let ?s = "fl_step 0x00000002 1 (fl_step 0x0000000c 2 (fl_step 0x000000f0 4
             (fl_step 0x0000ff00 8 (fl_step 0xffff0000 16 (x, 0)))))"
  have "fl_inv x 1 ?s"
    by (rule fl_inv_step [where j = 2] fl_inv_step [where j = 4] fl_inv_step [where j = 8]
        fl_inv_step [where j = 16] fl_inv_step [where j = 32] fl_inv_init
        | simp add: assms mask_eq_exp_minus_1)+
  with assms fl_inv_bracket [OF this] show ?thesis
    by (simp add: floorLog2_u32_def)
qed

lemma floorLog2_ul_bracket:
  assumes "x \<noteq> 0"
  shows "\<exists>y. floorLog2_ul x = Some y \<and> 2 ^ y \<le> unat x \<and> unat x < 2 ^ Suc y"
proof -
  let ?s = "fl_step 0x00000002 1 (fl_step 0x0000000c 2 (fl_step 0x000000f0 4
             (fl_step 0x0000ff00 8 (fl_step 0xffff0000 16
               (fl_step 0xffffffff00000000 32 (x, 0))))))"
  have "fl_inv x 1 ?s"
    by (rule fl_inv_step [where j = 2] fl_inv_step [where j = 4] fl_inv_step [where j = 8]
        fl_inv_step [where j = 16] fl_inv_step [where j = 32] fl_inv_step [where j = 64] fl_inv_init
        | simp add: assms mask_eq_exp_minus_1)+
  with assms fl_inv_bracket [OF this] show ?thesis
    by (simp add: floorLog2_ul_def)
qed

lemma floorLog2_ull_ul: "floorLog2_ull x = floorLog2_ul x"
  by (simp add: floorLog2_ull_def floorLog2_ul_def)

lemma floorLog2_u32_exp:
  assumes "k < 32"
  shows "floorLog2_u32 (2 ^ k) = Some k"
proof -
  from assms have u: "unat (2 ^ k :: u32) = 2 ^ k" and "(2 ^ k :: u32) \<noteq> 0"
    by (simp_all add: unat_exp exp_neq_0)
  from floorLog2_u32_bracket [OF this(2)] obtain y where
    y: "floorLog2_u32 (2 ^ k) = Some y" "2 ^ y \<le> (2::nat) ^ k" "(2::nat) ^ k < 2 ^ Suc y"
    unfolding u by blast
  have "y = k"
    by (rule log_bracket_unique [OF y(2,3)]) auto
  with y show ?thesis by simp
qed

section \<open>Powers of two\<close>

lemma isPow2_cases:
  fixes v :: "'a::len word"
  assumes "v AND (v - 1) = 0" "v \<noteq> 0"
  shows "\<exists>k < LENGTH('a). v = 2 ^ k"
proof -
  obtain k where k: "2 ^ k \<le> unat v" "unat v < 2 ^ Suc k"
    using assms(2) ex_log_bracket [of "unat v"] by (auto simp: unat_gt_0)
  have kl: "k < LENGTH('a)"
    using bit_top [OF k] by (rule bit_imp_le_length)
  have "unat v = 2 ^ k"
  proof (rule ccontr)
    assume "unat v \<noteq> 2 ^ k"
    with k assms(2) have "2 ^ k \<le> unat (v - 1)" "unat (v - 1) < 2 ^ Suc k"
      by (simp_all add: unat_minus_one)
    then have "bit (v - 1) k" by (rule bit_top)
    with bit_top [OF k] have "bit (v AND (v - 1)) k"
      by (simp add: bit_and_iff)
    with assms(1) show False by simp
  qed
  with kl have "v = 2 ^ k"
    by (simp add: word_eq_iff_unsigned [where ?'a = nat] unat_exp)
  with kl show ?thesis by blast
qed

lemma isPow2_iff:
  "isPow2 v \<longleftrightarrow> v = 0 \<or> (\<exists>k < LENGTH('a). v = 2 ^ k)" for v :: "'a::len word"
proof -
  have "2 ^ k AND (2 ^ k - 1) = (0 :: 'a word)" for k
    unfolding mask_eq_exp_minus_1 [symmetric]
    by (rule bit_word_eqI) (auto simp: bit_simps)
  then show ?thesis
    unfolding isPow2_def using isPow2_cases [of v] by auto
qed

lemma isPowerOf2_iff:
  "isPowerOf2 n \<longleftrightarrow> (\<exists>k < LENGTH('a). n = 2 ^ k)" for n :: "'a::len word"
proof -
  have "leastSigBit n = n \<longleftrightarrow> n AND (n - 1) = 0"
    unfolding leastSigBit_def by (auto simp: bit_eq_iff bit_simps)
  then show ?thesis
    using isPow2_iff [of n] by (auto simp: isPowerOf2_def isPow2_def exp_neq_0)
qed

lemma roundDown_unat:
  "unat (roundDown val (2 ^ k)) = unat val div 2 ^ k * 2 ^ k"
  for val :: "'a::len word"
  unfolding roundDown_def Let_def mask_eq_exp_minus_1 [symmetric] by (rule unat_and_not_mask)

lemma roundUp_unat:
  fixes val :: "'a::len word"
  assumes "k < LENGTH('a)" "unat val + 2 ^ k - 1 < 2 ^ LENGTH('a)"
  shows "unat (roundUp val (2 ^ k)) = (unat val + 2 ^ k - 1) div 2 ^ k * 2 ^ k"
proof -
  have "unat (mask k :: 'a word) = 2 ^ k - 1"
    using assms(1) by (simp add: mask_eq_exp_minus_1 unat_minus_one exp_neq_0 unat_exp)
  then have "unat (val + mask k) = unat val + 2 ^ k - 1"
    using assms(2) by (subst unat_add_lem [THEN iffD1]) auto
  then show ?thesis
    unfolding roundUp_def Let_def mask_eq_exp_minus_1 [symmetric] by (simp add: unat_and_not_mask)
qed

lemma ceilLog2_bracket:
  assumes "n \<noteq> 0"
  shows "\<exists>y. ceilLog2 n = Some y \<and> unat n \<le> 2 ^ y \<and> (y = 0 \<or> 2 ^ (y - 1) < unat n)"
proof (cases "n = 1")
  case True
  then show ?thesis by (simp add: ceilLog2_def)
next
  case False
  then have "n - 1 \<noteq> 0" by simp
  from floorLog2_u32_bracket [OF this] assms False show ?thesis
    by (auto simp: ceilLog2_def unat_minus_one)
qed

section \<open>First and last set bit\<close>

lemma bits_field:
  assumes "0 < j" "k + j \<le> 64"
  shows "bits v (int (k + j) - 1) (int k) = take_bit j (drop_bit k v)"
  by (rule bit_word_eqI) (use assms in \<open>auto simp: word_bits bit_simps\<close>)

lemma push_take_eq_0:
  fixes y :: u64
  assumes "k \<le> 32"
  shows "push_bit k (take_bit k y) = 0 \<longleftrightarrow> take_bit k y = 0"
proof
  assume z: "push_bit k (take_bit k y) = 0"
  show "take_bit k y = 0"
  proof (rule bit_word_eqI)
    fix i
    have "\<not> bit (push_bit k (take_bit k y)) (k + i)"
      using z by simp
    then show "bit (take_bit k y) i \<longleftrightarrow> bit (0::u64) i"
      using assms by (auto simp: bit_simps)
  qed
qed simp

lemma take_bit_add_eq_0:
  fixes v :: "'a::len word"
  assumes "take_bit m v = 0" "take_bit k (drop_bit m v) = 0"
  shows "take_bit (m + k) v = 0"
proof (rule bit_word_eqI)
  fix i
  show "bit (take_bit (m + k) v) i \<longleftrightarrow> bit (0::'a word) i"
  proof (cases "i < m")
    case True
    have "\<not> bit (take_bit m v) i" using assms(1) by simp
    with True show ?thesis by (simp add: bit_take_bit_iff)
  next
    case False
    then obtain d where d: "i = m + d"
      by (metis le_Suc_ex not_less)
    have "\<not> bit (take_bit k (drop_bit m v)) d" using assms(2) by simp
    with d show ?thesis by (auto simp: bit_simps)
  qed
qed

lemma msb_step_fl_step:
  assumes "0 < k" "k \<le> 32"
  shows "msb_step (2 * int k - 1) (int k) k s = fl_step (push_bit k (mask k)) k s"
proof -
  have "bits (fst s) (2 * int k - 1) (int k) = take_bit k (drop_bit k (fst s))"
    using bits_field [of k k "fst s"] assms by simp
  moreover have "fst s AND push_bit k (mask k) = 0 \<longleftrightarrow> take_bit k (drop_bit k (fst s)) = 0"
    using assms by (simp add: and_high_mask_eq push_take_eq_0)
  ultimately show ?thesis
    by (simp add: msb_step_def fl_step_def)
qed

lemma findMsbSet_floorLog2: "findMsbSet v = (case floorLog2_ull v of None \<Rightarrow> 0 | Some y \<Rightarrow> y)"
  using msb_step_fl_step [of 1] msb_step_fl_step [of 2] msb_step_fl_step [of 4]
    msb_step_fl_step [of 8] msb_step_fl_step [of 16] msb_step_fl_step [of 32]
  by (simp add: findMsbSet_def floorLog2_ull_def mask_eq_exp_minus_1)

definition lsb_inv :: "u64 \<Rightarrow> nat \<Rightarrow> u64 \<times> nat \<Rightarrow> bool" where
  "lsb_inv v j s \<longleftrightarrow> fst s = drop_bit (snd s) v \<and> take_bit (snd s) v = 0 \<and> take_bit j (fst s) \<noteq> 0"

lemma lsb_inv_step:
  assumes inv: "lsb_inv v j s" and j: "j = 2 * k" and k: "0 < k" "k \<le> 32"
    and f: "first = int k - 1"
  shows "lsb_inv v k (lsb_step first 0 k s)"
proof -
  have b: "bits (fst s) first 0 = take_bit k (fst s)"
    using bits_field [of k 0 "fst s"] k f by simp
  show ?thesis
  proof (cases "take_bit k (fst s) = 0")
    case False
    with inv b show ?thesis by (simp add: lsb_step_def lsb_inv_def)
  next
    case True
    have "take_bit (snd s + k) v = 0"
      using inv True by (intro take_bit_add_eq_0) (simp_all add: lsb_inv_def)
    moreover have "take_bit k (drop_bit k (fst s)) \<noteq> 0"
      using inv True take_bit_add_eq_0 [of k "fst s" k] by (auto simp: lsb_inv_def j mult_2)
    moreover have "drop_bit k (fst s) = drop_bit (snd s + k) v"
      using inv by (simp add: lsb_inv_def ac_simps)
    ultimately show ?thesis
      using True b by (simp add: lsb_step_def lsb_inv_def)
  qed
qed

lemma lsb_inv_1:
  assumes "lsb_inv v 1 s"
  shows "bit v (snd s) \<and> (\<forall>i < snd s. \<not> bit v i)"
proof
  have "odd (drop_bit (snd s) v)"
    using assms by (auto simp: lsb_inv_def take_bit_Suc even_iff_mod_2_eq_zero)
  then show "bit v (snd s)" by (simp add: bit_drop_bit_eq flip: bit_0)
  show "\<forall>i < snd s. \<not> bit v i"
    using assms by (metis bit_0_eq bit_take_bit_iff bot_apply bot_bool_def lsb_inv_def)
qed

lemma findLsbSet_least:
  assumes "v \<noteq> 0"
  shows "bit v (findLsbSet v) \<and> (\<forall>i < findLsbSet v. \<not> bit v i)"
proof -
  let ?s = "lsb_step 0 0 1 (lsb_step 1 0 2 (lsb_step 3 0 4 (lsb_step 7 0 8
            (lsb_step 15 0 16 (lsb_step 31 0 32 (v, 0))))))"
  have init: "lsb_inv v 64 (v, 0)"
    using assms by (simp add: lsb_inv_def take_bit_word_beyond_length_eq)
  have "lsb_inv v 1 ?s"
    by (rule lsb_inv_step [where j = 2] lsb_inv_step [where j = 4] lsb_inv_step [where j = 8]
        lsb_inv_step [where j = 16] lsb_inv_step [where j = 32] lsb_inv_step [where j = 64] init
        | simp)+
  then have "bit v (snd ?s) \<and> (\<forall>i < snd ?s. \<not> bit v i)"
    by (rule lsb_inv_1)
  with assms show ?thesis
    by (simp add: findLsbSet_def)
qed

section \<open>Rounding up to a power of two\<close>

definition smears :: "u64 \<Rightarrow> nat \<Rightarrow> u64 \<Rightarrow> bool" where
  "smears v m w \<longleftrightarrow> (\<forall>i. bit w i \<longleftrightarrow> (\<exists>j < m. bit v (i + j)))"

lemma smears_step: 
  assumes "smears v m w" "n = 2 * m"
  shows "smears v n (w OR drop_bit m w)"
  unfolding smears_def
proof
  fix i
  have "bit (w OR drop_bit m w) i \<longleftrightarrow> (\<exists>j < m. bit v (i + j)) \<or> (\<exists>j < m. bit v (m + i + j))"
    using assms by (simp add: smears_def bit_simps)
  also have "\<dots> \<longleftrightarrow> (\<exists>j < n. bit v (i + j))"
  proof
    assume "(\<exists>j < m. bit v (i + j)) \<or> (\<exists>j < m. bit v (m + i + j))"
    then show "\<exists>j < n. bit v (i + j)"
    proof
      assume "\<exists>j < m. bit v (m + i + j)"
      then obtain j where "j < m" "bit v (i + (m + j))"
        by (auto simp: ac_simps)
      then show ?thesis
        using assms(2) by (intro exI [of _ "m + j"]) auto
    next
      assume "\<exists>j < m. bit v (i + j)"
      then obtain j where "j < m" "bit v (i + j)" by blast
      then show ?thesis
        using assms(2) by (intro exI [of _ j]) auto
    qed
  next
    assume "\<exists>j < n. bit v (i + j)"
    then obtain j where j: "j < n" "bit v (i + j)" by blast
    show "(\<exists>j < m. bit v (i + j)) \<or> (\<exists>j < m. bit v (m + i + j))"
    proof (cases "j < m")
      case False
      with j assms(2) have "j - m < m" "bit v (m + i + (j - m))"
        by (auto simp: ac_simps)
      then show ?thesis by blast
    qed (use j in blast)
  qed
  finally show "bit (w OR drop_bit m w) i \<longleftrightarrow> (\<exists>j < n. bit v (i + j))" .
qed

lemma smears_64_mask:
  assumes "smears v 64 w" "2 ^ k \<le> unat v" "unat v < 2 ^ Suc k"
  shows "w = mask (Suc k)"
proof (rule bit_word_eqI)
  fix i assume i: "i < LENGTH(64)"
  have k: "k < 64"
    using bit_top [OF assms(2,3)] bit_imp_le_length by force
  have "bit w i \<longleftrightarrow> i \<le> k"
  proof
    assume "bit w i"
    then obtain j where "bit v (i + j)"
      using assms(1) by (auto simp: smears_def)
    moreover have "take_bit (Suc k) v = v"
      using assms(3) by (rule take_bit_word_eq_self)
    ultimately have "i + j < Suc k"
      by (metis bit_take_bit_iff)
    then show "i \<le> k" by simp
  next
    assume "i \<le> k"
    then show "bit w i"
      using assms(1) bit_top [OF assms(2,3)] k
      by (auto simp: smears_def intro!: exI [of _ "k - i"])
  qed
  then show "bit w i \<longleftrightarrow> bit (mask (Suc k) :: u64) i"
    using k i by (auto simp: bit_mask_iff)
qed

lemma alignToPowerOfTwo_smears: "\<exists>w. smears (v - 1) 64 w \<and> alignToPowerOfTwo v = w + 1"
proof -
  let ?v = "v - 1"
  have "smears ?v 1 ?v" by (simp add: smears_def)
  note 1 = smears_step [OF this, of 2]
  note 2 = smears_step [OF 1, of 4]
  note 3 = smears_step [OF 2, of 8]
  note 4 = smears_step [OF 3, of 16]
  note 5 = smears_step [OF 4, of 32]
  note 6 = smears_step [OF 5, of 64]
  show ?thesis
    using 6 by (auto simp: alignToPowerOfTwo_def Let_def)
qed

section \<open>Primes\<close>

text \<open>The specification: a number above 1 with no divisor but 1 and itself.\<close>

definition is_prime :: "int \<Rightarrow> bool" where
  "is_prime n \<longleftrightarrow> 1 < n \<and> (\<forall>d. 1 < d \<and> d dvd n \<longrightarrow> d = n)"

lemma no_small_divisor_prime:
  assumes "1 < n" "n < i * i" "\<And>d. 1 < d \<Longrightarrow> d < i \<Longrightarrow> \<not> d dvd n" "0 \<le> i"
  shows "is_prime n"
  unfolding is_prime_def
proof (intro conjI allI impI)
  fix d assume d: "1 < d \<and> d dvd n"
  then obtain e where e: "n = d * e" by (auto elim: dvdE)
  show "d = n"
  proof (rule ccontr)
    assume "d \<noteq> n"
    with d e assms(1) have e1: "1 < e"
      by (smt (verit) mult_le_0_iff mult_cancel_left1)
    have "i \<le> d" using assms(3) [of d] d by force
    moreover have "i \<le> e" using assms(3) [of e] e1 e by force
    ultimately have "i * i \<le> d * e"
      using assms(4) by (intro mult_mono) auto
    with e assms(2) show False by simp
  qed
qed (use assms in simp)

lemma not_prime_divisor: "d dvd n \<Longrightarrow> 1 < d \<Longrightarrow> d \<noteq> n \<Longrightarrow> \<not> is_prime n"
  by (auto simp: is_prime_def)

lemma mod6_cases:
  fixes n :: int
  assumes "\<not> 2 dvd n" "\<not> 3 dvd n" "i mod 6 = 5" "i < d" "d < i + 6" "d dvd n"
  shows "d = i + 2"
proof -
  from assms(1,2,6) have "\<not> 2 dvd d" "\<not> 3 dvd d"
    by (auto dest: dvd_trans)
  with assms(3-5) show ?thesis by presburger
qed

lemma isPrime_loop_correct:
  assumes "\<not> 2 dvd n" "\<not> 3 dvd n" "3 < n" "n < 46337 * 46337"
    and "i mod 6 = 5" "5 \<le> i" "i = 5 \<or> (i - 6) * (i - 6) \<le> n"
    and "\<And>d. 1 < d \<Longrightarrow> d < i \<Longrightarrow> \<not> d dvd n"
  shows "isPrime_loop i n = Some (is_prime n)"
  using assms
proof (induction i n rule: isPrime_loop.induct)
  case (1 i n)
  have "i \<le> 46337"
  proof (rule ccontr)
    assume "\<not> i \<le> 46337"
    with "1.prems"(5) have "46337 \<le> i - 6" by presburger
    then have "46337 * 46337 \<le> (i - 6) * (i - 6)"
      by (intro mult_mono) auto
    with "1.prems" \<open>46337 \<le> i - 6\<close> show False by auto
  qed
  then have "i * i \<le> 46337 * 46337"
    using "1.prems"(6) by (intro mult_mono) auto
  then have no_ovf: "\<not> i * i > INT_MAX"
    by (simp add: INT_MAX_def)
  show ?case
  proof (cases "i * i \<le> n")
    case False
    then have "is_prime n"
      using "1.prems" by (intro no_small_divisor_prime [of n i]) auto
    with False no_ovf show ?thesis
      by (simp add: isPrime_loop.simps [of i n])
  next
    case True
    have small: "i + 2 < n"
    proof -
      have "5 * i \<le> i * i" using "1.prems"(6) by (intro mult_right_mono) auto
      with True "1.prems"(6) show ?thesis by linarith
    qed
    show ?thesis
    proof (cases "n mod i = 0 \<or> n mod (i + 2) = 0")
      case div: True
      then have "i dvd n \<or> i + 2 dvd n" by (simp add: dvd_eq_mod_eq_0)
      then have "\<not> is_prime n"
        using small "1.prems"(6) not_prime_divisor [of i n] not_prime_divisor [of "i + 2" n]
        by linarith
      with True no_ovf div show ?thesis
        by (simp add: isPrime_loop.simps [of i n])
    next
      case nodiv: False
      have "\<not> d dvd n" if "1 < d" "d < i + 6" for d
      proof
        assume "d dvd n"
        then have "d = i \<or> d = i + 2"
          using "1.prems"(8) [of d] mod6_cases [OF "1.prems"(1,2,5), of d] that by linarith
        with \<open>d dvd n\<close> nodiv show False by (auto simp: dvd_eq_mod_eq_0)
      qed
      then have "isPrime_loop (i + 6) n = Some (is_prime n)"
        by (rule "1.IH" [OF no_ovf True nodiv "1.prems"(1-4), rotated 3])
          (use "1.prems"(5,6) True in simp_all)
      with True no_ovf nodiv show ?thesis
        by (simp add: isPrime_loop.simps [of i n])
    qed
  qed
qed

lemma isPrime_correct:
  assumes "\<not> 2 dvd n" "\<not> 3 dvd n" "1 < n" "n < 46337 * 46337"
  shows "isPrime n = Some (is_prime n)"
proof -
  have "n \<noteq> 2" "n \<noteq> 3" "n \<noteq> 4" using assms(1,2) by auto
  moreover have "\<not> d dvd n" if "1 < d" "d < 5" for d
  proof -
    have "d = 2 \<or> d = 3 \<or> d = 4" using that by auto
    moreover have "\<not> 4 dvd n" using assms(1) by (auto dest: dvd_trans [of 2 4])
    ultimately show ?thesis using assms(1,2) by auto
  qed
  ultimately show ?thesis
    using assms by (auto simp: isPrime_def intro!: isPrime_loop_correct)
qed

lemma is_prime_5: "is_prime 5"
  using isPrime_correct [of 5] by (simp add: isPrime_def isPrime_loop.simps [of 5 5] INT_MAX_def)

lemma is_prime_7: "is_prime 7"
  using isPrime_correct [of 7] by (simp add: isPrime_def isPrime_loop.simps [of 5 7] INT_MAX_def)

text \<open>The toggling step visits every number that 2 and 3 do not divide, when it starts right.\<close>

lemma prevPrime_loop_correct:
  assumes "(n mod 6 = 1 \<and> decr = 2) \<or> (n mod 6 = 5 \<and> decr = 4)" "5 \<le> n" "n < 46337 * 46337"
  shows "\<exists>p. prevPrime_loop n decr = Some p \<and> is_prime p \<and> p \<le> n \<and> (\<forall>q. p < q \<and> q \<le> n \<longrightarrow> \<not> is_prime q)"
  using assms
proof (induction n decr rule: prevPrime_loop.induct)
  case (1 n decr)
  have nd: "\<not> 2 dvd n" "\<not> 3 dvd n" using "1.prems"(1) by presburger+
  then have ip: "isPrime n = Some (is_prime n)"
    using "1.prems" by (intro isPrime_correct) auto
  show ?case
  proof (cases "is_prime n")
    case True
    then show ?thesis using ip by (auto simp: prevPrime_loop.simps [of n decr])
  next
    case False
    then have "n \<noteq> 5" "n \<noteq> 7" using is_prime_5 is_prime_7 by auto
    with "1.prems"(1,2) have n: "11 \<le> n" "decr = 2 \<or> decr = 4" by presburger+
    have "((n - decr) mod 6 = 1 \<and> 6 - decr = 2) \<or> ((n - decr) mod 6 = 5 \<and> 6 - decr = 4)"
      using "1.prems"(1) by presburger
    then obtain p where p: "prevPrime_loop (n - decr) (6 - decr) = Some p" "is_prime p"
      "p \<le> n - decr" "\<forall>q. p < q \<and> q \<le> n - decr \<longrightarrow> \<not> is_prime q"
      using "1.IH" [OF ip] False n "1.prems"(3) by auto
    have "\<not> is_prime q" if "n - decr < q" "q \<le> n" for q
    proof (cases "q = n")
      case neq: False
      with that "1.prems"(1) have "2 dvd q \<or> 3 dvd q" by presburger
      moreover have "3 < q" using that n by auto
      ultimately show ?thesis using not_prime_divisor [of 2 q] not_prime_divisor [of 3 q] by auto
    qed (use False in simp)
    with p False ip n show ?thesis
      by (auto simp: prevPrime_loop.simps [of n decr])
        (metis linorder_not_less)+
  qed
qed

lemma prevPrime_25: "prevPrime 25 = Some 21"
  by (simp add: prevPrime_def INT_MIN_def c_rem_def prevPrime_loop.simps isPrime_def isPrime_loop.simps INT_MAX_def)

lemma power_loop_correct: "fst (power_loop k n r b) = r * n ^ k"
  by (induction k arbitrary: r b) (simp_all add: Let_def ac_simps)

lemma power_u32_correct: "unat (power_u32 n e) = unat n ^ unat e mod 2 ^ 64"
proof -
  have "power_u32 n e = (ucast n) ^ unat e"
    by (cases "unat e") (auto simp: power_u32_def power_loop_correct unat_eq_0)
  also have "\<dots> = of_nat (unat n ^ unat e)"
    by simp
  finally show ?thesis
    by (simp only: unat_of_nat) simp
qed

section \<open>Properties\<close>

text \<open>
  C21: the three unsigned overloads of \<^verbatim>\<open>floorLog2\<close> return, for every non-zero argument, the
  exponent of the largest power of two that does not exceed it, and \<^verbatim>\<open>findMsbSet\<close> finds the
  same number by testing bit fields.
\<close>

theorem floorLog2_is_floor:
  assumes "x \<noteq> 0" and "w \<noteq> 0"
  shows "(\<exists>y. floorLog2_u32 x = Some y \<and> 2 ^ y \<le> unat x \<and> unat x < 2 ^ Suc y) \<and>
    (\<exists>y. floorLog2_ul w = Some y \<and> floorLog2_ull w = Some y \<and> findMsbSet w = y \<and>
      2 ^ y \<le> unat w \<and> unat w < 2 ^ Suc y)"
  using floorLog2_u32_bracket [OF assms(1)] floorLog2_ul_bracket [OF assms(2)]
  by (auto simp: findMsbSet_floorLog2 floorLog2_ull_ul)

theorem floorLog2_is_floor_witness:
  "(100 :: u32) \<noteq> 0 \<and> (0x100000000 :: u64) \<noteq> 0 \<and>
   (\<exists>y. floorLog2_u32 100 = Some y \<and> 2 ^ y \<le> unat (100 :: u32) \<and> unat (100 :: u32) < 2 ^ Suc y)"
  using floorLog2_is_floor [of 100 "0x100000000"] by simp

text \<open>
  \<^verbatim>\<open>roundUp\<close> by a power of two returns the least multiple of the alignment that is not
  below the value, whenever the sum does not wrap, and \<^verbatim>\<open>roundDown\<close> the greatest one not above it.
\<close>

theorem roundUp_roundDown_aligned:
  fixes val :: "'a::len word"
  assumes "isPowerOf2 align" and "unat val + unat align \<le> 2 ^ LENGTH('a)"
  shows "unat align dvd unat (roundUp val align) \<and> unat val \<le> unat (roundUp val align) \<and>
    unat (roundUp val align) < unat val + unat align \<and>
    unat align dvd unat (roundDown val align) \<and> unat (roundDown val align) \<le> unat val \<and>
    unat val < unat (roundDown val align) + unat align"
proof -
  obtain k where k: "k < LENGTH('a)" "align = 2 ^ k"
    using assms(1) by (auto simp: isPowerOf2_iff)
  then have u: "unat align = 2 ^ k" by (simp add: unat_exp)
  have up: "unat (roundUp val align) = (unat val + 2 ^ k - 1) div 2 ^ k * 2 ^ k"
    unfolding k(2)
  proof (rule roundUp_unat [OF k(1)])
    have "0 < (2::nat) ^ k" by simp
    with assms(2) u show "unat val + 2 ^ k - 1 < 2 ^ LENGTH('a)" by linarith
  qed
  have "unat val div 2 ^ k * 2 ^ k + unat val mod 2 ^ k = unat val"
    by (rule div_mult_mod_eq)
  moreover have "(unat val + 2 ^ k - 1) div 2 ^ k * 2 ^ k + (unat val + 2 ^ k - 1) mod 2 ^ k
      = unat val + 2 ^ k - 1"
    by (rule div_mult_mod_eq)
  moreover have "unat val mod 2 ^ k < 2 ^ k" "(unat val + 2 ^ k - 1) mod 2 ^ k < 2 ^ k"
    by simp_all
  ultimately show ?thesis
    unfolding up u unfolding k(2) roundDown_unat by (auto simp del: mod_less_divisor)
qed

theorem roundUp_roundDown_aligned_witness:
  "isPowerOf2 (64 :: u64) \<and> unat (100 :: u64) + unat (64 :: u64) \<le> 2 ^ 64 \<and>
   unat (64 :: u64) dvd unat (roundUp 100 (64 :: u64)) \<and> roundUp 100 (64 :: u64) = 128"
proof -
  have h: "isPowerOf2 (64 :: u64)" by (simp add: isPowerOf2_def leastSigBit_def)
  show ?thesis
    using h roundUp_roundDown_aligned [OF h, of 100] by (simp add: roundUp_def)
qed

text \<open>
  for an input that the search rounds to a multiple of three, \<^verbatim>\<open>prevPrime\<close> returns, below
  the range where \<open>i * i\<close> overflows, the largest prime that does not exceed its argument.
\<close>

theorem prevPrime_largest:
  assumes "n mod 6 = 3 \<or> n mod 6 = 4" "9 \<le> n" "n < 46337 * 46337"
  shows "\<exists>p. prevPrime n = Some p \<and> is_prime p \<and> p \<le> n \<and> (\<forall>q. p < q \<and> q \<le> n \<longrightarrow> \<not> is_prime q)"
proof -
  define m where "m = (if even n then n - 1 else n)"
  have m1: "m mod 6 = 3 \<and> 9 \<le> m \<and> m \<le> n \<and> n \<le> m + 1"
    unfolding m_def using assms(1,2) by (cases "even n") (simp_all, presburger+)
  then have m2: "(m - 2) mod 6 = 1" "m mod 3 = 0" by presburger+
  then have m3: "c_rem m 3 = 0" "n \<noteq> INT_MIN"
    using assms(2) m1 by (simp_all add: c_rem_def INT_MIN_def)
  obtain p where p: "prevPrime_loop (m - 2) 2 = Some p" "is_prime p" "p \<le> m - 2"
    "\<forall>q. p < q \<and> q \<le> m - 2 \<longrightarrow> \<not> is_prime q"
    using prevPrime_loop_correct [of "m - 2" 2] assms(3) m1 m2 by auto
  have "\<not> is_prime q" if "m - 2 < q" "q \<le> n" for q
  proof -
    have "2 dvd q \<or> 3 dvd q" "3 < q" using that m1 by presburger+
    then show ?thesis using not_prime_divisor [of 2 q] not_prime_divisor [of 3 q] by auto
  qed
  then have "\<forall>q. p < q \<and> q \<le> n \<longrightarrow> \<not> is_prime q"
    using p(4) by (meson linorder_not_less)
  moreover have "prevPrime n = Some p"
    using m3 p(1) by (simp add: prevPrime_def m_def [symmetric] Let_def)
  ultimately show ?thesis
    using p(2,3) m1 by auto
qed

theorem prevPrime_largest_witness:
  "(27 :: int) mod 6 = 3 \<and>
   (\<exists>p. prevPrime 27 = Some p \<and> is_prime p \<and> p \<le> 27 \<and> (\<forall>q. p < q \<and> q \<le> 27 \<longrightarrow> \<not> is_prime q))"
  using prevPrime_largest [of 27] by simp

text \<open>
  for other inputs the first step has the wrong length: the search reaches multiples of
  three, which \<^verbatim>\<open>isPrime\<close> takes for primes because it never divides by 2 or 3, so
  \<^verbatim>\<open>prevPrime(25)\<close> is 21 and \<^verbatim>\<open>prevPrime(35)\<close> is 33.
\<close>

theorem prevPrime_composite:
  "prevPrime 25 = Some 21 \<and> \<not> is_prime 21 \<and> prevPrime 35 = Some 33 \<and> \<not> is_prime 33 \<and>
   isPrime 9 = Some True \<and> \<not> is_prime 9"
  using not_prime_divisor [of 3 21] not_prime_divisor [of 3 33] not_prime_divisor [of 3 9]
  by (simp add: prevPrime_def INT_MIN_def c_rem_def prevPrime_loop.simps isPrime_def
      isPrime_loop.simps INT_MAX_def)

text \<open>
  writing a bit field and reading it back returns the bits written, and every bit outside
  the field keeps its value.
\<close>

theorem insertBits_roundtrip:
  assumes "0 \<le> l" "l \<le> f" "f < 64"
  shows "bits (insertBits v f l b) f l = bits b (f - l) 0 \<and> insertBits v f l (bits v f l) = v \<and>
    (\<forall>i. (i < nat l \<or> (nat f < i \<and> i < 64)) \<longrightarrow> bit (insertBits v f l b) i = bit v i)"
  using assms by (auto simp: bits_insertBits insertBits_bits bit_insertBits)

theorem insertBits_roundtrip_witness:
  "(0::int) \<le> 4 \<and> (4::int) \<le> 7 \<and> (7::int) < 64 \<and>
   bits (insertBits 0xff 7 4 0x3) 7 4 = bits 0x3 (7 - 4) 0"
  using insertBits_roundtrip [of 4 7 "0xff" "0x3"] by simp

text \<open>
  \<^verbatim>\<open>alignToPowerOfTwo\<close> returns the least power of two that is not below its argument.
\<close>

theorem alignToPowerOfTwo_is_ceiling:
  assumes "1 \<le> unat v" "unat v \<le> 2 ^ 63"
  shows "\<exists>k. alignToPowerOfTwo v = 2 ^ k \<and> k < 64 \<and> unat v \<le> 2 ^ k \<and> (k = 0 \<or> 2 ^ (k - 1) < unat v)"
proof (cases "v = 1")
  case True
  then show ?thesis
    by (intro exI [of _ 0]) (simp add: alignToPowerOfTwo_def)
next
  case False
  have "v \<noteq> 0" using assms(1) by auto
  then have u1: "unat (v - 1) = unat v - 1" by (rule unat_minus_one)
  have u2: "0 < unat (v - 1)" using False by (simp only: unat_gt_0) simp
  note u = u1 u2
  obtain k where k: "2 ^ k \<le> unat (v - 1)" "unat (v - 1) < 2 ^ Suc k"
    using ex_log_bracket [OF u(2)] by blast
  obtain w where w: "smears (v - 1) 64 w" "alignToPowerOfTwo v = w + 1"
    using alignToPowerOfTwo_smears by blast
  have "w = 2 ^ Suc k - 1"
    using smears_64_mask [OF w(1) k] by (simp only: mask_eq_exp_minus_1)
  then have "alignToPowerOfTwo v = 2 ^ Suc k" using w(2) by simp
  moreover have "(2::nat) ^ k < 2 ^ 63"
    using k(1) u assms by simp
  then have "k < 63" by (rule power_less_imp_less_exp [rotated]) simp
  ultimately show ?thesis
    using k u assms(1) by (intro exI [of _ "Suc k"]) auto
qed

theorem alignToPowerOfTwo_is_ceiling_witness:
  "1 \<le> unat (100 :: u64) \<and> unat (100 :: u64) \<le> 2 ^ 63 \<and> (\<exists>k. alignToPowerOfTwo 100 = 2 ^ k \<and> k < 64)"
  using alignToPowerOfTwo_is_ceiling [of 100] by auto

end
