(* ===== verification/DirPred.thy ===== *)
theory DirPred
  imports IntMath
begin

text \<open>
  The direction predictors of gem5 (\<open>gem5/src/cpu/pred\<close>): the saturating counter
  (\<open>sat_counter.hh\<close>), the local predictor (\<open>2bit_local\<close>), the tournament predictor and the bi-mode
  predictor.  A vector is a list, an \<open>unsigned\<close> a 32-bit word, and the \<open>void *\<close> history a record of
  the predictor's own type.  A failed assertion or \<open>fatal\<close> is \<^term>\<open>None\<close>.  The locale
  \<open>dir_predictor\<close> is the contract that the branch prediction unit relies on: undoing the last
  branch restores the speculative histories, and repairing a wrong prediction leaves the histories
  of a right one.
\<close>

section \<open>Definitions\<close>

record sat_counter =
  initialVal :: u8
  maxVal :: u8
  sc_counter :: u8

text \<open>The default constructor leaves \<open>maxVal\<close> undetermined; \<open>mv\<close> is the value it happens to have.\<close>

definition sat_default :: "u8 \<Rightarrow> sat_counter"
  where "sat_default mv = \<lparr>initialVal = 0, maxVal = mv, sc_counter = 0\<rparr>"

definition sat_bits_max :: "u32 \<Rightarrow> u8"
  where "sat_bits_max b = ucast (push_bit (unat b) (1 :: u32) - 1)"

definition setBits :: "u32 \<Rightarrow> sat_counter \<Rightarrow> sat_counter"
  where "setBits b c = c\<lparr>maxVal := sat_bits_max b\<rparr>"

definition sat_new :: "u32 \<Rightarrow> u8 \<Rightarrow> sat_counter option"
  where "sat_new b initial_val =
    (if initial_val > sat_bits_max b then None
     else Some \<lparr>initialVal = initial_val, maxVal = sat_bits_max b, sc_counter = initial_val\<rparr>)"

definition sat_reset :: "sat_counter \<Rightarrow> sat_counter"
  where "sat_reset c = c\<lparr>sc_counter := initialVal c\<rparr>"

definition sat_increment :: "sat_counter \<Rightarrow> sat_counter"
  where "sat_increment c = (if sc_counter c < maxVal c then c\<lparr>sc_counter := sc_counter c + 1\<rparr> else c)"

definition sat_decrement :: "sat_counter \<Rightarrow> sat_counter"
  where "sat_decrement c = (if sc_counter c > 0 then c\<lparr>sc_counter := sc_counter c - 1\<rparr> else c)"

definition sat_train :: "bool \<Rightarrow> nat \<Rightarrow> sat_counter list \<Rightarrow> sat_counter list"
  where "sat_train taken i cs = cs[i := (if taken then sat_increment (cs ! i) else sat_decrement (cs ! i))]"

text \<open>The virtual methods of \<open>BPredUnit\<close> that a predictor implements.\<close>

record ('p, 'h) bp_ops =
  bp_lookup :: "nat \<Rightarrow> addr \<Rightarrow> 'p \<Rightarrow> (bool \<times> 'h \<times> 'p) option"
  bp_uncondBranch :: "nat \<Rightarrow> addr \<Rightarrow> 'p \<Rightarrow> 'h \<times> 'p"
  bp_btbUpdate :: "nat \<Rightarrow> addr \<Rightarrow> 'p \<Rightarrow> 'p"
  bp_update :: "nat \<Rightarrow> addr \<Rightarrow> bool \<Rightarrow> 'h \<Rightarrow> bool \<Rightarrow> 'p \<Rightarrow> 'p option"
  bp_squash :: "nat \<Rightarrow> 'h \<Rightarrow> 'p \<Rightarrow> 'p"
  bp_getGHR :: "nat \<Rightarrow> 'h \<Rightarrow> u32"

subsection \<open>The local predictor\<close>

record local_bp =
  lp_localCtrs :: "sat_counter list"
  lp_localPredictorSize :: u32
  lp_localPredictorSets :: u32
  lp_localCtrBits :: u32
  lp_indexMask :: u32
  lp_instShiftAmt :: u32

definition local_new :: "u32 \<Rightarrow> u32 \<Rightarrow> u32 \<Rightarrow> local_bp option"
  where "local_new sz ctrBits shift =
    (if \<not> isPowerOf2 sz then None else
     let sets = sz div ctrBits in
     if \<not> isPowerOf2 sets then None else
     Some \<lparr>lp_localCtrs = replicate (unat sets) (setBits ctrBits (sat_default 0)), lp_localPredictorSize = sz,
       lp_localPredictorSets = sets, lp_localCtrBits = ctrBits, lp_indexMask = sets - 1, lp_instShiftAmt = shift\<rparr>)"

definition getPrediction :: "u8 \<Rightarrow> local_bp \<Rightarrow> bool"
  where "getPrediction cnt p \<longleftrightarrow> drop_bit (unat (lp_localCtrBits p - 1)) cnt \<noteq> 0"

definition getLocalIndex :: "addr \<Rightarrow> local_bp \<Rightarrow> u32"
  where "getLocalIndex branch_addr p = ucast (drop_bit (unat (lp_instShiftAmt p)) branch_addr AND ucast (lp_indexMask p))"

definition local_reset :: "local_bp \<Rightarrow> local_bp"
  where "local_reset p = p\<lparr>lp_localCtrs := map sat_reset (lp_localCtrs p)\<rparr>"

definition local_btbUpdate :: "nat \<Rightarrow> addr \<Rightarrow> local_bp \<Rightarrow> local_bp"
  where "local_btbUpdate tid branch_addr p = p"

definition local_lookup :: "nat \<Rightarrow> addr \<Rightarrow> local_bp \<Rightarrow> (bool \<times> unit \<times> local_bp) option"
  where "local_lookup tid branch_addr p =
    (let local_predictor_idx = getLocalIndex branch_addr p;
         counter_val = sc_counter (lp_localCtrs p ! unat local_predictor_idx);
         taken = getPrediction counter_val p
     in Some (taken, (), p))"

definition local_update :: "nat \<Rightarrow> addr \<Rightarrow> bool \<Rightarrow> unit \<Rightarrow> bool \<Rightarrow> local_bp \<Rightarrow> local_bp option"
  where "local_update tid branch_addr taken bp_history squashed p =
    (if squashed then Some p else
     let local_predictor_idx = getLocalIndex branch_addr p
     in Some (p\<lparr>lp_localCtrs := sat_train taken (unat local_predictor_idx) (lp_localCtrs p)\<rparr>))"

definition local_uncondBranch :: "nat \<Rightarrow> addr \<Rightarrow> local_bp \<Rightarrow> unit \<times> local_bp"
  where "local_uncondBranch tid pc p = ((), p)"

definition local_squash :: "nat \<Rightarrow> unit \<Rightarrow> local_bp \<Rightarrow> local_bp"
  where "local_squash tid bp_history p = p"

definition local_ops :: "(local_bp, unit) bp_ops"
  where "local_ops = \<lparr>bp_lookup = local_lookup, bp_uncondBranch = local_uncondBranch, bp_btbUpdate = local_btbUpdate,
    bp_update = local_update, bp_squash = local_squash, bp_getGHR = (\<lambda>_ _. 0)\<rparr>"

subsection \<open>The tournament predictor\<close>

record tour_hist =
  th_globalHistory :: u32
  th_localHistoryIdx :: u32
  th_localHistory :: u32
  th_localPredTaken :: bool
  th_globalPredTaken :: bool
  th_globalUsed :: bool

definition invalidPredictorIndex :: u32 where "invalidPredictorIndex = - 1"

record tour_bp =
  tb_localCtrs :: "sat_counter list"
  tb_localPredictorSize :: u32
  tb_localPredictorMask :: u32
  tb_localHistoryTable :: "u32 list"
  tb_localHistoryTableSize :: u32
  tb_globalCtrs :: "sat_counter list"
  tb_globalHistory :: "u32 list"
  tb_globalHistoryMask :: u32
  tb_choiceHistoryMask :: u32
  tb_historyRegisterMask :: u32
  tb_choiceCtrs :: "sat_counter list"
  tb_localThreshold :: u32
  tb_globalThreshold :: u32
  tb_choiceThreshold :: u32
  tb_instShiftAmt :: u32

record tour_params =
  tp_localPredictorSize :: u32
  tp_localCtrBits :: u32
  tp_localHistoryTableSize :: u32
  tp_globalPredictorSize :: u32
  tp_globalCtrBits :: u32
  tp_choicePredictorSize :: u32
  tp_choiceCtrBits :: u32
  tp_numThreads :: nat
  tp_instShiftAmt :: u32

definition threshold :: "u32 \<Rightarrow> u32"
  where "threshold ctrBits = ucast (push_bit (unat (ctrBits - 1)) (1 :: u64) - 1)"

definition tour_new :: "tour_params \<Rightarrow> tour_bp option"
  where "tour_new pr = do {
    lbits \<leftarrow> ceilLog2 (tp_localPredictorSize pr);
    gbits \<leftarrow> ceilLog2 (tp_globalPredictorSize pr);
    cbits \<leftarrow> ceilLog2 (tp_choicePredictorSize pr);
    let hbits = (if gbits > cbits then gbits else cbits);
    c_assert (isPowerOf2 (tp_localPredictorSize pr));
    c_assert (isPowerOf2 (tp_globalPredictorSize pr));
    c_assert (isPowerOf2 (tp_localHistoryTableSize pr));
    c_assert (isPowerOf2 (tp_choicePredictorSize pr));
    let historyRegisterMask = (ucast (bf_mask (int hbits)) :: u32);
    c_assert (\<not> tp_globalPredictorSize pr - 1 > historyRegisterMask);
    c_assert (\<not> tp_choicePredictorSize pr - 1 > historyRegisterMask);
    Some \<lparr>tb_localCtrs = replicate (unat (tp_localPredictorSize pr)) (setBits (tp_localCtrBits pr) (sat_default 0)),
      tb_localPredictorSize = tp_localPredictorSize pr,
      tb_localPredictorMask = ucast (bf_mask (int lbits)),
      tb_localHistoryTable = replicate (unat (tp_localHistoryTableSize pr)) 0,
      tb_localHistoryTableSize = tp_localHistoryTableSize pr,
      tb_globalCtrs = replicate (unat (tp_globalPredictorSize pr)) (setBits (tp_globalCtrBits pr) (sat_default 0)),
      tb_globalHistory = replicate (tp_numThreads pr) 0,
      tb_globalHistoryMask = tp_globalPredictorSize pr - 1,
      tb_choiceHistoryMask = tp_choicePredictorSize pr - 1,
      tb_historyRegisterMask = historyRegisterMask,
      tb_choiceCtrs = replicate (unat (tp_choicePredictorSize pr)) (setBits (tp_choiceCtrBits pr) (sat_default 0)),
      tb_localThreshold = threshold (tp_localCtrBits pr),
      tb_globalThreshold = threshold (tp_globalCtrBits pr),
      tb_choiceThreshold = threshold (tp_choiceCtrBits pr),
      tb_instShiftAmt = tp_instShiftAmt pr\<rparr> }"

definition calcLocHistIdx :: "addr \<Rightarrow> tour_bp \<Rightarrow> u32"
  where "calcLocHistIdx branch_addr p =
    ucast (drop_bit (unat (tb_instShiftAmt p)) branch_addr AND ucast (tb_localHistoryTableSize p - 1))"

definition updateGlobalHist :: "bool \<Rightarrow> nat \<Rightarrow> tour_bp \<Rightarrow> tour_bp"
  where "updateGlobalHist taken tid p =
    (let g = push_bit 1 (tb_globalHistory p ! tid) OR (if taken then 1 else 0)
     in p\<lparr>tb_globalHistory := (tb_globalHistory p)[tid := g AND tb_historyRegisterMask p]\<rparr>)"

definition updateLocalHist :: "bool \<Rightarrow> u32 \<Rightarrow> tour_bp \<Rightarrow> tour_bp"
  where "updateLocalHist taken i p =
    p\<lparr>tb_localHistoryTable := (tb_localHistoryTable p)[unat i := push_bit 1 (tb_localHistoryTable p ! unat i) OR (if taken then 1 else 0)]\<rparr>"

definition tour_btbUpdate :: "nat \<Rightarrow> addr \<Rightarrow> tour_bp \<Rightarrow> tour_bp"
  where "tour_btbUpdate tid branch_addr p =
    (let i = unat (calcLocHistIdx branch_addr p);
         p = p\<lparr>tb_globalHistory := (tb_globalHistory p)[tid := tb_globalHistory p ! tid AND (tb_historyRegisterMask p AND NOT 1)]\<rparr>
     in p\<lparr>tb_localHistoryTable := (tb_localHistoryTable p)[i := tb_localHistoryTable p ! i AND (tb_localPredictorMask p AND NOT 1)]\<rparr>)"

definition tour_lookup :: "nat \<Rightarrow> addr \<Rightarrow> tour_bp \<Rightarrow> (bool \<times> tour_hist \<times> tour_bp) option"
  where "tour_lookup tid branch_addr p =
    (let local_history_idx = calcLocHistIdx branch_addr p;
         local_predictor_idx = tb_localHistoryTable p ! unat local_history_idx AND tb_localPredictorMask p;
         local_prediction = (ucast (sc_counter (tb_localCtrs p ! unat local_predictor_idx)) > tb_localThreshold p);
         global_prediction = (tb_globalThreshold p < ucast (sc_counter (tb_globalCtrs p ! unat (tb_globalHistory p ! tid AND tb_globalHistoryMask p))));
         choice_prediction = (tb_choiceThreshold p < ucast (sc_counter (tb_choiceCtrs p ! unat (tb_globalHistory p ! tid AND tb_choiceHistoryMask p))));
         history = \<lparr>th_globalHistory = tb_globalHistory p ! tid, th_localHistoryIdx = local_history_idx,
           th_localHistory = local_predictor_idx, th_localPredTaken = local_prediction,
           th_globalPredTaken = global_prediction, th_globalUsed = choice_prediction\<rparr> in
     do {
       c_assert (local_history_idx < tb_localHistoryTableSize p);
       if choice_prediction then
         if global_prediction
         then Some (True, history, updateLocalHist True local_history_idx (updateGlobalHist True tid p))
         else Some (False, history, updateLocalHist False local_history_idx (updateGlobalHist False tid p))
       else
         if local_prediction
         then Some (True, history, updateLocalHist True local_history_idx (updateGlobalHist True tid p))
         else Some (False, history, updateLocalHist False local_history_idx (updateGlobalHist False tid p)) })"

definition tour_uncondBranch :: "nat \<Rightarrow> addr \<Rightarrow> tour_bp \<Rightarrow> tour_hist \<times> tour_bp"
  where "tour_uncondBranch tid pc p =
    (\<lparr>th_globalHistory = tb_globalHistory p ! tid, th_localHistoryIdx = invalidPredictorIndex,
      th_localHistory = invalidPredictorIndex, th_localPredTaken = True, th_globalPredTaken = True, th_globalUsed = True\<rparr>,
     updateGlobalHist True tid p)"

definition tour_update :: "nat \<Rightarrow> addr \<Rightarrow> bool \<Rightarrow> tour_hist \<Rightarrow> bool \<Rightarrow> tour_bp \<Rightarrow> tour_bp option"
  where "tour_update tid branch_addr taken history squashed p =
    (let local_history_idx = calcLocHistIdx branch_addr p in
     do {
       c_assert (local_history_idx < tb_localHistoryTableSize p);
       let old_local_pred_valid = (th_localHistory history \<noteq> invalidPredictorIndex);
       if squashed then
         let g = push_bit 1 (th_globalHistory history) OR (if taken then 1 else 0);
             p = p\<lparr>tb_globalHistory := (tb_globalHistory p)[tid := g AND tb_historyRegisterMask p]\<rparr>
         in Some (if old_local_pred_valid
              then p\<lparr>tb_localHistoryTable := (tb_localHistoryTable p)
                       [unat local_history_idx := push_bit 1 (th_localHistory history) OR (if taken then 1 else 0)]\<rparr>
              else p)
       else do {
         let old_local_pred_index = th_localHistory history AND tb_localPredictorMask p;
         c_assert (old_local_pred_index < tb_localPredictorSize p);
         let choice_predictor_idx = unat (th_globalHistory history AND tb_choiceHistoryMask p);
         let p = (if th_localPredTaken history \<noteq> th_globalPredTaken history \<and> old_local_pred_valid then
                    if th_localPredTaken history = taken
                    then p\<lparr>tb_choiceCtrs := sat_train False choice_predictor_idx (tb_choiceCtrs p)\<rparr>
                    else if th_globalPredTaken history = taken
                    then p\<lparr>tb_choiceCtrs := sat_train True choice_predictor_idx (tb_choiceCtrs p)\<rparr>
                    else p
                  else p);
         let global_predictor_idx = unat (th_globalHistory history AND tb_globalHistoryMask p);
         let p = p\<lparr>tb_globalCtrs := sat_train taken global_predictor_idx (tb_globalCtrs p)\<rparr>;
         Some (if old_local_pred_valid
               then p\<lparr>tb_localCtrs := sat_train taken (unat old_local_pred_index) (tb_localCtrs p)\<rparr>
               else p) } })"

definition tour_squash :: "nat \<Rightarrow> tour_hist \<Rightarrow> tour_bp \<Rightarrow> tour_bp"
  where "tour_squash tid history p =
    (let p = p\<lparr>tb_globalHistory := (tb_globalHistory p)[tid := th_globalHistory history]\<rparr> in
     if th_localHistoryIdx history \<noteq> invalidPredictorIndex
     then p\<lparr>tb_localHistoryTable := (tb_localHistoryTable p)[unat (th_localHistoryIdx history) := th_localHistory history]\<rparr>
     else p)"

definition tour_getGHR :: "nat \<Rightarrow> tour_hist \<Rightarrow> u32"
  where "tour_getGHR tid bp_history = th_globalHistory bp_history"

definition tour_ops :: "(tour_bp, tour_hist) bp_ops"
  where "tour_ops = \<lparr>bp_lookup = tour_lookup, bp_uncondBranch = tour_uncondBranch, bp_btbUpdate = tour_btbUpdate,
    bp_update = tour_update, bp_squash = tour_squash, bp_getGHR = tour_getGHR\<rparr>"

subsection \<open>The bi-mode predictor\<close>

record bim_hist =
  bh_globalHistoryReg :: u32
  bh_takenUsed :: bool
  bh_takenPred :: bool
  bh_notTakenPred :: bool
  bh_finalPred :: bool

record bim_bp =
  bm_choiceCounters :: "sat_counter list"
  bm_takenCounters :: "sat_counter list"
  bm_notTakenCounters :: "sat_counter list"
  bm_globalHistoryReg :: "u32 list"
  bm_historyRegisterMask :: u32
  bm_choicePredictorSize :: u32
  bm_choiceHistoryMask :: u32
  bm_globalPredictorSize :: u32
  bm_globalHistoryMask :: u32
  bm_choiceThreshold :: u32
  bm_takenThreshold :: u32
  bm_notTakenThreshold :: u32
  bm_instShiftAmt :: u32

definition bim_new :: "nat \<Rightarrow> u32 \<Rightarrow> u32 \<Rightarrow> u32 \<Rightarrow> u32 \<Rightarrow> u32 \<Rightarrow> bim_bp option"
  where "bim_new numThreads choiceSize choiceBits globalSize globalBits shift = do {
    hbits \<leftarrow> ceilLog2 globalSize;
    c_assert (isPowerOf2 choiceSize);
    c_assert (isPowerOf2 globalSize);
    Some \<lparr>bm_choiceCounters = replicate (unat choiceSize) (setBits choiceBits (sat_default 0)),
      bm_takenCounters = replicate (unat globalSize) (setBits globalBits (sat_default 0)),
      bm_notTakenCounters = replicate (unat globalSize) (setBits globalBits (sat_default 0)),
      bm_globalHistoryReg = replicate numThreads 0,
      bm_historyRegisterMask = ucast (bf_mask (int hbits)),
      bm_choicePredictorSize = choiceSize, bm_choiceHistoryMask = choiceSize - 1,
      bm_globalPredictorSize = globalSize, bm_globalHistoryMask = globalSize - 1,
      bm_choiceThreshold = threshold choiceBits, bm_takenThreshold = threshold globalBits,
      bm_notTakenThreshold = threshold globalBits, bm_instShiftAmt = shift\<rparr> }"

definition updateGlobalHistReg :: "nat \<Rightarrow> bool \<Rightarrow> bim_bp \<Rightarrow> bim_bp"
  where "updateGlobalHistReg tid taken p =
    (let g = (if taken then push_bit 1 (bm_globalHistoryReg p ! tid) OR 1 else push_bit 1 (bm_globalHistoryReg p ! tid))
     in p\<lparr>bm_globalHistoryReg := (bm_globalHistoryReg p)[tid := g AND bm_historyRegisterMask p]\<rparr>)"

definition bim_uncondBranch :: "nat \<Rightarrow> addr \<Rightarrow> bim_bp \<Rightarrow> bim_hist \<times> bim_bp"
  where "bim_uncondBranch tid pc p =
    (\<lparr>bh_globalHistoryReg = bm_globalHistoryReg p ! tid, bh_takenUsed = True, bh_takenPred = True, bh_notTakenPred = True, bh_finalPred = True\<rparr>,
     updateGlobalHistReg tid True p)"

definition bim_squash :: "nat \<Rightarrow> bim_hist \<Rightarrow> bim_bp \<Rightarrow> bim_bp"
  where "bim_squash tid history p = p\<lparr>bm_globalHistoryReg := (bm_globalHistoryReg p)[tid := bh_globalHistoryReg history]\<rparr>"

definition bim_choiceIdx :: "addr \<Rightarrow> bim_bp \<Rightarrow> u32"
  where "bim_choiceIdx branchAddr p = ucast (drop_bit (unat (bm_instShiftAmt p)) branchAddr AND ucast (bm_choiceHistoryMask p))"

definition bim_globalIdx :: "addr \<Rightarrow> u32 \<Rightarrow> bim_bp \<Rightarrow> u32"
  where "bim_globalIdx branchAddr ghr p =
    ucast ((drop_bit (unat (bm_instShiftAmt p)) branchAddr XOR ucast ghr) AND ucast (bm_globalHistoryMask p))"

definition bim_lookup :: "nat \<Rightarrow> addr \<Rightarrow> bim_bp \<Rightarrow> (bool \<times> bim_hist \<times> bim_bp) option"
  where "bim_lookup tid branchAddr p =
    (let choiceHistoryIdx = bim_choiceIdx branchAddr p;
         globalHistoryIdx = bim_globalIdx branchAddr (bm_globalHistoryReg p ! tid) p in
     do {
       c_assert (choiceHistoryIdx < bm_choicePredictorSize p);
       c_assert (globalHistoryIdx < bm_globalPredictorSize p);
       let choicePrediction = (ucast (sc_counter (bm_choiceCounters p ! unat choiceHistoryIdx)) > bm_choiceThreshold p);
       let takenGHBPrediction = (ucast (sc_counter (bm_takenCounters p ! unat globalHistoryIdx)) > bm_takenThreshold p);
       let notTakenGHBPrediction = (ucast (sc_counter (bm_notTakenCounters p ! unat globalHistoryIdx)) > bm_notTakenThreshold p);
       let finalPrediction = (if choicePrediction then takenGHBPrediction else notTakenGHBPrediction);
       Some (finalPrediction,
         \<lparr>bh_globalHistoryReg = bm_globalHistoryReg p ! tid, bh_takenUsed = choicePrediction,
           bh_takenPred = takenGHBPrediction, bh_notTakenPred = notTakenGHBPrediction, bh_finalPred = finalPrediction\<rparr>,
         updateGlobalHistReg tid finalPrediction p) })"

definition bim_btbUpdate :: "nat \<Rightarrow> addr \<Rightarrow> bim_bp \<Rightarrow> bim_bp"
  where "bim_btbUpdate tid branchAddr p =
    p\<lparr>bm_globalHistoryReg := (bm_globalHistoryReg p)[tid := bm_globalHistoryReg p ! tid AND (bm_historyRegisterMask p AND NOT 1)]\<rparr>"

definition bim_update :: "nat \<Rightarrow> addr \<Rightarrow> bool \<Rightarrow> bim_hist \<Rightarrow> bool \<Rightarrow> bim_bp \<Rightarrow> bim_bp option"
  where "bim_update tid branchAddr taken history squashed p =
    (if squashed
     then Some (p\<lparr>bm_globalHistoryReg := (bm_globalHistoryReg p)[tid := push_bit 1 (bh_globalHistoryReg history) OR (if taken then 1 else 0)]\<rparr>)
     else
     let choiceHistoryIdx = bim_choiceIdx branchAddr p;
         globalHistoryIdx = bim_globalIdx branchAddr (bh_globalHistoryReg history) p in
     do {
       c_assert (choiceHistoryIdx < bm_choicePredictorSize p);
       c_assert (globalHistoryIdx < bm_globalPredictorSize p);
       let p = (if bh_takenUsed history
                then p\<lparr>bm_takenCounters := sat_train taken (unat globalHistoryIdx) (bm_takenCounters p)\<rparr>
                else p\<lparr>bm_notTakenCounters := sat_train taken (unat globalHistoryIdx) (bm_notTakenCounters p)\<rparr>);
       Some (if bh_finalPred history = taken then
               if bh_finalPred history = bh_takenUsed history
               then p\<lparr>bm_choiceCounters := sat_train taken (unat choiceHistoryIdx) (bm_choiceCounters p)\<rparr>
               else p
             else p\<lparr>bm_choiceCounters := sat_train taken (unat choiceHistoryIdx) (bm_choiceCounters p)\<rparr>) })"

definition bim_getGHR :: "nat \<Rightarrow> bim_hist \<Rightarrow> u32"
  where "bim_getGHR tid bp_history = bh_globalHistoryReg bp_history"

definition bim_ops :: "(bim_bp, bim_hist) bp_ops"
  where "bim_ops = \<lparr>bp_lookup = bim_lookup, bp_uncondBranch = bim_uncondBranch, bp_btbUpdate = bim_btbUpdate,
    bp_update = bim_update, bp_squash = bim_squash, bp_getGHR = bim_getGHR\<rparr>"

section \<open>Counters\<close>

definition sat_ok :: "sat_counter \<Rightarrow> bool"
  where "sat_ok c \<longleftrightarrow> sc_counter c \<le> maxVal c"

lemma sat_increment_unat:
  "unat (sc_counter (sat_increment c)) = (if sc_counter c < maxVal c then Suc (unat (sc_counter c)) else unat (sc_counter c))"
  "maxVal (sat_increment c) = maxVal c"
proof -
  have "unat (sc_counter c + 1) = Suc (unat (sc_counter c))" if "sc_counter c < maxVal c"
    using that unsigned_less [where ?'a = nat, of "maxVal c"] by (simp add: unat_word_ariths word_less_nat_alt)
  thus "unat (sc_counter (sat_increment c)) = (if sc_counter c < maxVal c then Suc (unat (sc_counter c)) else unat (sc_counter c))"
    by (simp add: sat_increment_def)
qed (simp add: sat_increment_def)

lemma sat_decrement_unat:
  "unat (sc_counter (sat_decrement c)) = unat (sc_counter c) - 1" "maxVal (sat_decrement c) = maxVal c"
proof -
  have "unat (sc_counter c - 1) = unat (sc_counter c) - 1" if "sc_counter c \<noteq> 0"
    using that by (rule unat_minus_one)
  moreover have "\<not> 0 < sc_counter c \<Longrightarrow> sc_counter c = 0"
    using word_neq_0_conv by blast
  ultimately show "unat (sc_counter (sat_decrement c)) = unat (sc_counter c) - 1"
    by (auto simp: sat_decrement_def word_neq_0_conv)
qed (simp add: sat_decrement_def)

lemma sat_ok_step: "sat_ok c \<Longrightarrow> sat_ok (sat_increment c)" "sat_ok c \<Longrightarrow> sat_ok (sat_decrement c)"
  unfolding sat_ok_def word_le_nat_alt
  by (auto simp: sat_increment_unat sat_decrement_unat word_less_nat_alt)

lemma sat_ok_fresh: "sat_ok (setBits b (sat_default mv))"
  by (simp add: sat_ok_def setBits_def sat_default_def)

lemma length_sat_train [simp]: "length (sat_train t i cs) = length cs"
  by (simp add: sat_train_def)

lemma list_all_sat_train: "list_all sat_ok cs \<Longrightarrow> list_all sat_ok (sat_train t i cs)"
proof (cases "i < length cs")
  case True
  assume a: "list_all sat_ok cs"
  with True have "sat_ok (cs ! i)"
    by (simp add: list_all_length)
  with a show ?thesis
    using True by (auto simp: sat_train_def list_all_length nth_list_update sat_ok_step)
qed (simp add: sat_train_def list_update_beyond)

section \<open>Indices and histories\<close>

lemma unat_and_le: "unat (x AND m) \<le> unat m"
  by (simp add: word_and_le1 flip: word_le_nat_alt)

lemma and_size_less: "s \<noteq> 0 \<Longrightarrow> x AND (s - 1) < s" for s :: "'a::len word"
  using unat_and_le [of x "s - 1"] unat_minus_one [of s] unat_gt_0 [of s] by (simp add: word_less_nat_alt)

lemma ucast_and_down: "(ucast (x AND ucast m :: u64) :: u32) = ucast x AND m" for x :: u64 and m :: u32
  by (rule bit_word_eqI) (auto simp: bit_simps)

text \<open>Shifting an outcome into a history only depends on the bits the mask keeps.\<close>

lemma shift_in_cong:
  fixes x y :: u32
  assumes "x AND mask k = y AND mask k"
  shows "(push_bit 1 x OR b) AND mask k = (push_bit 1 y OR b) AND mask k"
proof (rule bit_word_eqI)
  fix n
  assume n: "n < LENGTH(32)"
  have e: "bit x m = bit y m" if "m < k" "m < 32" for m
    using arg_cong [OF assms, of "\<lambda>w. bit w m"] that by (simp add: bit_simps)
  show "bit ((push_bit 1 x OR b) AND mask k) n = bit ((push_bit 1 y OR b) AND mask k) n"
    unfolding bit_push_bit_iff bit_or_iff bit_and_iff bit_mask_iff using e [of "n - 1"] n by auto
qed

section \<open>The contract of a direction predictor\<close>

text \<open>
  \<open>wf\<close> is the invariant of the predictor and \<open>view\<close> the speculative state of a thread, the
  histories that predictions depend on.  Undoing a branch works from any later state with the view
  that the branch, and perhaps a BTB miss of it, left behind: the branches in between have been
  undone.  Repairing a branch that should have gone to \<open>b\<close> leaves the view of a predictor that
  agreed before and did predict \<open>b\<close>.
\<close>

locale dir_predictor =
  fixes ops :: "('p, 'h) bp_ops"
    and wf :: "nat \<Rightarrow> 'p \<Rightarrow> bool"
    and view :: "nat \<Rightarrow> 'p \<Rightarrow> 'v"
  assumes lookup_total: "wf tid p \<Longrightarrow> \<exists>t h p1. bp_lookup ops tid a p = Some (t, h, p1)"
    and lookup_wf: "wf tid p \<Longrightarrow> bp_lookup ops tid a p = Some (t, h, p1) \<Longrightarrow> wf tid p1"
    and uncond_wf: "wf tid p \<Longrightarrow> bp_uncondBranch ops tid a p = (h, p1) \<Longrightarrow> wf tid p1"
    and btb_wf: "wf tid p \<Longrightarrow> wf tid (bp_btbUpdate ops tid a p)"
    and squash_wf: "wf tid p \<Longrightarrow> wf tid (bp_squash ops tid h p)"
    and update_wf: "wf tid p \<Longrightarrow> \<exists>p1. bp_update ops tid a b h sq p = Some p1 \<and> wf tid p1"
    and lookup_undo: "wf tid p \<Longrightarrow> bp_lookup ops tid a p = Some (t, h, p1) \<Longrightarrow> wf tid p2 \<Longrightarrow>
      view tid p2 = view tid p1 \<or> view tid p2 = view tid (bp_btbUpdate ops tid a p1) \<Longrightarrow>
      view tid (bp_squash ops tid h p2) = view tid p"
    and uncond_undo: "wf tid p \<Longrightarrow> bp_uncondBranch ops tid a p = (h, p1) \<Longrightarrow> wf tid p2 \<Longrightarrow>
      view tid p2 = view tid p1 \<Longrightarrow> view tid (bp_squash ops tid h p2) = view tid p"
    and lookup_repair: "wf tid p \<Longrightarrow> wf tid q \<Longrightarrow> view tid p = view tid q \<Longrightarrow>
      bp_lookup ops tid a p = Some (t, h, p1) \<Longrightarrow> bp_lookup ops tid a q = Some (b, h', q1) \<Longrightarrow>
      wf tid p2 \<Longrightarrow> view tid p2 = view tid p1 \<Longrightarrow> bp_update ops tid a b h True p2 = Some p3 \<Longrightarrow> view tid p3 = view tid q1"

subsection \<open>The local predictor\<close>

definition local_ok :: "local_bp \<Rightarrow> bool"
  where "local_ok p \<longleftrightarrow> unat (lp_indexMask p) < length (lp_localCtrs p) \<and> list_all sat_ok (lp_localCtrs p)"

lemma local_new_ok: "local_new sz cb sh = Some p \<Longrightarrow> local_ok p"
proof -
  assume a: "local_new sz cb sh = Some p"
  hence n: "sz div cb \<noteq> 0"
    by (auto simp: local_new_def Let_def isPowerOf2_def split: if_splits)
  from a have "lp_indexMask p = sz div cb - 1" "lp_localCtrs p = replicate (unat (sz div cb)) (setBits cb (sat_default 0))"
    by (auto simp: local_new_def Let_def split: if_splits)
  thus ?thesis
    using n unat_gt_0 [of "sz div cb"] unat_minus_one [OF n] by (simp add: local_ok_def sat_ok_fresh list_all_iff)
qed

lemma local_update_ok: "local_ok p \<Longrightarrow> \<exists>p1. local_update tid a b h sq p = Some p1 \<and> local_ok p1"
  by (auto simp: local_update_def local_ok_def list_all_sat_train Let_def)

interpretation localbp: dir_predictor local_ops "\<lambda>_. local_ok" "\<lambda>_ _. ()"
  by unfold_locales (auto simp: local_ops_def local_lookup_def local_uncondBranch_def local_btbUpdate_def local_squash_def
      local_update_ok Let_def)

subsection \<open>The tournament predictor\<close>

definition tour_ok :: "nat \<Rightarrow> tour_bp \<Rightarrow> bool"
  where "tour_ok tid p \<longleftrightarrow> tid < length (tb_globalHistory p) \<and>
    unat (tb_localPredictorMask p) < length (tb_localCtrs p) \<and> length (tb_localCtrs p) = unat (tb_localPredictorSize p) \<and>
    (\<exists>k. tb_localPredictorMask p = mask k) \<and>
    length (tb_localHistoryTable p) = unat (tb_localHistoryTableSize p) \<and> tb_localHistoryTableSize p \<noteq> 0 \<and>
    unat (tb_globalHistoryMask p) < length (tb_globalCtrs p) \<and> unat (tb_choiceHistoryMask p) < length (tb_choiceCtrs p) \<and>
    list_all sat_ok (tb_localCtrs p) \<and> list_all sat_ok (tb_globalCtrs p) \<and> list_all sat_ok (tb_choiceCtrs p)"

text \<open>
  The view of a thread: its global history, the local histories as far as the predictor reads
  them, and the constants of the configuration.
\<close>

definition tour_view :: "nat \<Rightarrow> tour_bp \<Rightarrow> u32 \<times> u32 list \<times> u32 \<times> u32 \<times> u32 \<times> u32"
  where "tour_view tid p = (tb_globalHistory p ! tid, map (\<lambda>x. x AND tb_localPredictorMask p) (tb_localHistoryTable p),
    tb_localPredictorMask p, tb_historyRegisterMask p, tb_localHistoryTableSize p, tb_instShiftAmt p)"

lemma calcLocHistIdx_less: "tb_localHistoryTableSize p \<noteq> 0 \<Longrightarrow> calcLocHistIdx a p < tb_localHistoryTableSize p"
  unfolding calcLocHistIdx_def ucast_and_down by (rule and_size_less)

lemma calcLocHistIdx_view: "tour_view tid p = tour_view tid q \<Longrightarrow> calcLocHistIdx a p = calcLocHistIdx a q"
  by (simp add: calcLocHistIdx_def tour_view_def)

text \<open>The state a lookup that predicts \<open>b\<close> leaves, and its history record.\<close>

definition tour_speculate :: "bool \<Rightarrow> nat \<Rightarrow> addr \<Rightarrow> tour_bp \<Rightarrow> tour_bp"
  where "tour_speculate b tid a p = updateLocalHist b (calcLocHistIdx a p) (updateGlobalHist b tid p)"

lemma tour_lookup_eq:
  assumes "tour_lookup tid a p = Some (b, h, p1)"
  shows "p1 = tour_speculate b tid a p" "th_globalHistory h = tb_globalHistory p ! tid"
    "th_localHistoryIdx h = calcLocHistIdx a p" 
    "th_localHistory h = tb_localHistoryTable p ! unat (calcLocHistIdx a p) AND tb_localPredictorMask p"
  using assms by (auto simp: tour_lookup_def tour_speculate_def Let_def split: if_splits)

lemma tour_speculate_view:
  assumes "tour_ok tid p"
  shows "tour_view tid (tour_speculate b tid a p) =
    ((push_bit 1 (tb_globalHistory p ! tid) OR (if b then 1 else 0)) AND tb_historyRegisterMask p,
     (map (\<lambda>x. x AND tb_localPredictorMask p) (tb_localHistoryTable p))[unat (calcLocHistIdx a p) :=
        (push_bit 1 (tb_localHistoryTable p ! unat (calcLocHistIdx a p)) OR (if b then 1 else 0)) AND tb_localPredictorMask p],
     tb_localPredictorMask p, tb_historyRegisterMask p, tb_localHistoryTableSize p, tb_instShiftAmt p)"
  using assms by (simp add: tour_view_def tour_speculate_def updateLocalHist_def updateGlobalHist_def Let_def tour_ok_def map_update)

lemma idx_valid: "unat x < unat (s :: u32) \<Longrightarrow> x \<noteq> invalidPredictorIndex"
proof
  assume a: "unat x < unat s" and "x = invalidPredictorIndex"
  hence "unat (- 1 :: u32) < unat s"
    by (simp add: invalidPredictorIndex_def)
  moreover have "unat s \<le> unat (- 1 :: u32)"
    by (simp add: word_le_nat_alt [symmetric])
  ultimately show False
    by simp
qed

lemma tour_hist_valid:
  assumes "tour_ok tid p" "tour_lookup tid a p = Some (b, h, p1)"
  shows "th_localHistory h \<noteq> invalidPredictorIndex" "th_localHistoryIdx h \<noteq> invalidPredictorIndex"
    "unat (th_localHistoryIdx h) < length (tb_localHistoryTable p)"
proof -
  note l = tour_lookup_eq [OF assms(2)]
  have "unat (th_localHistory h) < unat (tb_localPredictorSize p)"
    using assms(1) unat_and_le [of "tb_localHistoryTable p ! unat (calcLocHistIdx a p)" "tb_localPredictorMask p"]
    by (simp add: l tour_ok_def)
  thus "th_localHistory h \<noteq> invalidPredictorIndex"
    by (rule idx_valid)
  have i: "unat (calcLocHistIdx a p) < unat (tb_localHistoryTableSize p)"
    using assms(1) calcLocHistIdx_less [of p a] by (simp add: tour_ok_def word_less_nat_alt)
  thus "th_localHistoryIdx h \<noteq> invalidPredictorIndex"
    unfolding l by (rule idx_valid)
  show "unat (th_localHistoryIdx h) < length (tb_localHistoryTable p)"
    using i assms(1) by (simp add: l tour_ok_def)
qed

lemma tour_ok_steps:
  assumes "tour_ok tid p"
  shows "tour_ok tid (tour_speculate b tid a p)" "tour_ok tid (updateGlobalHist b tid p)"
    "tour_ok tid (tour_btbUpdate tid a p)" "tour_ok tid (tour_squash tid h p)"
  using assms by (auto simp: tour_ok_def tour_speculate_def updateLocalHist_def updateGlobalHist_def Let_def
      tour_btbUpdate_def tour_squash_def)

lemma tour_update_ok:
  assumes "tour_ok tid p"
  shows "\<exists>p1. tour_update tid a b h sq p = Some p1 \<and> tour_ok tid p1"
proof -
  have i: "calcLocHistIdx a p < tb_localHistoryTableSize p"
    using assms by (intro calcLocHistIdx_less) (simp add: tour_ok_def)
  have j: "th_localHistory h AND tb_localPredictorMask p < tb_localPredictorSize p"
    using assms unat_and_le [of "th_localHistory h" "tb_localPredictorMask p"] by (simp add: tour_ok_def word_less_nat_alt)
  show ?thesis
    unfolding tour_update_def Let_def using assms i j by (simp add: tour_ok_def list_all_sat_train)
qed

lemma tour_squash_view:
  assumes p: "tour_ok tid p" and l: "tour_lookup tid a p = Some (b, h, p1)" and q: "tour_ok tid p2"
    and v: "tour_view tid p2 = (g, (map (\<lambda>x. x AND tb_localPredictorMask p) (tb_localHistoryTable p))[unat (calcLocHistIdx a p) := e],
      tb_localPredictorMask p, tb_historyRegisterMask p, tb_localHistoryTableSize p, tb_instShiftAmt p)"
  shows "tour_view tid (tour_squash tid h p2) = tour_view tid p"
proof -
  let ?f = "\<lambda>x. x AND tb_localPredictorMask p"
  note e = tour_lookup_eq [OF l]
  have m: "tb_localPredictorMask p2 = tb_localPredictorMask p" and t: "map ?f (tb_localHistoryTable p2) = (map ?f (tb_localHistoryTable p))[unat (calcLocHistIdx a p) := e]"
    using v by (auto simp: tour_view_def)
  have i: "unat (calcLocHistIdx a p) < length (tb_localHistoryTable p)"
    using tour_hist_valid(3) [OF p l] by (simp add: e)
  have "map ?f ((tb_localHistoryTable p2)[unat (calcLocHistIdx a p) := th_localHistory h]) =
      (map ?f (tb_localHistoryTable p))[unat (calcLocHistIdx a p) := ?f (tb_localHistoryTable p ! unat (calcLocHistIdx a p))]"
    by (simp add: map_update t e)
  also have "\<dots> = map ?f (tb_localHistoryTable p)"
    using list_update_id [of "map ?f (tb_localHistoryTable p)" "unat (calcLocHistIdx a p)"] i by simp
  finally show ?thesis
    using tour_hist_valid(2) [OF p l] q v m by (simp add: tour_squash_def Let_def tour_view_def e tour_ok_def)
qed

lemma tour_lookup_total: "tour_ok tid p \<Longrightarrow> \<exists>t h p1. tour_lookup tid a p = Some (t, h, p1)"
proof -
  assume "tour_ok tid p"
  hence "calcLocHistIdx a p < tb_localHistoryTableSize p"
    by (intro calcLocHistIdx_less) (simp add: tour_ok_def)
  thus ?thesis
    unfolding tour_lookup_def Let_def by (simp only: c_assert_bind_True split: if_splits) blast
qed

lemma tour_lookup_ok: "tour_ok tid p \<Longrightarrow> tour_lookup tid a p = Some (b, h, p1) \<Longrightarrow> tour_ok tid p1"
  using tour_ok_steps(1) [of tid p b a] tour_lookup_eq(1) [of tid a p b h p1] by metis

lemma tour_lookup_undo:
  assumes p: "tour_ok tid p" and l: "tour_lookup tid a p = Some (b, h, p1)" and q: "tour_ok tid p2"
    and v: "tour_view tid p2 = tour_view tid p1 \<or> tour_view tid p2 = tour_view tid (tour_btbUpdate tid a p1)"
  shows "tour_view tid (tour_squash tid h p2) = tour_view tid p"
proof -
  note e = tour_lookup_eq(1) [OF l]
  let ?i = "calcLocHistIdx a p"
  have i: "calcLocHistIdx a (tour_speculate b tid a p) = ?i"
    by (simp add: calcLocHistIdx_def tour_speculate_def updateLocalHist_def updateGlobalHist_def Let_def)
  have "\<exists>g ex. tour_view tid (tour_btbUpdate tid a p1) = (g, (map (\<lambda>x. x AND tb_localPredictorMask p) (tb_localHistoryTable p))[unat ?i := ex],
      tb_localPredictorMask p, tb_historyRegisterMask p, tb_localHistoryTableSize p, tb_instShiftAmt p)"
    unfolding e tour_btbUpdate_def Let_def i
    by (simp add: tour_view_def tour_speculate_def updateLocalHist_def updateGlobalHist_def Let_def map_update) blast
  moreover have "\<exists>g ex. tour_view tid p1 = (g, (map (\<lambda>x. x AND tb_localPredictorMask p) (tb_localHistoryTable p))[unat ?i := ex],
      tb_localPredictorMask p, tb_historyRegisterMask p, tb_localHistoryTableSize p, tb_instShiftAmt p)"
    unfolding e tour_speculate_view [OF p] by blast
  ultimately show ?thesis
    using v tour_squash_view [OF p l q] by metis
qed

lemma tour_uncond_undo:
  assumes "tour_ok tid p" "tour_uncondBranch tid a p = (h, p1)" "tour_ok tid p2" "tour_view tid p2 = tour_view tid p1"
  shows "tour_view tid (tour_squash tid h p2) = tour_view tid p"
  using assms by (auto simp: tour_uncondBranch_def tour_squash_def tour_view_def updateGlobalHist_def Let_def tour_ok_def)

lemma tour_lookup_repair:
  assumes p: "tour_ok tid p" and q: "tour_ok tid q" and v: "tour_view tid p = tour_view tid q"
    and l: "tour_lookup tid a p = Some (t, h, p1)" and l': "tour_lookup tid a q = Some (b, h', q1)"
    and p2: "tour_ok tid p2" and v2: "tour_view tid p2 = tour_view tid p1" and u: "tour_update tid a b h True p2 = Some p3"
  shows "tour_view tid p3 = tour_view tid q1"
proof -
  let ?f = "\<lambda>x. x AND tb_localPredictorMask p"
  let ?i = "calcLocHistIdx a p"
  let ?b = "if b then 1 else 0 :: u32"
  note e = tour_lookup_eq [OF l] and e' = tour_lookup_eq [OF l']
  have c: "tb_globalHistory q ! tid = tb_globalHistory p ! tid" "map ?f (tb_localHistoryTable q) = map ?f (tb_localHistoryTable p)"
    "tb_localPredictorMask q = tb_localPredictorMask p" "tb_historyRegisterMask q = tb_historyRegisterMask p"
    "tb_localHistoryTableSize q = tb_localHistoryTableSize p" "tb_instShiftAmt q = tb_instShiftAmt p" "calcLocHistIdx a q = ?i"
    using v calcLocHistIdx_view [OF v] by (auto simp: tour_view_def)
  have c2: "map ?f (tb_localHistoryTable p2) = (map ?f (tb_localHistoryTable p))[unat ?i := ?f (push_bit 1 (tb_localHistoryTable p ! unat ?i) OR (if t then 1 else 0))]"
    "tb_localPredictorMask p2 = tb_localPredictorMask p" "tb_historyRegisterMask p2 = tb_historyRegisterMask p"
    "tb_localHistoryTableSize p2 = tb_localHistoryTableSize p" "tb_instShiftAmt p2 = tb_instShiftAmt p"
    using v2 unfolding e(1) tour_speculate_view [OF p] by (auto simp: tour_view_def)
  have i2: "calcLocHistIdx a p2 = ?i"
    using c2 by (simp add: calcLocHistIdx_def)
  have li: "?i < tb_localHistoryTableSize p"
    using p by (intro calcLocHistIdx_less) (simp add: tour_ok_def)
  have "p3 = p2\<lparr>tb_globalHistory := (tb_globalHistory p2)[tid := (push_bit 1 (th_globalHistory h) OR ?b) AND tb_historyRegisterMask p],
      tb_localHistoryTable := (tb_localHistoryTable p2)[unat ?i := push_bit 1 (th_localHistory h) OR ?b]\<rparr>"
    using u tour_hist_valid(1) [OF p l] li by (simp add: tour_update_def Let_def i2 c2)
  hence v3: "tour_view tid p3 = ((push_bit 1 (tb_globalHistory p ! tid) OR ?b) AND tb_historyRegisterMask p,
      (map ?f (tb_localHistoryTable p))[unat ?i := ?f (push_bit 1 (th_localHistory h) OR ?b)],
      tb_localPredictorMask p, tb_historyRegisterMask p, tb_localHistoryTableSize p, tb_instShiftAmt p)"
    using p2 by (simp add: tour_view_def c2 map_update tour_ok_def e)
  obtain k where k: "tb_localPredictorMask p = mask k"
    using p by (auto simp: tour_ok_def)
  have "length (tb_localHistoryTable q) = length (tb_localHistoryTable p)"
    using arg_cong [OF c(2), of length] by simp
  moreover have "unat ?i < length (tb_localHistoryTable p)"
    using tour_hist_valid(3) [OF p l] by (simp add: e)
  ultimately have "?f (tb_localHistoryTable q ! unat ?i) = ?f (tb_localHistoryTable p ! unat ?i)"
    using arg_cong [OF c(2), of "\<lambda>xs. xs ! unat ?i"] by simp
  hence "?f (th_localHistory h) = ?f (tb_localHistoryTable q ! unat ?i)"
    by (simp add: e)
  hence "?f (push_bit 1 (th_localHistory h) OR ?b) = ?f (push_bit 1 (tb_localHistoryTable q ! unat ?i) OR ?b)"
    unfolding k by (rule shift_in_cong)
  thus ?thesis
    unfolding e'(1) tour_speculate_view [OF q] v3 c by (simp only:)
qed

interpretation tour: dir_predictor tour_ops tour_ok tour_view
proof unfold_locales
  fix tid p a t h p1 p2 b h' q q1 p3 sq
  show "tour_ok tid p \<Longrightarrow> \<exists>t h p1. bp_lookup tour_ops tid a p = Some (t, h, p1)"
    by (simp add: tour_ops_def tour_lookup_total)
  show "tour_ok tid p \<Longrightarrow> bp_lookup tour_ops tid a p = Some (t, h, p1) \<Longrightarrow> tour_ok tid p1"
    by (simp add: tour_ops_def tour_lookup_ok)
  show "tour_ok tid p \<Longrightarrow> bp_uncondBranch tour_ops tid a p = (h, p1) \<Longrightarrow> tour_ok tid p1"
    by (auto simp: tour_ops_def tour_uncondBranch_def tour_ok_steps)
  show "tour_ok tid p \<Longrightarrow> tour_ok tid (bp_btbUpdate tour_ops tid a p)"
    by (simp add: tour_ops_def tour_ok_steps)
  show "tour_ok tid p \<Longrightarrow> tour_ok tid (bp_squash tour_ops tid h p)"
    by (simp add: tour_ops_def tour_ok_steps)
  show "tour_ok tid p \<Longrightarrow> \<exists>p1. bp_update tour_ops tid a b h sq p = Some p1 \<and> tour_ok tid p1"
    by (simp add: tour_ops_def tour_update_ok)
  show "tour_ok tid p \<Longrightarrow> bp_lookup tour_ops tid a p = Some (t, h, p1) \<Longrightarrow> tour_ok tid p2 \<Longrightarrow>
      tour_view tid p2 = tour_view tid p1 \<or> tour_view tid p2 = tour_view tid (bp_btbUpdate tour_ops tid a p1) \<Longrightarrow>
      tour_view tid (bp_squash tour_ops tid h p2) = tour_view tid p"
    unfolding tour_ops_def bp_ops.simps by (rule tour_lookup_undo)
  show "tour_ok tid p \<Longrightarrow> bp_uncondBranch tour_ops tid a p = (h, p1) \<Longrightarrow> tour_ok tid p2 \<Longrightarrow>
      tour_view tid p2 = tour_view tid p1 \<Longrightarrow> tour_view tid (bp_squash tour_ops tid h p2) = tour_view tid p"
    unfolding tour_ops_def bp_ops.simps by (rule tour_uncond_undo)
  show "tour_ok tid p \<Longrightarrow> tour_ok tid q \<Longrightarrow> tour_view tid p = tour_view tid q \<Longrightarrow>
      bp_lookup tour_ops tid a p = Some (t, h, p1) \<Longrightarrow> bp_lookup tour_ops tid a q = Some (b, h', q1) \<Longrightarrow>
      tour_ok tid p2 \<Longrightarrow> tour_view tid p2 = tour_view tid p1 \<Longrightarrow> bp_update tour_ops tid a b h True p2 = Some p3 \<Longrightarrow>
      tour_view tid p3 = tour_view tid q1"
    unfolding tour_ops_def bp_ops.simps by (rule tour_lookup_repair)
qed

subsection \<open>The bi-mode predictor\<close>

definition bim_ok :: "nat \<Rightarrow> bim_bp \<Rightarrow> bool"
  where "bim_ok tid p \<longleftrightarrow> tid < length (bm_globalHistoryReg p) \<and> (\<exists>k. bm_historyRegisterMask p = mask k) \<and>
    unat (bm_choiceHistoryMask p) < unat (bm_choicePredictorSize p) \<and> length (bm_choiceCounters p) = unat (bm_choicePredictorSize p) \<and>
    unat (bm_globalHistoryMask p) < unat (bm_globalPredictorSize p) \<and> length (bm_takenCounters p) = unat (bm_globalPredictorSize p) \<and>
    length (bm_notTakenCounters p) = unat (bm_globalPredictorSize p) \<and>
    list_all sat_ok (bm_choiceCounters p) \<and> list_all sat_ok (bm_takenCounters p) \<and> list_all sat_ok (bm_notTakenCounters p)"

text \<open>
  The repair of the bi-mode predictor does not mask the register; the view is what the mask keeps.
\<close>

definition bim_view :: "nat \<Rightarrow> bim_bp \<Rightarrow> u32 \<times> u32"
  where "bim_view tid p = (bm_globalHistoryReg p ! tid AND bm_historyRegisterMask p, bm_historyRegisterMask p)"

lemma bim_idx:
  assumes "bim_ok tid p"
  shows "bim_choiceIdx a p < bm_choicePredictorSize p" "bim_globalIdx a g p < bm_globalPredictorSize p"
proof -
  show "bim_choiceIdx a p < bm_choicePredictorSize p"
    unfolding bim_choiceIdx_def ucast_and_down word_less_nat_alt
    using assms unat_and_le [of "ucast (drop_bit (unat (bm_instShiftAmt p)) a)" "bm_choiceHistoryMask p"]
    by (simp add: bim_ok_def)
  show "bim_globalIdx a g p < bm_globalPredictorSize p"
    unfolding bim_globalIdx_def ucast_and_down word_less_nat_alt
    using assms unat_and_le [of "ucast (drop_bit (unat (bm_instShiftAmt p)) a XOR ucast g)" "bm_globalHistoryMask p"]
    by (simp add: bim_ok_def)
qed

lemma updateGlobalHistReg_eq:
  "updateGlobalHistReg tid b p = p\<lparr>bm_globalHistoryReg := (bm_globalHistoryReg p)
    [tid := (push_bit 1 (bm_globalHistoryReg p ! tid) OR (if b then 1 else 0)) AND bm_historyRegisterMask p]\<rparr>"
  by (cases b) (simp_all add: updateGlobalHistReg_def)

lemma bim_ok_ghr: "bim_ok tid p \<Longrightarrow> length gs = length (bm_globalHistoryReg p) \<Longrightarrow> bim_ok tid (p\<lparr>bm_globalHistoryReg := gs\<rparr>)"
  by (simp add: bim_ok_def)

lemma bim_ok_steps:
  assumes "bim_ok tid p"
  shows "bim_ok tid (updateGlobalHistReg tid b p)" "bim_ok tid (bim_btbUpdate tid a p)" "bim_ok tid (bim_squash tid h p)"
  unfolding updateGlobalHistReg_def bim_btbUpdate_def bim_squash_def Let_def
  by (simp_all only: bim_ok_ghr [OF assms] length_list_update)

lemma bim_mask_steps [simp]:
  "bm_historyRegisterMask (updateGlobalHistReg tid b p) = bm_historyRegisterMask p"
  "bm_historyRegisterMask (bim_btbUpdate tid a p) = bm_historyRegisterMask p"
  by (simp_all add: updateGlobalHistReg_def bim_btbUpdate_def Let_def)

lemma bim_view_mask: "bim_view tid p = bim_view tid q \<Longrightarrow> bm_historyRegisterMask p = bm_historyRegisterMask q"
  by (simp add: bim_view_def)

lemma bim_lookup_eq:
  assumes "bim_lookup tid a p = Some (b, h, p1)"
  shows "p1 = updateGlobalHistReg tid b p" "bh_globalHistoryReg h = bm_globalHistoryReg p ! tid"
proof -
  note a = assms [unfolded bim_lookup_def Let_def c_assert_bind_Some option.inject prod.inject]
  show "p1 = updateGlobalHistReg tid b p"
    using a by (elim conjE, hypsubst) (rule refl)
  show "bh_globalHistoryReg h = bm_globalHistoryReg p ! tid"
    using a by (elim conjE, hypsubst) (simp only: bim_hist.simps)
qed

lemma bim_ok_counters:
  assumes "bim_ok tid p"
  shows "bim_ok tid (p\<lparr>bm_takenCounters := sat_train b i (bm_takenCounters p)\<rparr>)"
    "bim_ok tid (p\<lparr>bm_notTakenCounters := sat_train b i (bm_notTakenCounters p)\<rparr>)"
    "bim_ok tid (p\<lparr>bm_choiceCounters := sat_train b i (bm_choiceCounters p)\<rparr>)"
  using assms by (simp_all add: bim_ok_def list_all_sat_train)

lemma bim_update_ok:
  assumes p: "bim_ok tid p"
  shows "\<exists>p1. bim_update tid a b h sq p = Some p1 \<and> bim_ok tid p1"
proof (cases sq)
  case True
  thus ?thesis
    using bim_ok_ghr [OF p] by (simp add: bim_update_def)
next
  case False
  let ?i = "unat (bim_globalIdx a (bh_globalHistoryReg h) p)"
  define q where "q = (if bh_takenUsed h then p\<lparr>bm_takenCounters := sat_train b ?i (bm_takenCounters p)\<rparr>
    else p\<lparr>bm_notTakenCounters := sat_train b ?i (bm_notTakenCounters p)\<rparr>)"
  have q: "bim_ok tid q"
    by (simp add: q_def bim_ok_counters p)
  have "bim_update tid a b h sq p = Some (if bh_finalPred h = b then
               if bh_finalPred h = bh_takenUsed h
               then q\<lparr>bm_choiceCounters := sat_train b (unat (bim_choiceIdx a p)) (bm_choiceCounters q)\<rparr>
               else q
             else q\<lparr>bm_choiceCounters := sat_train b (unat (bim_choiceIdx a p)) (bm_choiceCounters q)\<rparr>)"
    unfolding bim_update_def Let_def c_assert_bind_True [OF bim_idx(1) [OF p]] c_assert_bind_True [OF bim_idx(2) [OF p]]
      q_def [symmetric] using False by (simp only: if_False)
  thus ?thesis
    using q bim_ok_counters(3) [OF q] by (simp only: option.inject simp_thms if_split)
qed

lemma bim_squash_view:
  assumes "bim_ok tid p2" "bh_globalHistoryReg h = bm_globalHistoryReg p ! tid" "bm_historyRegisterMask p2 = bm_historyRegisterMask p"
  shows "bim_view tid (bim_squash tid h p2) = bim_view tid p"
  using assms by (simp add: bim_view_def bim_squash_def bim_ok_def)

lemma bim_lookup_undo:
  assumes "bim_lookup tid a p = Some (b, h, p1)" "bim_ok tid p2"
    "bim_view tid p2 = bim_view tid p1 \<or> bim_view tid p2 = bim_view tid (bim_btbUpdate tid a p1)"
  shows "bim_view tid (bim_squash tid h p2) = bim_view tid p"
proof (rule bim_squash_view [OF assms(2) bim_lookup_eq(2) [OF assms(1)]])
  show "bm_historyRegisterMask p2 = bm_historyRegisterMask p"
    using assms(3) bim_view_mask [of tid p2 p1] bim_view_mask [of tid p2 "bim_btbUpdate tid a p1"]
    by (auto simp: bim_lookup_eq(1) [OF assms(1)])
qed

lemma bim_uncond_undo:
  assumes "bim_uncondBranch tid a p = (h, p1)" "bim_ok tid p2" "bim_view tid p2 = bim_view tid p1"
  shows "bim_view tid (bim_squash tid h p2) = bim_view tid p"
proof (rule bim_squash_view [OF assms(2)])
  show "bh_globalHistoryReg h = bm_globalHistoryReg p ! tid" "bm_historyRegisterMask p2 = bm_historyRegisterMask p"
    using assms(1) bim_view_mask [OF assms(3)] by (auto simp: bim_uncondBranch_def)
qed

lemma bim_lookup_repair:
  assumes p: "bim_ok tid p" and q: "bim_ok tid q" and v: "bim_view tid p = bim_view tid q"
    and l: "bim_lookup tid a p = Some (t, h, p1)" and l': "bim_lookup tid a q = Some (b, h', q1)"
    and p2: "bim_ok tid p2" and v2: "bim_view tid p2 = bim_view tid p1" and u: "bim_update tid a b h True p2 = Some p3"
  shows "bim_view tid p3 = bim_view tid q1"
proof -
  obtain k where k: "bm_historyRegisterMask p = mask k"
    using p by (auto simp: bim_ok_def)
  have m: "bm_historyRegisterMask q = mask k" "bm_historyRegisterMask p2 = mask k"
    using v v2 k by (auto simp: bim_view_def bim_lookup_eq(1) [OF l] updateGlobalHistReg_eq)
  have "bm_globalHistoryReg p ! tid AND mask k = bm_globalHistoryReg q ! tid AND mask k"
    using v k m by (simp add: bim_view_def)
  hence "(push_bit 1 (bm_globalHistoryReg p ! tid) OR (if b then 1 else 0)) AND mask k =
      (push_bit 1 (bm_globalHistoryReg q ! tid) OR (if b then 1 else 0)) AND mask k"
    by (rule shift_in_cong)
  moreover have "p3 = p2\<lparr>bm_globalHistoryReg := (bm_globalHistoryReg p2)[tid := push_bit 1 (bm_globalHistoryReg p ! tid) OR (if b then 1 else 0)]\<rparr>"
    using u by (simp add: bim_update_def bim_lookup_eq(2) [OF l])
  moreover have "tid < length (bm_globalHistoryReg p2)" "tid < length (bm_globalHistoryReg q)"
    using p2 q by (simp_all add: bim_ok_def)
  ultimately show ?thesis
    unfolding bim_lookup_eq(1) [OF l'] updateGlobalHistReg_eq bim_view_def by (simp add: m)
qed

interpretation bimode: dir_predictor bim_ops bim_ok bim_view
proof unfold_locales
  fix tid p a t h p1 p2 b h' q q1 p3 sq
  show "bim_ok tid p \<Longrightarrow> \<exists>t h p1. bp_lookup bim_ops tid a p = Some (t, h, p1)"
    using bim_idx [of tid p a] by (simp add: bim_ops_def bim_lookup_def Let_def)
  show "bim_ok tid p \<Longrightarrow> bp_lookup bim_ops tid a p = Some (t, h, p1) \<Longrightarrow> bim_ok tid p1"
    using bim_lookup_eq(1) [of tid a p t h p1] by (simp add: bim_ops_def bim_ok_steps)
  show "bim_ok tid p \<Longrightarrow> bp_uncondBranch bim_ops tid a p = (h, p1) \<Longrightarrow> bim_ok tid p1"
    by (auto simp: bim_ops_def bim_uncondBranch_def bim_ok_steps)
  show "bim_ok tid p \<Longrightarrow> \<exists>p1. bp_update bim_ops tid a b h sq p = Some p1 \<and> bim_ok tid p1"
    by (simp add: bim_ops_def bim_update_ok)
  show "bp_lookup bim_ops tid a p = Some (t, h, p1) \<Longrightarrow> bim_ok tid p2 \<Longrightarrow>
      bim_view tid p2 = bim_view tid p1 \<or> bim_view tid p2 = bim_view tid (bp_btbUpdate bim_ops tid a p1) \<Longrightarrow>
      bim_view tid (bp_squash bim_ops tid h p2) = bim_view tid p"
    using bim_lookup_undo [of tid a p t h p1 p2] by (simp add: bim_ops_def)
  show "bp_uncondBranch bim_ops tid a p = (h, p1) \<Longrightarrow> bim_ok tid p2 \<Longrightarrow>
      bim_view tid p2 = bim_view tid p1 \<Longrightarrow> bim_view tid (bp_squash bim_ops tid h p2) = bim_view tid p"
    using bim_uncond_undo [of tid a p h p1 p2] by (simp add: bim_ops_def)
  show "bim_ok tid p \<Longrightarrow> bim_ok tid (bp_btbUpdate bim_ops tid a p)" "bim_ok tid p \<Longrightarrow> bim_ok tid (bp_squash bim_ops tid h p)"
    by (simp_all add: bim_ops_def bim_ok_steps)
  show "bim_ok tid p \<Longrightarrow> bim_ok tid q \<Longrightarrow> bim_view tid p = bim_view tid q \<Longrightarrow>
      bp_lookup bim_ops tid a p = Some (t, h, p1) \<Longrightarrow> bp_lookup bim_ops tid a q = Some (b, h', q1) \<Longrightarrow>
      bim_ok tid p2 \<Longrightarrow> bim_view tid p2 = bim_view tid p1 \<Longrightarrow> bp_update bim_ops tid a b h True p2 = Some p3 \<Longrightarrow>
      bim_view tid p3 = bim_view tid q1"
    unfolding bim_ops_def bp_ops.simps by (rule bim_lookup_repair)
qed

section \<open>Properties of the direction predictors\<close>

lemma ceilLog2_exp: "k < 32 \<Longrightarrow> ceilLog2 (2 ^ k) = Some k"
proof -
  assume k: "k < 32"
  hence u: "unat (2 ^ k :: u32) = 2 ^ k" "(2 ^ k :: u32) \<noteq> 0"
    by (simp_all add: unat_exp exp_neq_0)
  from ceilLog2_bracket [OF u(2)] obtain y where y: "ceilLog2 (2 ^ k) = Some y" "(2::nat) ^ k \<le> 2 ^ y" "y = 0 \<or> (2::nat) ^ (y - 1) < 2 ^ k"
    unfolding u by blast
  from y(2,3) have "y = k"
    by (auto simp: power_increasing_iff power_strict_increasing_iff)
  with y show ?thesis
    by simp
qed

lemma table_mask:
  assumes "k < 32"
  shows "(ucast (bf_mask (int k)) :: u32) = mask k" "unat (mask k :: u32) < unat (2 ^ k :: u32)" "(2 ^ k :: u32) - 1 = mask k"
proof -
  have "bf_mask (int k) = mask k"
    using assms by (simp add: bf_mask_eq)
  moreover have "(ucast (mask k :: u64) :: u32) = mask k"
    by (rule bit_word_eqI) (auto simp: bit_simps)
  ultimately show "(ucast (bf_mask (int k)) :: u32) = mask k"
    by simp
  show e: "(2 ^ k :: u32) - 1 = mask k"
    by (simp add: mask_eq_exp_minus_1)
  have n: "(2 ^ k :: u32) \<noteq> 0"
    using assms by (simp add: exp_neq_0)
  show "unat (mask k :: u32) < unat (2 ^ k :: u32)"
    unfolding e [symmetric] unat_minus_one [OF n] using n unat_gt_0 [of "2 ^ k :: u32"] by simp
qed

lemma tour_new_ok:
  assumes "tour_new pr = Some p" "tid < tp_numThreads pr"
  shows "tour_ok tid p"
proof -
  from assms(1) have pw: "isPowerOf2 (tp_localPredictorSize pr)" "isPowerOf2 (tp_globalPredictorSize pr)"
      "isPowerOf2 (tp_localHistoryTableSize pr)" "isPowerOf2 (tp_choicePredictorSize pr)"
    by (auto simp: tour_new_def Let_def split: bind_splits)
  then obtain l g t c where k: "l < 32" "g < 32" "t < 32" "c < 32" "tp_localPredictorSize pr = 2 ^ l" "tp_globalPredictorSize pr = 2 ^ g"
      "tp_localHistoryTableSize pr = 2 ^ t" "tp_choicePredictorSize pr = 2 ^ c"
    unfolding isPowerOf2_iff by auto
  from assms(1) k have "tb_localPredictorMask p = mask l" "tb_localPredictorSize p = 2 ^ l" "length (tb_localCtrs p) = unat (2 ^ l :: u32)"
      "tb_localHistoryTableSize p = 2 ^ t" "length (tb_localHistoryTable p) = unat (2 ^ t :: u32)"
      "tb_globalHistoryMask p = mask g" "length (tb_globalCtrs p) = unat (2 ^ g :: u32)"
      "tb_choiceHistoryMask p = mask c" "length (tb_choiceCtrs p) = unat (2 ^ c :: u32)" "length (tb_globalHistory p) = tp_numThreads pr"
      "list_all sat_ok (tb_localCtrs p)" "list_all sat_ok (tb_globalCtrs p)" "list_all sat_ok (tb_choiceCtrs p)"
    by (auto simp: tour_new_def Let_def ceilLog2_exp table_mask list_all_iff sat_ok_fresh)
  thus ?thesis
    using k assms(2) table_mask [of l] table_mask [of g] table_mask [of c] exp_neq_0 [of t, where ?'a = 32]
    unfolding tour_ok_def by auto
qed

text \<open>Any call of the tournament predictor's interface, with any history record.\<close>

inductive tour_step :: "nat \<Rightarrow> tour_bp \<Rightarrow> tour_bp \<Rightarrow> bool" for tid :: nat
  where
    "tour_lookup tid a p = Some (b, h, q) \<Longrightarrow> tour_step tid p q"
  | "tour_uncondBranch tid a p = (h, q) \<Longrightarrow> tour_step tid p q"
  | "tour_step tid p (tour_btbUpdate tid a p)"
  | "tour_update tid a b h sq p = Some q \<Longrightarrow> tour_step tid p q"
  | "tour_step tid p (tour_squash tid h p)"

lemma tour_step_ok: "tour_step tid p q \<Longrightarrow> tour_ok tid p \<Longrightarrow> tour_ok tid q"
proof (induction rule: tour_step.induct)
  case (1 a p b h q)
  thus ?case
    by (blast intro: tour_lookup_ok)
next
  case (2 a p h q)
  thus ?case
    by (auto simp: tour_uncondBranch_def tour_ok_steps)
next
  case (4 a b h sq p q)
  thus ?case
    using tour_update_ok [of tid p a b h sq] by auto
qed (simp_all add: tour_ok_steps)

text \<open>
  C19: A tournament predictor that its constructor accepts keeps its type invariant through every
  sequence of calls with any addresses and any history records: every table has its size, every
  counter stays within its bits, and every index the code computes is inside its table, so that no
  assertion of \<open>lookup\<close> or \<open>update\<close> ever fails.
\<close>

theorem tour_reachable_ok:
  assumes "tour_new pr = Some p0" "tid < tp_numThreads pr" "(tour_step tid)\<^sup>*\<^sup>* p0 p"
  shows "tour_ok tid p \<and> tour_lookup tid a p \<noteq> None \<and> tour_update tid a b h sq p \<noteq> None"
proof -
  from assms(3) have "tour_ok tid p"
    by (induction rule: rtranclp_induct) (auto intro: tour_step_ok tour_new_ok [OF assms(1,2)])
  thus ?thesis
    using tour_lookup_total [of tid p a] tour_update_ok [of tid p a b h sq] by auto
qed

definition run_tour_params :: tour_params
  where "run_tour_params = \<lparr>tp_localPredictorSize = 4, tp_localCtrBits = 2, tp_localHistoryTableSize = 2, tp_globalPredictorSize = 4,
    tp_globalCtrBits = 2, tp_choicePredictorSize = 4, tp_choiceCtrBits = 2, tp_numThreads = 1, tp_instShiftAmt = 2\<rparr>"

definition run_tour :: tour_bp
  where "run_tour = \<lparr>tb_localCtrs = replicate 4 \<lparr>initialVal = 0, maxVal = 3, sc_counter = 0\<rparr>, tb_localPredictorSize = 4, tb_localPredictorMask = 3,
    tb_localHistoryTable = [0, 0], tb_localHistoryTableSize = 2, tb_globalCtrs = replicate 4 \<lparr>initialVal = 0, maxVal = 3, sc_counter = 0\<rparr>,
    tb_globalHistory = [0], tb_globalHistoryMask = 3, tb_choiceHistoryMask = 3, tb_historyRegisterMask = 3,
    tb_choiceCtrs = replicate 4 \<lparr>initialVal = 0, maxVal = 3, sc_counter = 0\<rparr>, tb_localThreshold = 1, tb_globalThreshold = 1, tb_choiceThreshold = 1,
    tb_instShiftAmt = 2\<rparr>"

lemma run_tour_new: "tour_new run_tour_params = Some run_tour"
  by code_simp

theorem tour_reachable_ok_witness:
  "tour_ok 0 (tour_btbUpdate 0 0x40 run_tour) \<and> tour_lookup 0 0x44 (tour_btbUpdate 0 0x40 run_tour) \<noteq> None"
  using tour_reachable_ok [OF run_tour_new, of 0 "tour_btbUpdate 0 0x40 run_tour" "0x44"] tour_step.intros(3)
  by (simp add: run_tour_params_def r_into_rtranclp)

text \<open>
  C18: A misprediction is repaired completely.  If two tournament predictors have the same histories,
  the first predicts some direction for a branch and is then corrected to direction \<open>b\<close> by
  \<open>update\<close> with \<open>squashed\<close> set, and the second predicts \<open>b\<close> at once, then both have the same
  histories again, whatever was predicted and undone in between.
\<close>

theorem tour_repair:
  assumes "tour_ok tid p" "tour_ok tid q" "tour_view tid p = tour_view tid q"
    "tour_lookup tid a p = Some (t, h, p1)" "tour_lookup tid a q = Some (b, h', q1)"
    "tour_ok tid p2" "tour_view tid p2 = tour_view tid p1"
  shows "\<exists>p3. tour_update tid a b h True p2 = Some p3 \<and> tour_view tid p3 = tour_view tid q1"
proof -
  obtain p3 where "tour_update tid a b h True p2 = Some p3"
    using tour_update_ok [OF assms(6)] by blast
  moreover from this have "tour_view tid p3 = tour_view tid q1"
    using tour.lookup_repair [OF assms(1-3), of a t h p1 b h' q1 p2 p3] assms(4-7) by (simp add: tour_ops_def)
  ultimately show ?thesis
    by blast
qed

definition run_tour_taken :: tour_bp
  where "run_tour_taken = run_tour\<lparr>tb_localCtrs := replicate 4 \<lparr>initialVal = 0, maxVal = 3, sc_counter = 3\<rparr>\<rparr>"

lemma run_tour_ok: "tour_ok 0 run_tour" "tour_ok 0 run_tour_taken"
proof -
  have m: "(3 :: u32) = mask 2"
    by (simp add: mask_numeral)
  show "tour_ok 0 run_tour"
    by (rule tour_new_ok [OF run_tour_new]) (simp add: run_tour_params_def)
  show "tour_ok 0 run_tour_taken"
    unfolding tour_ok_def by (simp add: run_tour_taken_def run_tour_def sat_ok_def list_all_iff) (use m in metis)
qed

theorem tour_repair_witness:
  "\<exists>h p1 h' q1 p3. tour_lookup 0 0x40 run_tour = Some (False, h, p1) \<and> tour_lookup 0 0x40 run_tour_taken = Some (True, h', q1) \<and>
    tour_update 0 0x40 True h True p1 = Some p3 \<and> tour_view 0 p3 = tour_view 0 q1"
proof -
  have v: "tour_view 0 run_tour = tour_view 0 run_tour_taken"
    by (simp add: tour_view_def run_tour_taken_def)
  have "\<exists>h p1. tour_lookup 0 0x40 run_tour = Some (False, h, p1)"
    by (simp add: tour_lookup_def calcLocHistIdx_def run_tour_def Let_def)
  then obtain h p1 where l: "tour_lookup 0 0x40 run_tour = Some (False, h, p1)"
    by blast
  have "\<exists>h p1. tour_lookup 0 0x40 run_tour_taken = Some (True, h, p1)"
    by (simp add: tour_lookup_def calcLocHistIdx_def run_tour_def run_tour_taken_def Let_def)
  then obtain h' q1 where l': "tour_lookup 0 0x40 run_tour_taken = Some (True, h', q1)"
    by blast
  from tour_repair [OF run_tour_ok v l l' tour_lookup_ok [OF run_tour_ok(1) l] refl] l l' show ?thesis
    by blast
qed

text \<open>Training the local predictor: resolved branches in order, none of them squashed.\<close>

fun local_run :: "(addr \<times> bool) list \<Rightarrow> local_bp \<Rightarrow> local_bp option"
  where
    "local_run [] p = Some p"
  | "local_run ((a, t) # us) p = do { p \<leftarrow> local_update 0 a t () False p; local_run us p }"

definition local_bits :: "u32 \<Rightarrow> local_bp \<Rightarrow> bool"
  where "local_bits b p \<longleftrightarrow> local_ok p \<and> lp_localCtrBits p = b \<and> (\<forall>c \<in> set (lp_localCtrs p). maxVal c = sat_bits_max b)"

lemma local_update_bits:
  assumes "local_bits b p" "local_update tid a t h sq p = Some q"
  shows "local_bits b q \<and> lp_indexMask q = lp_indexMask p \<and> lp_instShiftAmt q = lp_instShiftAmt p"
proof -
  have "local_ok q"
    using assms local_update_ok [of p tid a t h sq] by (auto simp: local_bits_def)
  moreover have mx: "maxVal c = sat_bits_max b" if "c \<in> set (sat_train t i (lp_localCtrs p))" for c i
  proof (cases "i < length (lp_localCtrs p)")
    case True
    hence m: "maxVal (lp_localCtrs p ! i) = sat_bits_max b"
      using assms(1) by (simp add: local_bits_def)
    have "c = (if t then sat_increment (lp_localCtrs p ! i) else sat_decrement (lp_localCtrs p ! i)) \<or> c \<in> set (lp_localCtrs p)"
      using subsetD [OF set_update_subset_insert that [unfolded sat_train_def]] by simp
    thus ?thesis
    proof
      assume "c = (if t then sat_increment (lp_localCtrs p ! i) else sat_decrement (lp_localCtrs p ! i))"
      with m show ?thesis
        by (simp add: sat_increment_unat sat_decrement_unat)
    next
      assume "c \<in> set (lp_localCtrs p)"
      with assms(1) show ?thesis
        by (simp add: local_bits_def)
    qed
  next
    case False
    thus ?thesis
      using that assms(1) by (simp add: sat_train_def list_update_beyond local_bits_def)
  qed
  moreover have "q = (if sq then p else p\<lparr>lp_localCtrs := sat_train t (unat (getLocalIndex a p)) (lp_localCtrs p)\<rparr>)"
    using assms(2) by (simp add: local_update_def Let_def split: if_splits)
  ultimately show ?thesis
    using assms(1) mx by (cases sq) (simp_all add: local_bits_def)
qed

lemma local_run_bits: "local_bits b p \<Longrightarrow> \<exists>q. local_run us p = Some q \<and> local_bits b q"
proof (induction us p rule: local_run.induct)
  case (2 a t us p)
  obtain p1 where p1: "local_update 0 a t () False p = Some p1"
    by (simp add: local_update_def Let_def)
  with 2 local_update_bits [OF 2(2) p1] show ?case
    by auto
qed simp

lemma local_run_append: "local_run (us @ vs) p = do { q \<leftarrow> local_run us p; local_run vs q }"
  by (induction us p rule: local_run.induct) (auto simp: local_update_def Let_def)

text \<open>Repeated outcomes move the counter of the branch by one each time until it saturates.\<close>

lemma local_run_same:
  assumes "local_bits b p" "local_run (replicate n (a, t)) p = Some q"
  shows "getLocalIndex a q = getLocalIndex a p \<and> local_bits b q \<and>
    unat (sc_counter (lp_localCtrs q ! unat (getLocalIndex a p))) =
      (if t then min (unat (sat_bits_max b)) (unat (sc_counter (lp_localCtrs p ! unat (getLocalIndex a p))) + n)
       else unat (sc_counter (lp_localCtrs p ! unat (getLocalIndex a p))) - n)"
  using assms
proof (induction n arbitrary: p)
  case 0
  let ?i = "unat (getLocalIndex a p)"
  have i: "?i < length (lp_localCtrs p)"
    using 0(1) unat_and_le [of "ucast (drop_bit (unat (lp_instShiftAmt p)) a)" "lp_indexMask p"]
    unfolding getLocalIndex_def ucast_and_down by (simp add: local_bits_def local_ok_def)
  hence "sat_ok (lp_localCtrs p ! ?i)" "maxVal (lp_localCtrs p ! ?i) = sat_bits_max b"
    using 0(1) by (simp_all add: local_bits_def local_ok_def list_all_length)
  thus ?case
    using 0 by (simp add: sat_ok_def word_le_nat_alt)
next
  case (Suc n)
  let ?i = "unat (getLocalIndex a p)"
  have i: "?i < length (lp_localCtrs p)"
    using Suc.prems(1) unat_and_le [of "ucast (drop_bit (unat (lp_instShiftAmt p)) a)" "lp_indexMask p"]
    unfolding getLocalIndex_def ucast_and_down by (simp add: local_bits_def local_ok_def)
  have c: "sat_ok (lp_localCtrs p ! ?i)" "maxVal (lp_localCtrs p ! ?i) = sat_bits_max b"
    using i Suc.prems(1) by (simp_all add: local_bits_def local_ok_def list_all_length)
  define p1 where "p1 = p\<lparr>lp_localCtrs := sat_train t ?i (lp_localCtrs p)\<rparr>"
  have u: "local_update 0 a t () False p = Some p1"
    by (simp add: local_update_def p1_def Let_def)
  have b: "local_bits b p1" "getLocalIndex a p1 = getLocalIndex a p"
    using local_update_bits [OF Suc.prems(1) u] by (simp_all add: getLocalIndex_def)
  have "local_run (replicate n (a, t)) p1 = Some q"
    using Suc.prems(2) u by simp
  note ih = Suc.IH [OF b(1) this, unfolded b(2)]
  have "unat (sc_counter (lp_localCtrs p1 ! ?i)) =
      (if t then min (unat (sat_bits_max b)) (Suc (unat (sc_counter (lp_localCtrs p ! ?i)))) else unat (sc_counter (lp_localCtrs p ! ?i)) - 1)"
    using i c by (auto simp: p1_def sat_train_def sat_increment_unat sat_decrement_unat sat_ok_def word_le_nat_alt word_less_nat_alt)
  with ih show ?case
    by auto
qed

lemma saturated_side:
  "c \<le> 2 * x - 1 \<Longrightarrow> 0 < x \<Longrightarrow> x \<le> n \<Longrightarrow> c' = (if t then min (2 * x - 1) (c + n) else c - n) \<Longrightarrow> (x \<le> c') = t" for x :: nat
  by (cases t) auto

text \<open>
  The local predictor learns: with counters of \<open>b\<close> bits (1 to 8), whatever the branch history
  before, \<open>2^(b-1)\<close> or more consecutive outcomes of a branch in one direction make the next lookup of
  that branch predict that direction.
\<close>

theorem local_learns:
  assumes "local_new sz b sh = Some p0" "1 \<le> b" "b \<le> 8" "2 ^ (unat b - 1) \<le> n"
  shows "\<exists>q. local_run (us @ replicate n (a, t)) p0 = Some q \<and> local_lookup 0 a q = Some (t, (), q)"
proof -
  have "local_bits b p0"
    using local_new_ok [OF assms(1)] assms(1)
    by (auto simp: local_bits_def local_new_def Let_def setBits_def sat_default_def split: if_splits)
  then obtain p where p: "local_run us p0 = Some p" "local_bits b p"
    using local_run_bits by blast
  obtain q where q: "local_run (replicate n (a, t)) p = Some q" "local_bits b q"
    using local_run_bits [OF p(2)] by blast
  let ?c = "sc_counter (lp_localCtrs q ! unat (getLocalIndex a q))"
  have ub: "1 \<le> unat b" "unat b \<le> 8"
    using assms(2,3) by (simp_all add: word_le_nat_alt)
  obtain k where k: "unat b = Suc k" "k < 8"
    using ub by (cases "unat b") auto
  have mx: "unat (sat_bits_max b) = 2 ^ Suc k - 1"
  proof -
    have "push_bit (unat b) (1 :: u32) - 1 = mask (Suc k)"
      unfolding k(1) mask_eq_exp_minus_1 push_bit_eq_mult by simp
    moreover have "(ucast (mask (Suc k) :: u32) :: u8) = mask (Suc k)"
      by (rule bit_word_eqI) (auto simp: bit_simps)
    ultimately have "sat_bits_max b = mask (Suc k)"
      unfolding sat_bits_max_def by (simp only:)
    moreover have "unat (mask (Suc k) :: u8) = take_bit (Suc k) (mask 8)"
      unfolding mask_eq_take_bit_minus_one [where ?'a = "8 word"] unsigned_take_bit_eq unsigned_minus_1_eq_mask by simp
    moreover have "take_bit (Suc k) (mask 8) = (2 ^ Suc k - 1 :: nat)"
      by (subst take_bit_of_mask) (use k(2) in \<open>simp add: mask_eq_exp_minus_1 min_def\<close>)
    ultimately show ?thesis
      by (simp only:)
  qed
  have n: "2 ^ k \<le> n"
    using assms(4) k by simp
  note s = local_run_same [OF p(2) q(1)]
  have "unat (sc_counter (lp_localCtrs p ! unat (getLocalIndex a p))) \<le> 2 ^ Suc k - 1"
  proof -
    have i: "unat (getLocalIndex a p) < length (lp_localCtrs p)"
      using p(2) unat_and_le [of "ucast (drop_bit (unat (lp_instShiftAmt p)) a)" "lp_indexMask p"]
      unfolding getLocalIndex_def ucast_and_down by (simp add: local_bits_def local_ok_def)
    thus ?thesis
      using p(2) mx by (auto simp: local_bits_def local_ok_def list_all_length sat_ok_def word_le_nat_alt)
  qed
  moreover have "unat ?c = (if t then min (2 * 2 ^ k - 1) (unat (sc_counter (lp_localCtrs p ! unat (getLocalIndex a p))) + n)
      else unat (sc_counter (lp_localCtrs p ! unat (getLocalIndex a p))) - n)"
    using s unfolding mx by simp
  ultimately have c: "(2 ^ k \<le> unat ?c) = t"
    using n by (intro saturated_side) simp_all
  have "unat (lp_localCtrBits q - 1) = k"
  proof -
    have "b \<noteq> 0"
      using ub(1) by auto
    with q(2) k unat_minus_one [of b] show ?thesis
      by (simp add: local_bits_def)
  qed
  moreover have "drop_bit k ?c = 0 \<longleftrightarrow> unat ?c < 2 ^ k"
    unfolding word_eq_iff_unsigned [where ?'a = nat] unat_drop_bit_div by (simp add: div_eq_0_iff)
  ultimately have "local_lookup 0 a q = Some (t, (), q)"
    using c by (auto simp: local_lookup_def getPrediction_def Let_def)
  thus ?thesis
    using p(1) q(1) by (simp add: local_run_append)
qed

theorem local_learns_witness:
  "\<exists>q. local_run ([(0x40, False), (0x44, True)] @ replicate 2 (0x40, True))
      \<lparr>lp_localCtrs = replicate 2 \<lparr>initialVal = 0, maxVal = 3, sc_counter = 0\<rparr>, lp_localPredictorSize = 4, lp_localPredictorSets = 2,
        lp_localCtrBits = 2, lp_indexMask = 1, lp_instShiftAmt = 2\<rparr> = Some q \<and>
    local_lookup 0 0x40 q = Some (True, (), q)"
proof -
  have "local_new 4 2 2 = Some \<lparr>lp_localCtrs = replicate 2 \<lparr>initialVal = 0, maxVal = 3, sc_counter = 0\<rparr>, lp_localPredictorSize = 4,
      lp_localPredictorSets = 2, lp_localCtrBits = 2, lp_indexMask = 1, lp_instShiftAmt = 2\<rparr>"
    by code_simp
  from local_learns [OF this, of 2 "[(0x40, False), (0x44, True)]" "0x40" True] show ?thesis
    by simp
qed

end
