(* ===== verification/BPredUnit.thy ===== *)
theory BPredUnit
  imports DirPred
begin

text \<open>
  The branch prediction unit of gem5 (\<open>gem5/src/cpu/pred/bpred_unit\<close>) with its return address
  stack (\<open>ras\<close>), branch target buffer (\<open>btb\<close>) and indirect target predictor (\<open>indirect\<close>): predicting,
  committing and squashing branches.  The instruction set, fixed when gem5 is built, is the record
  \<open>isa\<close>; the direction predictor is a record of its virtual methods.  The numbers from \<open>rand()\<close>
  are arguments.  A failed assertion, or reading the last entry of an empty queue, is \<^term>\<open>None\<close>.
  Statistics and debug output are not modelled.
\<close>

section \<open>Definitions\<close>

record ('pc, 'i) isa =
  instAddr :: "'pc \<Rightarrow> addr"
  pc_zero :: 'pc
  buildRetPC :: "'pc \<Rightarrow> 'pc \<Rightarrow> 'pc"
  advancePC :: "'pc \<Rightarrow> 'i \<Rightarrow> 'pc"
  isUncondCtrl :: "'i \<Rightarrow> bool"
  isReturn :: "'i \<Rightarrow> bool"
  isCall :: "'i \<Rightarrow> bool"
  isDirectCtrl :: "'i \<Rightarrow> bool"

subsection \<open>The return address stack\<close>

record 'pc ras =
  addrStack :: "'pc list"
  ras_numEntries :: nat
  usedEntries :: nat
  tos :: nat

definition ras_reset :: "'pc \<Rightarrow> 'pc ras \<Rightarrow> 'pc ras"
  where "ras_reset z r = r\<lparr>usedEntries := 0, tos := 0, addrStack := map (\<lambda>_. z) (addrStack r)\<rparr>"

definition ras_init :: "'pc \<Rightarrow> nat \<Rightarrow> 'pc ras"
  where "ras_init z n = ras_reset z \<lparr>addrStack = replicate n z, ras_numEntries = n, usedEntries = 0, tos = 0\<rparr>"

definition ras_top :: "'pc ras \<Rightarrow> 'pc"
  where "ras_top r = addrStack r ! tos r"

definition ras_topIdx :: "'pc ras \<Rightarrow> nat"
  where "ras_topIdx r = tos r"

definition incrTos :: "'pc ras \<Rightarrow> 'pc ras"
  where "incrTos r = (let t = tos r + 1 in r\<lparr>tos := (if t = ras_numEntries r then 0 else t)\<rparr>)"

definition decrTos :: "'pc ras \<Rightarrow> 'pc ras"
  where "decrTos r = r\<lparr>tos := (if tos r = 0 then ras_numEntries r - 1 else tos r - 1)\<rparr>"

definition ras_push :: "'pc \<Rightarrow> 'pc ras \<Rightarrow> 'pc ras"
  where "ras_push return_addr r =
    (let r = incrTos r;
         r = r\<lparr>addrStack := (addrStack r)[tos r := return_addr]\<rparr>
     in if usedEntries r \<noteq> ras_numEntries r then r\<lparr>usedEntries := usedEntries r + 1\<rparr> else r)"

definition ras_pop :: "'pc ras \<Rightarrow> 'pc ras"
  where "ras_pop r =
    (let r = (if usedEntries r > 0 then r\<lparr>usedEntries := usedEntries r - 1\<rparr> else r)
     in decrTos r)"

definition ras_restore :: "nat \<Rightarrow> 'pc \<Rightarrow> 'pc ras \<Rightarrow> 'pc ras"
  where "ras_restore top_entry_idx restored r =
    (let r = r\<lparr>tos := top_entry_idx\<rparr>
     in r\<lparr>addrStack := (addrStack r)[tos r := restored]\<rparr>)"

definition ras_empty :: "'pc ras \<Rightarrow> bool"
  where "ras_empty r \<longleftrightarrow> usedEntries r = 0"

definition ras_full :: "'pc ras \<Rightarrow> bool"
  where "ras_full r \<longleftrightarrow> usedEntries r = ras_numEntries r"

subsection \<open>The branch target buffer\<close>

record 'pc btb_entry =
  be_tag :: addr
  be_target :: 'pc
  be_tid :: nat
  be_valid :: bool

record 'pc btb =
  btb_entries :: "'pc btb_entry list"
  btb_numEntries :: u32
  btb_idxMask :: u32
  btb_tagMask :: u32
  btb_instShiftAmt :: u32
  btb_tagShiftAmt :: u32
  btb_log2NumThreads :: u32

definition btb_new :: "'pc \<Rightarrow> u32 \<Rightarrow> u32 \<Rightarrow> u32 \<Rightarrow> u32 \<Rightarrow> 'pc btb option"
  where "btb_new z numEntries tagBits instShift num_threads =
    do {
      lt \<leftarrow> floorLog2_u32 num_threads;
      c_assert (isPowerOf2 numEntries);
      ln \<leftarrow> floorLog2_u32 numEntries;
      Some \<lparr>btb_entries = replicate (unat numEntries) \<lparr>be_tag = 0, be_target = z, be_tid = 0, be_valid = False\<rparr>,
        btb_numEntries = numEntries, btb_idxMask = numEntries - 1, btb_tagMask = push_bit (unat tagBits) 1 - 1,
        btb_instShiftAmt = instShift, btb_tagShiftAmt = instShift + of_nat ln, btb_log2NumThreads = of_nat lt\<rparr> }"

definition btb_reset :: "'pc btb \<Rightarrow> 'pc btb"
  where "btb_reset b = b\<lparr>btb_entries := map (\<lambda>e. e\<lparr>be_valid := False\<rparr>) (btb_entries b)\<rparr>"

definition btb_getIndex :: "addr \<Rightarrow> nat \<Rightarrow> 'pc btb \<Rightarrow> u32"
  where "btb_getIndex instPC tid b =
    ucast ((drop_bit (unat (btb_instShiftAmt b)) instPC XOR
        scast (push_bit (unat (btb_tagShiftAmt b - btb_instShiftAmt b - btb_log2NumThreads b)) (of_nat tid :: u32)))
      AND ucast (btb_idxMask b))"

definition btb_getTag :: "addr \<Rightarrow> 'pc btb \<Rightarrow> addr"
  where "btb_getTag instPC b = drop_bit (unat (btb_tagShiftAmt b)) instPC AND ucast (btb_tagMask b)"

definition btb_hit :: "addr \<Rightarrow> nat \<Rightarrow> 'pc btb \<Rightarrow> bool"
  where "btb_hit instPC tid b =
    (let e = btb_entries b ! unat (btb_getIndex instPC tid b)
     in be_valid e \<and> btb_getTag instPC b = be_tag e \<and> be_tid e = tid)"

definition btb_valid :: "addr \<Rightarrow> nat \<Rightarrow> 'pc btb \<Rightarrow> bool option"
  where "btb_valid instPC tid b =
    do {
      c_assert (btb_getIndex instPC tid b < btb_numEntries b);
      Some (if btb_hit instPC tid b then True else False) }"

definition btb_lookup :: "'pc \<Rightarrow> addr \<Rightarrow> nat \<Rightarrow> 'pc btb \<Rightarrow> 'pc option"
  where "btb_lookup z instPC tid b =
    do {
      c_assert (btb_getIndex instPC tid b < btb_numEntries b);
      Some (if btb_hit instPC tid b then be_target (btb_entries b ! unat (btb_getIndex instPC tid b)) else z) }"

definition btb_update :: "addr \<Rightarrow> 'pc \<Rightarrow> nat \<Rightarrow> 'pc btb \<Rightarrow> 'pc btb option"
  where "btb_update instPC target tid b =
    do {
      c_assert (btb_getIndex instPC tid b < btb_numEntries b);
      Some (b\<lparr>btb_entries := (btb_entries b)[unat (btb_getIndex instPC tid b) :=
        \<lparr>be_tag = btb_getTag instPC b, be_target = target, be_tid = tid, be_valid = True\<rparr>]\<rparr>) }"

subsection \<open>The indirect target predictor\<close>

record 'pc ipred_entry =
  ie_tag :: addr
  ie_target :: 'pc

record hist_entry =
  he_pcAddr :: addr
  he_targetAddr :: addr
  he_seqNum :: u64

record thread_info =
  pathHist :: "hist_entry list"
  headHistEntry :: nat

record 'pc ipred =
  ip_hashGHR :: bool
  ip_hashTargets :: bool
  ip_numSets :: u32
  ip_numWays :: u32
  ip_tagBits :: u32
  ip_pathLength :: nat
  ip_instShift :: u32
  ip_targetCache :: "'pc ipred_entry list list"
  ip_threadInfo :: "thread_info list"

definition ipred_new :: "'pc \<Rightarrow> bool \<Rightarrow> bool \<Rightarrow> u32 \<Rightarrow> u32 \<Rightarrow> u32 \<Rightarrow> nat \<Rightarrow> u32 \<Rightarrow> nat \<Rightarrow> 'pc ipred option"
  where "ipred_new z hash_ghr hash_targets num_sets num_ways tag_bits path_len inst_shift num_threads =
    (if \<not> isPowerOf2 num_sets then None else
     Some \<lparr>ip_hashGHR = hash_ghr, ip_hashTargets = hash_targets, ip_numSets = num_sets, ip_numWays = num_ways,
       ip_tagBits = tag_bits, ip_pathLength = path_len, ip_instShift = inst_shift,
       ip_targetCache = replicate (unat num_sets) (replicate (unat num_ways) \<lparr>ie_tag = 0, ie_target = z\<rparr>),
       ip_threadInfo = replicate num_threads \<lparr>pathHist = [], headHistEntry = 0\<rparr>\<rparr>)"

text \<open>The newest targets come first; \<open>p\<close> is the position and \<open>n\<close> how many are still to be hashed.\<close>

fun hash_path :: "nat \<Rightarrow> nat \<Rightarrow> nat \<Rightarrow> nat \<Rightarrow> hist_entry list \<Rightarrow> addr \<Rightarrow> addr"
  where
    "hash_path sh hash_shift p (Suc n) (e # es) h =
      hash_path sh hash_shift (Suc p) n es (h XOR drop_bit (sh + p * hash_shift) (he_targetAddr e))"
  | "hash_path sh hash_shift p n es h = h"

definition ipred_getSetIndex :: "addr \<Rightarrow> u32 \<Rightarrow> nat \<Rightarrow> 'pc ipred \<Rightarrow> addr option"
  where "ipred_getSetIndex br_addr ghr tid ip =
    (let hash = drop_bit (unat (ip_instShift ip)) br_addr;
         hash = (if ip_hashGHR ip then hash XOR ucast ghr else hash) in
     do {
       hash \<leftarrow> (if ip_hashTargets ip then do {
           c_assert (ip_pathLength ip \<noteq> 0);
           l \<leftarrow> floorLog2_u32 (ip_numSets ip);
           let hash_shift = l div ip_pathLength ip;
           Some (hash_path (unat (ip_instShift ip)) hash_shift 0 (ip_pathLength ip) (rev (pathHist (ip_threadInfo ip ! tid))) hash) }
         else Some hash);
       Some (hash AND ucast (ip_numSets ip - 1)) })"

definition ipred_getTag :: "addr \<Rightarrow> 'pc ipred \<Rightarrow> addr"
  where "ipred_getTag br_addr ip = drop_bit (unat (ip_instShift ip)) br_addr AND scast (push_bit (unat (ip_tagBits ip)) (1 :: u32) - 1)"

definition ipred_lookup :: "addr \<Rightarrow> u32 \<Rightarrow> nat \<Rightarrow> 'pc ipred \<Rightarrow> 'pc option option"
  where "ipred_lookup br_addr ghr tid ip =
    do {
      set_index \<leftarrow> ipred_getSetIndex br_addr ghr tid ip;
      let tag = ipred_getTag br_addr ip;
      c_assert (set_index < ucast (ip_numSets ip));
      Some (map_option ie_target (List.find (\<lambda>way. ie_tag way = tag) (ip_targetCache ip ! unat set_index))) }"

definition upd_thread :: "nat \<Rightarrow> (thread_info \<Rightarrow> thread_info) \<Rightarrow> 'pc ipred \<Rightarrow> 'pc ipred"
  where "upd_thread tid f ip = ip\<lparr>ip_threadInfo := (ip_threadInfo ip)[tid := f (ip_threadInfo ip ! tid)]\<rparr>"

definition ipred_recordIndirect :: "addr \<Rightarrow> addr \<Rightarrow> u64 \<Rightarrow> nat \<Rightarrow> 'pc ipred \<Rightarrow> 'pc ipred"
  where "ipred_recordIndirect br_addr tgt_addr seq_num tid ip =
    upd_thread tid (\<lambda>t. t\<lparr>pathHist := pathHist t @ [\<lparr>he_pcAddr = br_addr, he_targetAddr = tgt_addr, he_seqNum = seq_num\<rparr>]\<rparr>) ip"

definition ipred_commit :: "u64 \<Rightarrow> nat \<Rightarrow> 'pc ipred \<Rightarrow> 'pc ipred"
  where "ipred_commit seq_num tid ip =
    (let t = ip_threadInfo ip ! tid in
     if pathHist t = [] then ip
     else if headHistEntry t < length (pathHist t) \<and> he_seqNum (pathHist t ! headHistEntry t) \<le> seq_num
     then if headHistEntry t \<ge> ip_pathLength ip
          then upd_thread tid (\<lambda>t. t\<lparr>pathHist := tl (pathHist t)\<rparr>) ip
          else upd_thread tid (\<lambda>t. t\<lparr>headHistEntry := headHistEntry t + 1\<rparr>) ip
     else ip)"

definition ipred_squash :: "u64 \<Rightarrow> nat \<Rightarrow> 'pc ipred \<Rightarrow> 'pc ipred"
  where "ipred_squash seq_num tid ip = upd_thread tid (\<lambda>t. t\<lparr>pathHist := takeWhile (\<lambda>e. \<not> he_seqNum e > seq_num) (pathHist t)\<rparr>) ip"

fun way_update :: "addr \<Rightarrow> 'pc \<Rightarrow> 'pc ipred_entry list \<Rightarrow> 'pc ipred_entry list option"
  where
    "way_update tag target [] = None"
  | "way_update tag target (w # ws) =
      (if ie_tag w = tag then Some (w\<lparr>ie_target := target\<rparr> # ws) else map_option ((#) w) (way_update tag target ws))"

definition ipred_recordTarget :: "('pc \<Rightarrow> addr) \<Rightarrow> nat \<Rightarrow> u32 \<Rightarrow> 'pc \<Rightarrow> nat \<Rightarrow> 'pc ipred \<Rightarrow> 'pc ipred option"
  where "ipred_recordTarget pc_addr rnd ghr target tid ip =
    (let t = ip_threadInfo ip ! tid in
     do {
       c_assert (pathHist t \<noteq> []);
       let hist_entry = last (pathHist t);
       set_index \<leftarrow> ipred_getSetIndex (he_pcAddr hist_entry) ghr tid (upd_thread tid (\<lambda>t. t\<lparr>pathHist := butlast (pathHist t)\<rparr>) ip);
       let tag = ipred_getTag (he_pcAddr hist_entry) ip;
       let ip = upd_thread tid (\<lambda>t. t\<lparr>pathHist := butlast (pathHist t) @ [hist_entry\<lparr>he_targetAddr := pc_addr target\<rparr>]\<rparr>) ip;
       c_assert (set_index < ucast (ip_numSets ip));
       let iset = ip_targetCache ip ! unat set_index;
       iset' \<leftarrow> (case way_update tag target iset of
           Some ws \<Rightarrow> Some ws
         | None \<Rightarrow> do {
             c_assert (ip_numWays ip \<noteq> 0);
             Some (iset[rnd mod unat (ip_numWays ip) := \<lparr>ie_tag = tag, ie_target = target\<rparr>]) });
       Some (ip\<lparr>ip_targetCache := (ip_targetCache ip)[unat set_index := iset']\<rparr>) })"

subsection \<open>The unit\<close>

record ('pc, 'h) pred_hist =
  ph_seqNum :: u64
  ph_pc :: addr
  ph_bpHistory :: 'h
  ph_RASTarget :: 'pc
  ph_RASIndex :: nat
  ph_tid :: nat
  ph_predTaken :: bool
  ph_usedRAS :: bool
  ph_pushedRAS :: bool
  ph_wasCall :: bool
  ph_wasReturn :: bool
  ph_wasIndirect :: bool

record ('p, 'pc, 'h) bpu =
  bu_predHist :: "('pc, 'h) pred_hist list list"
  bu_btb :: "'pc btb"
  bu_ras :: "'pc ras list"
  bu_useIndirect :: bool
  bu_ipred :: "'pc ipred"
  bu_dir :: 'p

definition upd_ras :: "nat \<Rightarrow> ('pc ras \<Rightarrow> 'pc ras) \<Rightarrow> ('p, 'pc, 'h) bpu \<Rightarrow> ('p, 'pc, 'h) bpu"
  where "upd_ras tid f u = u\<lparr>bu_ras := (bu_ras u)[tid := f (bu_ras u ! tid)]\<rparr>"

definition new_record :: "('pc, 'i) isa \<Rightarrow> u64 \<Rightarrow> addr \<Rightarrow> bool \<Rightarrow> 'h \<Rightarrow> nat \<Rightarrow> ('pc, 'h) pred_hist"
  where "new_record isa seq_num instPC pred_taken bp_history tid =
    \<lparr>ph_seqNum = seq_num, ph_pc = instPC, ph_bpHistory = bp_history, ph_RASTarget = pc_zero isa, ph_RASIndex = 0, ph_tid = tid,
      ph_predTaken = pred_taken, ph_usedRAS = False, ph_pushedRAS = False, ph_wasCall = False, ph_wasReturn = False, ph_wasIndirect = False\<rparr>"

definition predict_direction :: "('p, 'h) bp_ops \<Rightarrow> ('pc, 'i) isa \<Rightarrow> 'i \<Rightarrow> 'pc \<Rightarrow> nat \<Rightarrow> 'p \<Rightarrow> (bool \<times> 'h \<times> 'p) option"
  where "predict_direction ops isa inst pc tid p =
    (if isUncondCtrl isa inst
     then let (h, p) = bp_uncondBranch ops tid (instAddr isa pc) p in Some (True, h, p)
     else bp_lookup ops tid (instAddr isa pc) p)"

text \<open>
  The parts of \<open>predict\<close> after the direction is known: a return takes its target from the stack; a
  direct branch from the buffer; an indirect one from the indirect predictor.  Each gives the final
  prediction, the target, the record and the unit.
\<close>

definition predict_return :: "('pc, 'i) isa \<Rightarrow> 'pc \<Rightarrow> nat \<Rightarrow> ('pc, 'h) pred_hist \<Rightarrow> ('p, 'pc, 'h) bpu \<Rightarrow>
    bool \<times> 'pc \<times> ('pc, 'h) pred_hist \<times> ('p, 'pc, 'h) bpu"
  where "predict_return isa pc tid r u =
    (let r = r\<lparr>ph_wasReturn := True\<rparr>;
         rasTop = ras_top (bu_ras u ! tid);
         target = buildRetPC isa pc rasTop;
         r = r\<lparr>ph_usedRAS := True, ph_RASIndex := ras_topIdx (bu_ras u ! tid), ph_RASTarget := rasTop\<rparr>
     in (True, target, r, upd_ras tid ras_pop u))"

definition predict_call :: "('pc, 'i) isa \<Rightarrow> 'i \<Rightarrow> 'pc \<Rightarrow> nat \<Rightarrow> ('pc, 'h) pred_hist \<Rightarrow> ('p, 'pc, 'h) bpu \<Rightarrow>
    ('pc, 'h) pred_hist \<times> ('p, 'pc, 'h) bpu"
  where "predict_call isa inst pc tid r u =
    (if isCall isa inst then (r\<lparr>ph_pushedRAS := True, ph_wasCall := True\<rparr>, upd_ras tid (ras_push pc) u) else (r, u))"

definition predict_direct :: "('p, 'h) bp_ops \<Rightarrow> ('pc, 'i) isa \<Rightarrow> 'i \<Rightarrow> 'pc \<Rightarrow> nat \<Rightarrow> ('pc, 'h) pred_hist \<Rightarrow> ('p, 'pc, 'h) bpu \<Rightarrow>
    (bool \<times> 'pc \<times> ('pc, 'h) pred_hist \<times> ('p, 'pc, 'h) bpu) option"
  where "predict_direct ops isa inst pc tid r u =
    do {
      v \<leftarrow> btb_valid (instAddr isa pc) tid (bu_btb u);
      if v then do {
        target \<leftarrow> btb_lookup (pc_zero isa) (instAddr isa pc) tid (bu_btb u);
        Some (True, target, r, u) }
      else
        let (r, u) =
          (if \<not> isCall isa inst \<and> \<not> isReturn isa inst
           then (r, u\<lparr>bu_dir := bp_btbUpdate ops tid (instAddr isa pc) (bu_dir u)\<rparr>)
           else if isCall isa inst \<and> \<not> isUncondCtrl isa inst
           then (r\<lparr>ph_pushedRAS := False\<rparr>, upd_ras tid ras_pop u)
           else (r, u))
        in Some (False, advancePC isa pc inst, r, u) }"

definition predict_indirect :: "('p, 'h) bp_ops \<Rightarrow> ('pc, 'i) isa \<Rightarrow> 'i \<Rightarrow> u64 \<Rightarrow> 'pc \<Rightarrow> nat \<Rightarrow> ('pc, 'h) pred_hist \<Rightarrow> ('p, 'pc, 'h) bpu \<Rightarrow>
    (bool \<times> 'pc \<times> ('pc, 'h) pred_hist \<times> ('p, 'pc, 'h) bpu) option"
  where "predict_indirect ops isa inst seqNum pc tid r u =
    (let r = r\<lparr>ph_wasIndirect := True\<rparr> in
     do {
       hit \<leftarrow> ipred_lookup (instAddr isa pc) (bp_getGHR ops tid (ph_bpHistory r)) tid (bu_ipred u);
       let (taken, target, r, u) =
         (case hit of
            Some target \<Rightarrow> (True, target, r, u)
          | None \<Rightarrow>
              (let (r, u) =
                (if \<not> isCall isa inst \<and> \<not> isReturn isa inst then (r, u)
                 else if isCall isa inst \<and> \<not> isUncondCtrl isa inst
                 then (r\<lparr>ph_pushedRAS := False\<rparr>, upd_ras tid ras_pop u)
                 else (r, u))
               in (False, advancePC isa pc inst, r, u)));
       Some (taken, target, r, u\<lparr>bu_ipred := ipred_recordIndirect (instAddr isa pc) (instAddr isa target) seqNum tid (bu_ipred u)\<rparr>) })"

definition predict_target :: "('p, 'h) bp_ops \<Rightarrow> ('pc, 'i) isa \<Rightarrow> 'i \<Rightarrow> u64 \<Rightarrow> 'pc \<Rightarrow> nat \<Rightarrow> bool \<Rightarrow> ('pc, 'h) pred_hist \<Rightarrow> ('p, 'pc, 'h) bpu \<Rightarrow>
    (bool \<times> 'pc \<times> ('pc, 'h) pred_hist \<times> ('p, 'pc, 'h) bpu) option"
  where "predict_target ops isa inst seqNum pc tid pred_taken r u =
    (if pred_taken then
       if isReturn isa inst then Some (predict_return isa pc tid r u)
       else
         let (r, u) = predict_call isa inst pc tid r u in
         if isDirectCtrl isa inst \<or> \<not> bu_useIndirect u
         then predict_direct ops isa inst pc tid r u
         else predict_indirect ops isa inst seqNum pc tid r u
     else
       let r = (if isReturn isa inst then r\<lparr>ph_wasReturn := True\<rparr> else r)
       in Some (False, advancePC isa pc inst, r, u))"

definition unit_predict :: "('p, 'h) bp_ops \<Rightarrow> ('pc, 'i) isa \<Rightarrow> 'i \<Rightarrow> u64 \<Rightarrow> 'pc \<Rightarrow> nat \<Rightarrow> ('p, 'pc, 'h) bpu \<Rightarrow>
    (bool \<times> 'pc \<times> ('p, 'pc, 'h) bpu) option"
  where "unit_predict ops isa inst seqNum pc tid u =
    do {
      (pred_taken, bp_history, p) \<leftarrow> predict_direction ops isa inst pc tid (bu_dir u);
      let u = u\<lparr>bu_dir := p\<rparr>;
      let predict_record = new_record isa seqNum (instAddr isa pc) pred_taken bp_history tid;
      (pred_taken, target, predict_record, u) \<leftarrow> predict_target ops isa inst seqNum pc tid pred_taken predict_record u;
      Some (pred_taken, target, u\<lparr>bu_predHist := (bu_predHist u)[tid := predict_record # (bu_predHist u ! tid)]\<rparr>) }"

text \<open>Committing takes the records from the back of the queue, which is the head of \<open>hs\<close> here.\<close>

fun commit_loop :: "('p, 'h) bp_ops \<Rightarrow> u64 \<Rightarrow> nat \<Rightarrow> ('pc, 'h) pred_hist list \<Rightarrow> 'p \<Rightarrow> (('pc, 'h) pred_hist list \<times> 'p) option"
  where
    "commit_loop ops done_sn tid [] p = Some ([], p)"
  | "commit_loop ops done_sn tid (r # hs) p =
      (if ph_seqNum r \<le> done_sn
       then do {
         p \<leftarrow> bp_update ops tid (ph_pc r) (ph_predTaken r) (ph_bpHistory r) False p;
         commit_loop ops done_sn tid hs p }
       else Some (r # hs, p))"

definition unit_commit :: "('p, 'h) bp_ops \<Rightarrow> u64 \<Rightarrow> nat \<Rightarrow> ('p, 'pc, 'h) bpu \<Rightarrow> ('p, 'pc, 'h) bpu option"
  where "unit_commit ops done_sn tid u =
    (let u = u\<lparr>bu_ipred := ipred_commit done_sn tid (bu_ipred u)\<rparr> in
     do {
       (hs, p) \<leftarrow> commit_loop ops done_sn tid (rev (bu_predHist u ! tid)) (bu_dir u);
       Some (u\<lparr>bu_predHist := (bu_predHist u)[tid := rev hs], bu_dir := p\<rparr>) })"

definition undo_ras :: "('pc, 'h) pred_hist \<Rightarrow> 'pc ras \<Rightarrow> 'pc ras"
  where "undo_ras r s =
    (if ph_usedRAS r then ras_restore (ph_RASIndex r) (ph_RASTarget r) s
     else if ph_wasCall r \<and> ph_pushedRAS r then ras_pop s
     else s)"

fun squash_loop :: "('p, 'h) bp_ops \<Rightarrow> u64 \<Rightarrow> nat \<Rightarrow> ('pc, 'h) pred_hist list \<Rightarrow> 'pc ras \<Rightarrow> 'p \<Rightarrow> ('pc, 'h) pred_hist list \<times> 'pc ras \<times> 'p"
  where
    "squash_loop ops squashed_sn tid [] s p = ([], s, p)"
  | "squash_loop ops squashed_sn tid (r # hs) s p =
      (if ph_seqNum r > squashed_sn
       then squash_loop ops squashed_sn tid hs (undo_ras r s) (bp_squash ops tid (ph_bpHistory r) p)
       else (r # hs, s, p))"

definition unit_squash :: "('p, 'h) bp_ops \<Rightarrow> u64 \<Rightarrow> nat \<Rightarrow> ('p, 'pc, 'h) bpu \<Rightarrow> ('p, 'pc, 'h) bpu"
  where "unit_squash ops squashed_sn tid u =
    (let u = u\<lparr>bu_ipred := ipred_squash squashed_sn tid (bu_ipred u)\<rparr>;
         (hs, s, p) = squash_loop ops squashed_sn tid (bu_predHist u ! tid) (bu_ras u ! tid) (bu_dir u)
     in u\<lparr>bu_predHist := (bu_predHist u)[tid := hs], bu_ras := (bu_ras u)[tid := s], bu_dir := p\<rparr>)"

text \<open>Correcting the branch itself after the younger ones are undone.\<close>

definition unit_squash_correct :: "('p, 'h) bp_ops \<Rightarrow> ('pc, 'i) isa \<Rightarrow> nat \<Rightarrow> u64 \<Rightarrow> 'pc \<Rightarrow> bool \<Rightarrow> nat \<Rightarrow> ('p, 'pc, 'h) bpu \<Rightarrow> ('p, 'pc, 'h) bpu option"
  where "unit_squash_correct ops isa rnd squashed_sn corrTarget actually_taken tid u =
    (let u = unit_squash ops squashed_sn tid u in
     case bu_predHist u ! tid of
       [] \<Rightarrow> Some u
     | r # hs \<Rightarrow>
         do {
           c_assert (ph_seqNum r = squashed_sn);
           let ghr = bp_getGHR ops tid (ph_bpHistory r);
           let r = r\<lparr>ph_predTaken := actually_taken\<rparr>;
           p \<leftarrow> bp_update ops tid (ph_pc r) actually_taken (ph_bpHistory r) True (bu_dir u);
           let u = u\<lparr>bu_dir := p\<rparr>;
           (r, u) \<leftarrow>
             (if actually_taken then
                let (r, u) = (if ph_wasReturn r \<and> \<not> ph_usedRAS r
                              then (r\<lparr>ph_usedRAS := True\<rparr>, upd_ras tid ras_pop u) else (r, u)) in
                if ph_wasIndirect r
                then do {
                  ip \<leftarrow> ipred_recordTarget (instAddr isa) rnd ghr corrTarget tid (bu_ipred u);
                  Some (r, u\<lparr>bu_ipred := ip\<rparr>) }
                else do {
                  b \<leftarrow> btb_update (ph_pc r) corrTarget tid (bu_btb u);
                  Some (r, u\<lparr>bu_btb := b\<rparr>) }
              else if ph_usedRAS r
              then Some (r\<lparr>ph_usedRAS := False\<rparr>, upd_ras tid (ras_restore (ph_RASIndex r) (ph_RASTarget r)) u)
              else if ph_wasCall r \<and> ph_pushedRAS r
              then Some (r\<lparr>ph_pushedRAS := False\<rparr>, upd_ras tid ras_pop u)
              else Some (r, u));
           Some (u\<lparr>bu_predHist := (bu_predHist u)[tid := r # hs]\<rparr>) })"

section \<open>The return address stack as a stack\<close>

definition ras_ok :: "'pc ras \<Rightarrow> bool"
  where "ras_ok r \<longleftrightarrow> 0 < ras_numEntries r \<and> length (addrStack r) = ras_numEntries r \<and> tos r < ras_numEntries r \<and>
    usedEntries r \<le> ras_numEntries r"

text \<open>The entry \<open>d\<close> places below the top.\<close>

definition ras_entry :: "'pc ras \<Rightarrow> nat \<Rightarrow> 'pc"
  where "ras_entry r d = addrStack r ! (if d \<le> tos r then tos r - d else tos r + ras_numEntries r - d)"

lemma ras_top_entry: "ras_top r = ras_entry r 0"
  by (simp add: ras_top_def ras_entry_def)

lemma incrTos_simps [simp]:
  "ras_numEntries (incrTos r) = ras_numEntries r" "addrStack (incrTos r) = addrStack r" "usedEntries (incrTos r) = usedEntries r"
  "tos (incrTos r) = (if tos r + 1 = ras_numEntries r then 0 else tos r + 1)"
  by (simp_all add: incrTos_def Let_def)

lemma ras_push_simps [simp]:
  "ras_numEntries (ras_push x r) = ras_numEntries r"
  "tos (ras_push x r) = (if tos r + 1 = ras_numEntries r then 0 else tos r + 1)"
  "addrStack (ras_push x r) = (addrStack r)[(if tos r + 1 = ras_numEntries r then 0 else tos r + 1) := x]"
  "usedEntries (ras_push x r) = (if usedEntries r \<noteq> ras_numEntries r then usedEntries r + 1 else usedEntries r)"
  by (simp_all add: ras_push_def Let_def)

lemma ras_pop_simps [simp]:
  "ras_numEntries (ras_pop r) = ras_numEntries r" "addrStack (ras_pop r) = addrStack r"
  "tos (ras_pop r) = (if tos r = 0 then ras_numEntries r - 1 else tos r - 1)" "usedEntries (ras_pop r) = usedEntries r - 1"
  by (simp_all add: ras_pop_def decrTos_def Let_def)

lemma ras_restore_simps [simp]:
  "ras_numEntries (ras_restore i x r) = ras_numEntries r" "addrStack (ras_restore i x r) = (addrStack r)[i := x]"
  "tos (ras_restore i x r) = i" "usedEntries (ras_restore i x r) = usedEntries r"
  by (simp_all add: ras_restore_def Let_def)

lemma ras_ok_steps:
  assumes "ras_ok r"
  shows "ras_ok (ras_push x r)" "ras_ok (ras_pop r)" "i < ras_numEntries r \<Longrightarrow> ras_ok (ras_restore i x r)"
  using assms by (auto simp: ras_ok_def)

lemma ras_entry_push:
  assumes "ras_ok r"
  shows "ras_entry (ras_push x r) 0 = x" "Suc d < ras_numEntries r \<Longrightarrow> ras_entry (ras_push x r) (Suc d) = ras_entry r d"
  using assms by (auto simp: ras_ok_def ras_entry_def nth_list_update intro!: arg_cong [where f = "(!) (addrStack r)"])

lemma ras_entry_pop:
  assumes "ras_ok r" "Suc d < ras_numEntries r"
  shows "ras_entry (ras_pop r) d = ras_entry r (Suc d)"
  using assms by (auto simp: ras_ok_def ras_entry_def Suc_diff_le intro!: arg_cong [where f = "(!) (addrStack r)"])

definition ras_abs :: "'pc ras \<Rightarrow> 'pc list"
  where "ras_abs r = map (ras_entry r) [0..<usedEntries r]"

text \<open>
  C16: The circular return address stack is a stack of bounded depth: pushing adds an address on top
  and drops the oldest one when the stack is full, popping removes the top, and the top is the
  address last pushed and not yet popped.
\<close>

theorem ras_is_bounded_stack:
  assumes "ras_ok r"
  shows "ras_abs (ras_push x r) = take (ras_numEntries r) (x # ras_abs r) \<and> ras_abs (ras_pop r) = tl (ras_abs r) \<and>
    (ras_abs r \<noteq> [] \<longrightarrow> ras_top r = hd (ras_abs r)) \<and> (ras_empty r \<longleftrightarrow> ras_abs r = [])"
proof (intro conjI impI)
  let ?n = "ras_numEntries r" and ?u = "usedEntries r"
  have u: "?u \<le> ?n" "0 < ?n"
    using assms by (simp_all add: ras_ok_def)
  have e: "ras_entry (ras_push x r) i = (if i = 0 then x else ras_entry r (i - 1))" if "i < ?n" for i
    using ras_entry_push [OF assms, where x = x] that by (cases i) simp_all
  show "ras_abs (ras_push x r) = take ?n (x # ras_abs r)"
  proof (rule nth_equalityI)
    show "length (ras_abs (ras_push x r)) = length (take ?n (x # ras_abs r))"
      using u by (auto simp: ras_abs_def)
    fix i
    assume "i < length (ras_abs (ras_push x r))"
    hence "i < ?n" "i < length (ras_abs (ras_push x r))"
      using u by (auto simp: ras_abs_def split: if_splits)
    thus "ras_abs (ras_push x r) ! i = take ?n (x # ras_abs r) ! i"
      using e [of i] u by (cases i) (auto simp: ras_abs_def split: if_splits)
  qed
  show "ras_abs (ras_pop r) = tl (ras_abs r)"
    by (rule nth_equalityI) (use u ras_entry_pop [OF assms] in \<open>auto simp: ras_abs_def nth_tl\<close>)
  show "ras_top r = hd (ras_abs r)" if "ras_abs r \<noteq> []"
    using that by (cases "usedEntries r") (simp_all add: ras_abs_def ras_top_entry upt_conv_Cons del: upt_Suc)
qed (auto simp: ras_empty_def ras_abs_def)

theorem ras_is_bounded_stack_witness:
  "ras_abs (ras_push (5 :: nat) (ras_push 4 (ras_push 3 (ras_init 0 2)))) = [5, 4] \<and> ras_top (ras_pop (ras_push 5 (ras_push 4 (ras_init 0 2)))) = (4 :: nat)"
proof -
  have o: "ras_ok (ras_init (0 :: nat) 2)"
    by (simp add: ras_ok_def ras_init_def ras_reset_def)
  let ?r1 = "ras_push (3 :: nat) (ras_init 0 2)" and ?r2 = "ras_push 4 (ras_push (3 :: nat) (ras_init 0 2))"
  have n: "ras_numEntries (ras_init (0 :: nat) 2) = 2"
    by (simp add: ras_init_def ras_reset_def)
  have i: "ras_abs (ras_init (0 :: nat) 2) = []"
    by (simp add: ras_abs_def ras_init_def ras_reset_def)
  have r: "ras_abs (ras_push x r) = take (ras_numEntries r) (x # ras_abs r)" if "ras_ok r" for x and r :: "nat ras"
    using ras_is_bounded_stack [OF that] by blast
  have a: "ras_abs (ras_push 5 ?r2) = [5, 4]"
    by (simp add: r o n i ras_ok_steps)
  have "ras_top (ras_pop (ras_push 5 (ras_push 4 (ras_init 0 2)))) = (4 :: nat)"
    by (simp add: ras_top_def ras_init_def ras_reset_def)
  with a show ?thesis
    by blast
qed

section \<open>Squashing undoes predicting\<close>

text \<open>Two stacks with the same top index that agree on all but the \<open>k\<close> deepest entries.\<close>

definition ras_eq :: "nat \<Rightarrow> 'pc ras \<Rightarrow> 'pc ras \<Rightarrow> bool"
  where "ras_eq k a b \<longleftrightarrow> ras_ok a \<and> ras_ok b \<and> ras_numEntries a = ras_numEntries b \<and> tos a = tos b \<and>
    (\<forall>d. d + k < ras_numEntries b \<longrightarrow> ras_entry a d = ras_entry b d)"

lemma ras_eq_refl: "ras_ok r \<Longrightarrow> ras_eq k r r"
  by (simp add: ras_eq_def)

lemma ras_eq_Suc: "ras_eq k a b \<Longrightarrow> ras_eq (Suc k) a b"
  by (simp add: ras_eq_def)

lemma ras_eq_undo_push:
  assumes "ras_eq k a (ras_push x b)" "ras_ok b"
  shows "ras_eq (Suc k) (ras_pop a) b"
proof -
  have a: "ras_ok a" "ras_numEntries a = ras_numEntries b" "tos a = tos (ras_push x b)"
      "\<And>d. d + k < ras_numEntries b \<Longrightarrow> ras_entry a d = ras_entry (ras_push x b) d"
    using assms(1) by (simp_all add: ras_eq_def)
  have "ras_entry (ras_pop a) d = ras_entry b d" if "d + Suc k < ras_numEntries b" for d
    using that ras_entry_pop [OF a(1), of d] a(2) a(4) [of "Suc d"] ras_entry_push(2) [OF assms(2), of d x] by simp
  moreover have "tos (ras_pop a) = tos b"
    using assms(2) a(2,3) by (auto simp: ras_ok_def)
  ultimately show ?thesis
    using assms(2) a(2) ras_ok_steps(2) [OF a(1)] by (simp add: ras_eq_def)
qed

lemma ras_eq_undo_pop:
  assumes "ras_eq k a (ras_pop b)" "ras_ok b"
  shows "ras_eq (Suc k) (ras_restore (tos b) (ras_top b) a) b"
proof -
  let ?a = "ras_restore (tos b) (ras_top b) a"
  have a: "ras_ok a" "ras_numEntries a = ras_numEntries b" "tos a = tos (ras_pop b)"
      "\<And>d. d + k < ras_numEntries b \<Longrightarrow> ras_entry a d = ras_entry (ras_pop b) d"
    using assms(1) by (simp_all add: ras_eq_def)
  have t: "tos b < ras_numEntries b" "length (addrStack a) = ras_numEntries b"
    using assms(2) a(1,2) by (simp_all add: ras_ok_def)
  have "ras_entry ?a d = ras_entry b d" if "d + Suc k < ras_numEntries b" for d
  proof (cases d)
    case 0
    with t show ?thesis
      by (simp add: ras_entry_def ras_top_def)
  next
    case (Suc e)
    have "ras_entry ?a (Suc e) = ras_entry a e"
      using that Suc t a(2,3) by (auto simp: ras_entry_def nth_list_update intro!: arg_cong [where f = "(!) (addrStack a)"])
    also have "\<dots> = ras_entry (ras_pop b) e"
      using a(4) that Suc by simp
    also have "\<dots> = ras_entry b (Suc e)"
      using ras_entry_pop [OF assms(2)] that Suc by simp
    finally show ?thesis
      by (simp add: Suc)
  qed
  moreover have "ras_ok ?a"
    using ras_ok_steps(3) [OF a(1)] a(2) t(1) by simp
  ultimately show ?thesis
    using assms(2) a(2) by (simp add: ras_eq_def)
qed

lemma ras_eq_push_pop:
  assumes "ras_eq k a (ras_pop (ras_push x b))" "ras_ok b"
  shows "ras_eq (Suc k) a b"
proof -
  have a: "ras_ok a" "ras_numEntries a = ras_numEntries b" "tos a = tos (ras_pop (ras_push x b))"
      "\<And>d. d + k < ras_numEntries b \<Longrightarrow> ras_entry a d = ras_entry (ras_pop (ras_push x b)) d"
    using assms(1) by (simp_all add: ras_eq_def)
  have "ras_entry a d = ras_entry b d" if "d + Suc k < ras_numEntries b" for d
    using that a(4) [of d] ras_entry_pop [OF ras_ok_steps(1) [OF assms(2)], of d x] ras_entry_push(2) [OF assms(2), of d x] by simp
  moreover have "tos a = tos b"
    using assms(2) a(3) by (auto simp: ras_ok_def)
  ultimately show ?thesis
    using assms(2) a by (simp add: ras_eq_def)
qed

text \<open>A sequence of predictions: the instruction, its sequence number and its address.\<close>

fun unit_predicts :: "('p, 'h) bp_ops \<Rightarrow> ('pc, 'i) isa \<Rightarrow> nat \<Rightarrow> ('i \<times> u64 \<times> 'pc) list \<Rightarrow> ('p, 'pc, 'h) bpu \<Rightarrow> ('p, 'pc, 'h) bpu option"
  where
    "unit_predicts ops isa tid [] u = Some u"
  | "unit_predicts ops isa tid ((inst, sn, pc) # xs) u =
      do {
        (_, _, u) \<leftarrow> unit_predict ops isa inst sn pc tid u;
        unit_predicts ops isa tid xs u }"

text \<open>
  An unconditional jump that is neither a call nor a return and takes its target from the buffer is
  there.  Otherwise the unit calls \<open>btbUpdate\<close> for a branch whose history record does not say
  which local history to restore.
\<close>

definition jump_hits :: "('pc, 'i) isa \<Rightarrow> nat \<Rightarrow> ('p, 'pc, 'h) bpu \<Rightarrow> 'i \<times> u64 \<times> 'pc \<Rightarrow> bool"
  where "jump_hits isa tid u = (\<lambda>(inst, sn, pc). isUncondCtrl isa inst \<and> \<not> isCall isa inst \<and> \<not> isReturn isa inst \<and>
    (isDirectCtrl isa inst \<or> \<not> bu_useIndirect u) \<longrightarrow> btb_hit (instAddr isa pc) tid (bu_btb u))"

lemma upd_ras_simps [simp]:
  "bu_predHist (upd_ras tid f u) = bu_predHist u" "bu_btb (upd_ras tid f u) = bu_btb u" "bu_dir (upd_ras tid f u) = bu_dir u"
  "bu_useIndirect (upd_ras tid f u) = bu_useIndirect u" "bu_ipred (upd_ras tid f u) = bu_ipred u"
  "bu_ras (upd_ras tid f u) = (bu_ras u)[tid := f (bu_ras u ! tid)]"
  by (simp_all add: upd_ras_def)

text \<open>What the target part of a prediction does to the record, the stack and the direction predictor.\<close>

definition target_ras :: "('pc, 'h) pred_hist \<Rightarrow> 'pc \<Rightarrow> 'pc ras \<Rightarrow> 'pc ras \<Rightarrow> bool"
  where "target_ras r pc s s1 \<longleftrightarrow>
    (if ph_usedRAS r then s1 = ras_pop s \<and> ph_RASIndex r = tos s \<and> ph_RASTarget r = ras_top s
     else if ph_wasCall r \<and> ph_pushedRAS r then s1 = ras_push pc s
     else s1 = s \<or> s1 = ras_pop (ras_push pc s))"

lemma undo_ras_eq:
  assumes "target_ras r pc s s1" "ras_ok s" "ras_eq k a s1"
  shows "ras_eq (Suc k) (undo_ras r a) s"
proof (cases "ph_usedRAS r")
  case True
  with assms show ?thesis
    using ras_eq_undo_pop [of k a s] by (simp add: target_ras_def undo_ras_def)
next
  case False
  show ?thesis
  proof (cases "ph_wasCall r \<and> ph_pushedRAS r")
    case True
    with False assms show ?thesis
      using ras_eq_undo_push [of k a pc s] by (simp add: target_ras_def undo_ras_def)
  next
    case no: False
    with False assms(1) have "s1 = s \<or> s1 = ras_pop (ras_push pc s)"
      by (simp add: target_ras_def)
    thus ?thesis
      using no False assms(2,3) ras_eq_push_pop [of k a pc s] ras_eq_Suc [of k a s] by (auto simp: undo_ras_def)
  qed
qed

definition fresh_record :: "('pc, 'h) pred_hist \<Rightarrow> bool"
  where "fresh_record r \<longleftrightarrow> \<not> ph_usedRAS r \<and> \<not> ph_pushedRAS r \<and> \<not> ph_wasCall r"

text \<open>What a prediction step may change, from \<open>u\<close> to \<open>u1\<close>, with the record going from \<open>r0\<close> to \<open>r\<close>.\<close>

definition target_step :: "('p, 'h) bp_ops \<Rightarrow> ('pc, 'i) isa \<Rightarrow> 'i \<Rightarrow> u64 \<Rightarrow> 'pc \<Rightarrow> nat \<Rightarrow>
    ('pc, 'h) pred_hist \<Rightarrow> ('p, 'pc, 'h) bpu \<Rightarrow> ('pc, 'h) pred_hist \<Rightarrow> ('p, 'pc, 'h) bpu \<Rightarrow> bool"
  where "target_step ops isa inst sn pc tid r0 u r u1 \<longleftrightarrow>
    bu_predHist u1 = bu_predHist u \<and> bu_btb u1 = bu_btb u \<and> bu_useIndirect u1 = bu_useIndirect u \<and>
    ph_seqNum r = ph_seqNum r0 \<and> ph_bpHistory r = ph_bpHistory r0 \<and>
    (\<exists>s1. bu_ras u1 = (bu_ras u)[tid := s1] \<and> target_ras r pc (bu_ras u ! tid) s1) \<and>
    (bu_dir u1 = bu_dir u \<or> bu_dir u1 = bp_btbUpdate ops tid (instAddr isa pc) (bu_dir u) \<and> \<not> jump_hits isa tid u (inst, sn, pc) \<or>
      bu_dir u1 = bp_btbUpdate ops tid (instAddr isa pc) (bu_dir u) \<and> \<not> isUncondCtrl isa inst) \<and>
    (bu_ipred u1 = bu_ipred u \<or> (\<exists>t. bu_ipred u1 = ipred_recordIndirect (instAddr isa pc) t sn tid (bu_ipred u)))"

lemma target_step_return:
  assumes "fresh_record r0" "predict_return isa pc tid r0 u = (t, tg, r, u1)"
  shows "target_step ops isa inst sn pc tid r0 u r u1"
  using assms by (auto simp: predict_return_def Let_def target_step_def target_ras_def ras_topIdx_def)

lemma target_step_none:
  assumes "fresh_record r0"
  shows "target_step ops isa inst sn pc tid r0 u (r0\<lparr>ph_wasReturn := b\<rparr>) u" "target_step ops isa inst sn pc tid r0 u r0 u"
  using assms by (auto simp: target_step_def target_ras_def fresh_record_def intro!: exI [of _ "bu_ras u ! tid"])

lemma predict_call_cases:
  assumes "predict_call isa inst pc tid r0 u = (r, u1)"
  obtains (call) "isCall isa inst" "r = r0\<lparr>ph_pushedRAS := True, ph_wasCall := True\<rparr>" "u1 = upd_ras tid (ras_push pc) u"
  | (other) "\<not> isCall isa inst" "r = r0" "u1 = u"
  using assms by (auto simp: predict_call_def split: if_splits)

lemma target_step_direct:
  assumes r0: "fresh_record r0" and t: "tid < length (bu_ras u)" and ret: "\<not> isReturn isa inst"
    and dd: "isDirectCtrl isa inst \<or> \<not> bu_useIndirect u"
    and c: "predict_call isa inst pc tid r0 u = (rc, uc)" and d: "predict_direct ops isa inst pc tid rc uc = Some (tk, tg, r, u1)"
  shows "target_step ops isa inst sn pc tid r0 u r u1"
proof -
  have f: "\<not> ph_usedRAS r0" "\<not> ph_pushedRAS r0" "\<not> ph_wasCall r0"
    using r0 by (simp_all add: fresh_record_def)
  have cases: "(btb_hit (instAddr isa pc) tid (bu_btb uc) \<and> r = rc \<and> u1 = uc) \<or> (\<not> btb_hit (instAddr isa pc) tid (bu_btb uc) \<and>
      (if \<not> isCall isa inst then r = rc \<and> u1 = uc\<lparr>bu_dir := bp_btbUpdate ops tid (instAddr isa pc) (bu_dir uc)\<rparr>
       else if \<not> isUncondCtrl isa inst then r = rc\<lparr>ph_pushedRAS := False\<rparr> \<and> u1 = upd_ras tid ras_pop uc
       else r = rc \<and> u1 = uc))"
    using d ret by (auto simp: predict_direct_def btb_valid_def btb_lookup_def split: bind_splits if_splits)
  from c show ?thesis
  proof (cases rule: predict_call_cases)
    case call
    have "(r = rc \<and> u1 = uc) \<or> (r = rc\<lparr>ph_pushedRAS := False\<rparr> \<and> u1 = upd_ras tid ras_pop uc)"
      using cases call(1) by (auto split: if_splits)
    thus ?thesis
      using call f t by (elim disjE) (auto simp: target_step_def target_ras_def)
  next
    case other
    hence "(r = r0 \<and> u1 = u) \<or> (\<not> btb_hit (instAddr isa pc) tid (bu_btb u) \<and> r = r0 \<and> u1 = u\<lparr>bu_dir := bp_btbUpdate ops tid (instAddr isa pc) (bu_dir u)\<rparr>)"
      using cases by auto
    thus ?thesis
    proof
      assume "r = r0 \<and> u1 = u"
      thus ?thesis
        using target_step_none(2) [OF r0] by simp
    next
      assume a: "\<not> btb_hit (instAddr isa pc) tid (bu_btb u) \<and> r = r0 \<and> u1 = u\<lparr>bu_dir := bp_btbUpdate ops tid (instAddr isa pc) (bu_dir u)\<rparr>"
      have "\<not> jump_hits isa tid u (inst, sn, pc) \<or> \<not> isUncondCtrl isa inst"
        using a other(1) ret dd by (simp add: jump_hits_def)
      with a f show ?thesis
        by (auto simp: target_step_def target_ras_def intro!: exI [of _ "bu_ras u ! tid"])
    qed
  qed
qed

lemma target_step_indirect:
  assumes r0: "fresh_record r0" and t: "tid < length (bu_ras u)"
    and c: "predict_call isa inst pc tid r0 u = (rc, uc)" and d: "predict_indirect ops isa inst sn pc tid rc uc = Some (tk, tg, r, u1)"
  shows "target_step ops isa inst sn pc tid r0 u r u1"
proof -
  have f: "\<not> ph_usedRAS r0" "\<not> ph_pushedRAS r0" "\<not> ph_wasCall r0"
    using r0 by (simp_all add: fresh_record_def)
  let ?i = "\<lambda>v. v\<lparr>bu_ipred := ipred_recordIndirect (instAddr isa pc) (instAddr isa tg) sn tid (bu_ipred v)\<rparr>"
  have cases: "(r = rc\<lparr>ph_wasIndirect := True\<rparr> \<and> u1 = ?i uc) \<or>
      (isCall isa inst \<and> r = rc\<lparr>ph_wasIndirect := True, ph_pushedRAS := False\<rparr> \<and> u1 = ?i (upd_ras tid ras_pop uc))"
    using d by (auto simp: predict_indirect_def Let_def split: bind_splits option.splits if_splits)
  from c show ?thesis
  proof (cases rule: predict_call_cases)
    case call
    thus ?thesis
      using cases f t by (elim disjE) (auto simp: target_step_def target_ras_def)
  next
    case other
    thus ?thesis
      using cases f by (auto simp: target_step_def target_ras_def intro!: exI [of _ "bu_ras u ! tid"])
  qed
qed

lemma target_step:
  assumes r0: "fresh_record r0" and t: "tid < length (bu_ras u)"
    and d: "predict_target ops isa inst sn pc tid b r0 u = Some (tk, tg, r, u1)"
  shows "target_step ops isa inst sn pc tid r0 u r u1"
proof (cases b)
  case False
  with d have "(r = r0 \<or> r = r0\<lparr>ph_wasReturn := True\<rparr>) \<and> u1 = u"
    by (auto simp: predict_target_def Let_def split: if_splits)
  thus ?thesis
    using target_step_none [OF r0] by auto
next
  case b: True
  show ?thesis
  proof (cases "isReturn isa inst")
    case True
    with d b have "predict_return isa pc tid r0 u = (tk, tg, r, u1)"
      by (simp add: predict_target_def)
    with r0 show ?thesis
      by (rule target_step_return)
  next
    case False
    obtain rc uc where c: "predict_call isa inst pc tid r0 u = (rc, uc)"
      by (cases "predict_call isa inst pc tid r0 u")
    have ui: "bu_useIndirect uc = bu_useIndirect u"
      using c by (cases rule: predict_call_cases) simp_all
    show ?thesis
    proof (cases "isDirectCtrl isa inst \<or> \<not> bu_useIndirect u")
      case True
      with d b False c ui have "predict_direct ops isa inst pc tid rc uc = Some (tk, tg, r, u1)"
        by (simp add: predict_target_def)
      from target_step_direct [OF r0 t False True c this] show ?thesis .
    next
      case no: False
      with d b False c ui have "predict_indirect ops isa inst sn pc tid rc uc = Some (tk, tg, r, u1)"
        by (simp add: predict_target_def)
      from target_step_indirect [OF r0 t c this] show ?thesis .
    qed
  qed
qed

lemma upd_thread_comp:
  "tid < length (ip_threadInfo ip) \<Longrightarrow> upd_thread tid f (upd_thread tid g ip) = upd_thread tid (\<lambda>t. f (g t)) ip"
  by (simp add: upd_thread_def)

lemma upd_thread_id: "(\<And>t. t = ip_threadInfo ip ! tid \<Longrightarrow> f t = t) \<Longrightarrow> upd_thread tid f ip = ip"
  by (simp add: upd_thread_def)

lemma length_upd_thread [simp]: "length (ip_threadInfo (upd_thread tid f ip)) = length (ip_threadInfo ip)"
  by (simp add: upd_thread_def)

lemma ipred_squash_appended:
  assumes "tid < length (ip_threadInfo ip)" "\<forall>e \<in> set (pathHist (ip_threadInfo ip ! tid)). he_seqNum e \<le> sn" "\<forall>e \<in> set ext. sn < he_seqNum e"
  shows "ipred_squash sn tid (upd_thread tid (\<lambda>t. t\<lparr>pathHist := pathHist t @ ext\<rparr>) ip) = ip"
proof -
  have e: "takeWhile (\<lambda>e. \<not> he_seqNum e > sn) ext = []"
    using assms(3) by (cases ext) auto
  have "takeWhile (\<lambda>e. \<not> he_seqNum e > sn) (pathHist (ip_threadInfo ip ! tid) @ ext) = pathHist (ip_threadInfo ip ! tid)"
    using assms(2) e by (subst takeWhile_append2) (auto simp: not_less)
  thus ?thesis
    unfolding ipred_squash_def upd_thread_comp [OF assms(1)] by (intro upd_thread_id) simp
qed

lemma squash_loop_undo:
  "(\<forall>r \<in> set rs. sn < ph_seqNum r) \<Longrightarrow> (\<forall>r \<in> set hs. ph_seqNum r \<le> sn) \<Longrightarrow>
    squash_loop ops sn tid (rs @ hs) s p =
    (hs, fold undo_ras rs s, fold (\<lambda>r. bp_squash ops tid (ph_bpHistory r)) rs p)"
proof (induction rs arbitrary: s p)
  case Nil
  thus ?case
    by (cases hs) (auto simp: not_less)
qed simp

context dir_predictor
begin

lemma direction_wf:
  assumes "wf tid p0" "predict_direction ops isa inst pc tid p0 = Some (b, h, p1)"
  shows "wf tid p1"
proof (cases "isUncondCtrl isa inst")
  case True
  hence "bp_uncondBranch ops tid (instAddr isa pc) p0 = (h, p1)"
    using assms(2) by (auto simp: predict_direction_def split: prod.splits)
  with assms(1) show ?thesis
    by (rule uncond_wf)
next
  case False
  hence "bp_lookup ops tid (instAddr isa pc) p0 = Some (b, h, p1)"
    using assms(2) by (simp add: predict_direction_def)
  with assms(1) show ?thesis
    by (rule lookup_wf)
qed

lemma direction_undo:
  assumes w: "wf tid p0" and d: "predict_direction ops isa inst pc tid p0 = Some (b, h, p1)"
    and v: "wf tid p" "view tid p = view tid p1 \<or> view tid p = view tid (bp_btbUpdate ops tid (instAddr isa pc) p1) \<and> \<not> isUncondCtrl isa inst"
  shows "view tid (bp_squash ops tid h p) = view tid p0"
proof (cases "isUncondCtrl isa inst")
  case True
  hence "bp_uncondBranch ops tid (instAddr isa pc) p0 = (h, p1)"
    using d by (auto simp: predict_direction_def split: prod.splits)
  with True v show ?thesis
    using uncond_undo [OF w] by blast
next
  case False
  hence "bp_lookup ops tid (instAddr isa pc) p0 = Some (b, h, p1)"
    using d by (simp add: predict_direction_def)
  with False v show ?thesis
    using lookup_undo [OF w] by blast
qed

lemma predict_undo:
  assumes w: "wf tid (bu_dir u)" and s: "ras_ok (bu_ras u ! tid)" "tid < length (bu_ras u)" and j: "jump_hits isa tid u (inst, sn, pc)"
    and p: "unit_predict ops isa inst sn pc tid u = Some (b, tg, u1)"
  obtains r where "bu_predHist u1 = (bu_predHist u)[tid := r # bu_predHist u ! tid]" "ph_seqNum r = sn"
    "bu_btb u1 = bu_btb u" "bu_useIndirect u1 = bu_useIndirect u" "wf tid (bu_dir u1)" "ras_ok (bu_ras u1 ! tid)"
    "\<exists>s1. bu_ras u1 = (bu_ras u)[tid := s1]"
    "bu_ipred u1 = bu_ipred u \<or> (\<exists>a t. bu_ipred u1 = ipred_recordIndirect a t sn tid (bu_ipred u))"
    "\<And>k a q. ras_eq k a (bu_ras u1 ! tid) \<Longrightarrow> wf tid q \<Longrightarrow> view tid q = view tid (bu_dir u1) \<Longrightarrow>
      ras_eq (Suc k) (undo_ras r a) (bu_ras u ! tid) \<and> view tid (bp_squash ops tid (ph_bpHistory r) q) = view tid (bu_dir u)"
proof -
  from p obtain b0 h p1 where d: "predict_direction ops isa inst pc tid (bu_dir u) = Some (b0, h, p1)"
    by (auto simp: unit_predict_def split: bind_splits)
  define r0 where "r0 = new_record isa sn (instAddr isa pc) b0 h tid"
  let ?u = "u\<lparr>bu_dir := p1\<rparr>"
  from p d obtain r u2 where t: "predict_target ops isa inst sn pc tid b0 r0 ?u = Some (b, tg, r, u2)"
    and u1: "u1 = u2\<lparr>bu_predHist := (bu_predHist u2)[tid := r # bu_predHist u2 ! tid]\<rparr>"
    by (auto simp: unit_predict_def r0_def split: bind_splits)
  have "fresh_record r0" "tid < length (bu_ras ?u)"
    using s(2) by (simp_all add: r0_def fresh_record_def new_record_def)
  note st = target_step [OF this t, unfolded target_step_def]
  from st obtain s1 where s1: "bu_ras u2 = (bu_ras u)[tid := s1]" "target_ras r pc (bu_ras u ! tid) s1"
    by auto
  have r: "ph_seqNum r = sn" "ph_bpHistory r = h"
    using st by (simp_all add: r0_def new_record_def)
  have jj: "jump_hits isa tid ?u (inst, sn, pc)"
    using j by (simp add: jump_hits_def)
  have dir: "bu_dir u1 = p1 \<or> bu_dir u1 = bp_btbUpdate ops tid (instAddr isa pc) p1 \<and> \<not> isUncondCtrl isa inst"
    using st jj by (auto simp: u1)
  have w1: "wf tid p1"
    by (rule direction_wf [OF w d])
  have ok1: "ras_ok s1"
    using s1(2) s(1) by (auto simp: target_ras_def ras_ok_steps split: if_splits)
  have sn1: "bu_ras u1 ! tid = s1"
    using s1(1) s(2) by (simp add: u1)
  show ?thesis
  proof (rule that [of r])
    show "wf tid (bu_dir u1)"
      using dir w1 btb_wf by auto
    show "bu_ipred u1 = bu_ipred u \<or> (\<exists>a t. bu_ipred u1 = ipred_recordIndirect a t sn tid (bu_ipred u))"
      using st by (auto simp: u1)
    fix k a q
    assume a: "ras_eq k a (bu_ras u1 ! tid)" "wf tid q" "view tid q = view tid (bu_dir u1)"
    have "view tid (bp_squash ops tid h q) = view tid (bu_dir u)"
      by (rule direction_undo [OF w d a(2)]) (use a(3) dir in auto)
    moreover have "ras_eq (Suc k) (undo_ras r a) (bu_ras u ! tid)"
      by (rule undo_ras_eq [OF s1(2) s(1)]) (use a(1) sn1 in simp)
    ultimately show "ras_eq (Suc k) (undo_ras r a) (bu_ras u ! tid) \<and> view tid (bp_squash ops tid (ph_bpHistory r) q) = view tid (bu_dir u)"
      by (simp add: r)
  qed (use st s1 ok1 sn1 r in \<open>auto simp: u1\<close>)
qed

end

context dir_predictor
begin

lemma predicts_undo:
  assumes "unit_predicts ops isa tid xs u = Some u'" "wf tid (bu_dir u)" "ras_ok (bu_ras u ! tid)" "tid < length (bu_ras u)"
    "tid < length (bu_predHist u)" "tid < length (ip_threadInfo (bu_ipred u))"
    "\<forall>x \<in> set xs. jump_hits isa tid u x \<and> sn < fst (snd x)"
  shows "\<exists>rs ext. bu_predHist u' = (bu_predHist u)[tid := rs @ bu_predHist u ! tid] \<and> (\<forall>r \<in> set rs. sn < ph_seqNum r) \<and>
    bu_btb u' = bu_btb u \<and> bu_useIndirect u' = bu_useIndirect u \<and> (\<exists>s1. bu_ras u' = (bu_ras u)[tid := s1]) \<and>
    bu_ipred u' = upd_thread tid (\<lambda>t. t\<lparr>pathHist := pathHist t @ ext\<rparr>) (bu_ipred u) \<and> (\<forall>e \<in> set ext. sn < he_seqNum e) \<and>
    ras_eq (length xs) (fold undo_ras rs (bu_ras u' ! tid)) (bu_ras u ! tid) \<and>
    view tid (fold (\<lambda>r. bp_squash ops tid (ph_bpHistory r)) rs (bu_dir u')) = view tid (bu_dir u) \<and>
    wf tid (fold (\<lambda>r. bp_squash ops tid (ph_bpHistory r)) rs (bu_dir u'))"
  using assms
proof (induction xs arbitrary: u)
  case Nil
  thus ?case
    by (intro exI [of _ "[]"]) (auto simp: ras_eq_refl upd_thread_def intro!: exI [of _ "bu_ras u' ! tid"])
next
  case (Cons x xs)
  obtain inst m pc where x: "x = (inst, m, pc)"
    by (cases x)
  from Cons.prems(1) obtain b tg u1 where p: "unit_predict ops isa inst m pc tid u = Some (b, tg, u1)" and ps: "unit_predicts ops isa tid xs u1 = Some u'"
    by (auto simp: x split: bind_splits)
  have j: "jump_hits isa tid u (inst, m, pc)" "sn < m"
    using Cons.prems(7) by (auto simp: x)
  from predict_undo [OF Cons.prems(2-4) j(1) p] obtain r where
    r: "bu_predHist u1 = (bu_predHist u)[tid := r # bu_predHist u ! tid]" "ph_seqNum r = m"
    "bu_btb u1 = bu_btb u" "bu_useIndirect u1 = bu_useIndirect u" "wf tid (bu_dir u1)" "ras_ok (bu_ras u1 ! tid)"
    "\<exists>s1. bu_ras u1 = (bu_ras u)[tid := s1]"
    "bu_ipred u1 = bu_ipred u \<or> (\<exists>a t. bu_ipred u1 = ipred_recordIndirect a t m tid (bu_ipred u))"
    and un: "\<And>k a q. ras_eq k a (bu_ras u1 ! tid) \<Longrightarrow> wf tid q \<Longrightarrow> view tid q = view tid (bu_dir u1) \<Longrightarrow>
      ras_eq (Suc k) (undo_ras r a) (bu_ras u ! tid) \<and> view tid (bp_squash ops tid (ph_bpHistory r) q) = view tid (bu_dir u)"
    by blast
  obtain e1 where e1: "bu_ipred u1 = upd_thread tid (\<lambda>t. t\<lparr>pathHist := pathHist t @ e1\<rparr>) (bu_ipred u)" "\<forall>e \<in> set e1. sn < he_seqNum e"
  proof (cases "bu_ipred u1 = bu_ipred u")
    case True
    show ?thesis
      by (rule that [of "[]"]) (simp_all add: True upd_thread_def)
  next
    case False
    then obtain a t where "bu_ipred u1 = ipred_recordIndirect a t m tid (bu_ipred u)"
      using r(8) by blast
    thus ?thesis
      using that [of "[\<lparr>he_pcAddr = a, he_targetAddr = t, he_seqNum = m\<rparr>]"] j(2) by (simp add: ipred_recordIndirect_def)
  qed
  have l: "tid < length (bu_ras u1)" "tid < length (bu_predHist u1)" "tid < length (ip_threadInfo (bu_ipred u1))"
    using r(1,7) Cons.prems(4,5,6) e1(1) by auto
  have jj: "\<forall>x \<in> set xs. jump_hits isa tid u1 x \<and> sn < fst (snd x)"
    using Cons.prems(7) r(3,4) by (simp add: jump_hits_def)
  from Cons.IH [OF ps r(5,6) l jj] obtain rs ext where
    ih: "bu_predHist u' = (bu_predHist u1)[tid := rs @ bu_predHist u1 ! tid]" "\<forall>r \<in> set rs. sn < ph_seqNum r"
    "bu_btb u' = bu_btb u1" "bu_useIndirect u' = bu_useIndirect u1" "\<exists>s1. bu_ras u' = (bu_ras u1)[tid := s1]"
    "bu_ipred u' = upd_thread tid (\<lambda>t. t\<lparr>pathHist := pathHist t @ ext\<rparr>) (bu_ipred u1)" "\<forall>e \<in> set ext. sn < he_seqNum e"
    "ras_eq (length xs) (fold undo_ras rs (bu_ras u' ! tid)) (bu_ras u1 ! tid)"
    "view tid (fold (\<lambda>r. bp_squash ops tid (ph_bpHistory r)) rs (bu_dir u')) = view tid (bu_dir u1)"
    "wf tid (fold (\<lambda>r. bp_squash ops tid (ph_bpHistory r)) rs (bu_dir u'))"
    by blast
  note u = un [OF ih(8) ih(10) ih(9)]
  show ?case
  proof (rule exI [of _ "rs @ [r]"], rule exI [of _ "e1 @ ext"], intro conjI)
    show "bu_predHist u' = (bu_predHist u)[tid := (rs @ [r]) @ bu_predHist u ! tid]"
      using ih(1) r(1) Cons.prems(5) by simp
    show "bu_ipred u' = upd_thread tid (\<lambda>t. t\<lparr>pathHist := pathHist t @ e1 @ ext\<rparr>) (bu_ipred u)"
      unfolding ih(6) e1(1) upd_thread_comp [OF Cons.prems(6)] by simp
    show "\<exists>s1. bu_ras u' = (bu_ras u)[tid := s1]"
      using ih(5) r(7) by auto
    show "wf tid (fold (\<lambda>r. bp_squash ops tid (ph_bpHistory r)) (rs @ [r]) (bu_dir u'))"
      using squash_wf [OF ih(10)] by simp
  qed (use ih r e1 u j(2) in auto)
qed

lemma predicts_squash:
  assumes "unit_predicts ops isa tid xs u = Some u'" "wf tid (bu_dir u)" "ras_ok (bu_ras u ! tid)" "tid < length (bu_ras u)"
    "tid < length (bu_predHist u)" "tid < length (ip_threadInfo (bu_ipred u))"
    "\<forall>x \<in> set xs. jump_hits isa tid u x \<and> sn < fst (snd x)"
    "\<forall>r \<in> set (bu_predHist u ! tid). ph_seqNum r \<le> sn" "\<forall>e \<in> set (pathHist (ip_threadInfo (bu_ipred u) ! tid)). he_seqNum e \<le> sn"
  shows "bu_predHist (unit_squash ops sn tid u') = bu_predHist u \<and> bu_btb (unit_squash ops sn tid u') = bu_btb u \<and>
    bu_ipred (unit_squash ops sn tid u') = bu_ipred u \<and> view tid (bu_dir (unit_squash ops sn tid u')) = view tid (bu_dir u) \<and>
    ras_eq (length xs) (bu_ras (unit_squash ops sn tid u') ! tid) (bu_ras u ! tid)"
proof -
  from predicts_undo [OF assms(1-7)] obtain rs ext where
    h: "bu_predHist u' = (bu_predHist u)[tid := rs @ bu_predHist u ! tid]" "\<forall>r \<in> set rs. sn < ph_seqNum r"
    "bu_btb u' = bu_btb u" "\<exists>s1. bu_ras u' = (bu_ras u)[tid := s1]"
    "bu_ipred u' = upd_thread tid (\<lambda>t. t\<lparr>pathHist := pathHist t @ ext\<rparr>) (bu_ipred u)" "\<forall>e \<in> set ext. sn < he_seqNum e"
    "ras_eq (length xs) (fold undo_ras rs (bu_ras u' ! tid)) (bu_ras u ! tid)"
    "view tid (fold (\<lambda>r. bp_squash ops tid (ph_bpHistory r)) rs (bu_dir u')) = view tid (bu_dir u)"
    by blast
  have hh: "bu_predHist u' ! tid = rs @ bu_predHist u ! tid"
    using h(1) assms(5) by simp
  have "unit_squash ops sn tid u' = u'\<lparr>bu_ipred := ipred_squash sn tid (bu_ipred u'), bu_predHist := (bu_predHist u')[tid := bu_predHist u ! tid],
      bu_ras := (bu_ras u')[tid := fold undo_ras rs (bu_ras u' ! tid)], bu_dir := fold (\<lambda>r. bp_squash ops tid (ph_bpHistory r)) rs (bu_dir u')\<rparr>"
    unfolding unit_squash_def Let_def by (simp add: hh squash_loop_undo [OF h(2) assms(8)])
  moreover have "ipred_squash sn tid (bu_ipred u') = bu_ipred u"
    unfolding h(5) by (rule ipred_squash_appended [OF assms(6,9) h(6)])
  moreover have "tid < length (bu_ras u')"
    using h(4) assms(4) by auto
  ultimately show ?thesis
    using h by simp
qed

end

section \<open>Properties of the unit\<close>

text \<open>
  C5: With the tournament predictor, squashing back to a sequence number undoes every younger
  prediction of the thread, in any mixture of conditional branches, jumps, calls, returns and
  indirect branches: the queue of predictions, the target buffer, the indirect predictor, the
  global history and the local histories are what they were, the top of the return address stack is
  where it was, and of its entries all are what they were except as many of the oldest as there were
  predictions.  Unconditional jumps that miss in the
  target buffer are excluded by the hypothesis: their squash does not restore a local history.  The
  count of used stack entries is left out: a squash does not restore it.
\<close>

theorem tour_unit_squash:
  assumes "unit_predicts tour_ops isa tid xs u = Some u'" "tour_ok tid (bu_dir u)" "ras_ok (bu_ras u ! tid)" "tid < length (bu_ras u)"
    "tid < length (bu_predHist u)" "tid < length (ip_threadInfo (bu_ipred u))"
    "\<forall>x \<in> set xs. jump_hits isa tid u x \<and> sn < fst (snd x)"
    "\<forall>r \<in> set (bu_predHist u ! tid). ph_seqNum r \<le> sn" "\<forall>e \<in> set (pathHist (ip_threadInfo (bu_ipred u) ! tid)). he_seqNum e \<le> sn"
  shows "bu_predHist (unit_squash tour_ops sn tid u') = bu_predHist u \<and> bu_btb (unit_squash tour_ops sn tid u') = bu_btb u \<and>
    bu_ipred (unit_squash tour_ops sn tid u') = bu_ipred u \<and>
    tour_view tid (bu_dir (unit_squash tour_ops sn tid u')) = tour_view tid (bu_dir u) \<and>
    ras_eq (length xs) (bu_ras (unit_squash tour_ops sn tid u') ! tid) (bu_ras u ! tid)"
  by (rule tour.predicts_squash [OF assms])

datatype run_inst = RBranch | RCall | RRet

definition run_isa :: "(u64, run_inst) isa"
  where "run_isa = \<lparr>instAddr = id, pc_zero = 0, buildRetPC = (\<lambda>pc ret. ret + 4), advancePC = (\<lambda>pc _. pc + 4),
    isUncondCtrl = (\<lambda>i. i \<noteq> RBranch), isReturn = (\<lambda>i. i = RRet), isCall = (\<lambda>i. i = RCall), isDirectCtrl = (\<lambda>i. i \<noteq> RRet)\<rparr>"

definition run_unit :: "(tour_bp, u64, tour_hist) bpu"
  where "run_unit = \<lparr>bu_predHist = [[]],
    bu_btb = \<lparr>btb_entries = replicate 2 \<lparr>be_tag = 0, be_target = 0, be_tid = 0, be_valid = False\<rparr>, btb_numEntries = 2, btb_idxMask = 1,
      btb_tagMask = 255, btb_instShiftAmt = 2, btb_tagShiftAmt = 3, btb_log2NumThreads = 0\<rparr>,
    bu_ras = [ras_init 0 4], bu_useIndirect = True,
    bu_ipred = \<lparr>ip_hashGHR = True, ip_hashTargets = True, ip_numSets = 2, ip_numWays = 1, ip_tagBits = 8, ip_pathLength = 2,
      ip_instShift = 2, ip_targetCache = [[\<lparr>ie_tag = 0, ie_target = 0\<rparr>], [\<lparr>ie_tag = 0, ie_target = 0\<rparr>]],
      ip_threadInfo = [\<lparr>pathHist = [], headHistEntry = 0\<rparr>]\<rparr>,
    bu_dir = run_tour\<rparr>"

lemma run_predicts: "unit_predicts tour_ops run_isa 0 [(RBranch, 1, 0x40), (RCall, 2, 0x44), (RRet, 3, 0x80)] run_unit \<noteq> None"
  by (simp add: run_unit_def run_isa_def tour_ops_def unit_predict_def predict_direction_def predict_target_def predict_return_def
      predict_call_def predict_direct_def new_record_def tour_lookup_def tour_uncondBranch_def updateGlobalHist_def updateLocalHist_def
      calcLocHistIdx_def run_tour_def Let_def btb_valid_def btb_lookup_def btb_getIndex_def)

theorem tour_unit_squash_witness:
  "\<exists>u'. unit_predicts tour_ops run_isa 0 [(RBranch, 1, 0x40), (RCall, 2, 0x44), (RRet, 3, 0x80)] run_unit = Some u' \<and>
    bu_predHist (unit_squash tour_ops 0 0 u') = [[]] \<and> tour_view 0 (bu_dir (unit_squash tour_ops 0 0 u')) = tour_view 0 run_tour"
proof -
  obtain u' where u: "unit_predicts tour_ops run_isa 0 [(RBranch, 1, 0x40), (RCall, 2, 0x44), (RRet, 3, 0x80)] run_unit = Some u'"
    using run_predicts by blast
  have "\<forall>x \<in> set [(RBranch, 1, 0x40), (RCall, 2, 0x44), (RRet, 3, 0x80)]. jump_hits run_isa 0 run_unit x \<and> 0 < fst (snd x)"
    by (simp add: jump_hits_def run_isa_def)
  from tour_unit_squash [OF u _ _ _ _ _ this] u show ?thesis
    by (simp add: run_unit_def run_tour_ok ras_ok_def ras_init_def ras_reset_def)
qed

text \<open>
  An unconditional jump that misses in the target buffer damages the local histories of the
  tournament predictor: \<open>btbUpdate\<close> clears the last outcome of the local history that the address of
  the jump selects, and the squash of the jump does not restore it, because the history record of
  an unconditional branch carries no local history.
\<close>

theorem tour_jump_miss_not_undone:
  assumes "tour_ok tid p" "bit (tb_localHistoryTable p ! unat (calcLocHistIdx a p)) 0" "bit (tb_localPredictorMask p) 0"
    "tour_uncondBranch tid a p = (h, p1)"
  shows "tour_view tid (tour_squash tid h (tour_btbUpdate tid a p1)) \<noteq> tour_view tid p"
proof -
  let ?i = "unat (calcLocHistIdx a p)"
  have i: "?i < length (tb_localHistoryTable p)"
    using assms(1) calcLocHistIdx_less [of p a] by (simp add: tour_ok_def word_less_nat_alt)
  have p1: "tb_localHistoryTable p1 = tb_localHistoryTable p" "tb_localPredictorMask p1 = tb_localPredictorMask p" "calcLocHistIdx a p1 = calcLocHistIdx a p"
      "th_localHistoryIdx h = invalidPredictorIndex"
    using assms(4) by (auto simp: tour_uncondBranch_def updateGlobalHist_def Let_def calcLocHistIdx_def)
  let ?q = "tour_squash tid h (tour_btbUpdate tid a p1)"
  have "tb_localHistoryTable ?q ! ?i = tb_localHistoryTable p ! ?i AND (tb_localPredictorMask p AND NOT 1)"
    using i by (simp add: tour_squash_def tour_btbUpdate_def Let_def p1)
  hence "\<not> bit (tb_localHistoryTable ?q ! ?i AND tb_localPredictorMask p) 0"
    by (simp add: bit_simps)
  moreover have "bit (tb_localHistoryTable p ! ?i AND tb_localPredictorMask p) 0"
    using assms(2,3) by (simp add: bit_simps)
  moreover have "length (tb_localHistoryTable ?q) = length (tb_localHistoryTable p)"
    by (simp add: tour_squash_def tour_btbUpdate_def Let_def p1)
  ultimately have "map (\<lambda>x. x AND tb_localPredictorMask p) (tb_localHistoryTable ?q) ! ?i \<noteq> map (\<lambda>x. x AND tb_localPredictorMask p) (tb_localHistoryTable p) ! ?i"
    using i by auto
  moreover have "tb_localPredictorMask ?q = tb_localPredictorMask p"
    by (simp add: tour_squash_def tour_btbUpdate_def Let_def p1)
  ultimately show ?thesis
    by (auto simp: tour_view_def)
qed

theorem tour_jump_miss_not_undone_witness:
  "tour_view 0 (tour_squash 0 (fst (tour_uncondBranch 0 0x40 (run_tour\<lparr>tb_localHistoryTable := [1, 0]\<rparr>)))
      (tour_btbUpdate 0 0x40 (snd (tour_uncondBranch 0 0x40 (run_tour\<lparr>tb_localHistoryTable := [1, 0]\<rparr>))))) \<noteq>
    tour_view 0 (run_tour\<lparr>tb_localHistoryTable := [1, 0]\<rparr>)"
proof -
  let ?p = "run_tour\<lparr>tb_localHistoryTable := [1, 0]\<rparr>"
  have "tour_ok 0 ?p"
    using run_tour_ok(1) by (simp add: tour_ok_def run_tour_def)
  moreover have "bit (tb_localHistoryTable ?p ! unat (calcLocHistIdx 0x40 ?p)) 0" "bit (tb_localPredictorMask ?p) 0"
    by (simp_all add: calcLocHistIdx_def run_tour_def)
  ultimately show ?thesis
    by (rule tour_jump_miss_not_undone) simp
qed

definition btb_ok :: "'pc btb \<Rightarrow> bool"
  where "btb_ok b \<longleftrightarrow> unat (btb_idxMask b) < unat (btb_numEntries b) \<and> length (btb_entries b) = unat (btb_numEntries b)"

lemma btb_index_less:
  assumes "btb_ok b"
  shows "btb_getIndex a tid b < btb_numEntries b"
  unfolding btb_getIndex_def ucast_and_down word_less_nat_alt
  using assms unat_and_le [of "ucast (drop_bit (unat (btb_instShiftAmt b)) a XOR
    scast (push_bit (unat (btb_tagShiftAmt b - btb_instShiftAmt b - btb_log2NumThreads b)) (of_nat tid :: u32)))" "btb_idxMask b"]
  by (simp add: btb_ok_def)

text \<open>
  After \<open>update\<close> of the branch target buffer, the branch hits and gives the new target; another
  branch that maps to the same entry hits only if it has the same tag and thread; branches that map to
  other entries hit or miss as before and with the same targets.
\<close>

theorem btb_update_lookup:
  assumes "btb_ok b"
  shows "\<exists>b'. btb_update a target tid b = Some b' \<and> btb_ok b' \<and> btb_valid a tid b' = Some True \<and> btb_lookup z a tid b' = Some target \<and>
    (\<forall>a2 tid2. if btb_getIndex a2 tid2 b = btb_getIndex a tid b
      then btb_valid a2 tid2 b' = Some (btb_getTag a2 b = btb_getTag a b \<and> tid2 = tid)
      else btb_valid a2 tid2 b' = btb_valid a2 tid2 b \<and> btb_lookup z a2 tid2 b' = btb_lookup z a2 tid2 b)"
proof -
  let ?i = "unat (btb_getIndex a tid b)"
  define b' where "b' = b\<lparr>btb_entries := (btb_entries b)[?i := \<lparr>be_tag = btb_getTag a b, be_target = target, be_tid = tid, be_valid = True\<rparr>]\<rparr>"
  have ix: "btb_getIndex a2 t2 b' = btb_getIndex a2 t2 b" "btb_getTag a2 b' = btb_getTag a2 b" "btb_numEntries b' = btb_numEntries b" for a2 t2
    by (simp_all add: b'_def btb_getIndex_def btb_getTag_def)
  have less: "unat (btb_getIndex a2 t2 b) < length (btb_entries b)" for a2 t2
    using btb_index_less [OF assms, of a2 t2] assms by (simp add: btb_ok_def word_less_nat_alt)
  have inj: "unat x = unat y \<longleftrightarrow> x = y" for x y :: u32
    by (rule word_eq_iff_unsigned [where ?'a = nat, symmetric])
  have tg: "btb_entries b' ! unat (btb_getIndex a2 t2 b) = (if btb_getIndex a2 t2 b = btb_getIndex a tid b
      then \<lparr>be_tag = btb_getTag a b, be_target = target, be_tid = tid, be_valid = True\<rparr> else btb_entries b ! unat (btb_getIndex a2 t2 b))" for a2 t2
    unfolding b'_def using less [of a tid] by (auto simp: nth_list_update inj)
  have hit: "btb_hit a2 t2 b' = (if btb_getIndex a2 t2 b = btb_getIndex a tid b then btb_getTag a2 b = btb_getTag a b \<and> t2 = tid else btb_hit a2 t2 b)" for a2 t2
    by (auto simp: btb_hit_def Let_def ix tg)
  have "btb_update a target tid b = Some b'"
    by (simp add: btb_update_def b'_def btb_index_less [OF assms])
  moreover have "btb_ok b'"
    using assms by (simp add: btb_ok_def b'_def)
  ultimately show ?thesis
    by (intro exI [of _ b']) (simp add: btb_valid_def btb_lookup_def ix hit tg btb_index_less [OF assms])
qed

theorem btb_update_lookup_witness:
  "\<exists>b'. btb_update 0x40 (0x99 :: u64) 0 (bu_btb run_unit) = Some b' \<and> btb_lookup 0 0x40 0 b' = Some 0x99 \<and> btb_valid 0x440 0 b' = Some False"
proof -
  have "btb_ok (bu_btb run_unit)"
    by (simp add: btb_ok_def run_unit_def)
  moreover have "btb_getIndex 0x440 0 (bu_btb run_unit) = btb_getIndex 0x40 0 (bu_btb run_unit)" "btb_getTag 0x440 (bu_btb run_unit) \<noteq> btb_getTag 0x40 (bu_btb run_unit)"
    by (simp_all add: btb_getIndex_def btb_getTag_def run_unit_def)
  ultimately show ?thesis
    using btb_update_lookup [of "bu_btb run_unit" "0x40" "0x99" 0 0] by force
qed

text \<open>
  A newly constructed indirect predictor hits for every branch whose tag is 0, and predicts
  address 0: its entries start with tag 0 and have no valid bit.
\<close>

theorem indirect_false_hit:
  assumes "ipred_new z ghr_on tgt_on num_sets num_ways tag_bits path_len shift n = Some ip" "tid < n"
    "num_ways \<noteq> 0" "tgt_on \<longrightarrow> path_len \<noteq> 0" "ipred_getTag a ip = 0"
  shows "ipred_lookup a ghr tid ip = Some (Some z)"
proof -
  have s: "num_sets \<noteq> 0" and ip: "ip = \<lparr>ip_hashGHR = ghr_on, ip_hashTargets = tgt_on, ip_numSets = num_sets, ip_numWays = num_ways,
       ip_tagBits = tag_bits, ip_pathLength = path_len, ip_instShift = shift,
       ip_targetCache = replicate (unat num_sets) (replicate (unat num_ways) \<lparr>ie_tag = 0, ie_target = z\<rparr>),
       ip_threadInfo = replicate n \<lparr>pathHist = [], headHistEntry = 0\<rparr>\<rparr>"
    using assms(1) by (auto simp: ipred_new_def isPowerOf2_def split: if_splits)
  obtain l where l: "floorLog2_u32 num_sets = Some l"
    using s by (simp add: floorLog2_u32_def)
  have "\<exists>hsh. ipred_getSetIndex a ghr tid ip = Some (hsh AND ucast (num_sets - 1))"
  proof (cases tgt_on)
    case True
    with assms(4) l show ?thesis
      by (simp add: ipred_getSetIndex_def ip Let_def) blast
  next
    case False
    thus ?thesis
      by (simp add: ipred_getSetIndex_def ip Let_def) blast
  qed
  then obtain hsh where h: "ipred_getSetIndex a ghr tid ip = Some (hsh AND ucast (num_sets - 1))"
    by blast
  have up: "unat (ucast x :: u64) = unat x" for x :: u32
  proof -
    have "unat x < 2 ^ 64"
      using unsigned_less [where ?'a = nat, of x] by simp
    thus ?thesis
      by (simp add: unsigned_ucast_eq take_bit_nat_eq_self)
  qed
  have "unat (ucast (num_sets - 1) :: u64) = unat num_sets - 1"
    unfolding up by (rule unat_minus_one [OF s])
  moreover have "unat (ucast num_sets :: u64) = unat num_sets"
    by (rule up)
  ultimately have lt: "unat (hsh AND ucast (num_sets - 1)) < unat num_sets" "hsh AND ucast (num_sets - 1) < ucast num_sets"
    using unat_and_le [of hsh "ucast (num_sets - 1)"] s unat_gt_0 [of num_sets] by (simp_all add: word_less_nat_alt)
  obtain k where "unat num_ways = Suc k"
    using assms(3) unat_gt_0 [of num_ways] by (cases "unat num_ways") auto
  thus ?thesis
    using lt assms(5) by (simp add: ipred_lookup_def h) (simp add: ip)
qed

theorem indirect_false_hit_witness:
  "\<exists>ip. ipred_new (0 :: u64) True True 4 2 8 3 2 1 = Some ip \<and> ipred_lookup 0x1000 5 0 ip = Some (Some 0)"
proof -
  have "isPowerOf2 (4 :: u32)"
    by code_simp
  then obtain ip where ip: "ipred_new (0 :: u64) True True 4 2 8 3 2 1 = Some ip"
    by (simp add: ipred_new_def)
  have "ipred_getTag 0x1000 ip = 0"
    using ip \<open>isPowerOf2 (4 :: u32)\<close> by (auto simp: ipred_new_def ipred_getTag_def)
  from indirect_false_hit [OF ip _ _ _ this, of 0 5] ip show ?thesis
    by simp
qed

end
