(* ===== verification/Replacement.thy ===== *)
theory Replacement
  imports Prelude
begin

text \<open>
  The cache replacement policies of gem5 (\<open>gem5/src/mem/cache/replacement_policies\<close>).  An entry is
  a number, and the replacement data its pointer refers to is the value of a store at that number;
  \<open>getVictim\<close> takes the candidates and the store and returns the victim with the store it leaves.
  The current tick and the numbers drawn from the random generator are arguments.  A failed
  assertion is \<^term>\<open>None\<close>.  Three locales state what a cache may rely on: a victim is always one of
  the candidates, invalidated entries are chosen first, and only unused entries look invalidated.
\<close>

section \<open>Definitions\<close>

record 'd rp_ops =
  rp_invalidate :: "'d \<Rightarrow> 'd"
  rp_touch :: "tick \<Rightarrow> 'd \<Rightarrow> 'd"
  rp_reset :: "tick \<Rightarrow> u32 \<Rightarrow> 'd \<Rightarrow> 'd"
  rp_getVictim :: "tick \<Rightarrow> u32 \<Rightarrow> nat list \<Rightarrow> (nat \<Rightarrow> 'd) \<Rightarrow> (nat \<times> (nat \<Rightarrow> 'd)) option"
  rp_instantiateEntry :: 'd

text \<open>The loop that most policies share: keep the first candidate, and replace it by a better one.\<close>

definition scan_victim :: "(nat \<Rightarrow> nat \<Rightarrow> bool) \<Rightarrow> nat list \<Rightarrow> nat option"
  where "scan_victim better cands = do {
    c_assert (length cands > 0);
    Some (foldl (\<lambda>victim c. if better c victim then c else victim) (cands ! 0) cands) }"

subsection \<open>Least recently used\<close>

record lru_data = lastTouchTick :: tick

definition lru_new :: lru_data where "lru_new = \<lparr>lastTouchTick = 0\<rparr>"

definition lru_invalidate :: "lru_data \<Rightarrow> lru_data"
  where "lru_invalidate x = x\<lparr>lastTouchTick := 0\<rparr>"

definition lru_touch :: "tick \<Rightarrow> lru_data \<Rightarrow> lru_data"
  where "lru_touch now x = x\<lparr>lastTouchTick := now\<rparr>"

definition lru_reset :: "tick \<Rightarrow> lru_data \<Rightarrow> lru_data"
  where "lru_reset now x = x\<lparr>lastTouchTick := now\<rparr>"

definition lru_getVictim :: "nat list \<Rightarrow> (nat \<Rightarrow> lru_data) \<Rightarrow> nat option"
  where "lru_getVictim cands d = scan_victim (\<lambda>c v. lastTouchTick (d c) < lastTouchTick (d v)) cands"

definition lru_ops :: "lru_data rp_ops"
  where "lru_ops = \<lparr>rp_invalidate = lru_invalidate, rp_touch = lru_touch, rp_reset = (\<lambda>now _. lru_reset now),
    rp_getVictim = (\<lambda>now r cands d. map_option (\<lambda>v. (v, d)) (lru_getVictim cands d)),
    rp_instantiateEntry = lru_new\<rparr>"

subsection \<open>Bimodal insertion\<close>

definition bip_reset :: "u32 \<Rightarrow> tick \<Rightarrow> u32 \<Rightarrow> lru_data \<Rightarrow> lru_data"
  where "bip_reset btp now r x = (if r \<le> btp then x\<lparr>lastTouchTick := now\<rparr> else x\<lparr>lastTouchTick := 1\<rparr>)"

definition bip_ops :: "u32 \<Rightarrow> lru_data rp_ops"
  where "bip_ops btp = lru_ops\<lparr>rp_reset := bip_reset btp\<rparr>"

subsection \<open>Most recently used\<close>

record mru_data = mru_lastTouchTick :: tick

definition mru_new :: mru_data where "mru_new = \<lparr>mru_lastTouchTick = 0\<rparr>"

definition mru_invalidate :: "mru_data \<Rightarrow> mru_data"
  where "mru_invalidate x = x\<lparr>mru_lastTouchTick := 0\<rparr>"

definition mru_touch :: "tick \<Rightarrow> mru_data \<Rightarrow> mru_data"
  where "mru_touch now x = x\<lparr>mru_lastTouchTick := now\<rparr>"

definition mru_reset :: "tick \<Rightarrow> mru_data \<Rightarrow> mru_data"
  where "mru_reset now x = x\<lparr>mru_lastTouchTick := now\<rparr>"

definition mru_getVictim :: "nat list \<Rightarrow> (nat \<Rightarrow> mru_data) \<Rightarrow> nat option"
  where "mru_getVictim cands d = scan_victim (\<lambda>c v. mru_lastTouchTick (d c) > mru_lastTouchTick (d v)) cands"

definition mru_ops :: "mru_data rp_ops"
  where "mru_ops = \<lparr>rp_invalidate = mru_invalidate, rp_touch = mru_touch, rp_reset = (\<lambda>now _. mru_reset now),
    rp_getVictim = (\<lambda>now r cands d. map_option (\<lambda>v. (v, d)) (mru_getVictim cands d)),
    rp_instantiateEntry = mru_new\<rparr>"

subsection \<open>First in, first out\<close>

record fifo_data = tickInserted :: tick

definition fifo_new :: fifo_data where "fifo_new = \<lparr>tickInserted = 0\<rparr>"

definition fifo_invalidate :: "'a fifo_data_scheme \<Rightarrow> 'a fifo_data_scheme"
  where "fifo_invalidate x = x\<lparr>tickInserted := 0\<rparr>"

definition fifo_touch :: "'a fifo_data_scheme \<Rightarrow> 'a fifo_data_scheme"
  where "fifo_touch x = x"

definition fifo_reset :: "tick \<Rightarrow> 'a fifo_data_scheme \<Rightarrow> 'a fifo_data_scheme"
  where "fifo_reset now x = x\<lparr>tickInserted := now\<rparr>"

definition fifo_getVictim :: "nat list \<Rightarrow> (nat \<Rightarrow> 'a fifo_data_scheme) \<Rightarrow> nat option"
  where "fifo_getVictim cands d = scan_victim (\<lambda>c v. tickInserted (d c) < tickInserted (d v)) cands"

definition fifo_ops :: "fifo_data rp_ops"
  where "fifo_ops = \<lparr>rp_invalidate = fifo_invalidate, rp_touch = (\<lambda>_. fifo_touch), rp_reset = (\<lambda>now _. fifo_reset now),
    rp_getVictim = (\<lambda>now r cands d. map_option (\<lambda>v. (v, d)) (fifo_getVictim cands d)),
    rp_instantiateEntry = fifo_new\<rparr>"

subsection \<open>Least frequently used\<close>

record lfu_data = lfu_refCount :: u32

definition lfu_new :: lfu_data where "lfu_new = \<lparr>lfu_refCount = 0\<rparr>"

definition lfu_invalidate :: "lfu_data \<Rightarrow> lfu_data"
  where "lfu_invalidate x = x\<lparr>lfu_refCount := 0\<rparr>"

definition lfu_touch :: "lfu_data \<Rightarrow> lfu_data"
  where "lfu_touch x = x\<lparr>lfu_refCount := lfu_refCount x + 1\<rparr>"

definition lfu_reset :: "lfu_data \<Rightarrow> lfu_data"
  where "lfu_reset x = x\<lparr>lfu_refCount := 1\<rparr>"

definition lfu_getVictim :: "nat list \<Rightarrow> (nat \<Rightarrow> lfu_data) \<Rightarrow> nat option"
  where "lfu_getVictim cands d = scan_victim (\<lambda>c v. lfu_refCount (d c) < lfu_refCount (d v)) cands"

definition lfu_ops :: "lfu_data rp_ops"
  where "lfu_ops = \<lparr>rp_invalidate = lfu_invalidate, rp_touch = (\<lambda>_. lfu_touch), rp_reset = (\<lambda>_ _. lfu_reset),
    rp_getVictim = (\<lambda>now r cands d. map_option (\<lambda>v. (v, d)) (lfu_getVictim cands d)),
    rp_instantiateEntry = lfu_new\<rparr>"

subsection \<open>Random\<close>

record random_data = rnd_valid :: bool

definition random_new :: random_data where "random_new = \<lparr>rnd_valid = False\<rparr>"

definition random_invalidate :: "random_data \<Rightarrow> random_data"
  where "random_invalidate x = x\<lparr>rnd_valid := False\<rparr>"

definition random_touch :: "random_data \<Rightarrow> random_data"
  where "random_touch x = x"

definition random_reset :: "random_data \<Rightarrow> random_data"
  where "random_reset x = x\<lparr>rnd_valid := True\<rparr>"

text \<open>The number \<open>r\<close> is the one drawn between 0 and the number of candidates minus one.\<close>

definition random_getVictim :: "u32 \<Rightarrow> nat list \<Rightarrow> (nat \<Rightarrow> random_data) \<Rightarrow> nat option"
  where "random_getVictim r cands d = do {
    c_assert (length cands > 0);
    let victim = cands ! unat r;
    Some (case find (\<lambda>c. \<not> rnd_valid (d c)) cands of Some c \<Rightarrow> c | None \<Rightarrow> victim) }"

definition random_ops :: "random_data rp_ops"
  where "random_ops = \<lparr>rp_invalidate = random_invalidate, rp_touch = (\<lambda>_. random_touch), rp_reset = (\<lambda>_ _. random_reset),
    rp_getVictim = (\<lambda>now r cands d. map_option (\<lambda>v. (v, d)) (random_getVictim r cands d)),
    rp_instantiateEntry = random_new\<rparr>"

subsection \<open>Bimodal re-reference interval prediction\<close>

record brrip_params =
  maxRRPV :: int
  hitPriority :: bool
  brrip_btp :: u32

record brrip_data = rrpv :: int

definition brrip_check :: "brrip_params \<Rightarrow> brrip_params option"
  where "brrip_check p = (if maxRRPV p \<le> 0 then None else Some p)"

definition brrip_default :: brrip_params
  where "brrip_default = \<lparr>maxRRPV = 3, hitPriority = False, brrip_btp = 3\<rparr>"

definition rrip_params :: brrip_params
  where "rrip_params = brrip_default\<lparr>brrip_btp := 0\<rparr>"

definition nru_params :: brrip_params
  where "nru_params = brrip_default\<lparr>brrip_btp := 0, maxRRPV := 1\<rparr>"

definition brrip_new :: "brrip_params \<Rightarrow> brrip_data"
  where "brrip_new p = \<lparr>rrpv = maxRRPV p + 1\<rparr>"

definition brrip_invalidate :: "brrip_params \<Rightarrow> brrip_data \<Rightarrow> brrip_data"
  where "brrip_invalidate p x = x\<lparr>rrpv := maxRRPV p + 1\<rparr>"

definition brrip_touch :: "brrip_params \<Rightarrow> brrip_data \<Rightarrow> brrip_data"
  where "brrip_touch p x =
    (if hitPriority p then x\<lparr>rrpv := 0\<rparr>
     else if rrpv x > 0 then x\<lparr>rrpv := rrpv x - 1\<rparr>
     else x)"

definition brrip_reset :: "brrip_params \<Rightarrow> u32 \<Rightarrow> brrip_data \<Rightarrow> brrip_data"
  where "brrip_reset p r x = (if r \<le> brrip_btp p then x\<lparr>rrpv := maxRRPV p - 1\<rparr> else x\<lparr>rrpv := maxRRPV p\<rparr>)"

text \<open>The search stops at an invalid candidate, which is the left result.\<close>

fun brrip_scan :: "int \<Rightarrow> (nat \<Rightarrow> brrip_data) \<Rightarrow> nat list \<Rightarrow> nat \<Rightarrow> int \<Rightarrow> nat + nat \<times> int"
  where
    "brrip_scan mx d [] victim victim_RRPV = Inr (victim, victim_RRPV)"
  | "brrip_scan mx d (c # cs) victim victim_RRPV =
      (let candidate_RRPV = rrpv (d c) in
       if candidate_RRPV = mx + 1 then Inl c
       else if candidate_RRPV > victim_RRPV then brrip_scan mx d cs c candidate_RRPV
       else brrip_scan mx d cs victim victim_RRPV)"

definition brrip_age :: "int \<Rightarrow> nat list \<Rightarrow> (nat \<Rightarrow> brrip_data) \<Rightarrow> nat \<Rightarrow> brrip_data"
  where "brrip_age diff cands d = foldl (\<lambda>d c. d(c := (d c)\<lparr>rrpv := rrpv (d c) + diff\<rparr>)) d cands"

definition brrip_getVictim :: "brrip_params \<Rightarrow> nat list \<Rightarrow> (nat \<Rightarrow> brrip_data) \<Rightarrow> (nat \<times> (nat \<Rightarrow> brrip_data)) option"
  where "brrip_getVictim p cands d = do {
    c_assert (length cands > 0);
    let victim = cands ! 0;
    case brrip_scan (maxRRPV p) d cands victim (rrpv (d victim)) of
      Inl c \<Rightarrow> Some (c, d)
    | Inr (victim, victim_RRPV) \<Rightarrow>
        let diff = maxRRPV p - victim_RRPV
        in Some (victim, if diff > 0 then brrip_age diff cands d else d) }"

definition brrip_ops :: "brrip_params \<Rightarrow> brrip_data rp_ops"
  where "brrip_ops p = \<lparr>rp_invalidate = brrip_invalidate p, rp_touch = (\<lambda>_. brrip_touch p), rp_reset = (\<lambda>_. brrip_reset p),
    rp_getVictim = (\<lambda>now r cands d. brrip_getVictim p cands d), rp_instantiateEntry = brrip_new p\<rparr>"

subsection \<open>Second chance\<close>

record sc_data = fifo_data +
  hasSecondChance :: bool

definition sc_new :: sc_data where "sc_new = \<lparr>tickInserted = 0, hasSecondChance = False\<rparr>"

definition useSecondChance :: "tick \<Rightarrow> sc_data \<Rightarrow> sc_data"
  where "useSecondChance now x = (fifo_reset now x)\<lparr>hasSecondChance := False\<rparr>"

definition sc_invalidate :: "sc_data \<Rightarrow> sc_data"
  where "sc_invalidate x = (fifo_invalidate x)\<lparr>hasSecondChance := False\<rparr>"

definition sc_touch :: "sc_data \<Rightarrow> sc_data"
  where "sc_touch x = (fifo_touch x)\<lparr>hasSecondChance := True\<rparr>"

definition sc_reset :: "tick \<Rightarrow> sc_data \<Rightarrow> sc_data"
  where "sc_reset now x = (fifo_reset now x)\<lparr>hasSecondChance := True\<rparr>"

definition sc_invalid :: "sc_data \<Rightarrow> bool"
  where "sc_invalid x \<longleftrightarrow> tickInserted x = 0 \<and> \<not> hasSecondChance x"

text \<open>Each round of the loop takes one second chance away, so there are at most as many rounds as
  candidates, and one more.\<close>

lemma foldl_choice:
  "foldl (\<lambda>v c. if better c v then c else v) x cs \<in> insert x (set cs)"
  by (induction cs arbitrary: x) (auto split: if_splits)

lemma scan_victim_mem:
  assumes "scan_victim better cands = Some v" shows "v \<in> set cands"
  using assms foldl_choice [of better "cands ! 0" cands] by (auto simp: scan_victim_def c_assert_def split: if_splits)

lemma fewer_chances:
  "\<lbrakk>v \<in> set cands; P (d v); \<not> P x\<rbrakk>
    \<Longrightarrow> length (filter (\<lambda>c. P ((d(v := x)) c)) cands) < length (filter (\<lambda>c. P (d c)) cands)"
proof (induction cands)
  case (Cons a cands)
  have le: "length (filter (\<lambda>c. P ((d(v := x)) c)) cands) \<le> length (filter (\<lambda>c. P (d c)) cands)" for cands
    using Cons.prems by (induction cands) auto
  show ?case
  proof (cases "a = v")
    case True
    then show ?thesis using le [of cands] Cons.prems by (simp add: less_Suc_eq_le)
  next
    case False
    then show ?thesis using Cons by auto
  qed
qed simp

function sc_loop :: "tick \<Rightarrow> nat list \<Rightarrow> (nat \<Rightarrow> sc_data) \<Rightarrow> (nat \<times> (nat \<Rightarrow> sc_data)) option"
  where "sc_loop now cands d =
    (case fifo_getVictim cands d of
       None \<Rightarrow> None
     | Some victim \<Rightarrow>
         if hasSecondChance (d victim) then sc_loop now cands (d(victim := useSecondChance now (d victim)))
         else Some (victim, d))"
  by pat_completeness auto

termination
proof (relation "measure (\<lambda>(now, cands, d). length (filter (\<lambda>c. hasSecondChance (d c)) cands))")
  fix now :: tick and cands and d :: "nat \<Rightarrow> sc_data" and v
  assume "fifo_getVictim cands d = Some v" "hasSecondChance (d v)"
  then have "length (filter (\<lambda>c. hasSecondChance ((d(v := useSecondChance now (d v))) c)) cands)
      < length (filter (\<lambda>c. hasSecondChance (d c)) cands)"
    by (intro fewer_chances) (auto simp: fifo_getVictim_def useSecondChance_def dest: scan_victim_mem)
  then show "((now, cands, d(v := useSecondChance now (d v))), now, cands, d)
      \<in> measure (\<lambda>(now, cands, d). length (filter (\<lambda>c. hasSecondChance (d c)) cands))"
    by simp
qed simp

declare sc_loop.simps [simp del]

definition sc_getVictim :: "tick \<Rightarrow> nat list \<Rightarrow> (nat \<Rightarrow> sc_data) \<Rightarrow> (nat \<times> (nat \<Rightarrow> sc_data)) option"
  where "sc_getVictim now cands d = do {
    c_assert (length cands > 0);
    case find (\<lambda>c. sc_invalid (d c)) cands of
      Some c \<Rightarrow> Some (c, d)
    | None \<Rightarrow> sc_loop now cands d }"

definition sc_ops :: "sc_data rp_ops"
  where "sc_ops = \<lparr>rp_invalidate = sc_invalidate, rp_touch = (\<lambda>_. sc_touch), rp_reset = (\<lambda>now _. sc_reset now),
    rp_getVictim = (\<lambda>now r cands d. sc_getVictim now cands d), rp_instantiateEntry = sc_new\<rparr>"

section \<open>Searching the candidates\<close>

lemma foldl_min:
  fixes f :: "nat \<Rightarrow> 'b::linorder"
  shows "f (foldl (\<lambda>v c. if f c < f v then c else v) x cs) \<le> f x \<and>
    (\<forall>c \<in> set cs. f (foldl (\<lambda>v c. if f c < f v then c else v) x cs) \<le> f c)"
proof (induction cs arbitrary: x)
  case (Cons a cs)
  show ?case
    using Cons [of "if f a < f x then a else x"] by (auto split: if_splits)
qed simp

lemma foldl_keep:
  "\<forall>c \<in> set cs. \<not> better c x \<Longrightarrow> foldl (\<lambda>v c. if better c v then c else v) x cs = x"
  by (induction cs) auto

lemma scan_victim_some:
  "cands \<noteq> [] \<Longrightarrow> \<exists>v \<in> set cands. scan_victim better cands = Some v"
  using foldl_choice [of better "cands ! 0" cands] by (auto simp: scan_victim_def)

lemma scan_victim_least:
  fixes f :: "nat \<Rightarrow> 'b::linorder"
  assumes "scan_victim (\<lambda>c v. f c < f v) cands = Some v" "c \<in> set cands"
  shows "f v \<le> f c"
  using assms foldl_min [of f "cands ! 0" cands] by (auto simp: scan_victim_def c_assert_def split: if_splits)

lemma scan_victim_greatest:
  fixes f :: "nat \<Rightarrow> 'b::linorder"
  assumes "scan_victim (\<lambda>c v. f c > f v) cands = Some v" "c \<in> set cands"
  shows "f c \<le> f v"
proof -
  have "\<forall>c \<in> set cs. f c \<le> f (foldl (\<lambda>v c. if f v < f c then c else v) x cs)"
    "f x \<le> f (foldl (\<lambda>v c. if f v < f c then c else v) x cs)" for cs x
  proof (induction cs arbitrary: x)
    case (Cons a cs)
    { case 1 then show ?case using Cons [of "if f x < f a then a else x"] by (auto split: if_splits) }
    { case 2 then show ?case using Cons(2) [of "if f x < f a then a else x"] by (auto split: if_splits) }
  qed simp_all
  then show ?thesis using assms by (auto simp: scan_victim_def c_assert_def split: if_splits)
qed

lemma find_SomeD: "find P xs = Some x \<Longrightarrow> x \<in> set xs \<and> P x"
  by (auto simp: find_Some_iff)

lemma brrip_scan_cases:
  "case brrip_scan mx d cs v (rrpv (d v)) of
     Inl c \<Rightarrow> c \<in> set cs \<and> rrpv (d c) = mx + 1
   | Inr (w, k) \<Rightarrow> w \<in> insert v (set cs) \<and> k = rrpv (d w) \<and> rrpv (d v) \<le> k \<and>
       (\<forall>c \<in> set cs. rrpv (d c) \<noteq> mx + 1 \<and> rrpv (d c) \<le> k)"
proof (induction cs arbitrary: v)
  case (Cons a cs)
  show ?case
    using Cons [of a] Cons [of v] by (auto simp: Let_def split: sum.splits)
qed simp

lemma brrip_age_simps:
  "brrip_age diff [] d = d"
  "brrip_age diff (c # cs) d = brrip_age diff cs (d(c := (d c)\<lparr>rrpv := rrpv (d c) + diff\<rparr>))"
  by (simp_all add: brrip_age_def)

lemma brrip_age_out: "c \<notin> set cands \<Longrightarrow> brrip_age diff cands d c = d c"
  by (induction cands arbitrary: d) (simp_all add: brrip_age_simps)

lemma brrip_age_in:
  "\<lbrakk>distinct cands; c \<in> set cands\<rbrakk> \<Longrightarrow> rrpv (brrip_age diff cands d c) = rrpv (d c) + diff"
  by (induction cands arbitrary: d) (auto simp: brrip_age_simps brrip_age_out)

section \<open>The contracts of a replacement policy\<close>

locale replacement_policy =
  fixes ops :: "'d rp_ops"
  assumes victim_exists: "\<lbrakk>cands \<noteq> []; unat r < length cands\<rbrakk>
      \<Longrightarrow> \<exists>v d'. rp_getVictim ops now r cands d = Some (v, d')"
    and victim_mem: "\<lbrakk>rp_getVictim ops now r cands d = Some (v, d'); unat r < length cands\<rbrakk> \<Longrightarrow> v \<in> set cands"
    and victim_frame: "\<lbrakk>rp_getVictim ops now r cands d = Some (v, d'); c \<notin> set cands\<rbrakk> \<Longrightarrow> d' c = d c"

locale invalid_first = replacement_policy ops for ops :: "'d rp_ops" +
  fixes invalid :: "'d \<Rightarrow> bool"
  assumes new_invalid: "invalid (rp_instantiateEntry ops)"
    and invalidate_invalid: "invalid (rp_invalidate ops x)"
    and victim_invalid: "\<lbrakk>rp_getVictim ops now r cands d = Some (v, d'); distinct cands; c \<in> set cands; invalid (d c)\<rbrakk>
      \<Longrightarrow> invalid (d v)"
    and victim_keeps_invalid: "\<lbrakk>rp_getVictim ops now r cands d = Some (v, d'); distinct cands; invalid (d c)\<rbrakk> \<Longrightarrow> invalid (d' c)"

locale free_first = invalid_first ops invalid for ops :: "'d rp_ops" and invalid +
  assumes reset_valid: "0 < now \<Longrightarrow> \<not> invalid (rp_reset ops now r x)"
    and touch_valid: "\<lbrakk>0 < now; \<not> invalid x\<rbrakk> \<Longrightarrow> \<not> invalid (rp_touch ops now x)"
    and victim_keeps_valid: "\<lbrakk>rp_getVictim ops now r cands d = Some (v, d'); distinct cands; 0 < now; \<not> invalid (d c)\<rbrakk>
      \<Longrightarrow> \<not> invalid (d' c)"

lemmas rp_ops_defs = lru_ops_def bip_ops_def mru_ops_def fifo_ops_def lfu_ops_def random_ops_def brrip_ops_def sc_ops_def

lemmas rp_victim_defs = lru_getVictim_def mru_getVictim_def fifo_getVictim_def lfu_getVictim_def

lemmas rp_data_defs = lru_new_def lru_invalidate_def lru_touch_def lru_reset_def bip_reset_def
  fifo_new_def fifo_invalidate_def fifo_touch_def fifo_reset_def lfu_new_def lfu_invalidate_def
  random_new_def random_invalidate_def random_touch_def random_reset_def
  brrip_new_def brrip_invalidate_def brrip_touch_def brrip_reset_def
  sc_new_def sc_invalidate_def sc_touch_def sc_reset_def useSecondChance_def sc_invalid_def

text \<open>A policy that scans for the least value of a key satisfies the contracts, an entry with key 0
  being invalid.\<close>

lemma scan_policy:
  assumes "rp_getVictim ops = (\<lambda>now r cands d. map_option (\<lambda>v. (v, d)) (scan_victim (better d) cands))"
  shows "replacement_policy ops"
proof
  fix cands :: "nat list" and r :: u32 and now d v d' c
  { assume "cands \<noteq> []"
    then show "\<exists>v d'. rp_getVictim ops now r cands d = Some (v, d')"
      using scan_victim_some [of cands "better d"] by (auto simp: assms) }
  { assume "rp_getVictim ops now r cands d = Some (v, d')"
    then show "v \<in> set cands" and "d' c = d c"
      by (auto simp: assms dest: scan_victim_mem) }
qed

lemma scan_invalid_first:
  fixes key :: "'d \<Rightarrow> ('n::len) word"
  assumes v: "rp_getVictim ops = (\<lambda>now r cands d. map_option (\<lambda>v. (v, d)) (scan_victim (\<lambda>c v. key (d c) < key (d v)) cands))"
    and "key (rp_instantiateEntry ops) = 0" "\<And>x. key (rp_invalidate ops x) = 0"
  shows "invalid_first ops (\<lambda>x. key x = 0)"
proof (intro invalid_first.intro invalid_first_axioms.intro scan_policy [OF v])
  fix now r cands d v d' c
  assume g: "rp_getVictim ops now r cands d = Some (v, d')"
  { assume "c \<in> set cands" "key (d c) = 0"
    then show "key (d v) = 0"
      using g scan_victim_least [of "\<lambda>c. key (d c)" cands v c] by (auto simp: v) }
  { assume "key (d c) = 0"
    then show "key (d' c) = 0" using g by (auto simp: v) }
qed (use assms in auto)

lemma scan_free_first:
  fixes key :: "'d \<Rightarrow> ('n::len) word"
  assumes v: "rp_getVictim ops = (\<lambda>now r cands d. map_option (\<lambda>v. (v, d)) (scan_victim (\<lambda>c v. key (d c) < key (d v)) cands))"
    and "key (rp_instantiateEntry ops) = 0" "\<And>x. key (rp_invalidate ops x) = 0"
    and "\<And>now r x. 0 < now \<Longrightarrow> key (rp_reset ops now r x) \<noteq> 0"
    and "\<And>now x. \<lbrakk>0 < now; key x \<noteq> 0\<rbrakk> \<Longrightarrow> key (rp_touch ops now x) \<noteq> 0"
  shows "free_first ops (\<lambda>x. key x = 0)"
proof (intro free_first.intro free_first_axioms.intro scan_invalid_first [OF v])
  fix now r cands d v d' c
  assume "rp_getVictim ops now r cands d = Some (v, d')" "key (d c) \<noteq> 0"
  then show "key (d' c) \<noteq> 0" by (auto simp: v)
qed (use assms in auto)

interpretation lru: free_first lru_ops "\<lambda>x. lastTouchTick x = 0"
  by (rule scan_free_first) (simp_all add: rp_ops_defs rp_victim_defs rp_data_defs word_gt_0)

interpretation bip: free_first "bip_ops btp" "\<lambda>x. lastTouchTick x = 0" for btp
  by (rule scan_free_first) (simp_all add: rp_ops_defs rp_victim_defs rp_data_defs word_gt_0)

interpretation fifo: free_first fifo_ops "\<lambda>x. tickInserted x = 0"
  by (rule scan_free_first) (simp_all add: rp_ops_defs rp_victim_defs rp_data_defs word_gt_0)

text \<open>The counter of the least frequently used policy wraps, so a block that was touched often enough
  looks invalidated: it satisfies the second contract and not the third.\<close>

interpretation lfu: invalid_first lfu_ops "\<lambda>x. lfu_refCount x = 0"
  by (rule scan_invalid_first) (simp_all add: rp_ops_defs rp_victim_defs rp_data_defs)

interpretation mru: replacement_policy mru_ops
  by (rule scan_policy) (simp add: rp_ops_defs rp_victim_defs)

lemma random_getVictim_cases:
  assumes "random_getVictim r cands d = Some v" "unat r < length cands"
  shows "v \<in> set cands"
  using assms by (auto simp: random_getVictim_def c_assert_def split: if_splits option.splits dest: find_SomeD)

lemma random_getVictim_invalid:
  assumes "random_getVictim r cands d = Some v" "c \<in> set cands" "\<not> rnd_valid (d c)"
  shows "\<not> rnd_valid (d v)"
  using assms by (auto simp: random_getVictim_def c_assert_def find_None_iff split: if_splits option.splits dest: find_SomeD)

interpretation rnd: free_first random_ops "\<lambda>x. \<not> rnd_valid x"
proof unfold_locales
  fix now :: tick and r :: u32 and cands :: "nat list" and d d' :: "nat \<Rightarrow> random_data" and v c
  { assume "cands \<noteq> []"
    then show "\<exists>v d'. rp_getVictim random_ops now r cands d = Some (v, d')"
      by (simp add: rp_ops_defs random_getVictim_def) }
  assume g: "rp_getVictim random_ops now r cands d = Some (v, d')"
  { assume "unat r < length cands"
    then show "v \<in> set cands" using g by (auto simp: rp_ops_defs dest: random_getVictim_cases) }
  { assume "c \<in> set cands" "\<not> rnd_valid (d c)"
    then show "\<not> rnd_valid (d v)" using g by (auto simp: rp_ops_defs dest: random_getVictim_invalid) }
  { assume "c \<notin> set cands" then show "d' c = d c" using g by (auto simp: rp_ops_defs) }
  { assume "\<not> rnd_valid (d c)" then show "\<not> rnd_valid (d' c)" using g by (auto simp: rp_ops_defs) }
  { assume "\<not> \<not> rnd_valid (d c)" then show "\<not> \<not> rnd_valid (d' c)" using g by (auto simp: rp_ops_defs) }
qed (simp_all add: rp_ops_defs rp_data_defs)

text \<open>Aging never makes a candidate look invalid, since it lifts the greatest value to the maximum.\<close>

lemma brrip_getVictim_cases:
  assumes "brrip_getVictim p cands d = Some (v, d')"
  obtains (invalid) "v \<in> set cands" "rrpv (d v) = maxRRPV p + 1" "d' = d"
  | (scan) "v \<in> set cands" "\<forall>c \<in> set cands. rrpv (d c) \<noteq> maxRRPV p + 1 \<and> rrpv (d c) \<le> rrpv (d v)"
      "d' = (if rrpv (d v) < maxRRPV p then brrip_age (maxRRPV p - rrpv (d v)) cands d else d)"
proof -
  have ne: "cands \<noteq> []" using assms by (auto simp: brrip_getVictim_def)
  let ?r = "brrip_scan (maxRRPV p) d cands (cands ! 0) (rrpv (d (cands ! 0)))"
  show ?thesis
  proof (cases ?r)
    case (Inl c)
    have "c \<in> set cands" "rrpv (d c) = maxRRPV p + 1"
      using brrip_scan_cases [where mx = "maxRRPV p" and d = d and cs = cands and v = "cands ! 0"] by (simp_all add: Inl)
    moreover have "v = c" "d' = d" using assms ne by (simp_all add: brrip_getVictim_def Inl)
    ultimately show ?thesis by (intro invalid) simp_all
  next
    case (Inr wk)
    then obtain w k where r: "?r = Inr (w, k)" by (cases wk) auto
    have s: "w \<in> insert (cands ! 0) (set cands)" "k = rrpv (d w)"
      "\<forall>c \<in> set cands. rrpv (d c) \<noteq> maxRRPV p + 1 \<and> rrpv (d c) \<le> k"
      using brrip_scan_cases [where mx = "maxRRPV p" and d = d and cs = cands and v = "cands ! 0"] by (auto simp: r)
    have "v = w" "d' = (if maxRRPV p - k > 0 then brrip_age (maxRRPV p - k) cands d else d)"
      using assms ne by (simp_all add: brrip_getVictim_def r Let_def)
    then show ?thesis using s ne by (intro scan) auto
  qed
qed

lemma brrip_aged:
  assumes "brrip_getVictim p cands d = Some (v, d')" "distinct cands"
  shows "(maxRRPV p < rrpv (d' c)) = (maxRRPV p < rrpv (d c))"
  using assms(1)
proof (cases rule: brrip_getVictim_cases)
  case scan
  show ?thesis
  proof (cases "c \<in> set cands \<and> rrpv (d v) < maxRRPV p")
    case True
    then have "rrpv (d' c) = rrpv (d c) + (maxRRPV p - rrpv (d v))" "rrpv (d c) \<le> rrpv (d v)"
      using scan assms(2) brrip_age_in by auto
    then show ?thesis using True by simp
  next
    case False
    then show ?thesis using scan by (auto simp: brrip_age_out)
  qed
qed simp

lemma brrip_victim_greatest:
  assumes "brrip_getVictim p cands d = Some (v, d')" "c \<in> set cands" "maxRRPV p < rrpv (d c)"
  shows "maxRRPV p < rrpv (d v)"
  using assms(1)
proof (cases rule: brrip_getVictim_cases)
  case scan
  then show ?thesis using assms(2,3) by force
qed simp

lemma brrip_free_first:
  assumes "brrip_check q = Some p"
  shows "free_first (brrip_ops p) (\<lambda>x. maxRRPV p < rrpv x)"
proof unfold_locales
  fix now :: tick and r :: u32 and cands :: "nat list" and d d' :: "nat \<Rightarrow> brrip_data" and v c
  { assume "cands \<noteq> []"
    then show "\<exists>v d'. rp_getVictim (brrip_ops p) now r cands d = Some (v, d')"
      by (simp add: rp_ops_defs brrip_getVictim_def Let_def split: sum.split) }
  assume g: "rp_getVictim (brrip_ops p) now r cands d = Some (v, d')"
  then have g': "brrip_getVictim p cands d = Some (v, d')" by (simp add: rp_ops_defs)
  from g' show "v \<in> set cands" by (cases rule: brrip_getVictim_cases) auto
  { assume "c \<notin> set cands"
    with g' show "d' c = d c" by (cases rule: brrip_getVictim_cases) (auto simp: brrip_age_out) }
  { assume "c \<in> set cands" "maxRRPV p < rrpv (d c)"
    with g' show "maxRRPV p < rrpv (d v)" by (rule brrip_victim_greatest) }
  { assume "distinct cands" "maxRRPV p < rrpv (d c)"
    with g' show "maxRRPV p < rrpv (d' c)" by (simp add: brrip_aged) }
  { assume "distinct cands" "\<not> maxRRPV p < rrpv (d c)"
    with g' show "\<not> maxRRPV p < rrpv (d' c)" by (simp add: brrip_aged) }
next
  fix now :: tick and x :: brrip_data and r :: u32
  show "maxRRPV p < rrpv (rp_instantiateEntry (brrip_ops p))" "maxRRPV p < rrpv (rp_invalidate (brrip_ops p) x)"
    "\<not> maxRRPV p < rrpv (rp_reset (brrip_ops p) now r x)"
    by (simp_all add: rp_ops_defs rp_data_defs)
  assume "\<not> maxRRPV p < rrpv x"
  then show "\<not> maxRRPV p < rrpv (rp_touch (brrip_ops p) now x)"
    using assms by (simp add: brrip_check_def rp_ops_defs rp_data_defs split: if_splits)
qed

interpretation brrip: free_first "brrip_ops brrip_default" "\<lambda>x. maxRRPV brrip_default < rrpv x"
  by (rule brrip_free_first [of brrip_default]) (simp add: brrip_check_def brrip_default_def)

interpretation nru: free_first "brrip_ops nru_params" "\<lambda>x. maxRRPV nru_params < rrpv x"
  by (rule brrip_free_first [of nru_params]) (simp add: brrip_check_def nru_params_def brrip_default_def)

section \<open>Second chances\<close>

lemma sc_loop_step:
  assumes "fifo_getVictim cands d = Some w"
  shows "hasSecondChance (d w) \<Longrightarrow> sc_loop now cands d = sc_loop now cands (d(w := useSecondChance now (d w)))"
    and "\<not> hasSecondChance (d w) \<Longrightarrow> sc_loop now cands d = Some (w, d)"
  using assms by (subst sc_loop.simps, simp)+

lemma sc_loop_victim:
  assumes "sc_loop now cands d = Some r"
  obtains w where "fifo_getVictim cands d = Some w" "w \<in> set cands"
    "\<And>c. c \<in> set cands \<Longrightarrow> tickInserted (d w) \<le> tickInserted (d c)"
proof -
  from assms obtain w where w: "fifo_getVictim cands d = Some w"
    by (subst (asm) sc_loop.simps) (auto split: option.splits)
  then show ?thesis
    using that [OF w] scan_victim_mem scan_victim_least [of "\<lambda>c. tickInserted (d c)" cands w]
    by (auto simp: fifo_getVictim_def)
qed

lemma sc_loop_some:
  assumes "cands \<noteq> []"
  shows "\<exists>v d'. sc_loop now cands d = Some (v, d') \<and> v \<in> set cands"
  using assms
proof (induction now cands d rule: sc_loop.induct)
  case (1 now cands d)
  obtain v where v: "fifo_getVictim cands d = Some v" "v \<in> set cands"
    using scan_victim_some [OF 1(2)] by (auto simp: fifo_getVictim_def)
  show ?case
  proof (cases "hasSecondChance (d v)")
    case True
    then show ?thesis using 1(1) [OF v(1) True 1(2)] sc_loop_step(1) [OF v(1) True] by metis
  qed (use v sc_loop_step(2) in auto)
qed

text \<open>What the loop changes: only candidates that had a second chance, which they have used.\<close>

lemma sc_loop_frame:
  assumes "sc_loop now cands d = Some (v, d')"
  shows "d' c = d c \<or> c \<in> set cands \<and> hasSecondChance (d c) \<and> d' c = useSecondChance now (d c)"
  using assms
proof (induction now cands d rule: sc_loop.induct)
  case (1 now cands d)
  obtain w where w: "fifo_getVictim cands d = Some w" and wm: "w \<in> set cands"
    using sc_loop_victim [OF 1(2)] by blast
  show ?case
  proof (cases "hasSecondChance (d w)")
    case True
    have s: "sc_loop now cands (d(w := useSecondChance now (d w))) = Some (v, d')"
      using 1(2) sc_loop_step(1) [OF w True] by metis
    show ?thesis
      using 1(1) [OF w True s] True wm by (cases "c = w") (auto simp: useSecondChance_def)
  next
    case False
    then show ?thesis using 1(2) sc_loop_step(2) [OF w] by simp
  qed
qed

interpretation sc: free_first sc_ops sc_invalid
proof unfold_locales
  fix now :: tick and r :: u32 and cands :: "nat list" and d d' :: "nat \<Rightarrow> sc_data" and v c
  { assume "cands \<noteq> []"
    then show "\<exists>v d'. rp_getVictim sc_ops now r cands d = Some (v, d')"
      using sc_loop_some [of cands now d] by (auto simp: rp_ops_defs sc_getVictim_def split: option.split) }
  assume g: "rp_getVictim sc_ops now r cands d = Some (v, d')"
  then have ne: "cands \<noteq> []" by (auto simp: rp_ops_defs sc_getVictim_def)
  have frame: "d' c = d c \<or> c \<in> set cands \<and> hasSecondChance (d c) \<and> d' c = useSecondChance now (d c)" for c
    using g ne sc_loop_frame [of now cands d v d' c] by (auto simp: rp_ops_defs sc_getVictim_def split: option.splits)
  show "v \<in> set cands"
    using g ne sc_loop_some [of cands now d]
    by (auto simp: rp_ops_defs sc_getVictim_def split: option.splits dest: find_SomeD)
  { assume "c \<notin> set cands" then show "d' c = d c" using frame by blast }
  { assume "c \<in> set cands" "sc_invalid (d c)"
    then show "sc_invalid (d v)"
      using g ne by (auto simp: rp_ops_defs sc_getVictim_def find_None_iff split: option.splits dest: find_SomeD) }
  { assume "sc_invalid (d c)"
    then show "sc_invalid (d' c)" using frame [of c] by (auto simp: sc_invalid_def) }
  { assume "0 < now" "\<not> sc_invalid (d c)"
    then show "\<not> sc_invalid (d' c)" using frame [of c] by (auto simp: rp_data_defs) }
qed (auto simp: rp_ops_defs rp_data_defs)

text \<open>While a candidate without a second chance is left, such candidates are older than those that
  used theirs, so the loop ends at the oldest of them.\<close>

lemma sc_loop_oldest:
  assumes "sc_loop now cands d = Some (v, d')" "\<exists>c \<in> set cands. \<not> hasSecondChance (d c) \<and> tickInserted (d c) < now"
  shows "d' v = d v \<and> v \<in> set cands \<and> \<not> hasSecondChance (d v) \<and>
    (\<forall>c \<in> set cands. \<not> hasSecondChance (d c) \<longrightarrow> tickInserted (d v) \<le> tickInserted (d c)) \<and>
    (\<forall>c \<in> set cands. tickInserted (d c) < tickInserted (d v) \<longrightarrow> d' c = useSecondChance now (d c)) \<and>
    (\<forall>c. tickInserted (d v) < tickInserted (d c) \<longrightarrow> d' c = d c)"
  using assms
proof (induction now cands d rule: sc_loop.induct)
  case (1 now cands d)
  obtain w where w: "fifo_getVictim cands d = Some w" and wm: "w \<in> set cands"
    and least: "\<And>c. c \<in> set cands \<Longrightarrow> tickInserted (d w) \<le> tickInserted (d c)"
    using sc_loop_victim [OF 1(2)] by blast
  show ?case
  proof (cases "hasSecondChance (d w)")
    case True
    let ?d = "d(w := useSecondChance now (d w))"
    have s: "sc_loop now cands ?d = Some (v, d')"
      using 1(2) sc_loop_step(1) [OF w True] by metis
    obtain c where c: "c \<in> set cands" "\<not> hasSecondChance (d c)" "tickInserted (d c) < now" using 1(3) by blast
    have cw: "c \<noteq> w" using c True by auto
    have ex: "\<exists>c \<in> set cands. \<not> hasSecondChance (?d c) \<and> tickInserted (?d c) < now"
      using c cw by auto
    note IH = 1(1) [OF w True s ex]
    have vc: "tickInserted (?d v) \<le> tickInserted (d c)" using IH c cw by auto
    then have vw: "v \<noteq> w" using c by (auto simp: useSecondChance_def fifo_reset_def)
    have wnow: "tickInserted (?d v) < tickInserted (?d w)"
      using vc vw c by (simp add: useSecondChance_def fifo_reset_def)
    then have dw: "d' w = useSecondChance now (d w)" using IH by simp
    show ?thesis
      using IH vw wm dw least [of v] wnow
      by (auto simp: True split: if_splits)
  next
    case False
    then have "v = w" "d' = d" using 1(2) sc_loop_step(2) [OF w] by simp_all
    then show ?thesis using False wm least by (auto simp: not_less [symmetric])
  qed
qed

text \<open>When every candidate has a second chance, all of them use it at the same tick, and the search
  ends at the first candidate.\<close>

lemma scan_victim_first:
  assumes "cands \<noteq> []" "\<forall>c \<in> set cands. \<not> better c (cands ! 0)"
  shows "scan_victim better cands = Some (cands ! 0)"
  using assms foldl_keep [of cands better "cands ! 0"] by (simp add: scan_victim_def)

lemma sc_loop_all:
  assumes "sc_loop now cands d = Some (v, d')" "cands \<noteq> []"
    and "\<forall>c \<in> set cands. tickInserted (d c) < now \<and> hasSecondChance (d c) \<or> tickInserted (d c) = now \<and> \<not> hasSecondChance (d c)"
  shows "v = cands ! 0 \<and> (\<forall>c \<in> set cands. d' c = (d c)\<lparr>tickInserted := now, hasSecondChance := False\<rparr>)"
  using assms
proof (induction now cands d rule: sc_loop.induct)
  case (1 now cands d)
  obtain w where w: "fifo_getVictim cands d = Some w" and wm: "w \<in> set cands"
    and least: "\<And>c. c \<in> set cands \<Longrightarrow> tickInserted (d w) \<le> tickInserted (d c)"
    using sc_loop_victim [OF 1(2)] by blast
  show ?case
  proof (cases "hasSecondChance (d w)")
    case True
    let ?d = "d(w := useSecondChance now (d w))"
    have s: "sc_loop now cands ?d = Some (v, d')"
      using 1(2) sc_loop_step(1) [OF w True] by metis
    have "\<forall>c \<in> set cands. tickInserted (?d c) < now \<and> hasSecondChance (?d c) \<or> tickInserted (?d c) = now \<and> \<not> hasSecondChance (?d c)"
      using 1(4) by (simp add: useSecondChance_def fifo_reset_def)
    note IH = 1(1) [OF w True s 1(3) this]
    then show ?thesis by (auto simp: useSecondChance_def fifo_reset_def split: if_splits)
  next
    case False
    then have vd: "v = w" "d' = d" using 1(2) sc_loop_step(2) [OF w] by simp_all
    have now: "tickInserted (d c) = now \<and> \<not> hasSecondChance (d c)" if "c \<in> set cands" for c
    proof -
      have "tickInserted (d w) = now" using 1(4) wm False by blast
      then have "now \<le> tickInserted (d c)" using least [OF that] by simp
      then show ?thesis using 1(4) that by (meson not_le)
    qed
    then have "fifo_getVictim cands d = Some (cands ! 0)"
      unfolding fifo_getVictim_def using 1(3) by (intro scan_victim_first) auto
    then show ?thesis using w vd now by auto
  qed
qed

section \<open>Properties of the replacement policies\<close>

lemma sc_getVictim_loop:
  "\<lbrakk>cands \<noteq> []; \<forall>c \<in> set cands. \<not> sc_invalid (d c)\<rbrakk> \<Longrightarrow> sc_getVictim now cands d = sc_loop now cands d"
  by (auto simp: sc_getVictim_def split: option.split dest: find_SomeD)

text \<open>
  C28: The second-chance search ends and returns a candidate.  If some candidate is invalid, so is
  the victim, and no data changes.  If none is, all were inserted before the current tick and some
  candidate has no second chance, the victim is the oldest of those that have none: every older
  candidate has used its second chance and is queued again at the current tick, and every younger
  one is as it was.  If every candidate has a second chance, all of them use it and the victim is the
  first candidate, whatever its age.
\<close>

theorem second_chance_victim:
  assumes "cands \<noteq> []"
  shows "\<exists>v d'. sc_getVictim now cands d = Some (v, d') \<and> v \<in> set cands \<and>
    ((\<exists>c \<in> set cands. sc_invalid (d c)) \<longrightarrow> sc_invalid (d v) \<and> d' = d) \<and>
    ((\<forall>c \<in> set cands. \<not> sc_invalid (d c) \<and> tickInserted (d c) < now) \<and> (\<exists>c \<in> set cands. \<not> hasSecondChance (d c)) \<longrightarrow>
       \<not> hasSecondChance (d v) \<and> d' v = d v \<and>
       (\<forall>c \<in> set cands. \<not> hasSecondChance (d c) \<longrightarrow> tickInserted (d v) \<le> tickInserted (d c)) \<and>
       (\<forall>c \<in> set cands. tickInserted (d c) < tickInserted (d v) \<longrightarrow>
          d' c = (d c)\<lparr>tickInserted := now, hasSecondChance := False\<rparr>) \<and>
       (\<forall>c. tickInserted (d v) < tickInserted (d c) \<longrightarrow> d' c = d c)) \<and>
    ((\<forall>c \<in> set cands. hasSecondChance (d c) \<and> tickInserted (d c) < now) \<longrightarrow>
       v = cands ! 0 \<and> (\<forall>c \<in> set cands. d' c = (d c)\<lparr>tickInserted := now, hasSecondChance := False\<rparr>))"
proof (cases "\<exists>c \<in> set cands. sc_invalid (d c)")
  case True
  then obtain v where v: "find (\<lambda>c. sc_invalid (d c)) cands = Some v"
    by (metis find_None_iff option.exhaust)
  have "v \<in> set cands" "sc_invalid (d v)" using find_SomeD [OF v] by simp_all
  moreover have "sc_getVictim now cands d = Some (v, d)" using assms by (simp add: sc_getVictim_def v)
  ultimately show ?thesis
    using True by (intro exI [of _ v] exI [of _ d]) (auto simp: sc_invalid_def)
next
  case False
  then have eq: "sc_getVictim now cands d = sc_loop now cands d" using assms by (intro sc_getVictim_loop) auto
  obtain v d' where v: "sc_loop now cands d = Some (v, d')" "v \<in> set cands"
    using sc_loop_some [OF assms] by blast
  show ?thesis
    using v False sc_loop_oldest [OF v(1)] sc_loop_all [OF v(1) assms]
    by (intro exI [of _ v] exI [of _ d'] conjI impI) (auto simp: eq useSecondChance_def fifo_reset_def)
qed

definition sc_example :: "nat \<Rightarrow> sc_data"
  where "sc_example c = (if c = 0 then \<lparr>tickInserted = 5, hasSecondChance = True\<rparr>
    else if c = 1 then \<lparr>tickInserted = 3, hasSecondChance = True\<rparr>
    else if c = 2 then \<lparr>tickInserted = 4, hasSecondChance = False\<rparr>
    else \<lparr>tickInserted = 7, hasSecondChance = False\<rparr>)"

theorem second_chance_victim_witness:
  "map_option fst (sc_getVictim 10 [0, 1, 2, 3] sc_example) = Some 2 \<and>
   map_option fst (sc_getVictim 10 [0, 1] sc_example) = Some 0"
proof -
  obtain v d' where v: "sc_getVictim 10 [0, 1, 2, 3] sc_example = Some (v, d')"
    "\<not> hasSecondChance (sc_example v)" "tickInserted (sc_example v) \<le> tickInserted (sc_example 2)"
    "v \<in> set [0, 1, 2, 3]"
    using second_chance_victim [of "[0, 1, 2, 3]" 10 sc_example] by (auto simp: sc_example_def sc_invalid_def)
  obtain w d'' where w: "sc_getVictim 10 [0, 1] sc_example = Some (w, d'')" "w = 0"
    using second_chance_victim [of "[0, 1]" 10 sc_example] by (auto simp: sc_example_def sc_invalid_def)
  from v have "v = 2" by (auto simp: sc_example_def)
  then show ?thesis using v w by simp
qed

text \<open>
  \<open>invalidate\<close> promises to make an entry the next probable victim.  Under the most-recently-used
  policy it does the opposite: an entry that was just invalidated is never the victim while any other
  candidate has been touched since tick 0.
\<close>

theorem mru_invalid_not_victim:
  assumes "c \<in> set cands" "d c = mru_invalidate x" "c' \<in> set cands" "mru_lastTouchTick (d c') \<noteq> 0"
  shows "\<exists>v. mru_getVictim cands d = Some v \<and> v \<noteq> c"
proof -
  obtain v where v: "mru_getVictim cands d = Some v"
    using scan_victim_some [of cands] assms(1) by (fastforce simp: mru_getVictim_def)
  then have "mru_lastTouchTick (d c') \<le> mru_lastTouchTick (d v)"
    using scan_victim_greatest [of "\<lambda>c. mru_lastTouchTick (d c)" cands v c'] assms(3) by (simp add: mru_getVictim_def)
  then have "mru_lastTouchTick (d v) \<noteq> 0" using assms(4) by auto
  then show ?thesis using v assms(2) by (auto simp: mru_invalidate_def)
qed

theorem mru_invalid_not_victim_witness:
  "\<exists>v. mru_getVictim [0, 1] (\<lambda>c. if c = 0 then mru_invalidate \<lparr>mru_lastTouchTick = 9\<rparr> else mru_touch 5 mru_new) = Some v \<and> v \<noteq> 0"
  by (rule mru_invalid_not_victim [where x = "\<lparr>mru_lastTouchTick = 9\<rparr>" and c' = 1]) (simp_all add: mru_touch_def)

end
