(* ===== verification/CacheTags.thy ===== *)
theory CacheTags
  imports Replacement IntMath
begin

text \<open>
  The blocks and the set-associative tags of gem5's caches (\<open>gem5/src/mem/cache/blk\<close>,
  \<open>tags/cacheset.hh\<close>, \<open>tags/base\<close>, \<open>tags/base_set_assoc\<close>) with the operations of the cache that fill
  and evict blocks (\<open>base.cc\<close>, \<open>cache.cc\<close>).  A block of the tags is its index in the vector of blocks, and
  \<open>Temp\<close> is the temporary block of the cache.  The replacement policy is a record of its methods; the
  lookups in the MSHR queue and in the write buffer are arguments.  A failed assertion, \<open>fatal\<close> or a
  division by zero is \<^term>\<open>None\<close>.  Statistics and debug output are not modelled.
\<close>

section \<open>Definitions\<close>

subsection \<open>Blocks\<close>

definition BlkValid :: u32 where "BlkValid = 0x01"
definition BlkWritable :: u32 where "BlkWritable = 0x02"
definition BlkReadable :: u32 where "BlkReadable = 0x04"
definition BlkDirty :: u32 where "BlkDirty = 0x08"
definition BlkHWPrefetched :: u32 where "BlkHWPrefetched = 0x20"
definition BlkSecure :: u32 where "BlkSecure = 0x40"

definition MaxAddr :: addr where "MaxAddr = - 1"
definition MaxTick :: tick where "MaxTick = - 1"
definition TaskUnknown :: u32 where "TaskUnknown = 1024"
definition invldMasterId :: u16 where "invldMasterId = - 1"

record mem_req =
  rq_contextId :: u32
  rq_paddr :: addr
  rq_size :: u32

record lock =
  lk_contextId :: u32
  lowAddr :: addr
  highAddr :: addr

definition lock_of :: "mem_req \<Rightarrow> lock"
  where "lock_of q = \<lparr>lk_contextId = rq_contextId q, lowAddr = rq_paddr q, highAddr = rq_paddr q + ucast (rq_size q) - 1\<rparr>"

definition lock_matches :: "lock \<Rightarrow> mem_req \<Rightarrow> bool"
  where "lock_matches l q =
    (let req_low = rq_paddr q; req_high = req_low + ucast (rq_size q) - 1
     in lk_contextId l = rq_contextId q \<and> req_low \<ge> lowAddr l \<and> req_high \<le> highAddr l)"

definition lock_intersects :: "lock \<Rightarrow> mem_req \<Rightarrow> bool"
  where "lock_intersects l q =
    (let req_low = rq_paddr q; req_high = req_low + ucast (rq_size q) - 1
     in req_low \<le> highAddr l \<and> req_high \<ge> lowAddr l)"

record cache_blk =
  task_id :: u32
  cb_tag :: addr
  cb_data :: "u8 list"
  cb_status :: u32
  whenReady :: tick
  cb_set :: nat
  cb_way :: nat
  refCount :: u32
  srcMasterId :: u16
  cb_tickInserted :: tick
  lockList :: "lock list"

definition isWritable :: "cache_blk \<Rightarrow> bool"
  where "isWritable b = (let needed_bits = BlkWritable OR BlkValid in cb_status b AND needed_bits = needed_bits)"

definition isReadable :: "cache_blk \<Rightarrow> bool"
  where "isReadable b = (let needed_bits = BlkReadable OR BlkValid in cb_status b AND needed_bits = needed_bits)"

definition isValid :: "cache_blk \<Rightarrow> bool"
  where "isValid b \<longleftrightarrow> cb_status b AND BlkValid \<noteq> 0"

definition isDirty :: "cache_blk \<Rightarrow> bool"
  where "isDirty b \<longleftrightarrow> cb_status b AND BlkDirty \<noteq> 0"

definition wasPrefetched :: "cache_blk \<Rightarrow> bool"
  where "wasPrefetched b \<longleftrightarrow> cb_status b AND BlkHWPrefetched \<noteq> 0"

definition isSecure :: "cache_blk \<Rightarrow> bool"
  where "isSecure b \<longleftrightarrow> cb_status b AND BlkSecure \<noteq> 0"

definition blk_invalidate :: "cache_blk \<Rightarrow> cache_blk"
  where "blk_invalidate b = b\<lparr>cb_tag := MaxAddr, task_id := TaskUnknown, cb_status := 0, whenReady := MaxTick, refCount := 0,
    srcMasterId := invldMasterId, cb_tickInserted := MaxTick, lockList := []\<rparr>"

definition blk_insert :: "tick \<Rightarrow> addr \<Rightarrow> bool \<Rightarrow> u16 \<Rightarrow> u32 \<Rightarrow> cache_blk \<Rightarrow> cache_blk"
  where "blk_insert now tg is_secure src_master_ID task_ID b =
    b\<lparr>cb_tag := tg, srcMasterId := src_master_ID, task_id := task_ID, cb_tickInserted := now, refCount := 1,
      cb_status := (if is_secure then BlkSecure else 0)\<rparr>"

fun clearLocks :: "(lock \<Rightarrow> bool) \<Rightarrow> lock list \<Rightarrow> lock list"
  where
    "clearLocks gone [] = []"
  | "clearLocks gone (l # ls) = (if gone l then clearLocks gone ls else l # clearLocks gone ls)"

definition trackLoadLocked :: "mem_req \<Rightarrow> cache_blk \<Rightarrow> cache_blk"
  where "trackLoadLocked q b = b\<lparr>lockList := lock_of q # clearLocks (\<lambda>l. lock_intersects l q) (lockList b)\<rparr>"

definition clearLoadLocks :: "mem_req \<Rightarrow> cache_blk \<Rightarrow> cache_blk"
  where "clearLoadLocks q b =
    b\<lparr>lockList := clearLocks (\<lambda>l. lock_intersects l q \<and> lk_contextId l \<noteq> rq_contextId q) (lockList b)\<rparr>"

text \<open>The search of a store conditional removes the first lock that matches.\<close>

fun erase_match :: "mem_req \<Rightarrow> lock list \<Rightarrow> bool \<times> lock list"
  where
    "erase_match q [] = (False, [])"
  | "erase_match q (l # ls) =
      (if lock_matches l q then (True, ls)
       else let (success, ls') = erase_match q ls in (success, l # ls'))"

definition checkWrite :: "bool \<Rightarrow> mem_req \<Rightarrow> cache_blk \<Rightarrow> bool \<times> cache_blk"
  where "checkWrite isLLSC q b =
    (if \<not> isLLSC \<and> lockList b = [] then (True, b)
     else if isLLSC then
       let (success, ls) = erase_match q (lockList b) in (success, clearLoadLocks q (b\<lparr>lockList := ls\<rparr>))
     else (True, clearLoadLocks q b))"

subsection \<open>The state of a cache\<close>

record cache_set =
  cs_assoc :: nat
  cs_blks :: "nat list"

record 'd cache =
  blkSize :: u32
  blkMask :: addr
  lookupLatency :: u64
  accessLatency :: u64
  assoc :: nat
  allocAssoc :: nat
  blks :: "cache_blk list"
  numSets :: nat
  sets :: "cache_set list"
  setShift :: nat
  tagShift :: nat
  setMask :: u32
  replData :: "nat \<Rightarrow> 'd"
  tempBlock :: cache_blk
  tempAddr :: addr
  isReadOnly :: bool
  writebackClean :: bool
  fillLatency :: u64
  maxMasters :: u16
  clockPeriod :: tick
  ck_tick :: tick
  ck_cycle :: u64

datatype blk_ptr = Blk nat | Temp

definition blk_at :: "'d cache \<Rightarrow> blk_ptr \<Rightarrow> cache_blk"
  where "blk_at c p = (case p of Blk k \<Rightarrow> blks c ! k | Temp \<Rightarrow> tempBlock c)"

definition upd_blk :: "blk_ptr \<Rightarrow> (cache_blk \<Rightarrow> cache_blk) \<Rightarrow> 'd cache \<Rightarrow> 'd cache"
  where "upd_blk p f c =
    (case p of Blk k \<Rightarrow> c\<lparr>blks := (blks c)[k := f (blks c ! k)]\<rparr> | Temp \<Rightarrow> c\<lparr>tempBlock := f (tempBlock c)\<rparr>)"

definition upd_repl :: "nat \<Rightarrow> ('d \<Rightarrow> 'd) \<Rightarrow> 'd cache \<Rightarrow> 'd cache"
  where "upd_repl k f c = c\<lparr>replData := (replData c)(k := f (replData c k))\<rparr>"

definition clocked_update :: "tick \<Rightarrow> 'd cache \<Rightarrow> 'd cache option"
  where "clocked_update now c =
    (if ck_tick c \<ge> now then Some c
     else let c = c\<lparr>ck_tick := ck_tick c + clockPeriod c, ck_cycle := ck_cycle c + 1\<rparr> in
       if ck_tick c \<ge> now then Some c
       else do {
         elapsedCycles \<leftarrow> divCeil (now - ck_tick c) (clockPeriod c);
         Some (c\<lparr>ck_cycle := ck_cycle c + elapsedCycles, ck_tick := ck_tick c + elapsedCycles * clockPeriod c\<rparr>) })"

definition clockEdge :: "tick \<Rightarrow> u64 \<Rightarrow> 'd cache \<Rightarrow> (tick \<times> 'd cache) option"
  where "clockEdge now cycles c = do {
    c \<leftarrow> clocked_update now c;
    Some (ck_tick c + clockPeriod c * cycles, c) }"

definition ticksToCycles :: "tick \<Rightarrow> 'd cache \<Rightarrow> u64 option"
  where "ticksToCycles t c = divCeil t (clockPeriod c)"

subsection \<open>The set-associative tags\<close>

definition findBlk :: "cache_blk list \<Rightarrow> cache_set \<Rightarrow> addr \<Rightarrow> bool \<Rightarrow> nat \<times> nat option"
  where "findBlk bs s tg is_secure =
    (case find (\<lambda>i. let b = bs ! (cs_blks s ! i) in cb_tag b = tg \<and> isValid b \<and> isSecure b = is_secure) [0..<cs_assoc s] of
       None \<Rightarrow> (cs_assoc s, None)
     | Some i \<Rightarrow> (i, Some (cs_blks s ! i)))"

definition extractTag :: "addr \<Rightarrow> 'd cache \<Rightarrow> addr"
  where "extractTag a c = drop_bit (tagShift c) a"

definition extractSet :: "addr \<Rightarrow> 'd cache \<Rightarrow> nat"
  where "extractSet a c = unat (drop_bit (setShift c) a AND ucast (setMask c))"

definition blkAlign :: "addr \<Rightarrow> 'd cache \<Rightarrow> addr"
  where "blkAlign a c = a AND NOT (blkMask c)"

definition extractBlkOffset :: "addr \<Rightarrow> 'd cache \<Rightarrow> addr"
  where "extractBlkOffset a c = a AND blkMask c"

definition tags_regenerateBlkAddr :: "cache_blk \<Rightarrow> 'd cache \<Rightarrow> addr"
  where "tags_regenerateBlkAddr b c =
    push_bit (tagShift c) (cb_tag b) OR push_bit (setShift c) (of_nat (cb_set b))"

definition findBlock :: "addr \<Rightarrow> bool \<Rightarrow> 'd cache \<Rightarrow> nat option"
  where "findBlock a is_secure c =
    (let tg = extractTag a c; st = extractSet a c in snd (findBlk (blks c) (sets c ! st) tg is_secure))"

definition findBlockBySetAndWay :: "nat \<Rightarrow> nat \<Rightarrow> 'd cache \<Rightarrow> nat"
  where "findBlockBySetAndWay st way c = cs_blks (sets c ! st) ! way"

definition accessBlock :: "'d rp_ops \<Rightarrow> tick \<Rightarrow> addr \<Rightarrow> bool \<Rightarrow> 'd cache \<Rightarrow> (nat option \<times> u64 \<times> 'd cache) option"
  where "accessBlock ops now a is_secure c =
    (case findBlock a is_secure c of
       None \<Rightarrow> Some (None, lookupLatency c, c)
     | Some k \<Rightarrow> do {
         let b = blks c ! k;
         lat \<leftarrow> (if whenReady b > now
                 then do {
                   w \<leftarrow> ticksToCycles (whenReady b - now) c;
                   Some (if w > accessLatency c then w + accessLatency c else accessLatency c) }
                 else Some (accessLatency c));
         let c = upd_blk (Blk k) (\<lambda>b. b\<lparr>refCount := refCount b + 1\<rparr>) c;
         Some (Some k, lat, upd_repl k (rp_touch ops now) c) })"

definition getPossibleLocations :: "addr \<Rightarrow> 'd cache \<Rightarrow> nat list"
  where "getPossibleLocations a c = cs_blks (sets c ! extractSet a c)"

definition findVictim :: "'d rp_ops \<Rightarrow> tick \<Rightarrow> u32 \<Rightarrow> addr \<Rightarrow> 'd cache \<Rightarrow> (nat \<times> nat list \<times> 'd cache) option"
  where "findVictim ops now r a c = do {
    (victim, d) \<leftarrow> rp_getVictim ops now r (getPossibleLocations a c) (replData c);
    Some (victim, [victim], c\<lparr>replData := d\<rparr>) }"

definition tags_invalidate :: "'d rp_ops \<Rightarrow> nat \<Rightarrow> 'd cache \<Rightarrow> 'd cache option"
  where "tags_invalidate ops k c = do {
    c_assert (isValid (blks c ! k));
    Some (upd_repl k (rp_invalidate ops) (upd_blk (Blk k) blk_invalidate c)) }"

definition setWayAllocationMax :: "int \<Rightarrow> 'd cache \<Rightarrow> 'd cache option"
  where "setWayAllocationMax ways c = (if ways < 1 then None else Some (c\<lparr>allocAssoc := nat ways\<rparr>))"

record tag_params =
  tp_size :: u64
  tp_block_size :: u32
  tp_assoc :: u32
  tp_tag_latency :: u64
  tp_data_latency :: u64
  tp_sequential_access :: bool

text \<open>The constructor links block \<open>blkIndex = i * assoc + j\<close> as way \<open>j\<close> of set \<open>i\<close>; blocks that belong to no
  set keep the values of the default constructor.  \<open>bytes\<close> is what the data array happens to hold.  The product
  of the block size and the associativity is an \<open>int\<close>, so its overflow is undefined.\<close>

definition blk_default :: "u8 list \<Rightarrow> cache_blk"
  where "blk_default bytes = blk_invalidate \<lparr>task_id = 0, cb_tag = 0, cb_data = bytes, cb_status = 0, whenReady = 0, cb_set = 0, cb_way = 0,
    refCount = 0, srcMasterId = 0, cb_tickInserted = 0, lockList = []\<rparr>"

definition cache_new :: "'d rp_ops \<Rightarrow> tag_params \<Rightarrow> (nat \<Rightarrow> u8) \<Rightarrow> 'd cache \<Rightarrow> 'd cache option"
  where "cache_new ops p bytes c =
    (let bs = tp_block_size p;
         nblks = unat (tp_size p div ucast bs);
         nsets = (ucast (tp_size p div ucast (bs * tp_assoc p)) :: u32);
         chunk = (\<lambda>k. map bytes [unat bs * k..<unat bs * (k + 1)]);
         w = unat (tp_assoc p)
     in do {
       c_assert (unat bs * unat (tp_assoc p) < 2 ^ 31);
       c_assert (\<not> (bs < 4 \<or> \<not> isPowerOf2 bs));
       c_assert (isPowerOf2 nsets);
       c_assert (\<not> tp_assoc p \<le> 0);
       ss \<leftarrow> floorLog2_u32 bs;
       ls \<leftarrow> floorLog2_u32 nsets;
       Some (c\<lparr>blkSize := bs, blkMask := ucast (bs - 1), lookupLatency := tp_tag_latency p,
         accessLatency := (if tp_sequential_access p then tp_tag_latency p + tp_data_latency p
                           else max (tp_tag_latency p) (tp_data_latency p)),
         assoc := w, allocAssoc := w,
         blks := map (\<lambda>k. if k < unat nsets * w
                           then (blk_default (chunk k))\<lparr>cb_tag := of_nat (k mod w), cb_set := k div w, cb_way := k mod w\<rparr>
                           else blk_default []) [0..<nblks],
         numSets := unat nsets,
         sets := map (\<lambda>i. \<lparr>cs_assoc = w, cs_blks = map (\<lambda>j. i * w + j) [0..<w]\<rparr>) [0..<unat nsets],
         setShift := ss, tagShift := ss + ls, setMask := nsets - 1,
         replData := (\<lambda>k. rp_instantiateEntry ops)\<rparr>) })"

subsection \<open>Filling and evicting\<close>

record packet =
  pk_addr :: addr
  pk_isSecure :: bool
  pk_masterId :: u16
  pk_taskId :: u32
  pk_isRead :: bool
  pk_isResponse :: bool
  pk_isWriteLine :: bool
  pk_hasData :: bool
  pk_hasSharers :: bool
  pk_cacheResponding :: bool
  pk_data :: "u8 list"
  pk_payloadDelay :: tick

definition getOffset :: "addr \<Rightarrow> u32 \<Rightarrow> addr"
  where "getOffset a blk_size = a AND ucast (blk_size - 1)"

definition getBlockAddr :: "addr \<Rightarrow> u32 \<Rightarrow> addr"
  where "getBlockAddr a blk_size = a AND NOT (ucast (blk_size - 1))"

definition writeDataToBlock :: "packet \<Rightarrow> u32 \<Rightarrow> u8 list \<Rightarrow> u8 list"
  where "writeDataToBlock pkt blk_size bs =
    (let off = unat (getOffset (pk_addr pkt) blk_size)
     in take off bs @ pk_data pkt @ drop (off + length (pk_data pkt)) bs)"

datatype wb_cmd = WritebackDirty | WritebackClean | CleanEvict

record wb_packet =
  wb_cmd :: wb_cmd
  wb_addr :: addr
  wb_secure :: bool
  wb_taskId :: u32
  wb_hasSharers :: bool
  wb_data :: "u8 list"

record cache_env =
  mshr_findMatch :: "addr \<Rightarrow> bool \<Rightarrow> (bool \<times> bool) option"
  writeBuffer_findMatch :: "addr \<Rightarrow> bool \<Rightarrow> bool"

definition regenerateBlkAddr :: "blk_ptr \<Rightarrow> 'd cache \<Rightarrow> addr"
  where "regenerateBlkAddr p c = (case p of Blk k \<Rightarrow> tags_regenerateBlkAddr (blks c ! k) c | Temp \<Rightarrow> tempAddr c)"

definition invalidateBlock :: "'d rp_ops \<Rightarrow> blk_ptr \<Rightarrow> 'd cache \<Rightarrow> 'd cache option"
  where "invalidateBlock ops p c = do {
    c \<leftarrow> (case p of Blk k \<Rightarrow> tags_invalidate ops k c | Temp \<Rightarrow> Some c);
    Some (case p of Blk k \<Rightarrow> upd_blk p blk_invalidate c
                  | Temp \<Rightarrow> (upd_blk p blk_invalidate c)\<lparr>tempAddr := MaxAddr\<rparr>) }"

definition writebackBlk :: "blk_ptr \<Rightarrow> 'd cache \<Rightarrow> (wb_packet \<times> 'd cache) option"
  where "writebackBlk p c =
    (let b = blk_at c p; a = regenerateBlkAddr p c; off = unat (getOffset a (blkSize c)) in
     do {
       c_assert (\<not> isReadOnly c \<or> writebackClean c);
       c_assert (isValid b \<and> (isDirty b \<or> writebackClean c));
       let pkt = \<lparr>wb_cmd = (if isDirty b then WritebackDirty else WritebackClean), wb_addr = a, wb_secure = isSecure b,
                  wb_taskId = task_id b, wb_hasSharers = \<not> isWritable b,
                  wb_data = take (unat (blkSize c)) (drop off (cb_data b))\<rparr>;
       let c = (if isWritable b then upd_blk p (\<lambda>b. b\<lparr>cb_status := cb_status b AND NOT BlkWritable\<rparr>) c else c);
       let c = upd_blk p (\<lambda>b. b\<lparr>cb_status := cb_status b AND NOT BlkDirty\<rparr>) c;
       Some (pkt, c) })"

definition cleanEvictBlk :: "blk_ptr \<Rightarrow> 'd cache \<Rightarrow> wb_packet option"
  where "cleanEvictBlk p c =
    (let b = blk_at c p in
     do {
       c_assert (\<not> writebackClean c);
       c_assert (isValid b \<and> \<not> isDirty b);
       Some \<lparr>wb_cmd = CleanEvict, wb_addr = regenerateBlkAddr p c, wb_secure = isSecure b, wb_taskId = task_id b,
             wb_hasSharers = False, wb_data = []\<rparr> })"

definition evictBlock :: "'d rp_ops \<Rightarrow> blk_ptr \<Rightarrow> 'd cache \<Rightarrow> (wb_packet \<times> 'd cache) option"
  where "evictBlock ops p c = do {
    (pkt, c) \<leftarrow> (if isDirty (blk_at c p) \<or> writebackClean c then writebackBlk p c
                 else do { pkt \<leftarrow> cleanEvictBlk p c; Some (pkt, c) });
    c \<leftarrow> invalidateBlock ops p c;
    Some (pkt, c) }"

definition insertBlock :: "'d rp_ops \<Rightarrow> tick \<Rightarrow> u32 \<Rightarrow> packet \<Rightarrow> nat \<Rightarrow> 'd cache \<Rightarrow> 'd cache option"
  where "insertBlock ops now r pkt k c = do {
    c_assert (\<not> isValid (blks c ! k));
    c_assert (pk_masterId pkt < maxMasters c);
    let c = upd_blk (Blk k) (blk_insert now (extractTag (pk_addr pkt) c) (pk_isSecure pkt) (pk_masterId pkt) (pk_taskId pkt)) c;
    Some (upd_repl k (rp_reset ops now r) c) }"

fun transient_blks :: "cache_env \<Rightarrow> nat list \<Rightarrow> 'd cache \<Rightarrow> bool option"
  where
    "transient_blks env [] c = Some False"
  | "transient_blks env (k # ks) c =
      (let b = blks c ! k in
       if isValid b then
         (case mshr_findMatch env (regenerateBlkAddr (Blk k) c) (isSecure b) of
            Some (needsWritable, isCleaning) \<Rightarrow> do {
              c_assert (\<not> isWritable b \<and> needsWritable \<or> isCleaning);
              Some True }
          | None \<Rightarrow> transient_blks env ks c)
       else transient_blks env ks c)"

fun evict_all :: "'d rp_ops \<Rightarrow> nat list \<Rightarrow> wb_packet list \<Rightarrow> 'd cache \<Rightarrow> (wb_packet list \<times> 'd cache) option"
  where
    "evict_all ops [] writebacks c = Some (writebacks, c)"
  | "evict_all ops (k # ks) writebacks c =
      (if isValid (blks c ! k)
       then do { (pkt, c) \<leftarrow> evictBlock ops (Blk k) c; evict_all ops ks (writebacks @ [pkt]) c }
       else evict_all ops ks writebacks c)"

definition allocateBlock ::
    "'d rp_ops \<Rightarrow> cache_env \<Rightarrow> tick \<Rightarrow> u32 \<Rightarrow> u32 \<Rightarrow> packet \<Rightarrow> 'd cache \<Rightarrow> (nat option \<times> wb_packet list \<times> 'd cache) option"
  where "allocateBlock ops env now r1 r2 pkt c = do {
    (victim, evict_blks, c) \<leftarrow> findVictim ops now r1 (pk_addr pkt) c;
    transient \<leftarrow> transient_blks env evict_blks c;
    if transient then Some (None, [], c)
    else do {
      (writebacks, c) \<leftarrow> evict_all ops evict_blks [] c;
      c \<leftarrow> insertBlock ops now r2 pkt victim c;
      Some (Some victim, writebacks, c) } }"

definition temp_insert :: "addr \<Rightarrow> bool \<Rightarrow> 'd cache \<Rightarrow> 'd cache"
  where "temp_insert a is_secure c =
    (upd_blk Temp (\<lambda>b. b\<lparr>cb_status := (if is_secure then BlkSecure else 0)\<rparr>) c)\<lparr>tempAddr := a\<rparr>"

text \<open>The first part of \<open>handleFill\<close>, up to the block that receives the data.\<close>

definition fill_target ::
    "'d rp_ops \<Rightarrow> cache_env \<Rightarrow> tick \<Rightarrow> u32 \<Rightarrow> u32 \<Rightarrow> packet \<Rightarrow> nat option \<Rightarrow> bool \<Rightarrow> 'd cache
      \<Rightarrow> (blk_ptr \<times> wb_packet list \<times> 'd cache) option"
  where "fill_target ops env now r1 r2 pkt blk allocate c =
    (case blk of
       None \<Rightarrow> do {
         c_assert (pk_hasData pkt);
         c_assert (pk_isRead pkt \<or> pk_isWriteLine pkt);
         (q, writebacks, c) \<leftarrow> (if allocate then allocateBlock ops env now r1 r2 pkt c else Some (None, [], c));
         (p, c) \<leftarrow> (case q of
             Some k \<Rightarrow> Some (Blk k, c)
           | None \<Rightarrow> do {
               c_assert (\<not> isValid (tempBlock c));
               Some (Temp, temp_insert (pk_addr pkt) (pk_isSecure pkt) c) });
         c_assert (\<not> isValid (blk_at c p));
         Some (p, writebacks, c) }
     | Some k \<Rightarrow> do {
         c_assert (regenerateBlkAddr (Blk k) c = pk_addr pkt);
         c_assert (isSecure (blks c ! k) = pk_isSecure pkt);
         c_assert (pk_hasData pkt \<or> isValid (blks c ! k));
         Some (Blk k, [], c) })"

text \<open>Its second part: the state of the line, the data and the time when the block is ready.\<close>

definition fill_status :: "packet \<Rightarrow> blk_ptr \<Rightarrow> 'd cache \<Rightarrow> 'd cache option"
  where "fill_status pkt p c = do {
    let c = upd_blk p (\<lambda>b. b\<lparr>cb_status := cb_status b OR (BlkValid OR BlkReadable)\<rparr>) c;
    c_assert (\<not> pk_isWriteLine pkt \<or> \<not> pk_hasSharers pkt);
    if \<not> pk_hasSharers pkt
    then let c = upd_blk p (\<lambda>b. b\<lparr>cb_status := cb_status b OR BlkWritable\<rparr>) c in
      if pk_cacheResponding pkt
      then do {
        let c = upd_blk p (\<lambda>b. b\<lparr>cb_status := cb_status b OR BlkDirty\<rparr>) c;
        c_assert (\<not> isReadOnly c);
        Some c }
      else Some c
    else Some c }"

definition fill_data :: "packet \<Rightarrow> blk_ptr \<Rightarrow> 'd cache \<Rightarrow> 'd cache option"
  where "fill_data pkt p c =
    (if pk_isRead pkt
     then do {
       c_assert (pk_hasData pkt);
       c_assert (of_nat (length (pk_data pkt)) = blkSize c \<and> length (pk_data pkt) < 2 ^ 32);
       Some (upd_blk p (\<lambda>b. b\<lparr>cb_data := writeDataToBlock pkt (blkSize c) (cb_data b)\<rparr>) c) }
     else Some c)"

definition handleFill ::
    "'d rp_ops \<Rightarrow> cache_env \<Rightarrow> tick \<Rightarrow> u32 \<Rightarrow> u32 \<Rightarrow> packet \<Rightarrow> nat option \<Rightarrow> bool \<Rightarrow> 'd cache
      \<Rightarrow> (blk_ptr \<times> wb_packet list \<times> 'd cache) option"
  where "handleFill ops env now r1 r2 pkt blk allocate c = do {
    c_assert (pk_isResponse pkt \<or> pk_isWriteLine pkt);
    c_assert (pk_addr pkt = getBlockAddr (pk_addr pkt) (blkSize c));
    c_assert (\<not> writeBuffer_findMatch env (pk_addr pkt) (pk_isSecure pkt));
    (p, writebacks, c) \<leftarrow> fill_target ops env now r1 r2 pkt blk allocate c;
    c \<leftarrow> fill_status pkt p c;
    c \<leftarrow> fill_data pkt p c;
    (edge, c) \<leftarrow> clockEdge now 0 c;
    let c = upd_blk p (\<lambda>b. b\<lparr>whenReady := edge + fillLatency c * clockPeriod c + pk_payloadDelay pkt\<rparr>) c;
    Some (p, writebacks, c) }"

section \<open>Status bits and addresses\<close>

lemmas blk_consts = BlkValid_def BlkWritable_def BlkReadable_def BlkDirty_def BlkHWPrefetched_def BlkSecure_def

lemma status_bits:
  "isValid b = bit (cb_status b) 0" "isDirty b = bit (cb_status b) 3" "isSecure b = bit (cb_status b) 6"
proof -
  have e: "BlkValid = 2 ^ 0" "BlkDirty = 2 ^ 3" "BlkSecure = 2 ^ 6" by (simp_all add: blk_consts)
  show "isValid b = bit (cb_status b) 0" "isDirty b = bit (cb_status b) 3" "isSecure b = bit (cb_status b) 6"
    unfolding isValid_def isDirty_def isSecure_def e by (simp_all only: and_exp_eq_0_iff_not_bit not_not)
qed

lemma const_bits:
  "bit BlkValid n = (n = 0)" "bit BlkWritable n = (n = 1)" "bit BlkReadable n = (n = 2)" "bit BlkDirty n = (n = 3)"
  "bit BlkSecure n = (n = 6)"
proof -
  have e: "BlkValid = 2 ^ 0" "BlkWritable = 2 ^ 1" "BlkReadable = 2 ^ 2" "BlkDirty = 2 ^ 3" "BlkSecure = 2 ^ 6"
    by (simp_all add: blk_consts)
  show "bit BlkValid n = (n = 0)" "bit BlkWritable n = (n = 1)" "bit BlkReadable n = (n = 2)" "bit BlkDirty n = (n = 3)"
    "bit BlkSecure n = (n = 6)"
    unfolding e by (auto simp only: bit_exp_iff) auto
qed

lemma status_cong [simp]:
  "isValid (b\<lparr>refCount := n\<rparr>) = isValid b" "isValid (b\<lparr>cb_data := x\<rparr>) = isValid b" "isValid (b\<lparr>whenReady := t\<rparr>) = isValid b"
  "isSecure (b\<lparr>refCount := n\<rparr>) = isSecure b" "isSecure (b\<lparr>cb_data := x\<rparr>) = isSecure b" "isSecure (b\<lparr>whenReady := t\<rparr>) = isSecure b"
  by (simp_all add: isValid_def isSecure_def)

lemma blk_invalidate_invalid [simp]: "\<not> isValid (blk_invalidate b)"
  by (simp add: isValid_def blk_invalidate_def)

definition geom_ok :: "'d cache \<Rightarrow> bool"
  where "geom_ok c \<longleftrightarrow> setShift c \<le> tagShift c \<and> tagShift c < 64 \<and> tagShift c - setShift c < 32 \<and> setShift c < 32 \<and>
    blkSize c = 2 ^ setShift c \<and> blkMask c = mask (setShift c) \<and> setMask c = mask (tagShift c - setShift c) \<and>
    numSets c = 2 ^ (tagShift c - setShift c) \<and> 0 < assoc c \<and> length (sets c) = numSets c \<and>
    numSets c * assoc c \<le> length (blks c) \<and>
    (\<forall>i < numSets c. sets c ! i = \<lparr>cs_assoc = assoc c, cs_blks = map (\<lambda>j. i * assoc c + j) [0..<assoc c]\<rparr>)"

lemma geom_okD:
  assumes "geom_ok c"
  shows "setShift c \<le> tagShift c" "tagShift c < 64" "tagShift c - setShift c < 32" "setShift c < 32"
    "blkSize c = 2 ^ setShift c" "blkMask c = mask (setShift c)" "setMask c = mask (tagShift c - setShift c)"
    "numSets c = 2 ^ (tagShift c - setShift c)" "0 < assoc c" "numSets c * assoc c \<le> length (blks c)"
    "i < numSets c \<Longrightarrow> sets c ! i = \<lparr>cs_assoc = assoc c, cs_blks = map (\<lambda>j. i * assoc c + j) [0..<assoc c]\<rparr>"
  using assms unfolding geom_ok_def by blast+

lemma slice_word:
  fixes a :: u64
  assumes "ss \<le> ts" "ts < 64" "ts - ss < 32"
  shows "push_bit ts (drop_bit ts a) OR push_bit ss (drop_bit ss a AND ucast (mask (ts - ss) :: u32)) = a AND NOT (mask ss)"
proof (rule bit_word_eqI)
  fix n assume "n < LENGTH(64)"
  then show "bit (push_bit ts (drop_bit ts a) OR push_bit ss (drop_bit ss a AND ucast (mask (ts - ss) :: u32))) n
      = bit (a AND NOT (mask ss)) n"
    using assms by (cases "n < ss"; cases "n < ts") (auto simp: bit_simps)
qed

lemma drop_aligned:
  fixes a :: u64
  assumes "ss \<le> ts"
  shows "drop_bit ts (a AND NOT (mask ss)) = drop_bit ts a"
  using assms by (intro bit_word_eqI) (auto simp: bit_simps dest: bit_imp_le_length)

lemma ucast_blkSize:
  assumes "geom_ok c" shows "(ucast (blkSize c - 1) :: u64) = mask (setShift c)"
proof -
  have "blkSize c - 1 = mask (setShift c)" by (simp add: geom_okD(5) [OF assms] mask_eq_exp_minus_1)
  then show ?thesis using geom_okD(4) [OF assms] by (simp only:) (auto intro!: bit_word_eqI simp: bit_simps)
qed

lemma getOffset_aligned:
  assumes "geom_ok c"
  shows "getBlockAddr a (blkSize c) = blkAlign a c" "getOffset (blkAlign a c) (blkSize c) = 0"
  unfolding getBlockAddr_def getOffset_def blkAlign_def ucast_blkSize [OF assms] geom_okD(6) [OF assms]
  by (auto intro!: bit_word_eqI simp: bit_simps)

lemma extractSet_less:
  assumes "geom_ok c" shows "extractSet a c < numSets c"
proof -
  let ?n = "tagShift c - setShift c"
  have "drop_bit (setShift c) a AND ucast (setMask c) = take_bit ?n (drop_bit (setShift c) a)"
    unfolding geom_okD(7) [OF assms] using geom_okD(3) [OF assms]
    by (intro bit_word_eqI) (auto simp: bit_simps)
  then have "extractSet a c = take_bit ?n (unat (drop_bit (setShift c) a))"
    by (simp add: extractSet_def unsigned_take_bit_eq)
  then show ?thesis by (simp add: geom_okD(8) [OF assms])
qed

lemma regenerate_extract:
  assumes "geom_ok c" "cb_tag b = extractTag a c" "cb_set b = extractSet a c"
  shows "tags_regenerateBlkAddr b c = blkAlign a c"
  using slice_word [OF geom_okD(1,2,3) [OF assms(1)], of a]
  unfolding tags_regenerateBlkAddr_def assms(2,3) extractTag_def extractSet_def blkAlign_def geom_okD(6,7) [OF assms(1)]
  by simp

lemma same_block:
  assumes "geom_ok c"
  shows "(extractTag a c = extractTag a' c \<and> extractSet a c = extractSet a' c) = (blkAlign a c = blkAlign a' c)"
proof
  assume "extractTag a c = extractTag a' c \<and> extractSet a c = extractSet a' c"
  then show "blkAlign a c = blkAlign a' c"
    using regenerate_extract [OF assms, of "undefined\<lparr>cb_tag := extractTag a c, cb_set := extractSet a c\<rparr>" a]
      regenerate_extract [OF assms, of "undefined\<lparr>cb_tag := extractTag a c, cb_set := extractSet a c\<rparr>" a'] by simp
next
  assume "blkAlign a c = blkAlign a' c"
  then show "extractTag a c = extractTag a' c \<and> extractSet a c = extractSet a' c"
    using drop_aligned [OF geom_okD(1) [OF assms], of a] drop_aligned [OF geom_okD(1) [OF assms], of a']
      drop_aligned [of "setShift c" "setShift c" a] drop_aligned [of "setShift c" "setShift c" a']
    by (simp add: extractTag_def extractSet_def blkAlign_def geom_okD(6) [OF assms])
qed

section \<open>Looking up a block\<close>

definition blk_matches :: "'d cache \<Rightarrow> addr \<Rightarrow> bool \<Rightarrow> nat \<Rightarrow> bool"
  where "blk_matches c a s k \<longleftrightarrow> k div assoc c = extractSet a c \<and> cb_tag (blks c ! k) = extractTag a c \<and>
    isValid (blks c ! k) \<and> isSecure (blks c ! k) = s"

definition tags_ok :: "'d cache \<Rightarrow> bool"
  where "tags_ok c \<longleftrightarrow> geom_ok c \<and>
    (\<forall>k < numSets c * assoc c. cb_set (blks c ! k) = k div assoc c \<and> length (cb_data (blks c ! k)) = unat (blkSize c)) \<and>
    (\<forall>k < numSets c * assoc c. \<forall>l < numSets c * assoc c. k div assoc c = l div assoc c \<and> isValid (blks c ! k) \<and> isValid (blks c ! l) \<and>
       cb_tag (blks c ! k) = cb_tag (blks c ! l) \<and> isSecure (blks c ! k) = isSecure (blks c ! l) \<longrightarrow> k = l)"

lemma tags_okD:
  assumes "tags_ok c"
  shows "geom_ok c"
    "k < numSets c * assoc c \<Longrightarrow> cb_set (blks c ! k) = k div assoc c"
    "k < numSets c * assoc c \<Longrightarrow> length (cb_data (blks c ! k)) = unat (blkSize c)"
    "\<lbrakk>k < numSets c * assoc c; l < numSets c * assoc c; k div assoc c = l div assoc c; isValid (blks c ! k); isValid (blks c ! l);
      cb_tag (blks c ! k) = cb_tag (blks c ! l); isSecure (blks c ! k) = isSecure (blks c ! l)\<rbrakk> \<Longrightarrow> k = l"
  using assms unfolding tags_ok_def by blast+

lemma set_index:
  assumes "geom_ok c" "k div assoc c < numSets c" shows "k < numSets c * assoc c" "k < length (blks c)"
proof -
  show "k < numSets c * assoc c" using assms geom_okD(9) [OF assms(1)] by (simp add: div_less_iff_less_mult)
  then show "k < length (blks c)" using geom_okD(10) [OF assms(1)] by simp
qed

lemma index_set:
  assumes "k < numSets c * assoc c" shows "k div assoc c < numSets c"
  using assms by (simp add: less_mult_imp_div_less)

lemma locations_mem:
  assumes "geom_ok c"
  shows "k \<in> set (getPossibleLocations a c) \<longleftrightarrow> k div assoc c = extractSet a c"
proof -
  have z: "0 < assoc c" using geom_okD(9) [OF assms] .
  have "k \<in> (\<lambda>j. i * assoc c + j) ` {0..<assoc c} \<longleftrightarrow> k div assoc c = i" for i
  proof
    assume "k div assoc c = i"
    then have "k = i * assoc c + k mod assoc c" "k mod assoc c < assoc c" using z by auto
    then show "k \<in> (\<lambda>j. i * assoc c + j) ` {0..<assoc c}" by (metis atLeastLessThan_iff imageI zero_le)
  qed (use z in \<open>auto intro!: div_nat_eqI simp: ac_simps\<close>)
  then show ?thesis
    by (simp add: getPossibleLocations_def geom_okD(11) [OF assms extractSet_less [OF assms]] atLeast0LessThan)
qed

lemma locations_list:
  assumes "geom_ok c"
  shows "distinct (getPossibleLocations a c)" "length (getPossibleLocations a c) = assoc c"
  by (simp_all add: getPossibleLocations_def geom_okD(11) [OF assms extractSet_less [OF assms]] distinct_map inj_on_def)

lemma find_nth:
  "map_option ((!) xs) (find (\<lambda>i. P (xs ! i)) [0..<length xs]) = find P xs"
proof -
  have "map_option f (find (\<lambda>x. P (f x)) ys) = find P (map f ys)" for f :: "nat \<Rightarrow> 'a" and ys
    by (induction ys) auto
  then show ?thesis by (metis map_nth)
qed

lemma findBlock_find:
  assumes "geom_ok c"
  shows "findBlock a s c = find (\<lambda>k. cb_tag (blks c ! k) = extractTag a c \<and> isValid (blks c ! k) \<and> isSecure (blks c ! k) = s)
    (getPossibleLocations a c)"
proof -
  let ?s = "sets c ! extractSet a c"
  have "cs_assoc ?s = length (cs_blks ?s)" by (simp add: geom_okD(11) [OF assms extractSet_less [OF assms]])
  then have "findBlock a s c = map_option ((!) (cs_blks ?s)) (find (\<lambda>i. cb_tag (blks c ! (cs_blks ?s ! i)) = extractTag a c \<and>
      isValid (blks c ! (cs_blks ?s ! i)) \<and> isSecure (blks c ! (cs_blks ?s ! i)) = s) [0..<length (cs_blks ?s)])"
    by (simp add: findBlock_def findBlk_def Let_def split: option.split)
  also have "\<dots> = find (\<lambda>k. cb_tag (blks c ! k) = extractTag a c \<and> isValid (blks c ! k) \<and> isSecure (blks c ! k) = s) (cs_blks ?s)"
    by (rule find_nth)
  finally show ?thesis by (simp add: getPossibleLocations_def)
qed

lemma findBlock_SomeD:
  assumes "geom_ok c" "findBlock a s c = Some k"
  shows "blk_matches c a s k" "k < numSets c * assoc c" "k < length (blks c)"
proof -
  have "k \<in> set (getPossibleLocations a c)" "cb_tag (blks c ! k) = extractTag a c" "isValid (blks c ! k)" "isSecure (blks c ! k) = s"
    using find_SomeD [OF assms(2) [unfolded findBlock_find [OF assms(1)]]] by simp_all
  then show m: "blk_matches c a s k" by (simp add: blk_matches_def locations_mem [OF assms(1)])
  then have "k div assoc c < numSets c" using extractSet_less [OF assms(1)] by (simp add: blk_matches_def)
  then show "k < numSets c * assoc c" "k < length (blks c)" using set_index [OF assms(1)] by simp_all
qed

lemma findBlock_iff:
  assumes "tags_ok c" shows "findBlock a s c = Some k \<longleftrightarrow> blk_matches c a s k"
proof
  note g = tags_okD(1) [OF assms]
  show "blk_matches c a s k" if "findBlock a s c = Some k" using findBlock_SomeD(1) [OF g that] .
  assume m: "blk_matches c a s k"
  have k: "k < numSets c * assoc c" using set_index [OF g] m extractSet_less [OF g] by (simp add: blk_matches_def)
  obtain l where l: "findBlock a s c = Some l"
  proof (cases "findBlock a s c")
    case None
    then show ?thesis using m locations_mem [OF g]
      by (auto simp: findBlock_find [OF g] find_None_iff blk_matches_def)
  qed
  then show "findBlock a s c = Some k"
    using tags_okD(4) [OF assms k findBlock_SomeD(2) [OF g l]] findBlock_SomeD(1) [OF g l] m by (auto simp: blk_matches_def)
qed

lemma findBlock_None_iff:
  assumes "tags_ok c" shows "findBlock a s c = None \<longleftrightarrow> (\<forall>k. \<not> blk_matches c a s k)"
  using findBlock_iff [OF assms] by (metis option.exhaust option.distinct(1))

section \<open>What an operation changes\<close>

text \<open>The operations leave the parameters of the cache and the length of the vector of blocks alone.\<close>

definition same_geom :: "'d cache \<Rightarrow> 'd cache \<Rightarrow> bool"
  where "same_geom c c' \<longleftrightarrow> blkSize c' = blkSize c \<and> blkMask c' = blkMask c \<and> assoc c' = assoc c \<and> numSets c' = numSets c \<and>
    sets c' = sets c \<and> setShift c' = setShift c \<and> tagShift c' = tagShift c \<and> setMask c' = setMask c \<and>
    length (blks c') = length (blks c) \<and> isReadOnly c' = isReadOnly c \<and> maxMasters c' = maxMasters c \<and> clockPeriod c' = clockPeriod c"

lemma same_geom_refl [simp]: "same_geom c c" by (simp add: same_geom_def)

lemma same_geom_ok: "same_geom c c' \<Longrightarrow> geom_ok c' = geom_ok c"
  by (simp add: same_geom_def geom_ok_def)

lemma same_geom_extract:
  "same_geom c c' \<Longrightarrow> extractTag a c' = extractTag a c" "same_geom c c' \<Longrightarrow> extractSet a c' = extractSet a c"
  "same_geom c c' \<Longrightarrow> blkAlign a c' = blkAlign a c" "same_geom c c' \<Longrightarrow> getPossibleLocations a c' = getPossibleLocations a c"
  by (simp_all add: same_geom_def extractTag_def extractSet_def blkAlign_def getPossibleLocations_def)

lemma upd_blk_simps [simp]:
  "blks (upd_blk (Blk k) f c) = (blks c)[k := f (blks c ! k)]" "replData (upd_blk p f c) = replData c"
  "blks (upd_repl k g c) = blks c" "replData (upd_repl k g c) = (replData c)(k := g (replData c k))"
  "blks (upd_blk Temp f c) = blks c" "tempBlock (upd_blk (Blk k) f c) = tempBlock c" "tempBlock (upd_repl k g c) = tempBlock c"
  by (simp_all add: upd_blk_def upd_repl_def split: blk_ptr.split)

lemma upd_blk_params [simp]:
  "blkSize (upd_blk p f c) = blkSize c" "writebackClean (upd_blk p f c) = writebackClean c" "isReadOnly (upd_blk p f c) = isReadOnly c"
  "blkSize (upd_repl k g c) = blkSize c" "maxMasters (upd_blk p f c) = maxMasters c" "maxMasters (upd_repl k g c) = maxMasters c"
  by (simp_all add: upd_blk_def upd_repl_def split: blk_ptr.split)

lemma same_geom_upd [simp]:
  "same_geom c (upd_blk p f c') = same_geom c c'" "same_geom c (upd_repl k g c') = same_geom c c'"
  "same_geom c (c'\<lparr>replData := d\<rparr>) = same_geom c c'" "same_geom c (c'\<lparr>tempAddr := a\<rparr>) = same_geom c c'"
  by (simp_all add: same_geom_def upd_blk_def upd_repl_def split: blk_ptr.split)

lemma clockEdge_frame:
  assumes "clockEdge now n c = Some (e, c')"
  shows "same_geom x c' = same_geom x c" "blks c' = blks c" "replData c' = replData c" "tempBlock c' = tempBlock c"
  using assms by (auto simp: clockEdge_def clocked_update_def Let_def same_geom_def split: if_splits bind_splits)

lemma blk_invalidate_status [simp]:
  "blk_invalidate (b\<lparr>cb_status := s\<rparr>) = blk_invalidate b" "blk_invalidate (blk_invalidate b) = blk_invalidate b"
  by (simp_all add: blk_invalidate_def)

lemma evictBlock_Blk:
  assumes "evictBlock ops (Blk k) c = Some (pkt, c')" "k < length (blks c)"
  shows "isValid (blks c ! k)" "same_geom c c'" "blks c' = (blks c)[k := blk_invalidate (blks c ! k)]"
    "replData c' = (replData c)(k := rp_invalidate ops (replData c k))" "tempBlock c' = tempBlock c"
    "wb_addr pkt = tags_regenerateBlkAddr (blks c ! k) c" "wb_secure pkt = isSecure (blks c ! k)"
    "isDirty (blks c ! k) \<Longrightarrow> wb_cmd pkt = WritebackDirty \<and>
      wb_data pkt = take (unat (blkSize c)) (drop (unat (getOffset (wb_addr pkt) (blkSize c))) (cb_data (blks c ! k)))"
  using assms
  by (auto simp: evictBlock_def writebackBlk_def cleanEvictBlk_def invalidateBlock_def tags_invalidate_def c_assert_def
      regenerateBlkAddr_def blk_at_def Let_def split: if_splits bind_splits)

lemma insertBlock_effect:
  assumes "insertBlock ops now r pkt k c = Some c'"
  shows "\<not> isValid (blks c ! k)" "same_geom c c'" "tempBlock c' = tempBlock c"
    "blks c' = (blks c)[k := blk_insert now (extractTag (pk_addr pkt) c) (pk_isSecure pkt) (pk_masterId pkt) (pk_taskId pkt) (blks c ! k)]"
    "replData c' = (replData c)(k := rp_reset ops now r (replData c k))"
  using assms by (auto simp: insertBlock_def c_assert_def Let_def split: if_splits)

text \<open>The victim is evicted if it is valid, and takes the tag of the packet.\<close>

lemma allocateBlock_effect:
  assumes "allocateBlock ops env now r1 r2 pkt c = Some (Some k, wbs, c')" "k < length (blks c)"
  obtains d b where "rp_getVictim ops now r1 (getPossibleLocations (pk_addr pkt) c) (replData c) = Some (k, d)"
    "same_geom c c'" "tempBlock c' = tempBlock c"
    "blks c' = (blks c)[k := blk_insert now (extractTag (pk_addr pkt) c) (pk_isSecure pkt) (pk_masterId pkt) (pk_taskId pkt) b]"
    "cb_set b = cb_set (blks c ! k)" "cb_data b = cb_data (blks c ! k)"
    "\<forall>l. l \<noteq> k \<longrightarrow> replData c' l = d l" "\<exists>x. replData c' k = rp_reset ops now r2 x"
    "isValid (blks c ! k) \<longrightarrow> (\<exists>p c1. wbs = [p] \<and> evictBlock ops (Blk k) (c\<lparr>replData := d\<rparr>) = Some (p, c1))"
    "\<not> isValid (blks c ! k) \<longrightarrow> wbs = []"
proof -
  let ?ways = "getPossibleLocations (pk_addr pkt) c"
  from assms(1) obtain d c1 where v: "rp_getVictim ops now r1 ?ways (replData c) = Some (k, d)"
    and e: "evict_all ops [k] [] (c\<lparr>replData := d\<rparr>) = Some (wbs, c1)" and i: "insertBlock ops now r2 pkt k c1 = Some c'"
    by (auto simp: allocateBlock_def findVictim_def split: bind_splits if_splits)
  let ?c = "c\<lparr>replData := d\<rparr>"
  show thesis
  proof (cases "isValid (blks c ! k)")
    case True
    then obtain p where ev: "evictBlock ops (Blk k) ?c = Some (p, c1)" and w: "wbs = [p]"
      using e by (auto split: bind_splits)
    note E = evictBlock_Blk [OF ev, simplified, OF assms(2)]
    note I = insertBlock_effect [OF i]
    have g: "same_geom c c'" using E(2) I(2) by (simp add: same_geom_def)
    have t: "extractTag (pk_addr pkt) c1 = extractTag (pk_addr pkt) c" using E(2) by (simp add: same_geom_def extractTag_def)
    have "cb_set (blk_invalidate (blks c ! k)) = cb_set (blks c ! k)" "cb_data (blk_invalidate (blks c ! k)) = cb_data (blks c ! k)"
      by (simp_all add: blk_invalidate_def)
    then show ?thesis
      by (intro that [OF v g, of "blk_invalidate (blks c ! k)"])
        (use E(3,4,5) I(3,4,5) True w ev assms(2) in \<open>auto simp: t\<close>)
  next
    case False
    then have w: "wbs = []" "c1 = ?c" using e by simp_all
    note I = insertBlock_effect [OF i [unfolded w(2)]]
    show ?thesis
      by (rule that [OF v, of "blks c ! k"]) (use I False w in \<open>auto simp: same_geom_def extractTag_def\<close>)
  qed
qed

text \<open>What a fill does to the block that receives the data.\<close>

lemma status_or [simp]:
  "isSecure (b\<lparr>cb_status := cb_status b OR (BlkValid OR BlkReadable)\<rparr>) = isSecure b"
  "isSecure (b\<lparr>cb_status := cb_status b OR BlkWritable\<rparr>) = isSecure b" "isSecure (b\<lparr>cb_status := cb_status b OR BlkDirty\<rparr>) = isSecure b"
  "isValid (b\<lparr>cb_status := cb_status b OR (BlkValid OR BlkReadable)\<rparr>)"
  "isValid (b\<lparr>cb_status := cb_status b OR BlkWritable\<rparr>) = isValid b" "isValid (b\<lparr>cb_status := cb_status b OR BlkDirty\<rparr>) = isValid b"
  by (simp_all add: status_bits bit_or_iff const_bits)

text \<open>The end of \<open>handleFill\<close>: a block \<open>b\<close> becomes a block \<open>b'\<close> that is valid and has the data of the packet.\<close>

definition filled :: "packet \<Rightarrow> u32 \<Rightarrow> cache_blk \<Rightarrow> cache_blk \<Rightarrow> bool"
  where "filled pkt sz b b' \<longleftrightarrow> cb_tag b' = cb_tag b \<and> cb_set b' = cb_set b \<and> isValid b' \<and> isSecure b' = isSecure b \<and>
    cb_data b' = (if pk_isRead pkt then writeDataToBlock pkt sz (cb_data b) else cb_data b) \<and>
    (pk_isRead pkt \<longrightarrow> length (pk_data pkt) = unat sz)"

lemma upd_blk_comp: "upd_blk p g (upd_blk p f c) = upd_blk p (\<lambda>b. g (f b)) c"
proof (cases p)
  case (Blk k)
  then show ?thesis by (cases "k < length (blks c)") (simp_all add: upd_blk_def list_update_beyond)
qed (simp add: upd_blk_def)

definition keeps_name :: "(cache_blk \<Rightarrow> cache_blk) \<Rightarrow> bool"
  where "keeps_name f \<longleftrightarrow> (\<forall>b. cb_tag (f b) = cb_tag b \<and> cb_set (f b) = cb_set b \<and> isSecure (f b) = isSecure b)"

lemma fill_status_effect:
  assumes "fill_status pkt p c = Some c'"
  shows "\<exists>f. c' = upd_blk p f c \<and> keeps_name f \<and> (\<forall>b. isValid (f b) \<and> cb_data (f b) = cb_data b)"
proof -
  let ?v = "\<lambda>b. b\<lparr>cb_status := cb_status b OR (BlkValid OR BlkReadable)\<rparr>"
  let ?w = "\<lambda>b. b\<lparr>cb_status := cb_status b OR BlkWritable\<rparr>"
  let ?d = "\<lambda>b. b\<lparr>cb_status := cb_status b OR BlkDirty\<rparr>"
  have "c' \<in> {upd_blk p ?v c, upd_blk p ?w (upd_blk p ?v c), upd_blk p ?d (upd_blk p ?w (upd_blk p ?v c))}"
    using assms by (auto simp: fill_status_def Let_def c_assert_def split: if_splits)
  then consider "c' = upd_blk p ?v c" | "c' = upd_blk p (\<lambda>b. ?w (?v b)) c" | "c' = upd_blk p (\<lambda>b. ?d (?w (?v b))) c"
    unfolding upd_blk_comp by blast
  then show ?thesis
  proof cases
    case 1
    then show ?thesis by (intro exI [of _ ?v]) (auto simp: keeps_name_def)
  next
    case 2
    then show ?thesis
      by (intro exI [of _ "\<lambda>b. ?w (?v b)"]) (auto simp: keeps_name_def status_bits bit_or_iff const_bits)
  next
    case 3
    then show ?thesis
      by (intro exI [of _ "\<lambda>b. ?d (?w (?v b))"]) (auto simp: keeps_name_def status_bits bit_or_iff const_bits)
  qed
qed

lemma fill_data_effect:
  assumes "fill_data pkt p c = Some c'"
  shows "\<exists>f. c' = upd_blk p f c \<and> keeps_name f \<and>
    (\<forall>b. isValid (f b) = isValid b \<and> cb_data (f b) = (if pk_isRead pkt then writeDataToBlock pkt (blkSize c) (cb_data b) else cb_data b)) \<and>
    (pk_isRead pkt \<longrightarrow> length (pk_data pkt) = unat (blkSize c))"
proof (cases "pk_isRead pkt")
  case True
  then have "c' = upd_blk p (\<lambda>b. b\<lparr>cb_data := writeDataToBlock pkt (blkSize c) (cb_data b)\<rparr>) c"
    and l: "of_nat (length (pk_data pkt)) = blkSize c" "length (pk_data pkt) < 2 ^ 32"
    using assms by (auto simp: fill_data_def c_assert_def split: if_splits)
  moreover have "length (pk_data pkt) = unat (blkSize c)"
    unfolding l(1) [symmetric] using l(2) by (simp add: unat_of_nat take_bit_nat_eq_self_iff)
  ultimately show ?thesis
    using True by (intro exI [of _ "\<lambda>b. b\<lparr>cb_data := writeDataToBlock pkt (blkSize c) (cb_data b)\<rparr>"]) (simp add: keeps_name_def)
next
  case False
  have "upd_blk p (\<lambda>b. b) c = c" by (cases p) (simp_all add: upd_blk_def)
  then show ?thesis using False assms by (intro exI [of _ "\<lambda>b. b"]) (simp add: fill_data_def keeps_name_def)
qed

lemma handleFill_target:
  assumes "handleFill ops env now r1 r2 pkt blk allocate c = Some (p, wbs, c')"
  obtains c1 where "fill_target ops env now r1 r2 pkt blk allocate c = Some (p, wbs, c1)"
    "pk_addr pkt = getBlockAddr (pk_addr pkt) (blkSize c)" "\<And>x. same_geom x c' = same_geom x c1" "replData c' = replData c1"
    "\<And>k. p = Blk k \<Longrightarrow> \<exists>b'. blks c' = (blks c1)[k := b'] \<and> filled pkt (blkSize c1) (blks c1 ! k) b'"
    "p = Temp \<Longrightarrow> blks c' = blks c1"
proof -
  obtain c1 c2 c3 e c4 where t: "fill_target ops env now r1 r2 pkt blk allocate c = Some (p, wbs, c1)"
    and a: "pk_addr pkt = getBlockAddr (pk_addr pkt) (blkSize c)"
    and s: "fill_status pkt p c1 = Some c2" "fill_data pkt p c2 = Some c3" "clockEdge now 0 c3 = Some (e, c4)"
    and c': "c' = upd_blk p (\<lambda>b. b\<lparr>whenReady := e + fillLatency c4 * clockPeriod c4 + pk_payloadDelay pkt\<rparr>) c4"
    using assms by (auto simp: handleFill_def c_assert_def Let_def split: if_splits bind_splits)
  obtain f where f: "c2 = upd_blk p f c1" "keeps_name f" "\<And>b. isValid (f b)" "\<And>b. cb_data (f b) = cb_data b"
    using fill_status_effect [OF s(1)] by blast
  obtain g where g: "c3 = upd_blk p g c2" "keeps_name g" "\<And>b. isValid (g b) = isValid b"
    "\<And>b. cb_data (g b) = (if pk_isRead pkt then writeDataToBlock pkt (blkSize c2) (cb_data b) else cb_data b)"
    "pk_isRead pkt \<longrightarrow> length (pk_data pkt) = unat (blkSize c2)"
    using fill_data_effect [OF s(2)] by blast
  have c3: "c3 = upd_blk p (\<lambda>b. g (f b)) c1" by (simp add: f(1) g(1) upd_blk_comp)
  have geo: "same_geom x c' = same_geom x c1" "replData c' = replData c1" for x
    using clockEdge_frame [OF s(3)] by (simp_all add: c' c3)
  define z where "z = (\<lambda>b. (g (f b))\<lparr>whenReady := e + fillLatency c4 * clockPeriod c4 + pk_payloadDelay pkt\<rparr>)"
  have fill: "filled pkt (blkSize c1) b (z b)" for b
    using f g by (simp add: filled_def z_def keeps_name_def)
  have "\<exists>b'. blks c' = (blks c1)[k := b'] \<and> filled pkt (blkSize c1) (blks c1 ! k) b'" if "p = Blk k" for k
  proof (cases "k < length (blks c1)")
    case True
    then show ?thesis
      using fill that clockEdge_frame(2) [OF s(3)] by (intro exI [of _ "z (blks c1 ! k)"]) (simp add: c' c3 z_def)
  next
    case False
    then show ?thesis
      using fill that clockEdge_frame(2) [OF s(3)] by (intro exI [of _ "z (blks c1 ! k)"]) (simp add: c' c3 list_update_beyond)
  qed
  moreover have "p = Temp \<Longrightarrow> blks c' = blks c1" using clockEdge_frame(2) [OF s(3)] by (simp add: c' c3 list_update_beyond)
  ultimately show thesis using that t a geo by blast
qed

lemma writeDataToBlock_aligned:
  assumes "geom_ok c" "pk_addr pkt = getBlockAddr (pk_addr pkt) (blkSize c)"
    "length (pk_data pkt) = unat (blkSize c)" "length bs = unat (blkSize c)"
  shows "writeDataToBlock pkt (blkSize c) bs = pk_data pkt"
proof -
  have "getOffset (pk_addr pkt) (blkSize c) = 0"
    using getOffset_aligned [OF assms(1), of "pk_addr pkt"] assms(2) by metis
  then show ?thesis using assms(3,4) by (simp add: writeDataToBlock_def)
qed

lemma blk_insert_name [simp]:
  "cb_tag (blk_insert now t s m i b) = t" "cb_set (blk_insert now t s m i b) = cb_set b" "cb_data (blk_insert now t s m i b) = cb_data b"
  "isSecure (blk_insert now t s m i b) = s"
  by (simp_all add: blk_insert_def status_bits const_bits)

text \<open>A fill that misses replaces the victim that the policy chose.\<close>

lemma fill_miss:
  assumes "handleFill ops env now r1 r2 pkt None allocate c = Some (Blk k, wbs, c')" "geom_ok c" "k < length (blks c)"
  obtains d b' where "rp_getVictim ops now r1 (getPossibleLocations (pk_addr pkt) c) (replData c) = Some (k, d)"
    "same_geom c c'" "blks c' = (blks c)[k := b']" "cb_tag b' = extractTag (pk_addr pkt) c" "cb_set b' = cb_set (blks c ! k)"
    "isValid b'" "isSecure b' = pk_isSecure pkt"
    "length (cb_data (blks c ! k)) = unat (blkSize c) \<Longrightarrow> cb_data b' = (if pk_isRead pkt then pk_data pkt else cb_data (blks c ! k))"
    "pk_isRead pkt \<Longrightarrow> length (pk_data pkt) = unat (blkSize c)"
    "\<forall>l. l \<noteq> k \<longrightarrow> replData c' l = d l" "\<exists>x. replData c' k = rp_reset ops now r2 x"
    "isValid (blks c ! k) \<longrightarrow> (\<exists>p c1. wbs = [p] \<and> evictBlock ops (Blk k) (c\<lparr>replData := d\<rparr>) = Some (p, c1))"
    "\<not> isValid (blks c ! k) \<longrightarrow> wbs = []"
proof -
  obtain c1 b' where t: "fill_target ops env now r1 r2 pkt None allocate c = Some (Blk k, wbs, c1)"
    and a: "pk_addr pkt = getBlockAddr (pk_addr pkt) (blkSize c)" and g: "\<And>x. same_geom x c' = same_geom x c1"
    and r: "replData c' = replData c1" and b': "blks c' = (blks c1)[k := b']" "filled pkt (blkSize c1) (blks c1 ! k) b'"
    using handleFill_target [OF assms(1)] by metis
  from t have "allocateBlock ops env now r1 r2 pkt c = Some (Some k, wbs, c1)"
    by (auto simp: fill_target_def c_assert_def split: if_splits bind_splits option.splits)
  then obtain d b where A: "rp_getVictim ops now r1 (getPossibleLocations (pk_addr pkt) c) (replData c) = Some (k, d)"
    "same_geom c c1" "blks c1 = (blks c)[k := blk_insert now (extractTag (pk_addr pkt) c) (pk_isSecure pkt) (pk_masterId pkt) (pk_taskId pkt) b]"
    "cb_set b = cb_set (blks c ! k)" "cb_data b = cb_data (blks c ! k)"
    "\<forall>l. l \<noteq> k \<longrightarrow> replData c1 l = d l" "\<exists>x. replData c1 k = rp_reset ops now r2 x"
    "isValid (blks c ! k) \<longrightarrow> (\<exists>p c1. wbs = [p] \<and> evictBlock ops (Blk k) (c\<lparr>replData := d\<rparr>) = Some (p, c1))"
    "\<not> isValid (blks c ! k) \<longrightarrow> wbs = []"
    using allocateBlock_effect [OF _ assms(3)] by metis
  have sz: "blkSize c1 = blkSize c" using A(2) by (simp add: same_geom_def)
  note F = b'(2) [unfolded filled_def sz A(3) nth_list_update_eq [OF assms(3)]]
  have data: "cb_data b' = (if pk_isRead pkt then pk_data pkt else cb_data (blks c ! k))"
    if "length (cb_data (blks c ! k)) = unat (blkSize c)"
    using F A(5) that writeDataToBlock_aligned [OF assms(2) a] by auto
  show thesis
    by (rule that [OF A(1), of b']) (use A F b' data in \<open>auto simp: g r\<close>)
qed

lemma fill_hit:
  assumes "handleFill ops env now r1 r2 pkt (Some k) allocate c = Some (p, wbs, c')" "geom_ok c"
    "length (cb_data (blks c ! k)) = unat (blkSize c)"
  obtains b' where "p = Blk k" "wbs = []" "same_geom c c'" "blks c' = (blks c)[k := b']" "cb_tag b' = cb_tag (blks c ! k)"
    "cb_set b' = cb_set (blks c ! k)" "isValid b'" "isSecure b' = isSecure (blks c ! k)"
    "cb_data b' = (if pk_isRead pkt then pk_data pkt else cb_data (blks c ! k))"
    "pk_isRead pkt \<Longrightarrow> length (pk_data pkt) = unat (blkSize c)" "replData c' = replData c"
proof -
  obtain c1 where t: "fill_target ops env now r1 r2 pkt (Some k) allocate c = Some (p, wbs, c1)"
    and a: "pk_addr pkt = getBlockAddr (pk_addr pkt) (blkSize c)" and g: "\<And>x. same_geom x c' = same_geom x c1"
    and r: "replData c' = replData c1"
    and b: "\<And>k. p = Blk k \<Longrightarrow> \<exists>b'. blks c' = (blks c1)[k := b'] \<and> filled pkt (blkSize c1) (blks c1 ! k) b'"
    using handleFill_target [OF assms(1)] by metis
  have e: "p = Blk k" "wbs = []" "c1 = c"
    using t by (auto simp: fill_target_def c_assert_def split: if_splits)
  then obtain b' where b': "blks c' = (blks c)[k := b']" "filled pkt (blkSize c) (blks c ! k) b'" using b by blast
  note F = b'(2) [unfolded filled_def]
  have data: "cb_data b' = (if pk_isRead pkt then pk_data pkt else cb_data (blks c ! k))"
    using F assms(3) writeDataToBlock_aligned [OF assms(2) a] by auto
  show thesis by (rule that [of b']) (use e F b' data in \<open>auto simp: g r\<close>)
qed

lemma fill_temp:
  assumes "handleFill ops env now r1 r2 pkt None allocate c = Some (Temp, wbs, c')"
  shows "blks c' = blks c" "same_geom c c'" "wbs = []"
    "replData c' = replData c \<or> (\<exists>v. rp_getVictim ops now r1 (getPossibleLocations (pk_addr pkt) c) (replData c) = Some (v, replData c'))"
proof -
  obtain c1 where t: "fill_target ops env now r1 r2 pkt None allocate c = Some (Temp, wbs, c1)"
    and g: "\<And>x. same_geom x c' = same_geom x c1" and r: "replData c' = replData c1" and b: "blks c' = blks c1"
    using handleFill_target [OF assms(1)] by metis
  obtain c2 where c1: "c1 = temp_insert (pk_addr pkt) (pk_isSecure pkt) c2" and
    q: "c2 = c \<and> wbs = [] \<or> allocateBlock ops env now r1 r2 pkt c = Some (None, wbs, c2)"
    using t by (auto simp: fill_target_def c_assert_def split: if_splits bind_splits option.splits)
  have "wbs = [] \<and> (c2 = c \<or> (\<exists>v d. c2 = c\<lparr>replData := d\<rparr> \<and>
      rp_getVictim ops now r1 (getPossibleLocations (pk_addr pkt) c) (replData c) = Some (v, d)))"
    using q by (auto simp: allocateBlock_def findVictim_def split: bind_splits if_splits)
  then show "blks c' = blks c" "same_geom c c'" "wbs = []"
    "replData c' = replData c \<or> (\<exists>v. rp_getVictim ops now r1 (getPossibleLocations (pk_addr pkt) c) (replData c) = Some (v, replData c'))"
    by (auto simp: b g r c1 temp_insert_def)
qed

section \<open>Invariants\<close>

lemma tags_ok_update:
  assumes "tags_ok c" "same_geom c c'" "blks c' = (blks c)[k := b']" "cb_set b' = cb_set (blks c ! k)"
    "length (cb_data b') = length (cb_data (blks c ! k))"
    "\<And>l. \<lbrakk>isValid b'; l < numSets c * assoc c; l \<noteq> k; l div assoc c = k div assoc c; isValid (blks c ! l);
      cb_tag (blks c ! l) = cb_tag b'; isSecure (blks c ! l) = isSecure b'\<rbrakk> \<Longrightarrow> False"
  shows "tags_ok c'"
proof -
  note g = assms(2) [unfolded same_geom_def]
  have len: "numSets c * assoc c \<le> length (blks c)" using geom_okD(10) [OF tags_okD(1) [OF assms(1)]] .
  have nth: "blks c' ! l = (if l = k then b' else blks c ! l)" if "l < numSets c * assoc c" for l
    using that len by (auto simp: assms(3))
  show ?thesis
    unfolding tags_ok_def
  proof (intro conjI allI impI)
    show "geom_ok c'" using tags_okD(1) [OF assms(1)] same_geom_ok [OF assms(2)] by simp
    fix m assume m: "m < numSets c' * assoc c'"
    then show "cb_set (blks c' ! m) = m div assoc c'" "length (cb_data (blks c' ! m)) = unat (blkSize c')"
      using nth [of m] tags_okD(2,3) [OF assms(1), of m] assms(4,5) g by auto
    fix l assume l: "l < numSets c' * assoc c'" and
      e: "m div assoc c' = l div assoc c' \<and> isValid (blks c' ! m) \<and> isValid (blks c' ! l) \<and>
        cb_tag (blks c' ! m) = cb_tag (blks c' ! l) \<and> isSecure (blks c' ! m) = isSecure (blks c' ! l)"
    show "m = l"
    proof (cases "m = k \<or> l = k")
      case True
      then show ?thesis using assms(6) [of l] assms(6) [of m] nth [of m] nth [of l] m l e g by (auto split: if_splits)
    next
      case False
      then show ?thesis using tags_okD(4) [OF assms(1), of m l] nth [of m] nth [of l] m l e g by auto
    qed
  qed
qed

lemma blk_matches_update:
  assumes "tags_ok c" "same_geom c c'" "blks c' = (blks c)[k := b']"
  shows "blk_matches c' a s l \<longleftrightarrow> (if l = k then k div assoc c = extractSet a c \<and> cb_tag b' = extractTag a c \<and> isValid b' \<and> isSecure b' = s
    else blk_matches c a s l)"
proof -
  have "k < length (blks c)" if "k div assoc c = extractSet a c"
    using set_index [OF tags_okD(1) [OF assms(1)]] extractSet_less [OF tags_okD(1) [OF assms(1)]] that by metis
  then show ?thesis
    using assms(2,3) by (auto simp: blk_matches_def same_geom_extract [OF assms(2)] same_geom_def)
qed

definition repl_invalid :: "('d \<Rightarrow> bool) \<Rightarrow> 'd cache \<Rightarrow> bool"
  where "repl_invalid invalid c \<longleftrightarrow> (\<forall>k < numSets c * assoc c. \<not> isValid (blks c ! k) \<longrightarrow> invalid (replData c k))"

definition repl_valid :: "('d \<Rightarrow> bool) \<Rightarrow> 'd cache \<Rightarrow> bool"
  where "repl_valid invalid c \<longleftrightarrow> (\<forall>k < numSets c * assoc c. isValid (blks c ! k) \<longrightarrow> \<not> invalid (replData c k))"

definition cache_inv :: "('d \<Rightarrow> bool) \<Rightarrow> 'd cache \<Rightarrow> bool"
  where "cache_inv invalid c \<longleftrightarrow> tags_ok c \<and> (\<forall>k < numSets c * assoc c. isValid (blks c ! k) \<longleftrightarrow> \<not> invalid (replData c k))"

context replacement_policy
begin

lemma fill_miss_victim:
  assumes "handleFill ops env now r1 r2 pkt None allocate c = Some (Blk k, wbs, c')" "tags_ok c" "unat r1 < assoc c"
  shows "k div assoc c = extractSet (pk_addr pkt) c" "k < length (blks c)" "k < numSets c * assoc c"
proof -
  note g = tags_okD(1) [OF assms(2)]
  obtain c1 where "fill_target ops env now r1 r2 pkt None allocate c = Some (Blk k, wbs, c1)"
    using handleFill_target [OF assms(1)] by metis
  then have "allocateBlock ops env now r1 r2 pkt c = Some (Some k, wbs, c1)"
    by (auto simp: fill_target_def c_assert_def split: if_splits bind_splits option.splits)
  then obtain d where "rp_getVictim ops now r1 (getPossibleLocations (pk_addr pkt) c) (replData c) = Some (k, d)"
    by (auto simp: allocateBlock_def findVictim_def split: bind_splits if_splits)
  then have "k \<in> set (getPossibleLocations (pk_addr pkt) c)"
    using victim_mem assms(3) locations_list(2) [OF g] by metis
  then show k: "k div assoc c = extractSet (pk_addr pkt) c" by (simp add: locations_mem [OF g])
  then show "k < length (blks c)" "k < numSets c * assoc c"
    using set_index [OF g] extractSet_less [OF g] by metis+
qed

lemma fill_ok:
  assumes "handleFill ops env now r1 r2 pkt (findBlock (pk_addr pkt) (pk_isSecure pkt) c) allocate c = Some (p, wbs, c')"
    "tags_ok c" "unat r1 < assoc c"
  shows "tags_ok c'"
proof (cases "findBlock (pk_addr pkt) (pk_isSecure pkt) c")
  note g = tags_okD(1) [OF assms(2)]
  case None
  show ?thesis
  proof (cases p)
    case (Blk k)
    note h = assms(1) [unfolded None Blk]
    note v = fill_miss_victim [OF h assms(2,3)]
    show ?thesis
    proof (rule fill_miss [OF h g v(2)])
      fix b' assume b': "same_geom c c'" "blks c' = (blks c)[k := b']" "cb_tag b' = extractTag (pk_addr pkt) c"
        "cb_set b' = cb_set (blks c ! k)" "isSecure b' = pk_isSecure pkt"
        and d: "length (cb_data (blks c ! k)) = unat (blkSize c) \<Longrightarrow> cb_data b' = (if pk_isRead pkt then pk_data pkt else cb_data (blks c ! k))"
        "pk_isRead pkt \<Longrightarrow> length (pk_data pkt) = unat (blkSize c)"
      show ?thesis
      proof (rule tags_ok_update [OF assms(2) b'(1,2,4)])
        show "length (cb_data b') = length (cb_data (blks c ! k))" using d tags_okD(3) [OF assms(2) v(3)] by auto
        fix l assume "l div assoc c = k div assoc c" "isValid (blks c ! l)" "cb_tag (blks c ! l) = cb_tag b'"
          "isSecure (blks c ! l) = isSecure b'"
        then have "blk_matches c (pk_addr pkt) (pk_isSecure pkt) l" using b' v by (simp add: blk_matches_def)
        then show False using None findBlock_None_iff [OF assms(2)] by blast
      qed
    qed
  next
    case Temp
    note t = fill_temp [OF assms(1) [unfolded None Temp]]
    show ?thesis
      using tags_ok_update [OF assms(2) t(2), of 0 "blks c ! 0"] t(1) tags_okD(4) [OF assms(2)] assms(2)
        same_geom_ok [OF t(2)] t(2) by (simp add: tags_ok_def same_geom_def)
  qed
next
  note g = tags_okD(1) [OF assms(2)]
  case (Some k)
  have k: "k < numSets c * assoc c" using findBlock_SomeD(2) [OF g Some] .
  show ?thesis
  proof (rule fill_hit [OF assms(1) [unfolded Some] g tags_okD(3) [OF assms(2) k]])
    fix b' assume b': "same_geom c c'" "blks c' = (blks c)[k := b']" "cb_tag b' = cb_tag (blks c ! k)"
      "cb_set b' = cb_set (blks c ! k)" "isSecure b' = isSecure (blks c ! k)"
      "cb_data b' = (if pk_isRead pkt then pk_data pkt else cb_data (blks c ! k))"
      "pk_isRead pkt \<Longrightarrow> length (pk_data pkt) = unat (blkSize c)"
    show ?thesis
    proof (rule tags_ok_update [OF assms(2) b'(1,2,4)])
      show "length (cb_data b') = length (cb_data (blks c ! k))" using b' tags_okD(3) [OF assms(2) k] by auto
      fix l assume "l < numSets c * assoc c" "l \<noteq> k" "l div assoc c = k div assoc c" "isValid (blks c ! l)"
        "cb_tag (blks c ! l) = cb_tag b'" "isSecure (blks c ! l) = isSecure b'"
      then show False using tags_okD(4) [OF assms(2), of l k] k b' findBlock_SomeD(1) [OF g Some] by (simp add: blk_matches_def)
    qed
  qed
qed

end

lemma accessBlock_effect:
  assumes "accessBlock ops now a s c = Some (q, lat, c')"
  shows "q = findBlock a s c" "same_geom c c'" "q = None \<Longrightarrow> c' = c"
    "q = Some k \<Longrightarrow> blks c' = (blks c)[k := (blks c ! k)\<lparr>refCount := refCount (blks c ! k) + 1\<rparr>] \<and>
      replData c' = (replData c)(k := rp_touch ops now (replData c k))"
  using assms by (auto simp: accessBlock_def Let_def split: option.splits bind_splits)

lemma access_ok:
  assumes "accessBlock ops now a s c = Some (q, lat, c')" "tags_ok c"
  shows "tags_ok c'"
proof (cases q)
  case None
  then show ?thesis using accessBlock_effect(3) [OF assms(1)] assms(2) by simp
next
  case (Some k)
  note A = accessBlock_effect [OF assms(1)]
  have k: "findBlock a s c = Some k" using A(1) Some by simp
  show ?thesis
  proof (rule tags_ok_update [OF assms(2) A(2), of k "(blks c ! k)\<lparr>refCount := refCount (blks c ! k) + 1\<rparr>"])
    show "blks c' = (blks c)[k := (blks c ! k)\<lparr>refCount := refCount (blks c ! k) + 1\<rparr>]" using A(4) Some by simp
    fix l assume "l < numSets c * assoc c" "l \<noteq> k" "l div assoc c = k div assoc c" "isValid (blks c ! l)"
      "cb_tag (blks c ! l) = cb_tag ((blks c ! k)\<lparr>refCount := refCount (blks c ! k) + 1\<rparr>)"
      "isSecure (blks c ! l) = isSecure ((blks c ! k)\<lparr>refCount := refCount (blks c ! k) + 1\<rparr>)"
    then show False
      using tags_okD(4) [OF assms(2), of l k] findBlock_SomeD [OF tags_okD(1) [OF assms(2)] k] by (simp add: blk_matches_def)
  qed simp_all
qed

lemma evict_ok:
  assumes "evictBlock ops (Blk k) c = Some (pkt, c')" "tags_ok c" "k < length (blks c)"
  shows "tags_ok c'"
  using evictBlock_Blk [OF assms(1,3)]
  by (intro tags_ok_update [OF assms(2), of c' k "blk_invalidate (blks c ! k)"]) (simp_all add: blk_invalidate_def isValid_def)

lemma evict_temp:
  assumes "evictBlock ops Temp c = Some (pkt, c')"
  shows "same_geom c c'" "blks c' = blks c" "replData c' = replData c"
  using assms by (auto simp: evictBlock_def writebackBlk_def invalidateBlock_def Let_def split: if_splits bind_splits)

lemma tags_ok_same: "\<lbrakk>tags_ok c; same_geom c c'; blks c' = blks c\<rbrakk> \<Longrightarrow> tags_ok c'"
  using same_geom_ok [of c c'] by (simp add: tags_ok_def same_geom_def)

text \<open>The steps of a cache: an access, a fill of the address that a lookup missed or found, the eviction of
  a block or of the temporary block.  The clock has left tick 0.\<close>

inductive cache_step :: "'d rp_ops \<Rightarrow> 'd cache \<Rightarrow> 'd cache \<Rightarrow> bool" for ops
  where
    step_access: "\<lbrakk>0 < now; accessBlock ops now a s c = Some (q, lat, c')\<rbrakk> \<Longrightarrow> cache_step ops c c'"
  | step_fill: "\<lbrakk>0 < now; unat r1 < assoc c;
      handleFill ops env now r1 r2 pkt (findBlock (pk_addr pkt) (pk_isSecure pkt) c) allocate c = Some (p, wbs, c')\<rbrakk>
      \<Longrightarrow> cache_step ops c c'"
  | step_evict: "\<lbrakk>findBlock a s c = Some k; evictBlock ops (Blk k) c = Some (pkt, c')\<rbrakk> \<Longrightarrow> cache_step ops c c'"
  | step_evict_temp: "evictBlock ops Temp c = Some (pkt, c') \<Longrightarrow> cache_step ops c c'"

inductive cache_reachable :: "'d rp_ops \<Rightarrow> 'd cache \<Rightarrow> bool" for ops
  where
    reach_new: "cache_new ops p bytes c0 = Some c \<Longrightarrow> cache_reachable ops c"
  | reach_step: "\<lbrakk>cache_reachable ops c; cache_step ops c c'\<rbrakk> \<Longrightarrow> cache_reachable ops c'"

context replacement_policy
begin

lemma step_ok:
  assumes "cache_step ops c c'" "tags_ok c" shows "tags_ok c'"
  using assms(1)
proof cases
  case (step_access now a s q lat)
  then show ?thesis using access_ok assms(2) by blast
next
  case (step_fill now r1 env r2 pkt allocate p wbs)
  then show ?thesis using fill_ok assms(2) by blast
next
  case (step_evict a s k pkt)
  then show ?thesis using evict_ok findBlock_SomeD(3) [OF tags_okD(1)] assms(2) by blast
next
  case (step_evict_temp pkt)
  then show ?thesis using evict_temp tags_ok_same assms(2) by blast
qed

end

lemma repl_invalid_update:
  assumes "geom_ok c" "same_geom c c'" "blks c' = (blks c)[k := b']"
    "\<And>l. \<lbrakk>l < numSets c * assoc c; l \<noteq> k; \<not> isValid (blks c ! l)\<rbrakk> \<Longrightarrow> invalid (replData c' l)"
    "\<lbrakk>k < numSets c * assoc c; \<not> isValid b'\<rbrakk> \<Longrightarrow> invalid (replData c' k)"
  shows "repl_invalid invalid c'"
  unfolding repl_invalid_def
proof (intro allI impI)
  fix l assume l: "l < numSets c' * assoc c'" "\<not> isValid (blks c' ! l)"
  then have l': "l < numSets c * assoc c" using assms(2) by (simp add: same_geom_def)
  then have "blks c' ! l = (if l = k then b' else blks c ! l)"
    using geom_okD(10) [OF assms(1)] by (simp add: assms(3))
  then show "invalid (replData c' l)" using assms(4) [of l] assms(5) l(2) l' by (cases "l = k") simp_all
qed

lemma repl_valid_update:
  assumes "geom_ok c" "same_geom c c'" "blks c' = (blks c)[k := b']"
    "\<And>l. \<lbrakk>l < numSets c * assoc c; l \<noteq> k; isValid (blks c ! l)\<rbrakk> \<Longrightarrow> \<not> invalid (replData c' l)"
    "\<lbrakk>k < numSets c * assoc c; isValid b'\<rbrakk> \<Longrightarrow> \<not> invalid (replData c' k)"
  shows "repl_valid invalid c'"
  unfolding repl_valid_def
proof (intro allI impI)
  fix l assume l: "l < numSets c' * assoc c'" "isValid (blks c' ! l)"
  then have l': "l < numSets c * assoc c" using assms(2) by (simp add: same_geom_def)
  then have "blks c' ! l = (if l = k then b' else blks c ! l)"
    using geom_okD(10) [OF assms(1)] by (simp add: assms(3))
  then show "\<not> invalid (replData c' l)" using assms(4) [of l] assms(5) l(2) l' by (cases "l = k") simp_all
qed

context invalid_first
begin

lemma invalid_victim:
  assumes "repl_invalid invalid c" "rp_getVictim ops now r (getPossibleLocations a c) (replData c) = Some (v, d)" "geom_ok c"
    "k < numSets c * assoc c" "\<not> isValid (blks c ! k)"
  shows "invalid (d k)"
  using assms victim_keeps_invalid [OF assms(2) locations_list(1) [OF assms(3)]] by (simp add: repl_invalid_def)

lemma access_invalid:
  assumes "accessBlock ops now a s c = Some (q, lat, c')" "geom_ok c" "repl_invalid invalid c"
  shows "repl_invalid invalid c'"
proof (cases q)
  note A = accessBlock_effect [OF assms(1)]
  case (Some k)
  then have v: "isValid (blks c ! k)" using A(1) findBlock_SomeD(1) [OF assms(2)] by (metis blk_matches_def)
  show ?thesis
    by (rule repl_invalid_update [OF assms(2) A(2) conjunct1 [OF A(4) [OF Some]]])
      (use A(4) [OF Some] v assms(3) in \<open>simp_all add: repl_invalid_def\<close>)
qed (use accessBlock_effect(3) [OF assms(1)] assms(3) in simp)

lemma evict_invalid:
  assumes "evictBlock ops (Blk k) c = Some (pkt, c')" "geom_ok c" "repl_invalid invalid c" "k < length (blks c)"
  shows "repl_invalid invalid c'"
proof -
  note E = evictBlock_Blk [OF assms(1,4)]
  show ?thesis
    by (rule repl_invalid_update [OF assms(2) E(2,3)]) (use E(4) assms(3) invalidate_invalid in \<open>simp_all add: repl_invalid_def\<close>)
qed

lemma fill_invalid:
  assumes "handleFill ops env now r1 r2 pkt (findBlock (pk_addr pkt) (pk_isSecure pkt) c) allocate c = Some (p, wbs, c')"
    "tags_ok c" "repl_invalid invalid c" "unat r1 < assoc c"
  shows "repl_invalid invalid c'"
proof (cases "findBlock (pk_addr pkt) (pk_isSecure pkt) c")
  note g = tags_okD(1) [OF assms(2)]
  case None
  show ?thesis
  proof (cases p)
    case (Blk k)
    note h = assms(1) [unfolded None Blk]
    note v = fill_miss_victim [OF h assms(2,4)]
    show ?thesis
    proof (rule fill_miss [OF h g v(2)])
      fix d b' assume F: "rp_getVictim ops now r1 (getPossibleLocations (pk_addr pkt) c) (replData c) = Some (k, d)"
        "same_geom c c'" "blks c' = (blks c)[k := b']" "isValid b'" "\<forall>l. l \<noteq> k \<longrightarrow> replData c' l = d l"
      show ?thesis
        by (rule repl_invalid_update [OF g F(2,3)]) (use F(4,5) invalid_victim [OF assms(3) F(1) g] in simp_all)
    qed
  next
    case Temp
    note t = fill_temp [OF assms(1) [unfolded None Temp]]
    have "invalid (replData c' l)" if "l < numSets c * assoc c" "\<not> isValid (blks c ! l)" for l
      using t(4) invalid_victim [OF assms(3) _ g that] assms(3) that by (auto simp: repl_invalid_def)
    then show ?thesis using t(1,2) by (simp add: repl_invalid_def same_geom_def)
  qed
next
  note g = tags_okD(1) [OF assms(2)]
  case (Some k)
  show ?thesis
  proof (rule fill_hit [OF assms(1) [unfolded Some] g tags_okD(3) [OF assms(2) findBlock_SomeD(2) [OF g Some]]])
    fix b' assume F: "same_geom c c'" "blks c' = (blks c)[k := b']" "isValid b'" "replData c' = replData c"
    show ?thesis
      by (rule repl_invalid_update [OF g F(1,2)]) (use F(3,4) assms(3) in \<open>simp_all add: repl_invalid_def\<close>)
  qed
qed

lemma step_invalid:
  assumes "cache_step ops c c'" "tags_ok c" "repl_invalid invalid c"
  shows "repl_invalid invalid c'"
  using assms(1)
proof cases
  case (step_access now a s q lat)
  then show ?thesis using access_invalid tags_okD(1) [OF assms(2)] assms(3) by blast
next
  case (step_fill now r1 env r2 pkt allocate p wbs)
  then show ?thesis using fill_invalid assms(2,3) by blast
next
  case (step_evict a s k pkt)
  then show ?thesis
    using evict_invalid tags_okD(1) [OF assms(2)] assms(3) findBlock_SomeD(3) [OF tags_okD(1) [OF assms(2)]] by blast
next
  case (step_evict_temp pkt)
  note E = evict_temp [OF step_evict_temp]
  show ?thesis using E assms(3) by (simp add: repl_invalid_def same_geom_def)
qed

end

context free_first
begin

lemma victim_valid:
  assumes "repl_valid invalid c" "rp_getVictim ops now r (getPossibleLocations a c) (replData c) = Some (v, d)" "geom_ok c" "0 < now"
    "k < numSets c * assoc c" "isValid (blks c ! k)"
  shows "\<not> invalid (d k)"
  using assms victim_keeps_valid [OF assms(2) locations_list(1) [OF assms(3)] assms(4)] by (simp add: repl_valid_def)

lemma access_valid:
  assumes "accessBlock ops now a s c = Some (q, lat, c')" "geom_ok c" "repl_valid invalid c" "0 < now"
  shows "repl_valid invalid c'"
proof (cases q)
  note A = accessBlock_effect [OF assms(1)]
  case (Some k)
  show ?thesis
    by (rule repl_valid_update [OF assms(2) A(2) conjunct1 [OF A(4) [OF Some]]])
      (use A(4) [OF Some] touch_valid [OF assms(4)] assms(3) in \<open>simp_all add: repl_valid_def\<close>)
qed (use accessBlock_effect(3) [OF assms(1)] assms(3) in simp)

lemma evict_valid:
  assumes "evictBlock ops (Blk k) c = Some (pkt, c')" "geom_ok c" "repl_valid invalid c" "k < length (blks c)"
  shows "repl_valid invalid c'"
proof -
  note E = evictBlock_Blk [OF assms(1,4)]
  show ?thesis by (rule repl_valid_update [OF assms(2) E(2,3)]) (use E(4) assms(3) in \<open>simp_all add: repl_valid_def\<close>)
qed

lemma fill_valid:
  assumes "handleFill ops env now r1 r2 pkt (findBlock (pk_addr pkt) (pk_isSecure pkt) c) allocate c = Some (p, wbs, c')"
    "tags_ok c" "repl_valid invalid c" "unat r1 < assoc c" "0 < now"
  shows "repl_valid invalid c'"
proof (cases "findBlock (pk_addr pkt) (pk_isSecure pkt) c")
  note g = tags_okD(1) [OF assms(2)]
  case None
  show ?thesis
  proof (cases p)
    case (Blk k)
    note h = assms(1) [unfolded None Blk]
    note v = fill_miss_victim [OF h assms(2,4)]
    show ?thesis
    proof (rule fill_miss [OF h g v(2)])
      fix d b' assume F: "rp_getVictim ops now r1 (getPossibleLocations (pk_addr pkt) c) (replData c) = Some (k, d)"
        "same_geom c c'" "blks c' = (blks c)[k := b']" "\<forall>l. l \<noteq> k \<longrightarrow> replData c' l = d l" "\<exists>x. replData c' k = rp_reset ops now r2 x"
      show ?thesis
        by (rule repl_valid_update [OF g F(2,3)]) (use F(4,5) reset_valid [OF assms(5)] victim_valid [OF assms(3) F(1) g assms(5)] in auto)
    qed
  next
    case Temp
    note t = fill_temp [OF assms(1) [unfolded None Temp]]
    have "\<not> invalid (replData c' l)" if "l < numSets c * assoc c" "isValid (blks c ! l)" for l
      using t(4) victim_valid [OF assms(3) _ g assms(5) that] assms(3) that by (auto simp: repl_valid_def)
    then show ?thesis using t(1,2) by (simp add: repl_valid_def same_geom_def)
  qed
next
  note g = tags_okD(1) [OF assms(2)]
  case (Some k)
  note k = findBlock_SomeD [OF g Some]
  show ?thesis
  proof (rule fill_hit [OF assms(1) [unfolded Some] g tags_okD(3) [OF assms(2) k(2)]])
    fix b' assume F: "same_geom c c'" "blks c' = (blks c)[k := b']" "isValid b'" "replData c' = replData c"
    show ?thesis
      by (rule repl_valid_update [OF g F(1,2)]) (use F(3,4) k assms(3) in \<open>simp_all add: repl_valid_def blk_matches_def\<close>)
  qed
qed

lemma step_valid:
  assumes "cache_step ops c c'" "tags_ok c" "repl_valid invalid c"
  shows "repl_valid invalid c'"
  using assms(1)
proof cases
  case (step_access now a s q lat)
  then show ?thesis using access_valid tags_okD(1) [OF assms(2)] assms(3) by blast
next
  case (step_fill now r1 env r2 pkt allocate p wbs)
  then show ?thesis using fill_valid assms(2,3) by blast
next
  case (step_evict a s k pkt)
  then show ?thesis
    using evict_valid tags_okD(1) [OF assms(2)] assms(3) findBlock_SomeD(3) [OF tags_okD(1) [OF assms(2)]] by blast
next
  case (step_evict_temp pkt)
  note E = evict_temp [OF step_evict_temp]
  show ?thesis using E assms(3) by (simp add: repl_valid_def same_geom_def)
qed

end

lemma cache_new_geom:
  assumes "cache_new ops p bytes c0 = Some c"
  shows "geom_ok c" "\<And>k. k < numSets c * assoc c \<Longrightarrow> \<not> isValid (blks c ! k) \<and> cb_set (blks c ! k) = k div assoc c \<and>
      length (cb_data (blks c ! k)) = unat (blkSize c) \<and> replData c k = rp_instantiateEntry ops"
proof -
  let ?bs = "tp_block_size p" and ?w = "unat (tp_assoc p)"
  let ?ns = "ucast (tp_size p div ucast (?bs * tp_assoc p)) :: u32"
  from assms obtain ss ls where s: "isPowerOf2 ?bs" "isPowerOf2 ?ns" "floorLog2_u32 ?bs = Some ss" "floorLog2_u32 ?ns = Some ls"
    "unat ?bs * ?w < 2 ^ 31" "0 < ?w"
    by (auto simp: cache_new_def Let_def c_assert_def unat_gt_0 split: if_splits bind_splits)
  obtain k l where k: "?bs = 2 ^ k" "k < 32" and l: "?ns = 2 ^ l" "l < 32" using s(1,2) by (auto simp: isPowerOf2_iff)
  have sl: "ss = k" "ls = l" using s(3,4) floorLog2_u32_exp k l by auto
  have f: "blkSize c = ?bs" "blkMask c = ucast (?bs - 1)" "assoc c = ?w" "numSets c = unat ?ns" "setShift c = ss"
    "tagShift c = ss + ls" "setMask c = ?ns - 1" "replData c = (\<lambda>k. rp_instantiateEntry ops)"
    "sets c = map (\<lambda>i. \<lparr>cs_assoc = ?w, cs_blks = map (\<lambda>j. i * ?w + j) [0..<?w]\<rparr>) [0..<unat ?ns]"
    "blks c = map (\<lambda>k. if k < unat ?ns * ?w
        then (blk_default (map bytes [unat ?bs * k..<unat ?bs * (k + 1)]))\<lparr>cb_tag := of_nat (k mod ?w), cb_set := k div ?w, cb_way := k mod ?w\<rparr>
        else blk_default []) [0..<unat (tp_size p div ucast ?bs)]"
    using assms s by (auto simp: cache_new_def Let_def c_assert_def split: if_splits)
  have n: "unat ?bs = 2 ^ k" "unat ?ns = 2 ^ l" using k l by (simp_all add: unat_exp)
  have prod: "unat (?bs * tp_assoc p) = unat ?bs * ?w" using s(5) by (simp add: unat_mult_lem [symmetric])
  have up: "unat (ucast x :: u64) = unat x" for x :: u32
    using unsigned_less [of x, where 'a = nat] by (simp add: unsigned_ucast_eq take_bit_nat_eq_self_iff)
  have fit: "unat ?ns * ?w \<le> unat (tp_size p div ucast ?bs)"
  proof -
    have "unat ?ns \<le> unat (tp_size p div ucast (?bs * tp_assoc p))"
      by (simp add: unsigned_ucast_eq take_bit_nat_less_eq_self)
    also have "\<dots> = unat (tp_size p) div (unat ?bs * ?w)" by (simp add: unat_div up prod)
    finally have "unat ?ns * (unat ?bs * ?w) \<le> unat (tp_size p) div (unat ?bs * ?w) * (unat ?bs * ?w)"
      by (rule mult_le_mono1)
    also have "\<dots> \<le> unat (tp_size p)" by (rule div_times_less_eq_dividend)
    finally have "unat ?ns * (unat ?bs * ?w) \<le> unat (tp_size p)" .
    then have "unat ?ns * ?w * unat ?bs \<le> unat (tp_size p)" by (simp add: ac_simps)
    then show ?thesis using n by (simp add: unat_div up less_eq_div_iff_mult_less_eq)
  qed
  have "?bs - 1 = mask k" by (simp add: k mask_eq_exp_minus_1)
  then have um: "(ucast (?bs - 1) :: u64) = mask k"
    using k(2) by (simp only:) (auto intro!: bit_word_eqI simp: bit_simps)
  show "geom_ok c"
    unfolding geom_ok_def f sl um
    using k l s(6) fit n by (auto simp: mask_eq_exp_minus_1)
  fix i assume "i < numSets c * assoc c"
  then have i: "i < unat ?ns * ?w" by (simp add: f)
  then have "blks c ! i = (blk_default (map bytes [unat ?bs * i..<unat ?bs * (i + 1)]))
      \<lparr>cb_tag := of_nat (i mod ?w), cb_set := i div ?w, cb_way := i mod ?w\<rparr>"
    using fit by (simp add: f)
  then show "\<not> isValid (blks c ! i) \<and> cb_set (blks c ! i) = i div assoc c \<and>
      length (cb_data (blks c ! i)) = unat (blkSize c) \<and> replData c i = rp_instantiateEntry ops"
    by (simp add: f blk_default_def blk_invalidate_def isValid_def)
qed

lemma cache_new_ok: "cache_new ops p bytes c0 = Some c \<Longrightarrow> tags_ok c"
  using cache_new_geom [of ops p bytes c0 c] by (simp add: tags_ok_def)

context replacement_policy
begin

lemma reachable_ok:
  assumes "cache_reachable ops c" shows "tags_ok c"
  using assms by induction (auto intro: cache_new_ok step_ok)

end

context invalid_first
begin

lemma reachable_invalid:
  assumes "cache_reachable ops c" shows "tags_ok c \<and> repl_invalid invalid c"
  using assms
proof induction
  case (reach_new p bytes c0 c)
  then show ?case using cache_new_ok cache_new_geom(2) [OF reach_new] new_invalid by (auto simp: repl_invalid_def)
next
  case (reach_step c c')
  then show ?case using step_ok step_invalid by blast
qed

end

context free_first
begin

lemma reachable_valid:
  assumes "cache_reachable ops c" shows "tags_ok c \<and> repl_valid invalid c"
  using assms
proof induction
  case (reach_new p bytes c0 c)
  then show ?case using cache_new_ok cache_new_geom(2) [OF reach_new] by (auto simp: repl_valid_def)
next
  case (reach_step c c')
  then show ?case using step_ok step_valid by blast
qed

lemma reachable_cache:
  assumes "cache_reachable ops c"
  shows "cache_inv invalid c"
  using reachable_valid [OF assms] reachable_invalid [OF assms] by (auto simp: cache_inv_def repl_valid_def repl_invalid_def)

end

section \<open>Filling\<close>

context replacement_policy
begin

lemma fill_lookup:
  assumes h: "handleFill ops env now r1 r2 pkt None allocate c = Some (Blk k, wbs, c')" and ok: "tags_ok c"
    and r1: "unat r1 < assoc c" and miss: "findBlock (pk_addr pkt) (pk_isSecure pkt) c = None"
  shows "findBlock (pk_addr pkt) (pk_isSecure pkt) c' = Some k \<and> (pk_isRead pkt \<longrightarrow> cb_data (blks c' ! k) = pk_data pkt)"
    and "findBlock a s c = Some l \<Longrightarrow> l \<noteq> k \<Longrightarrow> findBlock a s c' = Some l \<and> blks c' ! l = blks c ! l"
    and "findBlock a s c = Some k \<Longrightarrow> findBlock a s c' = None \<and>
      (\<exists>p. wbs = [p] \<and> wb_addr p = blkAlign a c \<and> wb_secure p = s \<and>
        (isDirty (blks c ! k) \<longrightarrow> wb_cmd p = WritebackDirty \<and> wb_data p = cb_data (blks c ! k)))"
    and "findBlock a s c' = Some l \<Longrightarrow> blkAlign a c = blkAlign (pk_addr pkt) c \<and> s = pk_isSecure pkt \<and> l = k \<or> findBlock a s c = Some l"
    and "\<not> isValid (blks c ! k) \<Longrightarrow> wbs = []"
proof -
  note g = tags_okD(1) [OF ok]
  note v = fill_miss_victim [OF h ok r1]
  have ok': "tags_ok c'" using fill_ok [of env now r1 r2 pkt c allocate "Blk k" wbs c'] h ok r1 miss by simp
  obtain d b' where F: "same_geom c c'" "blks c' = (blks c)[k := b']" "cb_tag b' = extractTag (pk_addr pkt) c"
      "isValid b'" "isSecure b' = pk_isSecure pkt" "cb_data b' = (if pk_isRead pkt then pk_data pkt else cb_data (blks c ! k))"
    and E: "isValid (blks c ! k) \<longrightarrow> (\<exists>p c1. wbs = [p] \<and> evictBlock ops (Blk k) (c\<lparr>replData := d\<rparr>) = Some (p, c1))"
      "\<not> isValid (blks c ! k) \<longrightarrow> wbs = []"
    by (rule fill_miss [OF h g v(2)]) (use tags_okD(3) [OF ok v(3)] in blast)
  note M = blk_matches_update [OF ok F(1,2)]
  show "findBlock (pk_addr pkt) (pk_isSecure pkt) c' = Some k \<and> (pk_isRead pkt \<longrightarrow> cb_data (blks c' ! k) = pk_data pkt)"
    using F v by (simp add: findBlock_iff [OF ok'] M)
  show "findBlock a s c' = Some l \<and> blks c' ! l = blks c ! l" if "findBlock a s c = Some l" "l \<noteq> k"
    using that F(2) by (simp add: findBlock_iff [OF ok'] M findBlock_iff [OF ok])
  show "blkAlign a c = blkAlign (pk_addr pkt) c \<and> s = pk_isSecure pkt \<and> l = k \<or> findBlock a s c = Some l"
    if "findBlock a s c' = Some l"
    using that F v same_block [OF g, of a "pk_addr pkt"]
    by (auto simp: findBlock_iff [OF ok'] M findBlock_iff [OF ok] split: if_splits)
  show "wbs = []" if "\<not> isValid (blks c ! k)" using E that by simp
  show "findBlock a s c' = None \<and> (\<exists>p. wbs = [p] \<and> wb_addr p = blkAlign a c \<and> wb_secure p = s \<and>
        (isDirty (blks c ! k) \<longrightarrow> wb_cmd p = WritebackDirty \<and> wb_data p = cb_data (blks c ! k)))"
    if f: "findBlock a s c = Some k"
  proof
    have m: "blk_matches c a s k" using f by (simp add: findBlock_iff [OF ok])
    show "findBlock a s c' = None"
    proof (rule ccontr)
      assume "findBlock a s c' \<noteq> None"
      then obtain l where l: "blk_matches c' a s l" using findBlock_iff [OF ok'] by auto
      show False
      proof (cases "l = k")
        case True
        then have "cb_tag b' = extractTag a c" "isSecure b' = s" using l by (simp_all add: M)
        then have "blk_matches c (pk_addr pkt) (pk_isSecure pkt) k" using m F(3,5) v(1) by (simp add: blk_matches_def)
        then show False using miss by (simp add: findBlock_None_iff [OF ok])
      next
        case False
        then have "findBlock a s c = Some l" using l by (simp add: M findBlock_iff [OF ok])
        then show False using f False by simp
      qed
    qed
    obtain p c1 where p: "wbs = [p]" "evictBlock ops (Blk k) (c\<lparr>replData := d\<rparr>) = Some (p, c1)"
      using E(1) m by (auto simp: blk_matches_def)
    note P = evictBlock_Blk [OF p(2), simplified, OF v(2)]
    have "tags_regenerateBlkAddr (blks c ! k) c = blkAlign a c"
      using regenerate_extract [OF g] m tags_okD(2) [OF ok v(3)] by (simp add: blk_matches_def)
    then have a: "wb_addr p = blkAlign a c" using P(6) by (simp add: tags_regenerateBlkAddr_def)
    show "\<exists>p. wbs = [p] \<and> wb_addr p = blkAlign a c \<and> wb_secure p = s \<and>
        (isDirty (blks c ! k) \<longrightarrow> wb_cmd p = WritebackDirty \<and> wb_data p = cb_data (blks c ! k))"
      using p(1) a P(7,8) m getOffset_aligned(2) [OF g, of a] tags_okD(3) [OF ok v(3)] by (auto simp: blk_matches_def)
  qed
qed

end

context free_first
begin

text \<open>While a way of the set is free, a fill evicts nothing.\<close>

lemma fill_free_way:
  assumes "handleFill ops env now r1 r2 pkt None allocate c = Some (Blk k, wbs, c')" "cache_reachable ops c" "unat r1 < assoc c"
    "j div assoc c = extractSet (pk_addr pkt) c" "\<not> isValid (blks c ! j)"
  shows "wbs = []"
proof -
  note R = reachable_cache [OF assms(2), unfolded cache_inv_def]
  then have ok: "tags_ok c" by simp
  note g = tags_okD(1) [OF ok]
  note v = fill_miss_victim [OF assms(1) ok assms(3)]
  show ?thesis
  proof (rule fill_miss [OF assms(1) g v(2)])
    fix d assume d: "rp_getVictim ops now r1 (getPossibleLocations (pk_addr pkt) c) (replData c) = Some (k, d)"
      "\<not> isValid (blks c ! k) \<longrightarrow> wbs = []"
    have j: "j \<in> set (getPossibleLocations (pk_addr pkt) c)" "j < numSets c * assoc c"
      using assms(4) locations_mem [OF g] set_index(1) [OF g] extractSet_less [OF g] by auto
    then have "invalid (replData c k)"
      using victim_invalid [OF d(1) locations_list(1) [OF g] j(1)] R assms(5) by auto
    then show ?thesis using d(2) R v(3) by blast
  qed
qed

end

section \<open>Reading through the cache\<close>

text \<open>A read that misses is answered by a fill.\<close>

definition cache_read ::
    "'d rp_ops \<Rightarrow> cache_env \<Rightarrow> u32 \<Rightarrow> u32 \<Rightarrow> tick \<Rightarrow> packet \<Rightarrow> 'd cache \<Rightarrow> 'd cache option"
  where "cache_read ops env r1 r2 now pkt c = do {
    (q, lat, c) \<leftarrow> accessBlock ops now (pk_addr pkt) (pk_isSecure pkt) c;
    case q of
      Some k \<Rightarrow> Some c
    | None \<Rightarrow> do { (p, writebacks, c) \<leftarrow> handleFill ops env now r1 r2 pkt None True c; Some c } }"

fun cache_reads :: "'d rp_ops \<Rightarrow> cache_env \<Rightarrow> u32 \<Rightarrow> u32 \<Rightarrow> (tick \<times> packet) list \<Rightarrow> 'd cache \<Rightarrow> 'd cache option"
  where
    "cache_reads ops env r1 r2 [] c = Some c"
  | "cache_reads ops env r1 r2 ((now, pkt) # xs) c = do { c \<leftarrow> cache_read ops env r1 r2 now pkt c; cache_reads ops env r1 r2 xs c }"

definition env_idle :: "cache_env \<Rightarrow> bool"
  where "env_idle env \<longleftrightarrow> mshr_findMatch env = (\<lambda>_ _. None) \<and> writeBuffer_findMatch env = (\<lambda>_ _. False)"

definition read_response :: "'d cache \<Rightarrow> packet \<Rightarrow> bool"
  where "read_response c pkt \<longleftrightarrow> pk_isResponse pkt \<and> pk_isRead pkt \<and> pk_hasData pkt \<and> \<not> pk_isWriteLine pkt \<and>
    pk_addr pkt = blkAlign (pk_addr pkt) c \<and> length (pk_data pkt) = unat (blkSize c) \<and> pk_masterId pkt < maxMasters c"

lemma read_response_same: "same_geom c c' \<Longrightarrow> read_response c' pkt = read_response c pkt"
  by (simp add: read_response_def same_geom_def blkAlign_def)

lemma clockEdge_some:
  assumes "clockPeriod c \<noteq> 0" shows "\<exists>e c'. clockEdge now n c = Some (e, c')"
  using assms by (simp add: clockEdge_def clocked_update_def divCeil_def Let_def)

lemma status_and [simp]:
  "isValid (b\<lparr>cb_status := cb_status b AND NOT BlkWritable\<rparr>) = isValid b"
  "isValid (b\<lparr>cb_status := cb_status b AND NOT BlkDirty\<rparr>) = isValid b"
  by (simp_all add: status_bits bit_and_iff bit_not_iff const_bits)

lemma evictBlock_some:
  assumes "isValid (blks c ! k)" "\<not> isReadOnly c" "k < length (blks c)"
  shows "\<exists>pkt c'. evictBlock ops (Blk k) c = Some (pkt, c')"
  using assms
  by (auto simp: evictBlock_def writebackBlk_def cleanEvictBlk_def invalidateBlock_def tags_invalidate_def blk_at_def Let_def)

lemma fill_status_some:
  assumes "\<not> pk_isWriteLine pkt" "\<not> isReadOnly c" shows "\<exists>c'. fill_status pkt p c = Some c'"
  using assms by (simp add: fill_status_def Let_def)

context replacement_policy
begin

lemma allocateBlock_some:
  assumes "geom_ok c" "unat r1 < assoc c" "\<not> isReadOnly c" "env_idle env" "pk_masterId pkt < maxMasters c"
  shows "\<exists>k wbs c'. allocateBlock ops env now r1 r2 pkt c = Some (Some k, wbs, c') \<and> same_geom c c' \<and> k < length (blks c) \<and>
    \<not> isValid (blks c' ! k)"
proof -
  let ?ways = "getPossibleLocations (pk_addr pkt) c"
  have ways: "?ways \<noteq> []" "unat r1 < length ?ways" using assms(2) locations_list(2) [OF assms(1), of "pk_addr pkt"] by auto
  obtain k d where v: "rp_getVictim ops now r1 ?ways (replData c) = Some (k, d)" using victim_exists [OF ways] by blast
  have "k div assoc c = extractSet (pk_addr pkt) c" using victim_mem [OF v ways(2)] locations_mem [OF assms(1)] by simp
  then have k: "k < length (blks c)" using set_index(2) [OF assms(1)] extractSet_less [OF assms(1)] by simp
  let ?c = "c\<lparr>replData := d\<rparr>"
  have t: "transient_blks env [k] ?c = Some False" using assms(4) by (simp add: env_idle_def Let_def)
  obtain wbs c1 where e: "evict_all ops [k] [] ?c = Some (wbs, c1)" "\<not> isValid (blks c1 ! k)" "same_geom c c1"
  proof (cases "isValid (blks c ! k)")
    case True
    then obtain p c1 where ev: "evictBlock ops (Blk k) ?c = Some (p, c1)" using evictBlock_some [of ?c k ops] assms(3) k by auto
    have "\<not> isValid (blks c1 ! k)" "same_geom c c1"
      using evictBlock_Blk(2,3) [OF ev] k by (auto simp: same_geom_def)
    then show ?thesis using that [of "[p]" c1] ev True by simp
  qed (use that [of "[]" ?c] in simp)
  have m: "pk_masterId pkt < maxMasters c1" using assms(5) e(3) by (simp add: same_geom_def)
  then obtain c' where i: "insertBlock ops now r2 pkt k c1 = Some c'" using e(2) by (simp add: insertBlock_def Let_def)
  have "length (blks c1) = length (blks c)" using e(3) by (simp add: same_geom_def)
  then have "\<not> isValid (blks c' ! k)"
    using insertBlock_effect(4) [OF i] k by (simp add: blk_insert_def status_bits const_bits)
  moreover have "same_geom c c'" using insertBlock_effect(2) [OF i] e(3) by (simp add: same_geom_def)
  moreover have "allocateBlock ops env now r1 r2 pkt c = Some (Some k, wbs, c')"
    using v t e(1) i by (simp add: allocateBlock_def findVictim_def)
  ultimately show ?thesis using k by blast
qed

lemma fill_some:
  assumes "geom_ok c" "unat r1 < assoc c" "\<not> isReadOnly c" "env_idle env" "clockPeriod c \<noteq> 0" "read_response c pkt"
  shows "\<exists>k wbs c'. handleFill ops env now r1 r2 pkt None True c = Some (Blk k, wbs, c')"
proof -
  note R = assms(6) [unfolded read_response_def]
  obtain k wbs c1 where a: "allocateBlock ops env now r1 r2 pkt c = Some (Some k, wbs, c1)" "same_geom c c1"
    "\<not> isValid (blks c1 ! k)"
    using allocateBlock_some [OF assms(1,2,3,4)] R by blast
  then have t: "fill_target ops env now r1 r2 pkt None True c = Some (Blk k, wbs, c1)"
    using R by (simp add: fill_target_def blk_at_def)
  have ro: "\<not> isReadOnly c1" using a(2) assms(3) by (simp add: same_geom_def)
  obtain c2 where c2: "fill_status pkt (Blk k) c1 = Some c2" using fill_status_some R ro by blast
  have g2: "same_geom c c2" using fill_status_effect [OF c2] a(2) by auto
  then have "blkSize c2 = blkSize c" by (simp add: same_geom_def)
  then have "of_nat (length (pk_data pkt)) = blkSize c2 \<and> length (pk_data pkt) < 2 ^ 32"
    using R unsigned_less [of "blkSize c", where 'a = nat] by simp
  then have "\<exists>c3. fill_data pkt (Blk k) c2 = Some c3" using R unfolding fill_data_def by auto
  then obtain c3 where c3: "fill_data pkt (Blk k) c2 = Some c3" ..
  have "same_geom c c3" using fill_data_effect [OF c3] g2 by auto
  then obtain e c4 where "clockEdge now 0 c3 = Some (e, c4)"
    using clockEdge_some [of c3 now 0] assms(5) by (auto simp: same_geom_def)
  then show ?thesis
    using R t c2 c3 assms(4) getOffset_aligned(1) [OF assms(1)] by (simp add: handleFill_def env_idle_def Let_def)
qed

end

section \<open>The least recently used policy keeps the most recent blocks\<close>

text \<open>The distinct names in a sequence, the most recent first.\<close>

definition recent :: "'a list \<Rightarrow> 'a list"
  where "recent xs = foldl (\<lambda>L x. x # filter (\<lambda>y. y \<noteq> x) L) [] xs"

lemma recent_simps [simp]: "recent [] = []" "recent (xs @ [x]) = x # filter (\<lambda>y. y \<noteq> x) (recent xs)"
  by (simp_all add: recent_def)

lemma recent_distinct: "distinct (recent xs)"
  by (induction xs rule: rev_induct) auto

lemma take_recent_hit:
  assumes "x \<in> set (take n R)" "distinct R"
  shows "take n (x # filter (\<lambda>y. y \<noteq> x) R) = x # filter (\<lambda>y. y \<noteq> x) (take n R)"
  using assms
proof (induction R arbitrary: n)
  case (Cons y R)
  then obtain m where n: "n = Suc m" by (cases n) auto
  show ?case
  proof (cases "y = x")
    case True
    then have "filter (\<lambda>y. y \<noteq> x) R = R" using Cons.prems(2) by (auto intro: filter_True)
    moreover have "filter (\<lambda>y. y \<noteq> x) (take m R) = take m R"
      using Cons.prems(2) True by (auto intro!: filter_True dest: in_set_takeD)
    ultimately show ?thesis using True n by simp
  next
    case False
    then have "x \<in> set (take m R)" using Cons.prems(1) n by simp
    then obtain j where m: "m = Suc j" by (cases m) auto
    have "take m (x # filter (\<lambda>y. y \<noteq> x) R) = x # filter (\<lambda>y. y \<noteq> x) (take m R)"
      using Cons.IH [OF \<open>x \<in> set (take m R)\<close>] Cons.prems(2) by simp
    then show ?thesis using False by (simp add: n m)
  qed
qed simp

lemma take_recent_miss:
  assumes "x \<notin> set (take n R)" "0 < n"
  shows "take n (x # filter (\<lambda>y. y \<noteq> x) R) = x # take (n - 1) R"
proof -
  obtain m where n: "n = Suc m" using assms(2) by (cases n) auto
  have "filter (\<lambda>y. y \<noteq> x) (take n R) = take n R" using assms(1) by (auto intro: filter_True)
  then have "filter (\<lambda>y. y \<noteq> x) R = take n R @ filter (\<lambda>y. y \<noteq> x) (drop n R)"
    using filter_append [of "\<lambda>y. y \<noteq> x" "take n R" "drop n R"] by simp
  then have "take m (filter (\<lambda>y. y \<noteq> x) R) = take m R"
    by (cases "n \<le> length R") (simp_all add: n min_def)
  then show ?thesis by (simp add: n)
qed

text \<open>The ways of a set in the order of their last touch are the most recent names of the set.\<close>

definition blk_name :: "'d cache \<Rightarrow> nat \<Rightarrow> addr \<times> bool"
  where "blk_name c k = (cb_tag (blks c ! k), isSecure (blks c ! k))"

definition recency :: "lru_data cache \<Rightarrow> nat \<Rightarrow> (addr \<times> bool) list \<Rightarrow> nat list \<Rightarrow> bool"
  where "recency c i R ws \<longleftrightarrow> distinct ws \<and> set ws = {k. k div assoc c = i \<and> isValid (blks c ! k)} \<and>
    sorted_wrt (\<lambda>k l. lastTouchTick (replData c l) < lastTouchTick (replData c k)) ws \<and>
    map (blk_name c) ws = take (assoc c) R"

lemma recency_touch:
  assumes R: "recency c i (recent xs) ws" and k: "k \<in> set ws" "blk_name c k = x"
    and inj: "\<And>l. \<lbrakk>l \<in> set ws; blk_name c l = x\<rbrakk> \<Longrightarrow> l = k"
    and c': "assoc c' = assoc c" "\<And>l. isValid (blks c' ! l) = isValid (blks c ! l)" "\<And>l. blk_name c' l = blk_name c l"
      "lastTouchTick (replData c' k) = now" "\<And>l. l \<noteq> k \<Longrightarrow> replData c' l = replData c l"
    and old: "\<And>l. l \<in> set ws \<Longrightarrow> lastTouchTick (replData c l) < now"
  shows "recency c' i (recent (xs @ [x])) (k # filter (\<lambda>l. l \<noteq> k) ws)"
proof -
  have D: "distinct ws" "set ws = {k. k div assoc c = i \<and> isValid (blks c ! k)}"
    "sorted_wrt (\<lambda>k l. lastTouchTick (replData c l) < lastTouchTick (replData c k)) ws"
    "map (blk_name c) ws = take (assoc c) (recent xs)"
    using R unfolding recency_def by blast+
  have x: "x \<in> set (take (assoc c) (recent xs))" unfolding D(4) [symmetric] set_map k(2) [symmetric] by (rule imageI) (rule k(1))
  have "filter (\<lambda>l. l \<noteq> k) ws = filter (\<lambda>l. blk_name c l \<noteq> x) ws"
  proof (rule filter_cong)
    fix l assume "l \<in> set ws" then show "(l \<noteq> k) = (blk_name c l \<noteq> x)" using inj [of l] k(2) by blast
  qed simp
  then have "map (blk_name c) (filter (\<lambda>l. l \<noteq> k) ws) = filter (\<lambda>y. y \<noteq> x) (map (blk_name c) ws)"
    by (simp add: filter_map comp_def)
  moreover have "blk_name c' = blk_name c" using c'(3) by blast
  ultimately have "map (blk_name c') (k # filter (\<lambda>l. l \<noteq> k) ws) = take (assoc c') (recent (xs @ [x]))"
    using take_recent_hit [OF x recent_distinct] D(4) k(2) c'(1) by simp
  moreover have "sorted_wrt (\<lambda>k l. lastTouchTick (replData c' l) < lastTouchTick (replData c' k)) (k # filter (\<lambda>l. l \<noteq> k) ws)"
  proof -
    have "sorted_wrt (\<lambda>k l. lastTouchTick (replData c l) < lastTouchTick (replData c k)) (filter (\<lambda>l. l \<noteq> k) ws)"
      using D(3) by (rule sorted_wrt_filter)
    then have "sorted_wrt (\<lambda>k l. lastTouchTick (replData c' l) < lastTouchTick (replData c' k)) (filter (\<lambda>l. l \<noteq> k) ws)"
      by (rule sorted_wrt_mono_rel [rotated]) (simp add: c'(5))
    then show ?thesis using old c'(4,5) by simp
  qed
  moreover have "distinct (k # filter (\<lambda>l. l \<noteq> k) ws)" using D(1) by simp
  moreover have "set (k # filter (\<lambda>l. l \<noteq> k) ws) = {k. k div assoc c' = i \<and> isValid (blks c' ! k)}"
    using D(2) k(1) c'(1,2) by auto
  ultimately show ?thesis unfolding recency_def by blast
qed

lemma ways_card:
  assumes "0 < (n::nat)" shows "card {k. k div n = i} = n" "finite {k. k div n = i}"
proof -
  have "{k. k div n = i} = {i * n..<i * n + n}"
  proof (intro set_eqI iffI)
    fix k assume "k \<in> {k. k div n = i}"
    then have "k = i * n + k mod n" "k mod n < n" using assms by auto
    then show "k \<in> {i * n..<i * n + n}" by (metis atLeastLessThan_iff le_add1 nat_add_left_cancel_less)
  qed (auto intro!: div_nat_eqI simp: ac_simps)
  then show "card {k. k div n = i} = n" "finite {k. k div n = i}" by simp_all
qed

lemma filter_last_least:
  fixes f :: "'a \<Rightarrow> 'b::linorder"
  assumes "sorted_wrt (\<lambda>k l. f l < f k) ws" "v \<in> set ws" "\<And>l. l \<in> set ws \<Longrightarrow> f v \<le> f l" "distinct ws"
  shows "filter (\<lambda>l. l \<noteq> v) ws = butlast ws"
proof -
  obtain us u where ws: "ws = us @ [u]" using assms(2) by (cases ws rule: rev_cases) auto
  have "v \<notin> set us" using assms(1,3) ws by (fastforce simp: sorted_wrt_append)
  then have "v = u" using assms(2) ws by simp
  then show ?thesis using assms(4) ws by (auto intro: filter_True)
qed

lemma recency_insert:
  assumes R: "recency c i (recent xs) ws" and n: "0 < assoc c" and v: "v div assoc c = i"
    and miss: "\<And>l. l \<in> set ws \<Longrightarrow> blk_name c l \<noteq> x"
    and c': "assoc c' = assoc c" "\<And>l. l \<noteq> v \<Longrightarrow> isValid (blks c' ! l) = isValid (blks c ! l)"
      "\<And>l. l \<noteq> v \<Longrightarrow> blk_name c' l = blk_name c l" "\<And>l. l \<noteq> v \<Longrightarrow> replData c' l = replData c l"
      "isValid (blks c' ! v)" "blk_name c' v = x" "lastTouchTick (replData c' v) = now"
    and old: "\<And>l. l \<in> set ws \<Longrightarrow> lastTouchTick (replData c l) < now"
    and full: "isValid (blks c ! v) \<Longrightarrow> (\<forall>l. l div assoc c = i \<longrightarrow> isValid (blks c ! l)) \<and>
      (\<forall>l \<in> set ws. lastTouchTick (replData c v) \<le> lastTouchTick (replData c l))"
  shows "recency c' i (recent (xs @ [x])) (v # filter (\<lambda>l. l \<noteq> v) ws)"
proof -
  have D: "distinct ws" "set ws = {k. k div assoc c = i \<and> isValid (blks c ! k)}"
    "sorted_wrt (\<lambda>k l. lastTouchTick (replData c l) < lastTouchTick (replData c k)) ws"
    "map (blk_name c) ws = take (assoc c) (recent xs)"
    using R unfolding recency_def by blast+
  let ?ws = "filter (\<lambda>l. l \<noteq> v) ws"
  have x: "x \<notin> set (take (assoc c) (recent xs))" unfolding D(4) [symmetric] using miss by auto
  have len: "length ws = card {k. k div assoc c = i \<and> isValid (blks c ! k)}" using D(1,2) distinct_card by metis
  have rest: "map (blk_name c) ?ws = take (assoc c - 1) (recent xs)"
  proof (cases "isValid (blks c ! v)")
    case True
    then have "{k. k div assoc c = i \<and> isValid (blks c ! k)} = {k. k div assoc c = i}" using full by blast
    then have "length (take (assoc c) (recent xs)) = assoc c" using len ways_card(1) [OF n] by (simp add: D(4) [symmetric])
    then have "butlast (take (assoc c) (recent xs)) = take (assoc c - 1) (recent xs)" by (simp add: butlast_take)
    moreover have "?ws = butlast ws"
      using filter_last_least [OF D(3) _ _ D(1), of v] full [OF True] True v D(2) by blast
    ultimately show ?thesis by (simp add: map_butlast D(4))
  next
    case False
    then have "v \<notin> set ws" using D(2) by simp
    then have w: "?ws = ws" by (auto intro: filter_True)
    have "{k. k div assoc c = i \<and> isValid (blks c ! k)} \<subset> {k. k div assoc c = i}" using False v by blast
    then have "length ws < assoc c" using len psubset_card_mono [OF ways_card(2) [OF n]] ways_card(1) [OF n] by metis
    then have "length (take (assoc c) (recent xs)) < assoc c" by (metis D(4) length_map)
    then show ?thesis unfolding w D(4) by (simp add: min_def split: if_splits)
  qed
  have "map (blk_name c') ?ws = map (blk_name c) ?ws" using c'(3) by simp
  then have "map (blk_name c') (v # ?ws) = take (assoc c') (recent (xs @ [x]))"
    using take_recent_miss [OF x n] rest c'(1,6) by simp
  moreover have "sorted_wrt (\<lambda>k l. lastTouchTick (replData c' l) < lastTouchTick (replData c' k)) (v # ?ws)"
  proof -
    have "sorted_wrt (\<lambda>k l. lastTouchTick (replData c l) < lastTouchTick (replData c k)) ?ws" using D(3) by (rule sorted_wrt_filter)
    then have "sorted_wrt (\<lambda>k l. lastTouchTick (replData c' l) < lastTouchTick (replData c' k)) ?ws"
      by (rule sorted_wrt_mono_rel [rotated]) (simp add: c'(4))
    then show ?thesis using old c'(4,7) by simp
  qed
  moreover have "distinct (v # ?ws)" using D(1) by simp
  moreover have "set (v # ?ws) = {k. k div assoc c' = i \<and> isValid (blks c' ! k)}"
    using D(2) v c'(1,2,5) by auto
  ultimately show ?thesis unfolding recency_def by blast
qed

lemma recency_same:
  assumes "recency c i R ws" "assoc c' = assoc c"
    "\<And>l. l div assoc c = i \<Longrightarrow> isValid (blks c' ! l) = isValid (blks c ! l) \<and> blk_name c' l = blk_name c l \<and> replData c' l = replData c l"
  shows "recency c' i R ws"
proof -
  have D: "distinct ws" "set ws = {k. k div assoc c = i \<and> isValid (blks c ! k)}"
    "sorted_wrt (\<lambda>k l. lastTouchTick (replData c l) < lastTouchTick (replData c k)) ws"
    "map (blk_name c) ws = take (assoc c) R"
    using assms(1) unfolding recency_def by blast+
  have "sorted_wrt (\<lambda>k l. lastTouchTick (replData c' l) < lastTouchTick (replData c' k)) ws"
    using D(3) by (rule sorted_wrt_mono_rel [rotated]) (use D(2) assms(3) in auto)
  moreover have "map (blk_name c') ws = map (blk_name c) ws" using D(2) assms(3) by auto
  moreover have "set ws = {k. k div assoc c' = i \<and> isValid (blks c' ! k)}" using D(2) assms(2,3) by auto
  ultimately show ?thesis unfolding recency_def using D(1,4) assms(2) by simp
qed

definition pkt_name :: "'d cache \<Rightarrow> packet \<Rightarrow> addr \<times> bool"
  where "pkt_name c pkt = (extractTag (pk_addr pkt) c, pk_isSecure pkt)"

text \<open>The names that a sequence of reads used in set \<open>i\<close>.\<close>

definition set_names :: "'d cache \<Rightarrow> nat \<Rightarrow> (tick \<times> packet) list \<Rightarrow> (addr \<times> bool) list"
  where "set_names c i xs = map (\<lambda>x. pkt_name c (snd x)) (filter (\<lambda>x. extractSet (pk_addr (snd x)) c = i) xs)"

lemma set_names_snoc:
  "set_names c i (xs @ [(now, pkt)]) = set_names c i xs @ (if extractSet (pk_addr pkt) c = i then [pkt_name c pkt] else [])"
  by (simp add: set_names_def)

definition lru_inv :: "lru_data cache \<Rightarrow> lru_data cache \<Rightarrow> (tick \<times> packet) list \<Rightarrow> bool"
  where "lru_inv c0 c xs \<longleftrightarrow> same_geom c0 c \<and> tags_ok c \<and>
    repl_invalid (\<lambda>x. lastTouchTick x = 0) c \<and> repl_valid (\<lambda>x. lastTouchTick x = 0) c \<and>
    (\<forall>k < numSets c * assoc c. lastTouchTick (replData c k) = 0 \<or> lastTouchTick (replData c k) \<in> fst ` set xs) \<and>
    (\<forall>i < numSets c. \<exists>ws. recency c i (recent (set_names c0 i xs)) ws)"

lemma accessBlock_some:
  "clockPeriod c \<noteq> 0 \<Longrightarrow> \<exists>q lat c'. accessBlock ops now a s c = Some (q, lat, c')"
  by (auto simp: accessBlock_def Let_def ticksToCycles_def divCeil_def split: option.split)

lemma blk_name_matches:
  "blk_matches c a s k \<longleftrightarrow> k div assoc c = extractSet a c \<and> isValid (blks c ! k) \<and> blk_name c k = (extractTag a c, s)"
  by (auto simp: blk_matches_def blk_name_def)

lemma recency_mem:
  assumes "recency c i R ws" "k \<in> set ws" shows "k div assoc c = i" "isValid (blks c ! k)"
  using assms unfolding recency_def by auto

lemma lru_hit_step:
  assumes inv: "lru_inv c0 c xs" and h: "accessBlock lru_ops now (pk_addr pkt) (pk_isSecure pkt) c = Some (Some k, lat, c')"
    and now: "0 < now" "\<forall>x \<in> set xs. fst x < now"
  shows "lru_inv c0 c' (xs @ [(now, pkt)])"
proof -
  let ?i = "extractSet (pk_addr pkt) c0"
  have I: "same_geom c0 c" "tags_ok c" "repl_invalid (\<lambda>x. lastTouchTick x = 0) c" "repl_valid (\<lambda>x. lastTouchTick x = 0) c"
    "\<And>k. k < numSets c * assoc c \<Longrightarrow> lastTouchTick (replData c k) = 0 \<or> lastTouchTick (replData c k) \<in> fst ` set xs"
    "\<And>i. i < numSets c \<Longrightarrow> \<exists>ws. recency c i (recent (set_names c0 i xs)) ws"
    using inv unfolding lru_inv_def by blast+
  note g = tags_okD(1) [OF I(2)]
  note A = accessBlock_effect [OF h]
  note A4 = A(4) [OF refl]
  have f: "findBlock (pk_addr pkt) (pk_isSecure pkt) c = Some k" using A(1) by simp
  note k = findBlock_SomeD [OF g f]
  have x: "extractSet (pk_addr pkt) c = ?i" "extractTag (pk_addr pkt) c = extractTag (pk_addr pkt) c0"
    using same_geom_extract [OF I(1)] by auto
  have i: "k div assoc c = ?i" "?i < numSets c" using k(1) x extractSet_less [OF g, of "pk_addr pkt"] by (auto simp: blk_matches_def)
  have s: "assoc c' = assoc c" "numSets c' = numSets c" "length (blks c') = length (blks c)" using A(2) by (simp_all add: same_geom_def)
  have v: "isValid (blks c' ! l) = isValid (blks c ! l)" "blk_name c' l = blk_name c l" for l
    using A4 k(3) by (cases "l = k"; simp add: blk_name_def)+
  have r: "lastTouchTick (replData c' k) = now" "l \<noteq> k \<Longrightarrow> replData c' l = replData c l" for l
    using A4 by (simp_all add: lru_ops_def lru_touch_def)
  have old: "lastTouchTick (replData c l) < now" if "l < numSets c * assoc c" for l
    using I(5) [OF that] now by auto
  have "\<exists>ws. recency c' j (recent (set_names c0 j (xs @ [(now, pkt)]))) ws" if j: "j < numSets c'" for j
  proof -
    obtain ws where ws: "recency c j (recent (set_names c0 j xs)) ws" using I(6) [of j] j s by auto
    have idx: "l < numSets c * assoc c" if "l \<in> set ws" for l
      using set_index(1) [OF g] recency_mem(1) [OF ws that] j s by simp
    show ?thesis
    proof (cases "j = ?i")
      case True
      have "recency c' j (recent (set_names c0 j xs @ [pkt_name c0 pkt])) (k # filter (\<lambda>l. l \<noteq> k) ws)"
      proof (rule recency_touch [OF ws _ _ _ s(1) v r(1)])
        show "k \<in> set ws" using ws k(1) i True unfolding recency_def by (auto simp: blk_matches_def)
        show n: "blk_name c k = pkt_name c0 pkt" using k(1) x by (simp add: blk_name_matches pkt_name_def)
        show "l = k" if "l \<in> set ws" "blk_name c l = pkt_name c0 pkt" for l
        proof -
          have "blk_name c l = blk_name c k" using that(2) n by simp
          then show ?thesis
            using tags_okD(4) [OF I(2) idx [OF that(1)] k(2)] recency_mem [OF ws that(1)] k(1) i True
            by (simp add: blk_name_def blk_matches_def)
        qed
      qed (use r old idx in auto)
      then show ?thesis using True by (auto simp: set_names_snoc)
    next
      case False
      have "recency c' j (recent (set_names c0 j xs)) ws"
      proof (rule recency_same [OF ws s(1)])
        fix l assume "l div assoc c = j"
        then have "l \<noteq> k" using False i by auto
        then show "isValid (blks c' ! l) = isValid (blks c ! l) \<and> blk_name c' l = blk_name c l \<and> replData c' l = replData c l"
          using v r(2) by simp
      qed
      then show ?thesis using False by (auto simp: set_names_snoc)
    qed
  qed
  moreover have "lastTouchTick (replData c' l) = 0 \<or> lastTouchTick (replData c' l) \<in> fst ` set (xs @ [(now, pkt)])"
    if "l < numSets c' * assoc c'" for l
    using I(5) [of l] that s r by (cases "l = k") auto
  moreover have "tags_ok c'" using access_ok [OF h I(2)] .
  moreover have "repl_invalid (\<lambda>x. lastTouchTick x = 0) c'" using lru.access_invalid [OF h g I(3)] .
  moreover have "repl_valid (\<lambda>x. lastTouchTick x = 0) c'" using lru.access_valid [OF h g I(4) now(1)] .
  moreover have "same_geom c0 c'" using I(1) A(2) by (simp add: same_geom_def)
  ultimately show ?thesis unfolding lru_inv_def by blast
qed

lemma lru_miss_step:
  assumes inv: "lru_inv c0 c xs" and h: "handleFill lru_ops env now r1 r2 pkt None True c = Some (Blk v, wbs, c')"
    and miss: "findBlock (pk_addr pkt) (pk_isSecure pkt) c = None"
    and now: "0 < now" "\<forall>x \<in> set xs. fst x < now" and r1: "unat r1 < assoc c"
  shows "lru_inv c0 c' (xs @ [(now, pkt)])"
proof -
  let ?i = "extractSet (pk_addr pkt) c0"
  have I: "same_geom c0 c" "tags_ok c" "repl_invalid (\<lambda>x. lastTouchTick x = 0) c" "repl_valid (\<lambda>x. lastTouchTick x = 0) c"
    "\<And>k. k < numSets c * assoc c \<Longrightarrow> lastTouchTick (replData c k) = 0 \<or> lastTouchTick (replData c k) \<in> fst ` set xs"
    "\<And>i. i < numSets c \<Longrightarrow> \<exists>ws. recency c i (recent (set_names c0 i xs)) ws"
    using inv unfolding lru_inv_def by blast+
  note g = tags_okD(1) [OF I(2)]
  note k = lru.fill_miss_victim [OF h I(2) r1]
  obtain d b' where V: "rp_getVictim lru_ops now r1 (getPossibleLocations (pk_addr pkt) c) (replData c) = Some (v, d)"
    and F: "same_geom c c'" "blks c' = (blks c)[v := b']" "cb_tag b' = extractTag (pk_addr pkt) c" "isValid b'"
      "isSecure b' = pk_isSecure pkt" "\<forall>l. l \<noteq> v \<longrightarrow> replData c' l = d l" "\<exists>x. replData c' v = rp_reset lru_ops now r2 x"
    by (rule fill_miss [OF h g k(2)]) blast
  have V': "scan_victim (\<lambda>c1 v. lastTouchTick (replData c c1) < lastTouchTick (replData c v)) (getPossibleLocations (pk_addr pkt) c) = Some v"
    "d = replData c"
    using V by (auto simp: lru_ops_def lru_getVictim_def)
  have x: "extractSet (pk_addr pkt) c = ?i" "extractTag (pk_addr pkt) c = extractTag (pk_addr pkt) c0"
    using same_geom_extract [OF I(1)] by auto
  have i: "v div assoc c = ?i" using k(1) x by simp
  have s: "assoc c' = assoc c" "numSets c' = numSets c" using F(1) by (simp_all add: same_geom_def)
  have nv: "blks c' ! v = b'" "l \<noteq> v \<Longrightarrow> blks c' ! l = blks c ! l" for l using F(2) k(2) by simp_all
  have r: "lastTouchTick (replData c' v) = now" "l \<noteq> v \<Longrightarrow> replData c' l = replData c l" for l
    using F(6,7) V'(2) by (auto simp: lru_ops_def lru_reset_def)
  have old: "lastTouchTick (replData c l) < now" if "l < numSets c * assoc c" for l
    using I(5) [OF that] now by auto
  have least: "lastTouchTick (replData c v) \<le> lastTouchTick (replData c l)" if "l div assoc c = ?i" for l
    using scan_victim_least [OF V'(1)] locations_mem [OF g] that x by auto
  have "\<exists>ws. recency c' j (recent (set_names c0 j (xs @ [(now, pkt)]))) ws" if j: "j < numSets c'" for j
  proof -
    obtain ws where ws: "recency c j (recent (set_names c0 j xs)) ws" using I(6) [of j] j s by auto
    have idx: "l < numSets c * assoc c" if "l \<in> set ws" for l
      using set_index(1) [OF g] recency_mem(1) [OF ws that] j s by simp
    show ?thesis
    proof (cases "j = ?i")
      case True
      have "recency c' j (recent (set_names c0 j xs @ [pkt_name c0 pkt])) (v # filter (\<lambda>l. l \<noteq> v) ws)"
      proof (rule recency_insert [OF ws geom_okD(9) [OF g] _ _ s(1) _ _ r(2) _ _ r(1)])
        show "v div assoc c = j" using i True by simp
        show "blk_name c l \<noteq> pkt_name c0 pkt" if "l \<in> set ws" for l
        proof
          assume "blk_name c l = pkt_name c0 pkt"
          then have "blk_matches c (pk_addr pkt) (pk_isSecure pkt) l"
            using recency_mem [OF ws that] True x by (simp add: blk_name_matches pkt_name_def)
          then show False using miss by (simp add: findBlock_None_iff [OF I(2)])
        qed
        show "blk_name c' v = pkt_name c0 pkt" using nv(1) F(3,5) x by (simp add: blk_name_def pkt_name_def)
        show "isValid (blks c' ! v)" using nv(1) F(4) by simp
        show "isValid (blks c' ! l) = isValid (blks c ! l)" "blk_name c' l = blk_name c l" if "l \<noteq> v" for l
          using nv(2) [OF that] by (simp_all add: blk_name_def)
        show "lastTouchTick (replData c l) < now" if "l \<in> set ws" for l using old idx that by simp
        assume "isValid (blks c ! v)"
        then have nz: "lastTouchTick (replData c v) \<noteq> 0" using I(4) k(3) by (simp add: repl_valid_def)
        have "isValid (blks c ! l)" if l: "l div assoc c = j" for l
        proof (rule ccontr)
          assume "\<not> isValid (blks c ! l)"
          then have "lastTouchTick (replData c l) = 0" using I(3) set_index(1) [OF g, of l] l j s by (simp add: repl_invalid_def)
          then show False using least [of l] l True nz by simp
        qed
        then show "(\<forall>l. l div assoc c = j \<longrightarrow> isValid (blks c ! l)) \<and>
            (\<forall>l \<in> set ws. lastTouchTick (replData c v) \<le> lastTouchTick (replData c l))"
          using least recency_mem(1) [OF ws] True by blast
      qed
      then show ?thesis using True by (auto simp: set_names_snoc)
    next
      case False
      have "recency c' j (recent (set_names c0 j xs)) ws"
      proof (rule recency_same [OF ws s(1)])
        fix l assume "l div assoc c = j"
        then have "l \<noteq> v" using False i by auto
        then show "isValid (blks c' ! l) = isValid (blks c ! l) \<and> blk_name c' l = blk_name c l \<and> replData c' l = replData c l"
          using nv(2) r(2) by (simp add: blk_name_def)
      qed
      then show ?thesis using False by (auto simp: set_names_snoc)
    qed
  qed
  moreover have "lastTouchTick (replData c' l) = 0 \<or> lastTouchTick (replData c' l) \<in> fst ` set (xs @ [(now, pkt)])"
    if "l < numSets c' * assoc c'" for l
    using I(5) [of l] that s r by (cases "l = v") auto
  moreover have "tags_ok c'" using lru.fill_ok [of env now r1 r2 pkt c True "Blk v" wbs c'] h miss I(2) r1 by simp
  moreover have "repl_invalid (\<lambda>x. lastTouchTick x = 0) c'"
    using lru.fill_invalid [of env now r1 r2 pkt c True "Blk v" wbs c'] h miss I(2,3) r1 by simp
  moreover have "repl_valid (\<lambda>x. lastTouchTick x = 0) c'"
    using lru.fill_valid [of env now r1 r2 pkt c True "Blk v" wbs c'] h miss I(2,4) r1 now(1) by simp
  moreover have "same_geom c0 c'" using I(1) F(1) by (simp add: same_geom_def)
  ultimately show ?thesis unfolding lru_inv_def by blast
qed

lemma lru_reads:
  assumes "lru_inv c0 c xs" "\<not> isReadOnly c0" "clockPeriod c0 \<noteq> 0" "env_idle env" "unat r1 < assoc c0"
    "\<forall>x \<in> set ys. 0 < fst x \<and> read_response c0 (snd x)" "sorted_wrt (<) (map fst (xs @ ys))"
  shows "\<exists>c'. cache_reads lru_ops env r1 r2 ys c = Some c' \<and> lru_inv c0 c' (xs @ ys)"
  using assms(1,6,7)
proof (induction ys arbitrary: c xs)
  case (Cons y ys)
  obtain now pkt where y: "y = (now, pkt)" by (cases y)
  have g: "same_geom c0 c" "tags_ok c" using Cons.prems(1) unfolding lru_inv_def by blast+
  have par: "clockPeriod c \<noteq> 0" "\<not> isReadOnly c" "unat r1 < assoc c" using g(1) assms(2,3,5) by (simp_all add: same_geom_def)
  have now: "0 < now" "\<forall>x \<in> set xs. fst x < now" using Cons.prems(2,3) y by (auto simp: sorted_wrt_append)
  obtain q lat c1 where a: "accessBlock lru_ops now (pk_addr pkt) (pk_isSecure pkt) c = Some (q, lat, c1)"
    using accessBlock_some [OF par(1)] by blast
  have "\<exists>c2. cache_read lru_ops env r1 r2 now pkt c = Some c2 \<and> lru_inv c0 c2 (xs @ [(now, pkt)])"
  proof (cases q)
    case (Some k)
    then show ?thesis using lru_hit_step [OF Cons.prems(1) a [unfolded Some] now] a by (simp add: cache_read_def)
  next
    case None
    then have miss: "c1 = c" "findBlock (pk_addr pkt) (pk_isSecure pkt) c = None"
      using accessBlock_effect(1,3) [OF a] by auto
    have "read_response c pkt" using Cons.prems(2) read_response_same [OF g(1)] y by simp
    then obtain k wbs c2 where f: "handleFill lru_ops env now r1 r2 pkt None True c = Some (Blk k, wbs, c2)"
      using lru.fill_some [OF tags_okD(1) [OF g(2)] par(3,2) assms(4) par(1)] by blast
    then show ?thesis
      using lru_miss_step [OF Cons.prems(1) f miss(2) now par(3)] a None miss(1) by (simp add: cache_read_def)
  qed
  then obtain c2 where c2: "cache_read lru_ops env r1 r2 now pkt c = Some c2" "lru_inv c0 c2 (xs @ [(now, pkt)])" by blast
  show ?case using Cons.IH [OF c2(2)] Cons.prems(2,3) c2(1) y by simp
qed simp

lemma lru_inv_new:
  assumes "cache_new lru_ops p bytes c0 = Some c" shows "lru_inv c c []"
proof -
  note N = cache_new_geom [OF assms]
  have "recency c i (recent (set_names c i [])) []" if "i < numSets c" for i
    using N(2) set_index(1) [OF N(1)] that by (auto simp: recency_def set_names_def)
  moreover have "lastTouchTick (replData c k) = 0" if "k < numSets c * assoc c" for k
    using N(2) [OF that] by (simp add: lru_ops_def lru_new_def)
  ultimately show ?thesis
    using cache_new_ok [OF assms] N(2) unfolding lru_inv_def repl_invalid_def repl_valid_def by auto
qed

lemma recency_find:
  assumes "tags_ok c" "recency c (extractSet a c) R ws"
  shows "findBlock a s c \<noteq> None \<longleftrightarrow> (extractTag a c, s) \<in> set (take (assoc c) R)"
proof -
  have D: "set ws = {k. k div assoc c = extractSet a c \<and> isValid (blks c ! k)}" "map (blk_name c) ws = take (assoc c) R"
    using assms(2) unfolding recency_def by blast+
  have "findBlock a s c \<noteq> None \<longleftrightarrow> (\<exists>k. blk_matches c a s k)" by (simp add: findBlock_None_iff [OF assms(1)] del: not_None_eq)
  also have "\<dots> \<longleftrightarrow> (extractTag a c, s) \<in> blk_name c ` set ws" by (force simp: blk_name_matches D(1))
  finally show ?thesis by (simp add: D(2) [symmetric])
qed

section \<open>Load-locked and store-conditional\<close>

text \<open>The operations on the locks of a block: a load-locked, a plain store or a store-conditional.\<close>

datatype lock_op = LL mem_req | ST mem_req | SC mem_req

fun do_lock_op :: "lock_op \<Rightarrow> cache_blk \<Rightarrow> cache_blk"
  where
    "do_lock_op (LL q) b = trackLoadLocked q b"
  | "do_lock_op (ST q) b = snd (checkWrite False q b)"
  | "do_lock_op (SC q) b = snd (checkWrite True q b)"

text \<open>A write by another context that touches the range of a lock.\<close>

fun breaks_lock :: "lock \<Rightarrow> lock_op \<Rightarrow> bool"
  where
    "breaks_lock l (LL q) = lock_intersects l q"
  | "breaks_lock l (ST q) = (lock_intersects l q \<and> lk_contextId l \<noteq> rq_contextId q)"
  | "breaks_lock l (SC q) = (lock_intersects l q \<and> lk_contextId l \<noteq> rq_contextId q)"

lemma clearLocks_filter: "clearLocks gone ls = filter (\<lambda>l. \<not> gone l) ls"
  by (induction ls) auto

lemma erase_match_iff: "fst (erase_match q ls) \<longleftrightarrow> (\<exists>l \<in> set ls. lock_matches l q)"
  by (induction ls) (auto split: prod.splits)

lemma erase_match_mem: "\<lbrakk>erase_match q ls = (s, ls'); l \<in> set ls'\<rbrakk> \<Longrightarrow> l \<in> set ls"
  by (induction ls arbitrary: ls') (auto split: prod.splits if_splits)

lemma do_lock_op_locks:
  assumes "l \<in> set (lockList (do_lock_op x b))"
  shows "(\<exists>q. x = LL q \<and> l = lock_of q) \<or> l \<in> set (lockList b) \<and> \<not> breaks_lock l x"
  using assms
  by (cases x) (auto simp: trackLoadLocked_def checkWrite_def clearLoadLocks_def clearLocks_filter Let_def
      split: if_splits prod.splits dest: erase_match_mem)

text \<open>Every lock of a block was set by a load-locked that no later operation broke.\<close>

lemma locks_origin:
  assumes "l \<in> set (lockList (foldl (\<lambda>b x. do_lock_op x b) b xs))" "lockList b = []"
  shows "\<exists>i < length xs. \<exists>q. xs ! i = LL q \<and> l = lock_of q \<and> (\<forall>j. i < j \<and> j < length xs \<longrightarrow> \<not> breaks_lock l (xs ! j))"
  using assms(1)
proof (induction xs rule: rev_induct)
  case (snoc x xs)
  let ?b = "foldl (\<lambda>b x. do_lock_op x b) b xs"
  from snoc.prems have "(\<exists>q. x = LL q \<and> l = lock_of q) \<or> l \<in> set (lockList ?b) \<and> \<not> breaks_lock l x"
    using do_lock_op_locks by simp
  then show ?case
  proof
    assume "\<exists>q. x = LL q \<and> l = lock_of q"
    then show ?thesis by (intro exI [of _ "length xs"]) (auto simp: nth_append)
  next
    assume o: "l \<in> set (lockList ?b) \<and> \<not> breaks_lock l x"
    then obtain i q where i: "i < length xs" "xs ! i = LL q" "l = lock_of q" "\<forall>j. i < j \<and> j < length xs \<longrightarrow> \<not> breaks_lock l (xs ! j)"
      using snoc.IH by blast
    have "\<not> breaks_lock l ((xs @ [x]) ! j)" if "i < j" "j < length (xs @ [x])" for j
      using i(4) o that by (cases "j < length xs") (auto simp: nth_append less_Suc_eq)
    then show ?thesis using i by (intro exI [of _ i]) (auto simp: nth_append)
  qed
qed (simp add: assms(2))

text \<open>A lock stays until an operation breaks it or a store-conditional of its context uses it.\<close>

fun uses_lock :: "lock \<Rightarrow> lock_op \<Rightarrow> bool"
  where
    "uses_lock l (SC q) = lock_matches l q"
  | "uses_lock l _ = False"

lemma erase_match_keeps: "\<lbrakk>l \<in> set ls; \<not> lock_matches l q\<rbrakk> \<Longrightarrow> l \<in> set (snd (erase_match q ls))"
  by (induction ls) (auto split: prod.splits)

lemma do_lock_op_keeps:
  assumes "l \<in> set (lockList b)" "\<not> breaks_lock l x" "\<not> uses_lock l x"
  shows "l \<in> set (lockList (do_lock_op x b))"
proof (cases x)
  case (SC q)
  then show ?thesis
    using assms erase_match_keeps [of l "lockList b" q]
    by (auto simp: checkWrite_def clearLoadLocks_def clearLocks_filter Let_def split: prod.splits)
qed (use assms in \<open>auto simp: trackLoadLocked_def checkWrite_def clearLoadLocks_def clearLocks_filter\<close>)

lemma lock_kept:
  assumes "i < length xs" "xs ! i = LL q" "\<forall>j. i < j \<and> j < length xs \<longrightarrow> \<not> breaks_lock (lock_of q) (xs ! j) \<and> \<not> uses_lock (lock_of q) (xs ! j)"
  shows "lock_of q \<in> set (lockList (foldl (\<lambda>b x. do_lock_op x b) b xs))"
  using assms
proof (induction xs rule: rev_induct)
  case (snoc x xs)
  show ?case
  proof (cases "i = length xs")
    case True
    then show ?thesis using snoc.prems(2) by (simp add: trackLoadLocked_def)
  next
    case False
    then have i: "i < length xs" "xs ! i = LL q" using snoc.prems(1,2) by (auto simp: nth_append)
    have "\<forall>j. i < j \<and> j < length xs \<longrightarrow> \<not> breaks_lock (lock_of q) (xs ! j) \<and> \<not> uses_lock (lock_of q) (xs ! j)"
    proof (intro allI impI)
      fix j assume "i < j \<and> j < length xs"
      then show "\<not> breaks_lock (lock_of q) (xs ! j) \<and> \<not> uses_lock (lock_of q) (xs ! j)"
        using snoc.prems(3) [rule_format, of j] by (simp add: nth_append)
    qed
    moreover have "\<not> breaks_lock (lock_of q) x \<and> \<not> uses_lock (lock_of q) x"
      using snoc.prems(3) [rule_format, of "length xs"] i(1) by (simp add: nth_append)
    ultimately show ?thesis using snoc.IH [OF i] do_lock_op_keeps by simp
  qed
qed simp

lemma checkWrite_SC: "fst (checkWrite True q b) \<longleftrightarrow> (\<exists>l \<in> set (lockList b). lock_matches l q)"
  using erase_match_iff [of q "lockList b"] by (cases "erase_match q (lockList b)") (simp add: checkWrite_def)

section \<open>Properties of the cache\<close>

text \<open>A small cache for concrete runs: sixteen bytes in two sets of two ways.\<close>

definition raw_cache :: "'d \<Rightarrow> 'd cache"
  where "raw_cache x = \<lparr>blkSize = 0, blkMask = 0, lookupLatency = 0, accessLatency = 0, assoc = 0, allocAssoc = 0, blks = [], numSets = 0,
    sets = [], setShift = 0, tagShift = 0, setMask = 0, replData = (\<lambda>_. x), tempBlock = blk_default [0, 0, 0, 0], tempAddr = 0,
    isReadOnly = False, writebackClean = False, fillLatency = 1, maxMasters = 4, clockPeriod = 1, ck_tick = 0, ck_cycle = 0\<rparr>"

definition small_params :: tag_params
  where "small_params = \<lparr>tp_size = 16, tp_block_size = 4, tp_assoc = 2, tp_tag_latency = 1, tp_data_latency = 1,
    tp_sequential_access = False\<rparr>"

definition small_cache :: "lru_data cache"
  where "small_cache = the (cache_new lru_ops small_params (\<lambda>_. 0) (raw_cache lru_new))"

definition idle_env :: cache_env
  where "idle_env = \<lparr>mshr_findMatch = (\<lambda>_ _. None), writeBuffer_findMatch = (\<lambda>_ _. False)\<rparr>"

definition read_pkt :: "addr \<Rightarrow> u8 \<Rightarrow> packet"
  where "read_pkt a x = \<lparr>pk_addr = a, pk_isSecure = False, pk_masterId = 0, pk_taskId = 0, pk_isRead = True, pk_isResponse = True,
    pk_isWriteLine = False, pk_hasData = True, pk_hasSharers = False, pk_cacheResponding = True, pk_data = [x, x, x, x], pk_payloadDelay = 0\<rparr>"

lemma small_cache_new: "cache_new lru_ops small_params (\<lambda>_. 0) (raw_cache lru_new) = Some small_cache"
  and small_cache_fields: "numSets small_cache = 2" "assoc small_cache = 2" "blkSize small_cache = 4" "blkMask small_cache = 3"
    "setShift small_cache = 2" "tagShift small_cache = 3" "setMask small_cache = 1" "isReadOnly small_cache = False"
    "clockPeriod small_cache = 1" "maxMasters small_cache = 4"
proof -
  have "isPowerOf2 (4 :: u32)" "isPowerOf2 (2 :: u32)" "floorLog2_u32 4 = Some 2" "floorLog2_u32 2 = Some 1"
    by (simp_all add: isPowerOf2_def leastSigBit_def floorLog2_u32_def fl_step_def)
  then show "cache_new lru_ops small_params (\<lambda>_. 0) (raw_cache lru_new) = Some small_cache"
    "numSets small_cache = 2" "assoc small_cache = 2" "blkSize small_cache = 4" "blkMask small_cache = 3"
    "setShift small_cache = 2" "tagShift small_cache = 3" "setMask small_cache = 1" "isReadOnly small_cache = False"
    "clockPeriod small_cache = 1" "maxMasters small_cache = 4"
    by (simp_all add: small_cache_def cache_new_def small_params_def raw_cache_def Let_def)
qed

text \<open>
  C29: In every cache that a sequence of accesses, fills and evictions reaches, whatever the replacement policy, the
  tags are well formed: no two valid blocks of a set have the same tag and security, and every block knows its set.
  With every policy except the most-recently-used one, a block that is not valid has the replacement data of an
  invalidated entry, and with all but that one and the least-frequently-used one only such blocks have it.
\<close>

theorem reachable_cache_ok:
  "(cache_reachable lru_ops c1 \<longrightarrow> cache_inv (\<lambda>x. lastTouchTick x = 0) c1) \<and>
   (cache_reachable (bip_ops btp) c2 \<longrightarrow> cache_inv (\<lambda>x. lastTouchTick x = 0) c2) \<and>
   (cache_reachable fifo_ops c3 \<longrightarrow> cache_inv (\<lambda>x. tickInserted x = 0) c3) \<and>
   (cache_reachable random_ops c4 \<longrightarrow> cache_inv (\<lambda>x. \<not> rnd_valid x) c4) \<and>
   (cache_reachable (brrip_ops brrip_default) c5 \<longrightarrow> cache_inv (\<lambda>x. maxRRPV brrip_default < rrpv x) c5) \<and>
   (cache_reachable sc_ops c6 \<longrightarrow> cache_inv sc_invalid c6) \<and>
   (cache_reachable lfu_ops c7 \<longrightarrow> tags_ok c7 \<and> repl_invalid (\<lambda>x. lfu_refCount x = 0) c7) \<and>
   (cache_reachable mru_ops c8 \<longrightarrow> tags_ok c8)"
  using lru.reachable_cache [of c1] bip.reachable_cache [of btp c2] fifo.reachable_cache [of c3] rnd.reachable_cache [of c4]
    brrip.reachable_cache [of c5] sc.reachable_cache [of c6] lfu.reachable_invalid [of c7] mru.reachable_ok [of c8] by simp

theorem reachable_cache_ok_witness:
  "cache_reachable lru_ops small_cache \<and> cache_inv (\<lambda>x. lastTouchTick x = 0) small_cache"
  using reachable_cache_ok [of small_cache] reach_new [OF small_cache_new] by blast

text \<open>
  C9: With the default policy, filling a block that is not in the cache brings in exactly that block.  Afterwards a
  lookup of its address finds it, with the data of the packet; every other address is found where it was, with its block
  unchanged, except that of the block replaced, which is not found any more and for which there is one packet with its
  address and security and, if it was dirty, its data; and no lookup finds anything else.  While a way of the set is
  free nothing is evicted.  The fill returns when the packet is a well-formed read response and no other transaction
  is pending for the addresses involved.
\<close>

theorem fill_exact:
  assumes "cache_reachable lru_ops c" "findBlock (pk_addr pkt) (pk_isSecure pkt) c = None" "unat r1 < assoc c"
  shows "(handleFill lru_ops env now r1 r2 pkt None allocate c = Some (Blk k, wbs, c') \<longrightarrow>
      findBlock (pk_addr pkt) (pk_isSecure pkt) c' = Some k \<and> (pk_isRead pkt \<longrightarrow> cb_data (blks c' ! k) = pk_data pkt) \<and>
      (\<forall>a s l. findBlock a s c = Some l \<and> l \<noteq> k \<longrightarrow> findBlock a s c' = Some l \<and> blks c' ! l = blks c ! l) \<and>
      (\<forall>a s. findBlock a s c = Some k \<longrightarrow> findBlock a s c' = None \<and>
         (\<exists>p. wbs = [p] \<and> wb_addr p = blkAlign a c \<and> wb_secure p = s \<and>
           (isDirty (blks c ! k) \<longrightarrow> wb_cmd p = WritebackDirty \<and> wb_data p = cb_data (blks c ! k)))) \<and>
      (\<forall>a s l. findBlock a s c' = Some l \<longrightarrow>
         blkAlign a c = blkAlign (pk_addr pkt) c \<and> s = pk_isSecure pkt \<and> l = k \<or> findBlock a s c = Some l) \<and>
      ((\<exists>j. j div assoc c = extractSet (pk_addr pkt) c \<and> \<not> isValid (blks c ! j)) \<longrightarrow> wbs = [])) \<and>
    (\<not> isReadOnly c \<and> clockPeriod c \<noteq> 0 \<and> env_idle env \<and> read_response c pkt \<longrightarrow>
      (\<exists>k wbs c'. handleFill lru_ops env now r1 r2 pkt None True c = Some (Blk k, wbs, c')))"
proof (intro conjI impI)
  have ok: "tags_ok c" using lru.reachable_ok [OF assms(1)] .
  { assume h: "handleFill lru_ops env now r1 r2 pkt None allocate c = Some (Blk k, wbs, c')"
    note L = lru.fill_lookup [OF h ok assms(3,2)]
    show "findBlock (pk_addr pkt) (pk_isSecure pkt) c' = Some k" using L(1) by simp
    show "cb_data (blks c' ! k) = pk_data pkt" if "pk_isRead pkt" using L(1) that by simp
    show "\<forall>a s l. findBlock a s c = Some l \<and> l \<noteq> k \<longrightarrow> findBlock a s c' = Some l \<and> blks c' ! l = blks c ! l" using L(2) by blast
    show "\<forall>a s. findBlock a s c = Some k \<longrightarrow> findBlock a s c' = None \<and> (\<exists>p. wbs = [p] \<and> wb_addr p = blkAlign a c \<and> wb_secure p = s \<and>
        (isDirty (blks c ! k) \<longrightarrow> wb_cmd p = WritebackDirty \<and> wb_data p = cb_data (blks c ! k)))" using L(3) by blast
    show "\<forall>a s l. findBlock a s c' = Some l \<longrightarrow>
        blkAlign a c = blkAlign (pk_addr pkt) c \<and> s = pk_isSecure pkt \<and> l = k \<or> findBlock a s c = Some l" using L(4) by blast
    show "wbs = []" if "\<exists>j. j div assoc c = extractSet (pk_addr pkt) c \<and> \<not> isValid (blks c ! j)"
      using lru.fill_free_way [OF h assms(1,3)] that by blast }
  assume "\<not> isReadOnly c \<and> clockPeriod c \<noteq> 0 \<and> env_idle env \<and> read_response c pkt"
  then show "\<exists>k wbs c'. handleFill lru_ops env now r1 r2 pkt None True c = Some (Blk k, wbs, c')"
    using lru.fill_some [OF tags_okD(1) [OF ok] assms(3)] by blast
qed

lemma small_read_response:
  "read_response small_cache (read_pkt 0 x)" "read_response small_cache (read_pkt 8 x)" "read_response small_cache (read_pkt 16 x)"
  by (simp_all add: read_response_def read_pkt_def blkAlign_def small_cache_fields)

lemma small_cache_empty: "findBlock a s small_cache = None"
proof (rule ccontr)
  assume "findBlock a s small_cache \<noteq> None"
  then obtain k where k: "findBlock a s small_cache = Some k" by blast
  show False
    using findBlock_SomeD [OF cache_new_geom(1) [OF small_cache_new] k] cache_new_geom(2) [OF small_cache_new, of k]
    by (simp add: blk_matches_def)
qed

theorem fill_exact_witness:
  "\<exists>k wbs c'. handleFill lru_ops idle_env 1 0 0 (read_pkt 8 5) None True small_cache = Some (Blk k, wbs, c') \<and>
    findBlock 8 False c' = Some k \<and> cb_data (blks c' ! k) = [5, 5, 5, 5] \<and> wbs = []"
proof -
  have r: "cache_reachable lru_ops small_cache" by (rule reach_new [OF small_cache_new])
  have i: "\<not> isValid (blks small_cache ! (2 * extractSet 8 small_cache))"
    using cache_new_geom(2) [OF small_cache_new, of "2 * extractSet 8 small_cache"] extractSet_less [OF cache_new_geom(1) [OF small_cache_new], of 8]
    by (simp add: small_cache_fields)
  have "\<exists>k wbs c'. handleFill lru_ops idle_env 1 0 0 (read_pkt 8 5) None True small_cache = Some (Blk k, wbs, c')"
    using fill_exact [OF r small_cache_empty, where pkt = "read_pkt 8 5" and ?r1.0 = 0 and env = idle_env and now = 1 and ?r2.0 = 0] small_read_response(2) [of 5]
    by (simp add: small_cache_fields env_idle_def idle_env_def)
  then obtain k wbs c' where h: "handleFill lru_ops idle_env 1 0 0 (read_pkt 8 5) None True small_cache = Some (Blk k, wbs, c')" by blast
  have "unat (0 :: u32) < assoc small_cache" by (simp add: small_cache_fields)
  note L = mp [OF conjunct1 [OF fill_exact [OF r small_cache_empty this]] h]
  have "findBlock 8 False c' = Some k" "cb_data (blks c' ! k) = [5, 5, 5, 5]"
    using conjunct1 [OF L] conjunct1 [OF conjunct2 [OF L]] by (simp_all add: read_pkt_def)
  moreover have "\<exists>j. j div assoc small_cache = extractSet (pk_addr (read_pkt 8 5)) small_cache \<and> \<not> isValid (blks small_cache ! j)"
    using i by (intro exI [of _ "2 * extractSet 8 small_cache"]) (simp add: small_cache_fields read_pkt_def)
  then have "wbs = []" using L by blast
  ultimately show ?thesis using h by blast
qed

text \<open>
  C8: With the default policy a set of the cache holds the most recently read blocks.  After any sequence of reads at
  increasing ticks, starting from a new cache, a block is found exactly when it is one of the last \<open>assoc\<close> distinct
  blocks that were read in its set.  All the reads return.
\<close>

theorem lru_keeps_recent:
  assumes "cache_new lru_ops p bytes c0 = Some c" "\<not> isReadOnly c" "clockPeriod c \<noteq> 0" "env_idle env" "unat r1 < assoc c"
    "\<forall>x \<in> set xs. 0 < fst x \<and> read_response c (snd x)" "sorted_wrt (<) (map fst xs)"
  shows "\<exists>c'. cache_reads lru_ops env r1 r2 xs c = Some c' \<and>
    (\<forall>a s. findBlock a s c' \<noteq> None \<longleftrightarrow>
      (extractTag a c, s) \<in> set (take (assoc c) (recent (set_names c (extractSet a c) xs))))"
proof -
  obtain c' where c': "cache_reads lru_ops env r1 r2 xs c = Some c'" "lru_inv c c' xs"
    using lru_reads [OF lru_inv_new [OF assms(1)] assms(2-6)] assms(7) by auto
  have I: "same_geom c c'" "tags_ok c'" "\<And>i. i < numSets c' \<Longrightarrow> \<exists>ws. recency c' i (recent (set_names c i xs)) ws"
    using c'(2) unfolding lru_inv_def by blast+
  have "findBlock a s c' \<noteq> None \<longleftrightarrow> (extractTag a c, s) \<in> set (take (assoc c) (recent (set_names c (extractSet a c) xs)))" for a s
  proof -
    obtain ws where "recency c' (extractSet a c) (recent (set_names c (extractSet a c) xs)) ws"
      using I(3) extractSet_less [OF tags_okD(1) [OF I(2)], of a] same_geom_extract(2) [OF I(1)] by auto
    then show ?thesis
      using recency_find [OF I(2), of a _ ws s] same_geom_extract(1,2) [OF I(1), of a] I(1) by (simp add: same_geom_def)
  qed
  then show ?thesis using c'(1) by blast
qed

theorem lru_keeps_recent_witness:
  "\<exists>c'. cache_reads lru_ops idle_env 0 0 [(1, read_pkt 0 1), (2, read_pkt 8 2), (3, read_pkt 0 1), (4, read_pkt 16 3)] small_cache = Some c' \<and>
    findBlock 0 False c' \<noteq> None \<and> findBlock 16 False c' \<noteq> None \<and> findBlock 8 False c' = None"
proof -
  have r: "read_response small_cache (read_pkt 0 1)" "read_response small_cache (read_pkt 8 2)" "read_response small_cache (read_pkt 16 3)"
    by (rule small_read_response)+
  have e: "extractSet 0 small_cache = 0" "extractSet 8 small_cache = 0" "extractSet 16 small_cache = 0"
    "extractTag 0 small_cache = 0" "extractTag 8 small_cache = 1" "extractTag 16 small_cache = 2"
    by (simp_all add: extractSet_def extractTag_def small_cache_fields)
  obtain c' where c': "cache_reads lru_ops idle_env 0 0 [(1, read_pkt 0 1), (2, read_pkt 8 2), (3, read_pkt 0 1), (4, read_pkt 16 3)] small_cache = Some c'"
    and f: "\<forall>a s. findBlock a s c' \<noteq> None \<longleftrightarrow> (extractTag a small_cache, s) \<in> set (take (assoc small_cache) (recent
      (set_names small_cache (extractSet a small_cache) [(1, read_pkt 0 1), (2, read_pkt 8 2), (3, read_pkt 0 1), (4, read_pkt 16 3)])))"
    using lru_keeps_recent [OF small_cache_new, of idle_env 0 "[(1, read_pkt 0 1), (2, read_pkt 8 2), (3, read_pkt 0 1), (4, read_pkt 16 3)]" 0] r
    by (auto simp: small_cache_fields env_idle_def idle_env_def)
  have "recent (set_names small_cache 0 [(1, read_pkt 0 1), (2, read_pkt 8 2), (3, read_pkt 0 1), (4, read_pkt 16 3)])
      = [(2, False), (0, False), (1, False)]"
    using e by (simp add: set_names_def pkt_name_def recent_def read_pkt_def)
  note R = this
  have "findBlock 0 False c' \<noteq> None" using f [rule_format, of 0 False] unfolding e R small_cache_fields by simp
  moreover have "findBlock 16 False c' \<noteq> None" using f [rule_format, of 16 False] unfolding e R small_cache_fields by simp
  moreover have "findBlock 8 False c' = None" using f [rule_format, of 8 False] unfolding e R small_cache_fields by simp
  ultimately show ?thesis using c' by blast
qed

text \<open>
  C30: A store-conditional is atomic.  When it succeeds, its context issued a load-locked of a range around the bytes
  stored, and since then no other context has written to that range, whether by a store or by a store-conditional, and
  no context has load-locked a part of it.  It does succeed when besides that no store-conditional
  has used the lock in between.
\<close>

theorem llsc_atomic:
  assumes "lockList b = []"
  shows "(fst (checkWrite True q (foldl (\<lambda>b x. do_lock_op x b) b xs)) \<longrightarrow>
      (\<exists>i < length xs. \<exists>q'. xs ! i = LL q' \<and> rq_contextId q' = rq_contextId q \<and> lock_matches (lock_of q') q \<and>
        (\<forall>j. i < j \<and> j < length xs \<longrightarrow> \<not> breaks_lock (lock_of q') (xs ! j)))) \<and>
    ((\<exists>i < length xs. \<exists>q'. xs ! i = LL q' \<and> lock_matches (lock_of q') q \<and>
        (\<forall>j. i < j \<and> j < length xs \<longrightarrow> \<not> breaks_lock (lock_of q') (xs ! j) \<and> \<not> uses_lock (lock_of q') (xs ! j))) \<longrightarrow>
      fst (checkWrite True q (foldl (\<lambda>b x. do_lock_op x b) b xs)))"
proof (intro conjI impI)
  assume "fst (checkWrite True q (foldl (\<lambda>b x. do_lock_op x b) b xs))"
  then obtain l where l: "l \<in> set (lockList (foldl (\<lambda>b x. do_lock_op x b) b xs))" "lock_matches l q" by (auto simp: checkWrite_SC)
  then obtain i q' where "i < length xs" "xs ! i = LL q'" "l = lock_of q'" "\<forall>j. i < j \<and> j < length xs \<longrightarrow> \<not> breaks_lock l (xs ! j)"
    using locks_origin [OF l(1) assms] by blast
  then show "\<exists>i < length xs. \<exists>q'. xs ! i = LL q' \<and> rq_contextId q' = rq_contextId q \<and> lock_matches (lock_of q') q \<and>
      (\<forall>j. i < j \<and> j < length xs \<longrightarrow> \<not> breaks_lock (lock_of q') (xs ! j))"
    using l(2) by (intro exI [of _ i]) (auto simp: lock_matches_def lock_of_def Let_def)
next
  assume "\<exists>i < length xs. \<exists>q'. xs ! i = LL q' \<and> lock_matches (lock_of q') q \<and>
    (\<forall>j. i < j \<and> j < length xs \<longrightarrow> \<not> breaks_lock (lock_of q') (xs ! j) \<and> \<not> uses_lock (lock_of q') (xs ! j))"
  then show "fst (checkWrite True q (foldl (\<lambda>b x. do_lock_op x b) b xs))"
    using lock_kept by (metis checkWrite_SC)
qed

definition req4 :: "u32 \<Rightarrow> addr \<Rightarrow> mem_req"
  where "req4 ctx a = \<lparr>rq_contextId = ctx, rq_paddr = a, rq_size = 4\<rparr>"

theorem llsc_atomic_witness:
  "fst (checkWrite True (req4 1 8) (foldl (\<lambda>b x. do_lock_op x b) (blk_default []) [LL (req4 1 8), ST (req4 2 16)])) \<and>
   \<not> fst (checkWrite True (req4 1 8) (foldl (\<lambda>b x. do_lock_op x b) (blk_default []) [LL (req4 1 8), ST (req4 2 8)]))"
proof
  have b: "lockList (blk_default []) = []" by (simp add: blk_default_def blk_invalidate_def)
  have "lock_matches (lock_of (req4 1 8)) (req4 1 8)" "\<not> lock_intersects (lock_of (req4 1 8)) (req4 2 16)"
    "lock_intersects (lock_of (req4 1 8)) (req4 2 8)" "lk_contextId (lock_of (req4 1 8)) = 1" "rq_contextId (req4 2 8) = 2"
    by (simp_all add: lock_matches_def lock_intersects_def lock_of_def req4_def)
  note E = this
  show "fst (checkWrite True (req4 1 8) (foldl (\<lambda>b x. do_lock_op x b) (blk_default []) [LL (req4 1 8), ST (req4 2 16)]))"
    using llsc_atomic [OF b, of "req4 1 8" "[LL (req4 1 8), ST (req4 2 16)]"] E by (fastforce simp: less_Suc_eq)
  show "\<not> fst (checkWrite True (req4 1 8) (foldl (\<lambda>b x. do_lock_op x b) (blk_default []) [LL (req4 1 8), ST (req4 2 8)]))"
    using E b by (simp add: checkWrite_SC trackLoadLocked_def checkWrite_def clearLoadLocks_def)
qed

end
