(* ===== verification/BlockCache.thy ===== *)
theory BlockCache
  imports Prelude
begin

text \<open>
  The block layer of the object store of \<open>Assignments/assignment4\<close>: the blocks of the disk image (\<open>lib.c\<close>), the
  write-back cache of \<open>objstore.c\<close> in front of them, and the bitmap from which blocks are allocated.  The state is the
  super object with the globals beside it.  The first argument \<open>ch\<close> of an operation says whether the store is built
  with \<open>CACHE\<close>.  \<^term>\<open>None\<close> stands for an access outside an array and for waiting for a mutex that the same
  thread holds.  The operations are run one after the other.
\<close>

unbundle bit_operations_syntax

section \<open>State\<close>

definition BLOCK_SIZE :: nat where "BLOCK_SIZE = 4096"
definition BITMAP_SIZE :: int where "BITMAP_SIZE = 32*1024*1024 div 4"
definition CACHE_PAGES :: int where "CACHE_PAGES = 128*1024 div 4"

record object =
  o_id :: int
  o_size :: int
  o_key :: "u8 list"
  data_block_pointers :: "int list"

text \<open>
  The disk image is a file of \<open>disk_len\<close> blocks.  A mutex is the flag that tells whether it is held.
\<close>

record store =
  block_bitmap_mutex :: bool
  block_bitmap :: "int \<Rightarrow> u16"
  dirty_flag :: "int \<Rightarrow> bool"
  obj :: "int \<Rightarrow> object"
  cache_bitmap_mutex :: bool
  cache_bitmap :: "int \<Rightarrow> int"
  last_cache_index :: int
  create_object_lock :: bool
  total_num_disk_blocks :: int
  cache :: "int \<Rightarrow> u8 list"
  disk :: "int \<Rightarrow> u8 list"
  disk_len :: int

text \<open>
  The struct \<open>super_object\<close> has two mutexes of 40 bytes, the bitmaps, and a million objects of 56 bytes; the padding
  brings it to a multiple of the size of a block.
\<close>

definition sizeof_super_object :: int
  where "sizeof_super_object = 40 + 2 * BITMAP_SIZE + CACHE_PAGES + 56 * 1000000 + 40 + 4 * CACHE_PAGES + 4 + 424 + 4"

definition DATA_BLOCKS_START :: int
  where "DATA_BLOCKS_START = sizeof_super_object div int BLOCK_SIZE"

section \<open>Operations\<close>

subsection \<open>Mutexes\<close>

definition lock_cache :: "store \<Rightarrow> store option"
  where "lock_cache s = (if cache_bitmap_mutex s then None else Some (s\<lparr>cache_bitmap_mutex := True\<rparr>))"

definition unlock_cache :: "store \<Rightarrow> store"
  where "unlock_cache s = s\<lparr>cache_bitmap_mutex := False\<rparr>"

definition lock_blocks :: "store \<Rightarrow> store option"
  where "lock_blocks s = (if block_bitmap_mutex s then None else Some (s\<lparr>block_bitmap_mutex := True\<rparr>))"

definition unlock_blocks :: "store \<Rightarrow> store"
  where "unlock_blocks s = s\<lparr>block_bitmap_mutex := False\<rparr>"

definition lock_create :: "store \<Rightarrow> store option"
  where "lock_create s = (if create_object_lock s then None else Some (s\<lparr>create_object_lock := True\<rparr>))"

definition unlock_create :: "store \<Rightarrow> store"
  where "unlock_create s = s\<lparr>create_object_lock := False\<rparr>"

subsection \<open>Blocks of the disk\<close>

text \<open>
  All buffers that are passed here start at a page boundary, so the check of the alignment does not fail.  \<open>pread\<close>
  and \<open>pwrite\<close> fail at a negative offset; \<open>pread\<close> reads nothing past the end, and \<open>pwrite\<close> there extends the file.
\<close>

definition zero_block :: "u8 list"
  where "zero_block = replicate BLOCK_SIZE 0"

definition read_block :: "int \<Rightarrow> u8 list \<Rightarrow> store \<Rightarrow> int \<times> u8 list"
  where "read_block block_offset buf s =
    (if block_offset < 0 then (-1, buf)
     else if block_offset < disk_len s then (0, disk s block_offset) else (0, buf))"

definition write_block :: "int \<Rightarrow> u8 list \<Rightarrow> store \<Rightarrow> int \<times> store"
  where "write_block block_offset buf s =
    (if block_offset < 0 then (-1, s)
     else if block_offset < disk_len s then (0, s\<lparr>disk := (disk s)(block_offset := buf)\<rparr>)
     else (0, s\<lparr>disk := (\<lambda>i. if i = block_offset then buf else if disk_len s \<le> i then zero_block else disk s i),
                disk_len := block_offset + 1\<rparr>))"

subsection \<open>The cache\<close>

definition flush_cache :: "bool \<Rightarrow> int \<Rightarrow> store \<Rightarrow> store option"
  where "flush_cache ch cache_index s =
    (if \<not> ch then Some s
     else do {
       let block_num = cache_bitmap s cache_index;
       let s = (if dirty_flag s cache_index then snd (write_block block_num (cache s cache_index) s) else s);
       s \<leftarrow> lock_cache s;
       let s = s\<lparr>cache_bitmap := (cache_bitmap s)(cache_index := 0)\<rparr>;
       let s = unlock_cache s;
       c_assert (0 \<le> block_num \<and> block_num < BITMAP_SIZE);
       Some (s\<lparr>block_bitmap := (block_bitmap s)(block_num := 1)\<rparr>) })"

definition get_free_cache_page :: "bool \<Rightarrow> store \<Rightarrow> (int \<times> store) option"
  where "get_free_cache_page ch s = do {
    s \<leftarrow> lock_cache s;
    let new_cache_index = (last_cache_index s + 1) mod CACHE_PAGES;
    let new_cache_index = (if new_cache_index < 2 then 2 else new_cache_index);
    let s = s\<lparr>last_cache_index := new_cache_index\<rparr>;
    s \<leftarrow> (if cache_bitmap s new_cache_index \<noteq> 0 then flush_cache ch new_cache_index s else Some s);
    Some (new_cache_index, unlock_cache s) }"

definition read_cached :: "bool \<Rightarrow> int \<Rightarrow> u8 list \<Rightarrow> store \<Rightarrow> (int \<times> u8 list \<times> store) option"
  where "read_cached ch block_num user_buf s =
    (if \<not> ch then Some (-1, user_buf, s)
     else do {
       c_assert (0 \<le> block_num \<and> block_num < BITMAP_SIZE);
       if block_bitmap s block_num = 0 then Some (-1, user_buf, s)
       else if block_bitmap s block_num = 1 then do {
         (cache_index, s) \<leftarrow> get_free_cache_page ch s;
         let s = s\<lparr>cache_bitmap := (cache_bitmap s)(cache_index := block_num),
                   block_bitmap := (block_bitmap s)(block_num := word_of_int cache_index),
                   dirty_flag := (dirty_flag s)(cache_index := False)\<rparr>;
         let user_buf = snd (read_block block_num user_buf s);
         Some (0, user_buf, s\<lparr>cache := (cache s)(cache_index := user_buf)\<rparr>) }
       else do {
         let cache_index = uint (block_bitmap s block_num);
         c_assert (cache_index < CACHE_PAGES);
         Some (0, cache s cache_index, s) } })"

definition write_cached :: "bool \<Rightarrow> int \<Rightarrow> u8 list \<Rightarrow> store \<Rightarrow> (int \<times> store) option"
  where "write_cached ch block_num user_buf s =
    (if \<not> ch then Some (-1, s)
     else do {
       c_assert (0 \<le> block_num \<and> block_num < BITMAP_SIZE);
       if block_bitmap s block_num = 0 then Some (-1, s)
       else do {
         (cache_index, s) \<leftarrow>
           (if block_bitmap s block_num > 1 then Some (uint (block_bitmap s block_num), s)
            else do {
              (cache_index, s) \<leftarrow> get_free_cache_page ch s;
              Some (cache_index, s\<lparr>block_bitmap := (block_bitmap s)(block_num := word_of_int cache_index),
                                   cache_bitmap := (cache_bitmap s)(cache_index := block_num)\<rparr>) });
         c_assert (cache_index < CACHE_PAGES);
         Some (0, s\<lparr>cache := (cache s)(cache_index := user_buf),
                    dirty_flag := (dirty_flag s)(cache_index := True)\<rparr>) } })"

text \<open>One iteration of \<open>cache_sync\<close>, for page \<open>i\<close>.\<close>

definition sync_page :: "int \<Rightarrow> store \<Rightarrow> store option"
  where "sync_page i s =
    (if cache_bitmap s i = 0 then Some s
     else do {
       let block_num = cache_bitmap s i;
       c_assert (0 \<le> block_num \<and> block_num < BITMAP_SIZE);
       if \<not> dirty_flag s i then Some (s\<lparr>block_bitmap := (block_bitmap s)(block_num := 1)\<rparr>)
       else do {
         let s = snd (write_block block_num (cache s i) s);
         Some (s\<lparr>cache_bitmap := (cache_bitmap s)(i := 0), dirty_flag := (dirty_flag s)(i := False),
                 block_bitmap := (block_bitmap s)(block_num := 1)\<rparr>) } })"

fun sync_pages :: "int list \<Rightarrow> store \<Rightarrow> store option"
  where
    "sync_pages [] s = Some s"
  | "sync_pages (i # is) s = do { s \<leftarrow> sync_page i s; sync_pages is s }"

definition cache_sync :: "bool \<Rightarrow> store \<Rightarrow> store option"
  where "cache_sync ch s = (if \<not> ch then Some s else sync_pages [0..CACHE_PAGES - 1] s)"

text \<open>
  Every access to a block tries the cache and falls back on the disk.  \<open>load_block\<close> and \<open>store_block\<close> are these two
  idioms.
\<close>

definition load_block :: "bool \<Rightarrow> int \<Rightarrow> u8 list \<Rightarrow> store \<Rightarrow> (u8 list \<times> store) option"
  where "load_block ch block_num buf s = do {
    (r, buf, s) \<leftarrow> read_cached ch block_num buf s;
    if r = -1 then Some (snd (read_block block_num buf s), s) else Some (buf, s) }"

definition store_block :: "bool \<Rightarrow> int \<Rightarrow> u8 list \<Rightarrow> store \<Rightarrow> store option"
  where "store_block ch block_num buf s = do {
    (r, s) \<leftarrow> write_cached ch block_num buf s;
    if r = -1 then Some (snd (write_block block_num buf s)) else Some s }"

subsection \<open>The bitmap of blocks\<close>

definition set_block_bitmap :: "int \<Rightarrow> store \<Rightarrow> store option"
  where "set_block_bitmap block_num s = do {
    s \<leftarrow> lock_blocks s;
    c_assert (0 \<le> block_num \<and> block_num < BITMAP_SIZE);
    Some (unlock_blocks (s\<lparr>block_bitmap := (block_bitmap s)(block_num := 1)\<rparr>)) }"

definition clear_block_bitmap :: "int \<Rightarrow> store \<Rightarrow> store option"
  where "clear_block_bitmap block_num s = do {
    s \<leftarrow> lock_blocks s;
    c_assert (0 \<le> block_num \<and> block_num < BITMAP_SIZE);
    Some (unlock_blocks (s\<lparr>block_bitmap := (block_bitmap s)(block_num := 0)\<rparr>)) }"

fun scan_bitmap :: "int list \<Rightarrow> store \<Rightarrow> int option"
  where
    "scan_bitmap [] s = Some (-1)"
  | "scan_bitmap (i # is) s = do {
       c_assert (i < BITMAP_SIZE);
       if block_bitmap s i = 0 then Some i else scan_bitmap is s }"

definition get_new_datablock :: "store \<Rightarrow> (int \<times> store) option"
  where "get_new_datablock s = do {
    s \<leftarrow> lock_blocks s;
    i \<leftarrow> scan_bitmap [DATA_BLOCKS_START..total_num_disk_blocks s - 1] s;
    let s = (if i \<ge> 0 then s\<lparr>block_bitmap := (block_bitmap s)(i := 1)\<rparr> else s);
    Some (i, unlock_blocks s) }"

section \<open>Contents of the blocks\<close>

lemma DATA_BLOCKS_START_eq: "DATA_BLOCKS_START = 17808"
  by (simp add: DATA_BLOCKS_START_def sizeof_super_object_def BITMAP_SIZE_def CACHE_PAGES_def BLOCK_SIZE_def)

text \<open>
  The contents of a block are in its page of the cache, if it has one, and otherwise on the disk.
\<close>

definition used :: "store \<Rightarrow> int \<Rightarrow> bool"
  where "used s b = (block_bitmap s b \<noteq> 0)"

definition lblock :: "store \<Rightarrow> int \<Rightarrow> u8 list"
  where "lblock s b = (if 1 < block_bitmap s b then cache s (uint (block_bitmap s b)) else disk s b)"

definition dev_ok :: "store \<Rightarrow> bool"
  where "dev_ok s \<longleftrightarrow> total_num_disk_blocks s \<le> BITMAP_SIZE \<and> total_num_disk_blocks s \<le> disk_len s \<and>
    (\<forall>b. length (disk s b) = BLOCK_SIZE) \<and> \<not> block_bitmap_mutex s \<and> \<not> cache_bitmap_mutex s"

definition data_block :: "store \<Rightarrow> int \<Rightarrow> bool"
  where "data_block s b \<longleftrightarrow> DATA_BLOCKS_START \<le> b \<and> b < total_num_disk_blocks s"

text \<open>
  The invariant of the cache.  Pages after the cursor are free; blocks and pages refer to each other; and a clean page
  agrees with the disk.
\<close>

definition cache_ok :: "store \<Rightarrow> bool"
  where "cache_ok s \<longleftrightarrow> 1 \<le> last_cache_index s \<and> last_cache_index s < CACHE_PAGES \<and>
    (\<forall>i. length (cache s i) = BLOCK_SIZE) \<and> (\<forall>i. last_cache_index s < i \<longrightarrow> cache_bitmap s i = 0) \<and>
    (\<forall>b. 1 < block_bitmap s b \<longrightarrow>
       uint (block_bitmap s b) \<le> last_cache_index s \<and> cache_bitmap s (uint (block_bitmap s b)) = b \<and> b \<noteq> 0) \<and>
    (\<forall>i. cache_bitmap s i \<noteq> 0 \<longrightarrow> data_block s (cache_bitmap s i) \<and>
       1 < block_bitmap s (cache_bitmap s i) \<and> uint (block_bitmap s (cache_bitmap s i)) = i \<and>
       (\<not> dirty_flag s i \<longrightarrow> cache s i = disk s (cache_bitmap s i)))"

text \<open>The invariant of the layer, and that \<open>n\<close> more blocks can enter the cache before its cursor wraps around.\<close>

definition blk_inv :: "bool \<Rightarrow> store \<Rightarrow> bool"
  where "blk_inv ch s \<longleftrightarrow> dev_ok s \<and> (if ch then cache_ok s else (\<forall>b. block_bitmap s b \<le> 1))"

definition cache_room :: "bool \<Rightarrow> store \<Rightarrow> nat \<Rightarrow> bool"
  where "cache_room ch s n \<longleftrightarrow> (ch \<longrightarrow> last_cache_index s + int n < CACHE_PAGES)"

definition keeps_objs :: "store \<Rightarrow> store \<Rightarrow> bool"
  where "keeps_objs s s' \<longleftrightarrow> obj s' = obj s \<and> total_num_disk_blocks s' = total_num_disk_blocks s \<and>
    create_object_lock s' = create_object_lock s"

lemma keeps_objs_refl [simp]: "keeps_objs s s"
  by (simp add: keeps_objs_def)

lemma keeps_objs_trans [trans]: "keeps_objs s t \<Longrightarrow> keeps_objs t u \<Longrightarrow> keeps_objs s u"
  by (simp add: keeps_objs_def)

lemma bitmap_cases: "w = 0 \<or> w = 1 \<or> 1 < w" for w :: u16
  using unat_eq_0 [of w] by (cases "unat w = 1") (auto simp: word_less_nat_alt word_unat_eq_iff)

lemma uint_page:
  assumes "2 \<le> i" "i < CACHE_PAGES"
  shows "uint (word_of_int i :: u16) = i" "(1 :: u16) < word_of_int i" "(word_of_int i :: u16) \<noteq> 0"
proof -
  show u: "uint (word_of_int i :: u16) = i"
    using assms by (simp add: uint_word_of_int CACHE_PAGES_def)
  then show "(1 :: u16) < word_of_int i"
    using assms by (simp add: word_less_def)
  then show "(word_of_int i :: u16) \<noteq> 0"
    by auto
qed

text \<open>A page after the cursor is free.\<close>

lemma fresh_page:
  assumes "cache_ok s" "\<not> cache_bitmap_mutex s" "last_cache_index s + 1 < CACHE_PAGES"
  shows "get_free_cache_page ch s = Some (last_cache_index s + 1, s\<lparr>last_cache_index := last_cache_index s + 1\<rparr>)"
  using assms
  by (simp add: get_free_cache_page_def lock_cache_def unlock_cache_def cache_ok_def Let_def)

lemma cache_okD:
  assumes "cache_ok s"
  shows "1 \<le> last_cache_index s" "last_cache_index s < CACHE_PAGES" "length (cache s i) = BLOCK_SIZE"
    "last_cache_index s < i \<Longrightarrow> cache_bitmap s i = 0"
    "1 < block_bitmap s b \<Longrightarrow> uint (block_bitmap s b) \<le> last_cache_index s"
    "1 < block_bitmap s b \<Longrightarrow> cache_bitmap s (uint (block_bitmap s b)) = b"
    "cache_bitmap s i \<noteq> 0 \<Longrightarrow> data_block s (cache_bitmap s i)"
    "cache_bitmap s i \<noteq> 0 \<Longrightarrow> 1 < block_bitmap s (cache_bitmap s i)"
    "cache_bitmap s i \<noteq> 0 \<Longrightarrow> uint (block_bitmap s (cache_bitmap s i)) = i"
    "cache_bitmap s i \<noteq> 0 \<Longrightarrow> \<not> dirty_flag s i \<Longrightarrow> cache s i = disk s (cache_bitmap s i)"
    "1 < block_bitmap s b \<Longrightarrow> b \<noteq> 0"
  using assms unfolding cache_ok_def by blast+

lemma cache_ok_enter:
  assumes "cache_ok s" "last_cache_index s + 1 < CACHE_PAGES" "i = last_cache_index s + 1" "length d = BLOCK_SIZE"
    "\<not> 1 < block_bitmap s b" "data_block s b" "\<not> f \<Longrightarrow> disk s b = d"
    "last_cache_index s' = i" "cache s' = (cache s)(i := d)" "cache_bitmap s' = (cache_bitmap s)(i := b)"
    "block_bitmap s' = (block_bitmap s)(b := word_of_int i)" "dirty_flag s' = (dirty_flag s)(i := f)" "disk s' = disk s"
    "total_num_disk_blocks s' = total_num_disk_blocks s"
  shows "cache_ok s'"
  unfolding cache_ok_def
proof (intro conjI allI)
  note D = cache_okD [OF assms(1)]
  have u: "uint (word_of_int i :: u16) = i" "(1 :: u16) < word_of_int i"
    using uint_page [of i] D(1) assms(2,3) by auto
  have db: "data_block s' x = data_block s x" for x by (simp add: data_block_def assms(14))
  show "1 \<le> last_cache_index s'" "last_cache_index s' < CACHE_PAGES" using D(1) assms(2,3,8) by auto
  show "length (cache s' j) = BLOCK_SIZE" for j using D(3) assms(4) by (simp add: assms(9))
  show "last_cache_index s' < j \<longrightarrow> cache_bitmap s' j = 0" for j using D(4) [of j] assms(3) by (simp add: assms(8,10))
  show "1 < block_bitmap s' x \<longrightarrow> uint (block_bitmap s' x) \<le> last_cache_index s' \<and>
      cache_bitmap s' (uint (block_bitmap s' x)) = x \<and> x \<noteq> 0" for x
  proof (cases "x = b")
    case True
    then show ?thesis using u assms(6) by (simp add: assms(8,10,11) data_block_def DATA_BLOCKS_START_eq)
  next
    case False
    then show ?thesis using D(5,6,11) [of x] assms(3) by (auto simp: assms(8,10,11))
  qed
  show "cache_bitmap s' j \<noteq> 0 \<longrightarrow> data_block s' (cache_bitmap s' j) \<and> 1 < block_bitmap s' (cache_bitmap s' j) \<and>
      uint (block_bitmap s' (cache_bitmap s' j)) = j \<and> (\<not> dirty_flag s' j \<longrightarrow> cache s' j = disk s' (cache_bitmap s' j))" for j
  proof (cases "j = i")
    case True
    then show ?thesis using u assms(6,7) by (simp add: assms(9-13) db)
  next
    case False
    then show ?thesis using D(7-10) [of j] assms(5) by (auto simp: assms(9-13) db)
  qed
qed

lemma lblock_enter:
  assumes "cache_ok s" "last_cache_index s + 1 < CACHE_PAGES" "i = last_cache_index s + 1"
    "cache s' = (cache s)(i := d)" "block_bitmap s' = (block_bitmap s)(b := word_of_int i)" "disk s' = disk s"
  shows "lblock s' = (lblock s)(b := d)"
proof
  fix x
  have "1 < block_bitmap s x \<Longrightarrow> uint (block_bitmap s x) \<noteq> i"
    using assms(1,3) unfolding cache_ok_def by force
  then show "lblock s' x = ((lblock s)(b := d)) x"
    using assms uint_page [of i] by (auto simp: lblock_def cache_ok_def)
qed

lemma lblock_page:
  assumes "cache_ok s" "1 < block_bitmap s b" "cache s' = (cache s)(uint (block_bitmap s b) := d)"
    "block_bitmap s' = block_bitmap s" "disk s' = disk s"
  shows "lblock s' = (lblock s)(b := d)"
proof
  fix x
  have "1 < block_bitmap s x \<Longrightarrow> uint (block_bitmap s x) = uint (block_bitmap s b) \<Longrightarrow> x = b"
    using assms(1,2) unfolding cache_ok_def by metis
  then show "lblock s' x = ((lblock s)(b := d)) x"
    using assms by (auto simp: lblock_def)
qed

lemma cache_ok_page:
  assumes "cache_ok s" "length d = BLOCK_SIZE" "last_cache_index s' = last_cache_index s"
    "cache s' = (cache s)(i := d)" "cache_bitmap s' = cache_bitmap s" "block_bitmap s' = block_bitmap s"
    "dirty_flag s' = (dirty_flag s)(i := True)" "disk s' = disk s" "total_num_disk_blocks s' = total_num_disk_blocks s"
  shows "cache_ok s'"
  using assms unfolding cache_ok_def data_block_def by auto

lemma lblock_length: "blk_inv ch s \<Longrightarrow> length (lblock s b) = BLOCK_SIZE"
  using bitmap_cases [of "block_bitmap s b"]
  by (auto simp: blk_inv_def dev_ok_def cache_ok_def lblock_def split: if_splits)
    (meson not_less)

lemma data_block_range: "data_block s b \<Longrightarrow> dev_ok s \<Longrightarrow> 0 \<le> b \<and> b < BITMAP_SIZE \<and> b < disk_len s"
  by (simp add: data_block_def dev_ok_def DATA_BLOCKS_START_eq)

lemma load_law:
  assumes "blk_inv ch s" "used s b" "data_block s b" "cache_room ch s (Suc k)"
  shows "\<exists>s'. load_block ch b buf s = Some (lblock s b, s') \<and> keeps_objs s s' \<and> used s' = used s \<and>
    lblock s' = lblock s \<and> blk_inv ch s' \<and> cache_room ch s' k"
proof (cases ch)
  case False
  then have "\<not> 1 < block_bitmap s b" using assms(1) by (simp add: blk_inv_def not_less)
  then show ?thesis
    using False assms data_block_range [OF assms(3)]
    by (simp add: load_block_def read_cached_def read_block_def lblock_def blk_inv_def cache_room_def)
next
  case True
  have b: "0 \<le> b" "b < BITMAP_SIZE" "b < disk_len s" "block_bitmap s b \<noteq> 0" and c: "cache_ok s" "dev_ok s"
    and room: "last_cache_index s + 1 < CACHE_PAGES"
    using assms True data_block_range [OF assms(3)] by (auto simp: blk_inv_def used_def cache_room_def)
  show ?thesis
  proof (cases "block_bitmap s b = 1")
    case bit: True
    let ?i = "last_cache_index s + 1"
    let ?s = "s\<lparr>last_cache_index := ?i, cache_bitmap := (cache_bitmap s)(?i := b),
      block_bitmap := (block_bitmap s)(b := word_of_int ?i), dirty_flag := (dirty_flag s)(?i := False),
      cache := (cache s)(?i := disk s b)\<rparr>"
    have d: "disk s b = lblock s b" by (simp add: lblock_def bit)
    have "load_block ch b buf s = Some (lblock s b, ?s)"
      using True b bit c fresh_page [OF c(1) _ room]
      by (simp add: load_block_def read_cached_def read_block_def dev_ok_def Let_def flip: d)
    moreover have "lblock ?s = lblock s"
      using lblock_enter [OF c(1) room refl, of ?s "disk s b" b] by (simp add: d)
    moreover have "cache_ok ?s"
      by (rule cache_ok_enter [OF c(1) room refl, of "disk s b" b False]) (use c bit assms(3) in \<open>simp_all add: dev_ok_def\<close>)
    moreover have "used ?s = used s"
      using uint_page [of ?i] room c(1) by (auto simp: fun_eq_iff used_def bit cache_ok_def)
    ultimately show ?thesis
      using c assms(4) True by (intro exI [of _ ?s]) (simp add: keeps_objs_def blk_inv_def dev_ok_def cache_room_def)
  next
    case False
    then have gt: "1 < block_bitmap s b" using b(4) bitmap_cases [of "block_bitmap s b"] by blast
    then have "uint (block_bitmap s b) < CACHE_PAGES" using c(1) unfolding cache_ok_def by force
    then show ?thesis
      using True b False gt assms(1,4) by (simp add: load_block_def read_cached_def lblock_def cache_room_def)
  qed
qed

lemma store_law:
  assumes "blk_inv ch s" "used s b" "data_block s b" "length d = BLOCK_SIZE" "cache_room ch s (Suc k)"
  shows "\<exists>s'. store_block ch b d s = Some s' \<and> keeps_objs s s' \<and> used s' = used s \<and>
    lblock s' = (lblock s)(b := d) \<and> blk_inv ch s' \<and> cache_room ch s' k"
proof (cases ch)
  case False
  then have le: "\<not> 1 < block_bitmap s b'" for b' using assms(1) by (simp add: blk_inv_def not_less)
  let ?s = "s\<lparr>disk := (disk s)(b := d)\<rparr>"
  have "store_block ch b d s = Some ?s"
    using False assms(1) data_block_range [OF assms(3)] by (simp add: store_block_def write_cached_def write_block_def blk_inv_def)
  moreover have "lblock ?s = (lblock s)(b := d)"
    by (auto simp: lblock_def le)
  ultimately show ?thesis
    using False assms by (intro exI [of _ ?s]) (auto simp: used_def blk_inv_def dev_ok_def cache_room_def keeps_objs_def)
next
  case True
  have b: "0 \<le> b" "b < BITMAP_SIZE" "b < disk_len s" "block_bitmap s b \<noteq> 0" and c: "cache_ok s" "dev_ok s"
    and room: "last_cache_index s + 1 < CACHE_PAGES"
    using assms True data_block_range [OF assms(3)] by (auto simp: blk_inv_def used_def cache_room_def)
  show ?thesis
  proof (cases "block_bitmap s b = 1")
    case bit: True
    let ?i = "last_cache_index s + 1"
    let ?s = "s\<lparr>last_cache_index := ?i, block_bitmap := (block_bitmap s)(b := word_of_int ?i),
      cache_bitmap := (cache_bitmap s)(?i := b), cache := (cache s)(?i := d), dirty_flag := (dirty_flag s)(?i := True)\<rparr>"
    have "store_block ch b d s = Some ?s"
      using True b bit c room fresh_page [OF c(1) _ room]
      by (simp add: store_block_def write_cached_def dev_ok_def Let_def)
    moreover have "lblock ?s = (lblock s)(b := d)"
      using lblock_enter [OF c(1) room refl, of ?s d b] by simp
    moreover have "cache_ok ?s"
      by (rule cache_ok_enter [OF c(1) room refl, of d b True]) (use assms(3,4) bit in simp_all)
    moreover have "used ?s = used s"
      using uint_page [of ?i] room c(1) by (auto simp: fun_eq_iff used_def bit cache_ok_def)
    ultimately show ?thesis
      using c assms(5) True by (intro exI [of _ ?s]) (simp add: keeps_objs_def blk_inv_def dev_ok_def cache_room_def)
  next
    case False
    then have gt: "1 < block_bitmap s b" using b(4) bitmap_cases [of "block_bitmap s b"] by blast
    let ?i = "uint (block_bitmap s b)"
    let ?s = "s\<lparr>cache := (cache s)(?i := d), dirty_flag := (dirty_flag s)(?i := True)\<rparr>"
    have "?i < CACHE_PAGES" using c(1) gt unfolding cache_ok_def by force
    then have "store_block ch b d s = Some ?s"
      using True b gt by (simp add: store_block_def write_cached_def)
    moreover have "lblock ?s = (lblock s)(b := d)" using lblock_page [OF c(1) gt, of ?s d] by simp
    moreover have "cache_ok ?s" using cache_ok_page [OF c(1) assms(4), of ?s ?i] by simp
    ultimately show ?thesis
      using c assms(5) True by (intro exI [of _ ?s]) (simp add: keeps_objs_def blk_inv_def dev_ok_def cache_room_def used_def fun_eq_iff)
  qed
qed

subsection \<open>Allocation\<close>

text \<open>A block is reserved by \<open>get_new_datablock\<close> and marked once more.\<close>

definition reserve_block :: "store \<Rightarrow> (int \<times> store) option"
  where "reserve_block s = do {
    (b, s) \<leftarrow> get_new_datablock s;
    s \<leftarrow> set_block_bitmap b s;
    Some (b, s) }"

definition free_blocks :: "store \<Rightarrow> int set"
  where "free_blocks s = {b. data_block s b \<and> \<not> used s b}"

lemma finite_free_blocks [simp]: "finite (free_blocks s)"
  by (rule finite_subset [of _ "{DATA_BLOCKS_START..total_num_disk_blocks s}"]) (auto simp: free_blocks_def data_block_def)

lemma scan_bitmap_eq:
  "\<forall>i \<in> set is. i < BITMAP_SIZE \<Longrightarrow>
    scan_bitmap is s = Some (case List.find (\<lambda>i. \<not> used s i) is of None \<Rightarrow> -1 | Some i \<Rightarrow> i)"
  by (induction "is") (auto simp: used_def)

lemma new_datablock_full:
  assumes "dev_ok s" "free_blocks s = {}"
  shows "get_new_datablock s = Some (-1, s)"
proof -
  let ?s = "s\<lparr>block_bitmap_mutex := True\<rparr>" and ?is = "[DATA_BLOCKS_START..total_num_disk_blocks s - 1]"
  have "List.find (\<lambda>i. \<not> used ?s i) ?is = None"
    using assms(2) by (auto simp: find_None_iff free_blocks_def data_block_def used_def)
  then have "scan_bitmap ?is ?s = Some (-1)"
    using assms(1) by (subst scan_bitmap_eq) (auto simp: dev_ok_def)
  then show ?thesis
    using assms(1) by (simp add: get_new_datablock_def lock_blocks_def unlock_blocks_def dev_ok_def)
qed

lemma new_datablock:
  assumes "dev_ok s" "free_blocks s \<noteq> {}"
  shows "\<exists>b \<in> free_blocks s. get_new_datablock s = Some (b, s\<lparr>block_bitmap := (block_bitmap s)(b := 1)\<rparr>)"
proof -
  let ?s = "s\<lparr>block_bitmap_mutex := True\<rparr>" and ?is = "[DATA_BLOCKS_START..total_num_disk_blocks s - 1]"
  obtain b where b: "List.find (\<lambda>i. \<not> used ?s i) ?is = Some b"
    using assms(2) by (cases "List.find (\<lambda>i. \<not> used ?s i) ?is") (auto simp: find_None_iff free_blocks_def data_block_def used_def)
  then have "b \<in> set ?is" "\<not> used ?s b" by (auto simp: find_Some_iff)
  then have f: "b \<in> free_blocks s" "0 \<le> b"
    by (auto simp: free_blocks_def data_block_def used_def DATA_BLOCKS_START_eq)
  have "scan_bitmap ?is ?s = Some b"
    using assms(1) b by (subst scan_bitmap_eq) (auto simp: dev_ok_def)
  then show ?thesis
    using f assms(1) by (intro bexI [of _ b]) (simp_all add: get_new_datablock_def lock_blocks_def unlock_blocks_def dev_ok_def)
qed

lemma reserve_full: "dev_ok s \<Longrightarrow> free_blocks s = {} \<Longrightarrow> reserve_block s = None"
  by (simp add: reserve_block_def new_datablock_full set_block_bitmap_def lock_blocks_def dev_ok_def)

lemma lblock_reserve [simp]: "\<not> used s b \<Longrightarrow> lblock (s\<lparr>block_bitmap := (block_bitmap s)(b := 1)\<rparr>) = lblock s"
  by (auto simp: lblock_def used_def fun_eq_iff)

lemma used_reserve [simp]: "used (s\<lparr>block_bitmap := (block_bitmap s)(b := 1)\<rparr>) = (used s)(b := True)"
  by (auto simp: used_def fun_eq_iff)

lemma blk_inv_reserve:
  assumes "blk_inv ch s" "\<not> used s b"
  shows "blk_inv ch (s\<lparr>block_bitmap := (block_bitmap s)(b := 1)\<rparr>)"
proof -
  have "cache_ok (s\<lparr>block_bitmap := (block_bitmap s)(b := 1)\<rparr>)" if "cache_ok s"
  proof -
    have "cache_bitmap s i \<noteq> b" if "cache_bitmap s i \<noteq> 0" for i
      using cache_okD(8) [OF \<open>cache_ok s\<close> that] assms(2) by (auto simp: used_def)
    then show ?thesis using that by (auto simp: cache_ok_def data_block_def)
  qed
  then show ?thesis using assms by (auto simp: blk_inv_def dev_ok_def)
qed

lemma reserve_law:
  assumes "blk_inv ch s" "free_blocks s \<noteq> {}"
  shows "\<exists>b s'. reserve_block s = Some (b, s') \<and> b \<in> free_blocks s \<and> keeps_objs s s' \<and> used s' = (used s)(b := True) \<and>
    lblock s' = lblock s \<and> block_bitmap s' b = 1 \<and> blk_inv ch s' \<and> last_cache_index s' = last_cache_index s"
proof -
  have d: "dev_ok s" using assms(1) by (simp add: blk_inv_def)
  obtain b where b: "b \<in> free_blocks s" "get_new_datablock s = Some (b, s\<lparr>block_bitmap := (block_bitmap s)(b := 1)\<rparr>)"
    using new_datablock [OF d assms(2)] by blast
  have r: "data_block s b" "\<not> used s b" using b(1) by (auto simp: free_blocks_def)
  have "set_block_bitmap b (s\<lparr>block_bitmap := (block_bitmap s)(b := 1)\<rparr>) = Some (s\<lparr>block_bitmap := (block_bitmap s)(b := 1)\<rparr>)"
    using d data_block_range [OF r(1) d] by (simp add: set_block_bitmap_def lock_blocks_def unlock_blocks_def dev_ok_def)
  then have "reserve_block s = Some (b, s\<lparr>block_bitmap := (block_bitmap s)(b := 1)\<rparr>)"
    using b(2) by (simp add: reserve_block_def)
  then show ?thesis
    using b(1) r(2) blk_inv_reserve [OF assms(1) r(2)] by (simp add: keeps_objs_def)
qed

text \<open>A new block is initialised on the disk, past the cache; it has no page yet.\<close>

lemma write_block_law:
  assumes "blk_inv ch s" "data_block s b" "block_bitmap s b = 1" "length d = BLOCK_SIZE"
  shows "\<exists>s'. write_block b d s = (0, s') \<and> keeps_objs s s' \<and> used s' = used s \<and> lblock s' = (lblock s)(b := d) \<and>
    blk_inv ch s' \<and> last_cache_index s' = last_cache_index s"
proof -
  have d: "dev_ok s" using assms(1) by (simp add: blk_inv_def)
  let ?s = "s\<lparr>disk := (disk s)(b := d)\<rparr>"
  have "cache_ok ?s" if "cache_ok s"
  proof -
    have "cache_bitmap s i \<noteq> b" if "cache_bitmap s i \<noteq> 0" for i
      using cache_okD(8) [OF \<open>cache_ok s\<close> that] assms(3) by auto
    then show ?thesis using that by (auto simp: cache_ok_def data_block_def)
  qed
  then have "blk_inv ch ?s" using assms(1,4) by (auto simp: blk_inv_def dev_ok_def)
  moreover have "lblock ?s = (lblock s)(b := d)" using assms(3) by (auto simp: lblock_def)
  ultimately show ?thesis
    using data_block_range [OF assms(2) d] by (intro exI [of _ ?s]) (auto simp: write_block_def keeps_objs_def used_def)
qed

subsection \<open>Writing the cache back\<close>

text \<open>
  The state after the pages below \<open>n\<close> have been written back: their blocks are on the disk and have no page.
\<close>

definition synced :: "store \<Rightarrow> int \<Rightarrow> store \<Rightarrow> bool"
  where "synced s0 n s \<longleftrightarrow> obj s = obj s0 \<and> total_num_disk_blocks s = total_num_disk_blocks s0 \<and> disk_len s = disk_len s0 \<and>
    cache s = cache s0 \<and> last_cache_index s = last_cache_index s0 \<and>
    block_bitmap_mutex s = block_bitmap_mutex s0 \<and> cache_bitmap_mutex s = cache_bitmap_mutex s0 \<and>
    create_object_lock s = create_object_lock s0 \<and>
    (\<forall>i \<ge> n. cache_bitmap s i = cache_bitmap s0 i \<and> dirty_flag s i = dirty_flag s0 i) \<and>
    (\<forall>b. if 1 < block_bitmap s0 b \<and> uint (block_bitmap s0 b) < n
         then block_bitmap s b = 1 \<and> disk s b = lblock s0 b
         else block_bitmap s b = block_bitmap s0 b \<and> disk s b = disk s0 b)"

lemma sync_page_step:
  assumes "cache_ok s0" "dev_ok s0" "synced s0 n s"
  shows "\<exists>s'. sync_page n s = Some s' \<and> synced s0 (n + 1) s'"
proof -
  note S = assms(3) [unfolded synced_def]
  have page: "cache_bitmap s n = cache_bitmap s0 n" "dirty_flag s n = dirty_flag s0 n" "cache s = cache s0" using S by auto
  let ?b = "cache_bitmap s0 n"
  have own: "b = ?b" "?b \<noteq> 0" if "1 < block_bitmap s0 b" "uint (block_bitmap s0 b) = n" for b
    using cache_okD(6,11) [OF assms(1) that(1)] that(2) by auto
  have less: "uint (block_bitmap s0 b) < n + 1 \<longleftrightarrow> uint (block_bitmap s0 b) < n \<or> uint (block_bitmap s0 b) = n" for b
    by auto
  show ?thesis
  proof (cases "?b = 0")
    case True
    then have "uint (block_bitmap s0 b) \<noteq> n" if "1 < block_bitmap s0 b" for b using own(2) that by blast
    then have "synced s0 (n + 1) s" using S unfolding synced_def less by auto
    then show ?thesis using True page by (simp add: sync_page_def)
  next
    case False
    note P = cache_okD(7-10) [OF assms(1) False]
    have r: "0 \<le> ?b" "?b < BITMAP_SIZE" "?b < disk_len s"
      using data_block_range [OF P(1) assms(2)] S by auto
    have l: "lblock s0 ?b = cache s0 n" using P(2,3) by (simp add: lblock_def)
    have db: "disk s ?b = disk s0 ?b" using S P(3) by (metis less_irrefl)
    have iff: "1 < block_bitmap s0 b \<and> uint (block_bitmap s0 b) < n + 1 \<longleftrightarrow>
        1 < block_bitmap s0 b \<and> uint (block_bitmap s0 b) < n \<or> b = ?b" for b
      using own(1) [of b] P(2,3) unfolding less by metis
    show ?thesis
    proof (cases "dirty_flag s0 n")
      case True
      let ?s = "s\<lparr>disk := (disk s)(?b := cache s0 n), cache_bitmap := (cache_bitmap s)(n := 0),
        dirty_flag := (dirty_flag s)(n := False), block_bitmap := (block_bitmap s)(?b := 1)\<rparr>"
      have "synced s0 (n + 1) ?s" using S l unfolding synced_def iff by auto
      then show ?thesis using True False page r by (simp add: sync_page_def write_block_def Let_def)
    next
      case clean: False
      let ?s = "s\<lparr>block_bitmap := (block_bitmap s)(?b := 1)\<rparr>"
      have "synced s0 (n + 1) ?s" using S l P(4) [OF clean] db unfolding synced_def iff by auto
      then show ?thesis using clean False page r by (simp add: sync_page_def Let_def)
    qed
  qed
qed

lemma sync_pages_step:
  "cache_ok s0 \<Longrightarrow> dev_ok s0 \<Longrightarrow> synced s0 n s \<Longrightarrow> n \<le> m + 1 \<Longrightarrow> \<exists>s'. sync_pages [n..m] s = Some s' \<and> synced s0 (m + 1) s'"
proof (induction "nat (m + 1 - n)" arbitrary: n s)
  case 0
  then show ?case by auto
next
  case (Suc k)
  obtain s' where s': "sync_page n s = Some s'" "synced s0 (n + 1) s'"
    using sync_page_step [OF Suc.prems(1-3)] by blast
  have "\<exists>s''. sync_pages [n + 1..m] s' = Some s'' \<and> synced s0 (m + 1) s''"
    by (rule Suc.hyps(1)) (use Suc.hyps(2) Suc.prems s' in auto)
  moreover have "[n..m] = n # [n + 1..m]" using Suc.hyps(2) by (simp add: upto_rec1)
  ultimately show ?case using s'(1) by simp
qed

text \<open>Afterwards the disk has the contents of all blocks, and no block has a page.\<close>

lemma cache_sync_law:
  assumes "blk_inv ch s"
  shows "\<exists>s'. cache_sync ch s = Some s' \<and> keeps_objs s s' \<and> disk s' = lblock s \<and> used s' = used s \<and>
    (\<forall>b. block_bitmap s' b \<le> 1) \<and> dev_ok s' \<and> disk_len s' = disk_len s"
proof (cases ch)
  case False
  then show ?thesis using assms by (auto simp: cache_sync_def blk_inv_def lblock_def fun_eq_iff not_less dest: leD)
next
  case True
  then have c: "cache_ok s" "dev_ok s" using assms by (auto simp: blk_inv_def)
  have "synced s 0 s" by (auto simp: synced_def uint_ge_0 not_less)
  then obtain s' where s': "sync_pages [0..CACHE_PAGES - 1] s = Some s'" "synced s CACHE_PAGES s'"
    using sync_pages_step [OF c, of 0 s "CACHE_PAGES - 1"] by (auto simp: CACHE_PAGES_def)
  have in_page: "uint (block_bitmap s b) < CACHE_PAGES" if "1 < block_bitmap s b" for b
    using cache_okD(2,5) [OF c(1)] that by (meson le_less_trans)
  then have B: "if 1 < block_bitmap s b then block_bitmap s' b = 1 \<and> disk s' b = lblock s b
      else block_bitmap s' b = block_bitmap s b \<and> disk s' b = disk s b" for b
    using s'(2) unfolding synced_def by auto
  have disk: "disk s' = lblock s"
    using B by (auto simp: fun_eq_iff lblock_def split: if_splits)
  moreover have "used s' = used s" using B by (auto simp: fun_eq_iff used_def) (metis bitmap_cases zero_neq_one)+
  moreover have "block_bitmap s' b \<le> 1" for b using B [of b] by (auto split: if_splits)
  moreover have "dev_ok s'"
    using s'(2) c(2) lblock_length [OF assms] unfolding dev_ok_def disk by (simp add: synced_def)
  ultimately show ?thesis
    using True s' by (simp add: cache_sync_def synced_def keeps_objs_def)
qed

section \<open>The interface of the layer\<close>

text \<open>
  What the object store relies on.  While there is room, reading a block returns its contents and changes no contents;
  writing a block changes its contents and no other; a reserved block was free; and a block that has just been reserved
  can be initialised on the disk.
\<close>

locale block_layer =
  fixes ch :: bool
    and inv :: "store \<Rightarrow> bool"
    and room :: "store \<Rightarrow> nat \<Rightarrow> bool"
  assumes load: "\<lbrakk>inv s; used s b; data_block s b; room s (Suc k)\<rbrakk> \<Longrightarrow>
      \<exists>s'. load_block ch b buf s = Some (lblock s b, s') \<and> keeps_objs s s' \<and> used s' = used s \<and>
        lblock s' = lblock s \<and> inv s' \<and> room s' k"
    and store: "\<lbrakk>inv s; used s b; data_block s b; length d = BLOCK_SIZE; room s (Suc k)\<rbrakk> \<Longrightarrow>
      \<exists>s'. store_block ch b d s = Some s' \<and> keeps_objs s s' \<and> used s' = used s \<and>
        lblock s' = (lblock s)(b := d) \<and> inv s' \<and> room s' k"
    and reserve: "\<lbrakk>inv s; free_blocks s \<noteq> {}; room s k\<rbrakk> \<Longrightarrow>
      \<exists>b s'. reserve_block s = Some (b, s') \<and> b \<in> free_blocks s \<and> keeps_objs s s' \<and> used s' = (used s)(b := True) \<and>
        lblock s' = lblock s \<and> block_bitmap s' b = 1 \<and> inv s' \<and> room s' k"
    and init: "\<lbrakk>inv s; data_block s b; block_bitmap s b = 1; length d = BLOCK_SIZE; room s k\<rbrakk> \<Longrightarrow>
      \<exists>s'. write_block b d s = (0, s') \<and> keeps_objs s s' \<and> used s' = used s \<and> lblock s' = (lblock s)(b := d) \<and>
        inv s' \<and> room s' k"
    and lengths: "inv s \<Longrightarrow> length (lblock s b) = BLOCK_SIZE"
    and inv_obj [simp]: "inv (s\<lparr>obj := f\<rparr>) = inv s"
    and room_obj [simp]: "room (s\<lparr>obj := f\<rparr>) k = room s k"
    and room_mono: "room s k \<Longrightarrow> j \<le> k \<Longrightarrow> room s j"
    and total: "inv s \<Longrightarrow> total_num_disk_blocks s \<le> BITMAP_SIZE"

lemma blk_inv_obj [simp]: "blk_inv ch (s\<lparr>obj := f\<rparr>) = blk_inv ch s"
  by (simp add: blk_inv_def dev_ok_def cache_ok_def data_block_def)

lemma blk_inv_create_lock [simp]: "blk_inv ch (s\<lparr>create_object_lock := l\<rparr>) = blk_inv ch s"
  by (simp add: blk_inv_def dev_ok_def cache_ok_def data_block_def)

lemma block_laws: "block_layer ch (blk_inv ch) (cache_room ch)"
proof
  show "\<exists>b s'. reserve_block s = Some (b, s') \<and> b \<in> free_blocks s \<and> keeps_objs s s' \<and> used s' = (used s)(b := True) \<and>
      lblock s' = lblock s \<and> block_bitmap s' b = 1 \<and> blk_inv ch s' \<and> cache_room ch s' k"
    if "blk_inv ch s" "free_blocks s \<noteq> {}" "cache_room ch s k" for s k
    using reserve_law [OF that(1,2)] that(3) by (auto simp: cache_room_def)
  show "\<exists>s'. write_block b d s = (0, s') \<and> keeps_objs s s' \<and> used s' = used s \<and> lblock s' = (lblock s)(b := d) \<and>
      blk_inv ch s' \<and> cache_room ch s' k"
    if "blk_inv ch s" "data_block s b" "block_bitmap s b = 1" "length d = BLOCK_SIZE" "cache_room ch s k" for s b d k
    using write_block_law [OF that(1-4)] that(5) by (auto simp: cache_room_def)
qed (simp_all add: load_law store_law lblock_length, auto simp: cache_room_def blk_inv_def dev_ok_def)

interpretation uncached: block_layer False "blk_inv False" "cache_room False"
  by (rule block_laws)

interpretation cached: block_layer True "blk_inv True" "cache_room True"
  by (rule block_laws)

section \<open>Properties of the block layer\<close>

fun load_all :: "bool \<Rightarrow> int list \<Rightarrow> store \<Rightarrow> store option"
  where
    "load_all ch [] s = Some s"
  | "load_all ch (b # bs) s = do { (_, s) \<leftarrow> load_block ch b zero_block s; load_all ch bs s }"

lemma load_uncached:
  assumes "blk_inv True s" "block_bitmap s b = 1" "data_block s b"
  shows "if last_cache_index s + 1 < CACHE_PAGES
    then \<exists>s'. load_block True b buf s = Some (lblock s b, s') \<and> blk_inv True s' \<and>
      last_cache_index s' = last_cache_index s + 1 \<and> cache_bitmap s' = (cache_bitmap s)(last_cache_index s + 1 := b) \<and>
      (\<forall>b'. b' \<noteq> b \<longrightarrow> block_bitmap s' b' = block_bitmap s b') \<and> total_num_disk_blocks s' = total_num_disk_blocks s
    else cache_bitmap s 2 \<noteq> 0 \<longrightarrow> load_block True b buf s = None"
proof (cases "last_cache_index s + 1 < CACHE_PAGES")
  case True
  have u: "used s b" using assms(2) by (simp add: used_def)
  obtain s' where s': "load_block True b buf s = Some (lblock s b, s')" "blk_inv True s'"
    using load_law [OF assms(1) u assms(3), of 0] True by (auto simp: cache_room_def)
  have "cache_ok s" "dev_ok s" using assms(1) by (auto simp: blk_inv_def)
  then have "last_cache_index s' = last_cache_index s + 1 \<and> cache_bitmap s' = (cache_bitmap s)(last_cache_index s + 1 := b) \<and>
      (\<forall>b'. b' \<noteq> b \<longrightarrow> block_bitmap s' b' = block_bitmap s b') \<and> total_num_disk_blocks s' = total_num_disk_blocks s"
    using s'(1) fresh_page [of s True] True assms(2)
    by (auto simp: load_block_def read_cached_def Let_def dev_ok_def)
  then show ?thesis using s' True by simp
next
  case False
  have c: "cache_ok s" "dev_ok s" using assms(1) by (auto simp: blk_inv_def)
  have e: "last_cache_index s = CACHE_PAGES - 1" using False cache_okD(2) [OF c(1)] by simp
  have "get_free_cache_page True s = None" if "cache_bitmap s 2 \<noteq> 0"
    using that c(2)
    by (simp add: get_free_cache_page_def e lock_cache_def Let_def flush_cache_def dev_ok_def write_block_def)
  then show ?thesis
    using False assms(2) data_block_range [OF assms(3) c(2)]
    by (simp add: load_block_def read_cached_def)
qed

lemma load_all_cached:
  assumes "blk_inv True s" "distinct bs" "\<forall>b \<in> set bs. block_bitmap s b = 1 \<and> data_block s b"
    "last_cache_index s = 1 \<or> cache_bitmap s 2 \<noteq> 0"
  shows "load_all True bs s \<noteq> None \<longleftrightarrow> last_cache_index s + int (length bs) < CACHE_PAGES"
  using assms
proof (induction bs arbitrary: s)
  case Nil
  then show ?case using cache_okD(2) by (auto simp: blk_inv_def)
next
  case (Cons b bs)
  have b: "block_bitmap s b = 1" "data_block s b" using Cons.prems(3) by auto
  note L = load_uncached [OF Cons.prems(1) b, of zero_block]
  show ?case
  proof (cases "last_cache_index s + 1 < CACHE_PAGES")
    case True
    obtain s' where s': "load_block True b zero_block s = Some (lblock s b, s')" "blk_inv True s'"
      "last_cache_index s' = last_cache_index s + 1" "cache_bitmap s' = (cache_bitmap s)(last_cache_index s + 1 := b)"
      "\<forall>b'. b' \<noteq> b \<longrightarrow> block_bitmap s' b' = block_bitmap s b'" "total_num_disk_blocks s' = total_num_disk_blocks s"
      using L True by auto
    have "\<forall>x \<in> set bs. block_bitmap s' x = 1 \<and> data_block s' x"
      using Cons.prems(2,3) s'(5,6) by (auto simp: data_block_def)
    moreover have "cache_bitmap s' 2 \<noteq> 0"
      using Cons.prems(4) s'(4) b(2) by (auto simp: data_block_def DATA_BLOCKS_START_eq)
    ultimately show ?thesis using Cons.IH [OF s'(2)] Cons.prems(2) s'(1,3) by (auto simp: algebra_simps)
  next
    case False
    then have "cache_bitmap s 2 \<noteq> 0" using Cons.prems(4) by (auto simp: CACHE_PAGES_def)
    then show ?thesis using L False by simp
  qed
qed

text \<open>
  C31: The cache never replaces a page.  In a store whose cache is empty, reading any 32766 distinct blocks succeeds,
  and reading one more blocks forever: \<open>get_free_cache_page\<close> calls \<open>flush_cache\<close> while it holds the mutex that
  \<open>flush_cache\<close> waits for.
\<close>

theorem cache_deadlock:
  assumes "blk_inv True s" "last_cache_index s = 1" "distinct bs" "\<forall>b \<in> set bs. block_bitmap s b = 1 \<and> data_block s b"
  shows "load_all True bs s \<noteq> None \<longleftrightarrow> length bs \<le> 32766"
  using load_all_cached [OF assms(1,3,4)] assms(2) by (auto simp: CACHE_PAGES_def)

text \<open>A store on an empty disk of 1 GB, and one in which all blocks are in use.\<close>

definition empty_store :: store
  where "empty_store = \<lparr>block_bitmap_mutex = False, block_bitmap = (\<lambda>_. 0), dirty_flag = (\<lambda>_. False),
    obj = (\<lambda>_. \<lparr>o_id = 0, o_size = 0, o_key = replicate 32 0, data_block_pointers = replicate 4 0\<rparr>),
    cache_bitmap_mutex = False, cache_bitmap = (\<lambda>_. 0), last_cache_index = 1, create_object_lock = False,
    total_num_disk_blocks = 262144, cache = (\<lambda>_. zero_block), disk = (\<lambda>_. zero_block), disk_len = 262144\<rparr>"

definition full_disk :: store
  where "full_disk = empty_store\<lparr>block_bitmap := (\<lambda>b. if 17808 \<le> b \<and> b < 262144 then 1 else 0)\<rparr>"

lemma empty_store_ok: "blk_inv ch empty_store"
  by (simp add: blk_inv_def dev_ok_def cache_ok_def empty_store_def BITMAP_SIZE_def CACHE_PAGES_def zero_block_def)

theorem cache_deadlock_witness: "load_all True [17808..17808 + 32766] full_disk = None"
proof -
  have "blk_inv True full_disk"
    by (simp add: blk_inv_def dev_ok_def cache_ok_def full_disk_def empty_store_def BITMAP_SIZE_def CACHE_PAGES_def zero_block_def)
  moreover have "last_cache_index full_disk = 1" by (simp add: full_disk_def empty_store_def)
  moreover have "distinct [17808..17808 + 32766 :: int]" by (rule distinct_upto)
  moreover have "\<forall>b \<in> set [17808..17808 + 32766]. block_bitmap full_disk b = 1 \<and> data_block full_disk b"
    unfolding set_upto by (simp add: full_disk_def empty_store_def data_block_def DATA_BLOCKS_START_eq)
  moreover have "\<not> length [17808..17808 + 32766 :: int] \<le> 32766" unfolding length_upto by simp
  ultimately show ?thesis
    using cache_deadlock by blast
qed

end
