(* ===== verification/ObjTable.thy ===== *)
theory ObjTable
  imports BlockCache
begin

text \<open>
  The table of objects of the object store (\<open>hash\<close>, \<open>find_object_id\<close>, \<open>create_object\<close>, \<open>rename_object\<close> of
  \<open>Assignments/assignment4/objstore.c\<close>): an array of a million objects that is searched by linear probing from the hash
  of the key.  A key is the list of the bytes of a C string without its terminator.  \<^term>\<open>None\<close> stands for
  a search that does not end or that reads past the end of an array.
\<close>

definition NUM_OBJS :: int where "NUM_OBJS = 1000000"

section \<open>Operations\<close>

definition indexToID :: "int \<Rightarrow> int"
  where "indexToID x = x + 2"

definition idToIndex :: "int \<Rightarrow> int"
  where "idToIndex x = x - 2"

text \<open>The characters are signed.\<close>

fun hash_loop :: "u32 \<Rightarrow> u8 list \<Rightarrow> u32"
  where
    "hash_loop h [] = h"
  | "hash_loop h (c # str) = hash_loop ((push_bit 5 h + h) + scast c) str"

definition hash :: "u8 list \<Rightarrow> int"
  where "hash str = uint (hash_loop 5381 str) mod NUM_OBJS"

text \<open>Whether \<open>strcmp\<close> finds the array and the string equal; it runs off an array without a terminator.\<close>

fun strcmp_eq :: "u8 list \<Rightarrow> u8 list \<Rightarrow> bool option"
  where
    "strcmp_eq [] key = None"
  | "strcmp_eq (a # as) [] = Some (a = 0)"
  | "strcmp_eq (a # as) (k # ks) = (if a = k then strcmp_eq as ks else Some False)"

definition strncpy32 :: "u8 list \<Rightarrow> u8 list"
  where "strncpy32 key = take 32 (key @ replicate 32 0)"

definition key_matches :: "object \<Rightarrow> u8 list \<Rightarrow> bool option"
  where "key_matches o1 key = (if o_id o1 \<noteq> 0 then strcmp_eq (o_key o1) key else Some False)"

partial_function (option) find_loop :: "int \<Rightarrow> int \<Rightarrow> u8 list \<Rightarrow> store \<Rightarrow> int option"
  where
    "find_loop previous_index index key s =
      (if previous_index = index then Some (-1)
       else do {
         m \<leftarrow> key_matches (obj s index) key;
         if m then Some (o_id (obj s index)) else find_loop previous_index ((index + 1) mod NUM_OBJS) key s })"

definition find_object_id :: "u8 list \<Rightarrow> store \<Rightarrow> int option"
  where "find_object_id key s = do {
    let index = hash key;
    m \<leftarrow> key_matches (obj s index) key;
    if m then Some (o_id (obj s index)) else find_loop index ((index + 1) mod NUM_OBJS) key s }"

text \<open>The search of \<open>create_object\<close> returns whether it stopped at a free slot, and the slot.\<close>

partial_function (option) create_loop :: "int \<Rightarrow> u8 list \<Rightarrow> store \<Rightarrow> (bool \<times> int) option"
  where
    "create_loop index key s =
      (if o_id (obj s index) = 0 then Some (True, index)
       else do {
         m \<leftarrow> strcmp_eq (o_key (obj s index)) key;
         if m then Some (False, index) else create_loop ((index + 1) mod NUM_OBJS) key s })"

definition upd_obj :: "int \<Rightarrow> (object \<Rightarrow> object) \<Rightarrow> store \<Rightarrow> store"
  where "upd_obj i f s = s\<lparr>obj := (obj s)(i := f (obj s i))\<rparr>"

definition create_object :: "u8 list \<Rightarrow> store \<Rightarrow> (int \<times> store) option"
  where "create_object key s = do {
    s \<leftarrow> lock_create s;
    (free, index) \<leftarrow> create_loop (hash key) key s;
    if \<not> free then Some (-1, unlock_create s)
    else do {
      let s = upd_obj index (\<lambda>x. \<lparr>o_id = indexToID index, o_size = 0, o_key = strncpy32 key,
                                   data_block_pointers = replicate 4 (-1)\<rparr>) s;
      Some (indexToID index, unlock_create s) } }"

definition release_object :: "int \<Rightarrow> store \<Rightarrow> int \<times> store"
  where "release_object objid s = (0, s)"

definition rename_object :: "u8 list \<Rightarrow> u8 list \<Rightarrow> store \<Rightarrow> (int \<times> store) option"
  where "rename_object key newname s =
    (if length newname > 32 then Some (-1, s)
     else do {
       old_id \<leftarrow> find_object_id key s;
       if old_id = -1 then Some (-1, s)
       else do {
         (new_id, s) \<leftarrow> create_object newname s;
         if new_id = -1 then Some (-1, s)
         else do {
           let old_obj = obj s (idToIndex old_id);
           let s = upd_obj (idToIndex new_id)
             (\<lambda>x. x\<lparr>o_size := o_size old_obj, data_block_pointers := data_block_pointers old_obj\<rparr>) s;
           s \<leftarrow> lock_create s;
           let s = upd_obj (idToIndex old_id) (\<lambda>x. x\<lparr>o_id := 0\<rparr>) s;
           Some (new_id, unlock_create s) } } })"

section \<open>Keys\<close>

definition name_ok :: "u8 list \<Rightarrow> bool"
  where "name_ok key \<longleftrightarrow> 0 \<notin> set key \<and> length key < 32"

lemma strcmp_strncpy:
  "0 \<notin> set k \<Longrightarrow> 0 \<notin> set key \<Longrightarrow> strcmp_eq (k @ 0 # z) key = Some (k = key)"
proof (induction k arbitrary: key)
  case Nil
  then show ?case by (cases key) auto
next
  case (Cons a k)
  then show ?case by (cases key) auto
qed

lemma strncpy_short:
  assumes "name_ok k"
  shows "strncpy32 k = k @ 0 # replicate (31 - length k) 0"
proof -
  have "32 - length k = Suc (31 - length k)" using assms unfolding name_ok_def by linarith
  then show ?thesis using assms by (simp add: name_ok_def strncpy32_def)
qed

lemma strcmp_name: "name_ok k \<Longrightarrow> 0 \<notin> set key \<Longrightarrow> strcmp_eq (strncpy32 k) key = Some (k = key)"
  using strncpy_short [of k] strcmp_strncpy [of k key] by (auto simp: name_ok_def)

text \<open>A key of 32 bytes or more is stored without a terminator.\<close>

lemma strcmp_prefix: "strcmp_eq k (k @ key) = None"
  by (induction k) auto

lemma strcmp_long: "32 \<le> length key \<Longrightarrow> strcmp_eq (strncpy32 key) key = None"
  using strcmp_prefix [of "take 32 key" "drop 32 key"] by (simp add: strncpy32_def)

lemma strncpy_inj:
  assumes "name_ok k" "0 \<notin> set key"
  shows "strncpy32 k = strncpy32 key \<longleftrightarrow> k = key"
proof
  assume e: "strncpy32 k = strncpy32 key"
  have "length key < 32"
  proof (rule ccontr)
    assume "\<not> length key < 32"
    then have "strncpy32 key = take 32 key" by (simp add: strncpy32_def)
    then have "0 \<notin> set (strncpy32 key)" using assms(2) in_set_takeD by fastforce
    then show False using e strncpy_short [OF assms(1)] by (metis in_set_conv_decomp)
  qed
  then show "k = key"
    using strcmp_name [OF assms] strcmp_name [of key key] assms(2) e by (simp add: name_ok_def)
qed simp

section \<open>Probing\<close>

definition probe :: "int \<Rightarrow> nat \<Rightarrow> int"
  where "probe h j = (h + int j) mod NUM_OBJS"

definition slots :: "int \<Rightarrow> nat \<Rightarrow> int list"
  where "slots h j = map (probe h) [j..<nat NUM_OBJS]"

text \<open>\<open>has s i key\<close>: slot \<open>i\<close> holds an object with the key.\<close>

definition has :: "store \<Rightarrow> int \<Rightarrow> u8 list \<Rightarrow> bool"
  where "has s i key \<longleftrightarrow> o_id (obj s i) \<noteq> 0 \<and> o_key (obj s i) = strncpy32 key"

definition tab_ok :: "store \<Rightarrow> bool"
  where "tab_ok s \<longleftrightarrow> (\<forall>i. o_id (obj s i) \<noteq> 0 \<longrightarrow>
    0 \<le> i \<and> i < NUM_OBJS \<and> o_id (obj s i) = i + 2 \<and> (\<exists>k. name_ok k \<and> o_key (obj s i) = strncpy32 k))"

lemma NUM_OBJS_pos: "0 < NUM_OBJS" by (simp add: NUM_OBJS_def)

lemma hash_range: "0 \<le> hash key" "hash key < NUM_OBJS"
  by (simp_all add: hash_def NUM_OBJS_pos)

lemma probe_0 [simp]: "probe (hash key) 0 = hash key"
  using hash_range [of key] by (simp add: probe_def)

lemma probe_Suc: "(probe h j + 1) mod NUM_OBJS = probe h (Suc j)"
  by (simp add: probe_def mod_add_left_eq) (simp add: mod_add_right_eq ac_simps)

lemma probe_range: "0 \<le> probe h j" "probe h j < NUM_OBJS"
  by (simp_all add: probe_def NUM_OBJS_pos)

lemma probe_inj: "j < nat NUM_OBJS \<Longrightarrow> j' < nat NUM_OBJS \<Longrightarrow> probe h j = probe h j' \<longleftrightarrow> j = j'"
  unfolding probe_def using mod_pos_pos_trivial [of "int j" NUM_OBJS] mod_pos_pos_trivial [of "int j'" NUM_OBJS]
  by (metis add_diff_cancel_left' mod_diff_left_eq nat_less_iff of_nat_0_le_iff of_nat_eq_iff zless_nat_eq_int_zless)

lemma probe_full: "0 \<le> h \<Longrightarrow> h < NUM_OBJS \<Longrightarrow> probe h (nat NUM_OBJS) = h"
  using NUM_OBJS_pos by (simp add: probe_def)

lemma probe_surj:
  assumes "0 \<le> i" "i < NUM_OBJS"
  shows "\<exists>j < nat NUM_OBJS. probe h j = i"
proof (intro exI conjI)
  show "nat ((i - h) mod NUM_OBJS) < nat NUM_OBJS" using NUM_OBJS_pos by simp
  show "probe h (nat ((i - h) mod NUM_OBJS)) = i"
    using assms NUM_OBJS_pos by (simp add: probe_def mod_add_right_eq)
qed

lemma slots_Cons: "j < nat NUM_OBJS \<Longrightarrow> slots h j = probe h j # slots h (Suc j)"
  by (simp add: slots_def upt_conv_Cons)

lemma slots_Nil [simp]: "slots h (nat NUM_OBJS) = []"
  by (simp add: slots_def)

lemma key_matches_has:
  assumes "tab_ok s" "0 \<notin> set key"
  shows "key_matches (obj s i) key = Some (has s i key)"
proof (cases "o_id (obj s i) = 0")
  case True
  then show ?thesis by (simp add: key_matches_def has_def)
next
  case False
  then obtain k where "name_ok k" "o_key (obj s i) = strncpy32 k" using assms(1) unfolding tab_ok_def by blast
  then show ?thesis
    using False strcmp_name [of k key] strncpy_inj [of k key] assms(2) by (simp add: key_matches_def has_def)
qed

lemma find_loop_slots:
  assumes "tab_ok s" "0 \<notin> set key" "0 \<le> h" "h < NUM_OBJS" "0 < j" "j \<le> nat NUM_OBJS"
  shows "find_loop h (probe h j) key s =
    Some (case List.find (\<lambda>i. has s i key) (slots h j) of None \<Rightarrow> -1 | Some i \<Rightarrow> o_id (obj s i))"
  using assms(5,6)
proof (induction "nat NUM_OBJS - j" arbitrary: j)
  case 0
  then have "j = nat NUM_OBJS" by simp
  then show ?case using assms(3,4) by (subst find_loop.simps) (simp add: probe_full)
next
  case (Suc n)
  then have j: "j < nat NUM_OBJS" by simp
  have "probe h j \<noteq> h"
    using probe_inj [OF j, of 0 h] Suc.prems(1) j probe_def [of h 0] assms(3,4) by auto
  then show ?case
    using Suc.hyps(1) [of "Suc j"] Suc.hyps(2) j
    by (subst find_loop.simps) (simp add: key_matches_has [OF assms(1,2)] slots_Cons probe_Suc)
qed

lemma find_slots:
  assumes "tab_ok s" "0 \<notin> set key"
  shows "find_object_id key s =
    Some (case List.find (\<lambda>i. has s i key) (slots (hash key) 0) of None \<Rightarrow> -1 | Some i \<Rightarrow> o_id (obj s i))"
proof -
  have "0 < nat NUM_OBJS" by (simp add: NUM_OBJS_pos)
  moreover have "(hash key + 1) mod NUM_OBJS = probe (hash key) (Suc 0)" by (simp add: probe_def)
  ultimately show ?thesis
    using find_loop_slots [OF assms hash_range, of "Suc 0" key]
    by (simp add: find_object_id_def Let_def key_matches_has [OF assms] slots_Cons)
qed

text \<open>The search of a new slot.  It does not end when the table is full and does not have the key.\<close>

lemma create_loop_slots:
  assumes "tab_ok s" "0 \<notin> set key" "List.find (\<lambda>i. o_id (obj s i) = 0 \<or> has s i key) (slots h j) = Some i" "j \<le> nat NUM_OBJS"
  shows "create_loop (probe h j) key s = Some (o_id (obj s i) = 0, i)"
  using assms(3,4)
proof (induction "nat NUM_OBJS - j" arbitrary: j)
  case (Suc n)
  then have j: "j < nat NUM_OBJS" by simp
  have m: "strcmp_eq (o_key (obj s (probe h j))) key = Some (has s (probe h j) key)" if "o_id (obj s (probe h j)) \<noteq> 0"
    using key_matches_has [OF assms(1,2), of "probe h j"] that by (simp add: key_matches_def)
  show ?case
    using Suc.hyps(1) [of "Suc j"] Suc.hyps(2) Suc.prems(1) j m
    by (subst create_loop.simps) (auto simp: slots_Cons probe_Suc has_def split: if_splits)
qed simp

lemma create_loop_full:
  assumes "tab_ok s" "0 \<notin> set key" "\<forall>i. 0 \<le> i \<and> i < NUM_OBJS \<longrightarrow> o_id (obj s i) \<noteq> 0 \<and> \<not> has s i key" "0 \<le> i" "i < NUM_OBJS"
  shows "create_loop i key s = None"
proof -
  have "\<not> (s' = s \<and> key' = key \<and> 0 \<le> i' \<and> i' < NUM_OBJS)" if "create_loop i' key' s' = Some y" for i' key' s' y
  proof (rule create_loop.raw_induct [OF _ that, where P = "\<lambda>i' key' s' y. \<not> (s' = s \<and> key' = key \<and> 0 \<le> i' \<and> i' < NUM_OBJS)"])
    fix f j k t y
    assume 1: "\<And>i' key' s' y. f i' key' s' = Some y \<Longrightarrow> \<not> (s' = s \<and> key' = key \<and> 0 \<le> i' \<and> i' < NUM_OBJS)"
      "(if o_id (obj t j) = 0 then Some (True, j)
        else strcmp_eq (o_key (obj t j)) k \<bind> (\<lambda>m. if m then Some (False, j) else f ((j + 1) mod NUM_OBJS) k t)) = Some y"
    { assume a: "t = s" "k = key" "0 \<le> j" "j < NUM_OBJS"
      have n: "o_id (obj s j) \<noteq> 0" "strcmp_eq (o_key (obj s j)) key = Some False"
        using key_matches_has [OF assms(1,2), of j] assms(3) a(3,4) by (auto simp: key_matches_def)
      then have "f ((j + 1) mod NUM_OBJS) key s = Some y" using 1(2) a(1,2) by simp
      then have False using 1(1) [of "(j + 1) mod NUM_OBJS" key s y] NUM_OBJS_pos by simp }
    then show "\<not> (t = s \<and> k = key \<and> 0 \<le> j \<and> j < NUM_OBJS)" by blast
  qed
  then show ?thesis using assms(4,5) by (cases "create_loop i key s") blast+
qed

section \<open>The table as a map\<close>

definition unique_keys :: "store \<Rightarrow> bool"
  where "unique_keys s \<longleftrightarrow> 
    (\<forall>i i'. o_id (obj s i) \<noteq> 0 \<and> o_id (obj s i') \<noteq> 0 \<and> o_key (obj s i) = o_key (obj s i') \<longrightarrow> i = i')"

text \<open>No free slot comes before an object in the search for its key.\<close>

definition dense :: "store \<Rightarrow> bool"
  where "dense s \<longleftrightarrow> (\<forall>key j j'. name_ok key \<and> j < nat NUM_OBJS \<and> has s (probe (hash key) j) key \<and> j' < j \<longrightarrow>
    o_id (obj s (probe (hash key) j')) \<noteq> 0)"

lemma has_range: "tab_ok s \<Longrightarrow> has s i key \<Longrightarrow> 0 \<le> i \<and> i < NUM_OBJS \<and> o_id (obj s i) = i + 2"
  by (auto simp: tab_ok_def has_def)

lemma set_slots: "set (slots h 0) = {i. 0 \<le> i \<and> i < NUM_OBJS}"
  using probe_surj [of _ h] probe_range [of h] by (auto simp: slots_def image_iff Bex_def) metis

lemma find_has:
  assumes "tab_ok s" "unique_keys s" "0 \<notin> set key" "has s i key"
  shows "find_object_id key s = Some (i + 2)"
proof -
  have r: "0 \<le> i" "i < NUM_OBJS" "o_id (obj s i) = i + 2" using has_range [OF assms(1,4)] by auto
  then have "List.find (\<lambda>i. has s i key) (slots (hash key) 0) \<noteq> None"
    using assms(4) set_slots [of "hash key"] by (auto simp: find_None_iff)
  then obtain x where x: "List.find (\<lambda>i. has s i key) (slots (hash key) 0) = Some x" by blast
  then have "has s x key" by (auto simp: find_Some_iff)
  then have "x = i" using assms(2,4) unfolding unique_keys_def has_def by metis
  then show ?thesis using x r(3) find_slots [OF assms(1,3)] by simp
qed

lemma find_hasnt:
  assumes "tab_ok s" "0 \<notin> set key" "\<And>i. \<not> has s i key"
  shows "find_object_id key s = Some (-1)"
proof -
  have "List.find (\<lambda>i. has s i key) (slots (hash key) 0) = None" using assms(3) by (simp add: find_None_iff)
  then show ?thesis using find_slots [OF assms(1,2)] by simp
qed

lemma find_cases:
  assumes "tab_ok s" "unique_keys s" "0 \<notin> set key"
  obtains (found) i where "has s i key" "find_object_id key s = Some (i + 2)" "0 \<le> i" "i < NUM_OBJS"
    | (absent) "\<And>i. \<not> has s i key" "find_object_id key s = Some (-1)"
  using find_has [OF assms] find_hasnt [OF assms(1,3)] has_range [OF assms(1)] by metis

text \<open>The object that \<open>create_object\<close> puts in a slot.\<close>

definition new_object :: "int \<Rightarrow> u8 list \<Rightarrow> object"
  where "new_object i key = \<lparr>o_id = i + 2, o_size = 0, o_key = strncpy32 key, data_block_pointers = replicate 4 (-1)\<rparr>"

lemma create_object_eq:
  assumes "\<not> create_object_lock s" "tab_ok s" "0 \<notin> set key"
    "List.find (\<lambda>i. o_id (obj s i) = 0 \<or> has s i key) (slots (hash key) 0) = Some i"
  shows "create_object key s =
    Some (if o_id (obj s i) = 0 then (i + 2, s\<lparr>obj := (obj s)(i := new_object i key)\<rparr>) else (-1, s))"
proof -
  let ?s = "s\<lparr>create_object_lock := True\<rparr>"
  have h: "has ?s x k = has s x k" for x k by (simp add: has_def)
  have "tab_ok ?s" using assms(2) by (simp add: tab_ok_def)
  then have "create_loop (hash key) key ?s = Some (o_id (obj s i) = 0, i)"
    using create_loop_slots [of ?s key "hash key" 0 i] assms(3,4) by (simp add: h)
  then show ?thesis
    using assms(1)
    by (simp add: create_object_def lock_create_def unlock_create_def upd_obj_def indexToID_def new_object_def Let_def)
qed

lemma create_present:
  assumes "\<not> create_object_lock s" "tab_ok s" "dense s" "name_ok key" "has s i key"
  shows "create_object key s = Some (-1, s)"
proof -
  let ?P = "\<lambda>i. o_id (obj s i) = 0 \<or> has s i key"
  have z: "0 \<notin> set key" using assms(4) by (simp add: name_ok_def)
  obtain j where j: "j < nat NUM_OBJS" "probe (hash key) j = i"
    using probe_surj has_range [OF assms(2,5)] by metis
  obtain x where x: "List.find ?P (slots (hash key) 0) = Some x"
    using assms(5) set_slots [of "hash key"] has_range [OF assms(2,5)]
    by (cases "List.find ?P (slots (hash key) 0)") (auto simp: find_None_iff)
  then obtain m where m: "m < nat NUM_OBJS" "x = probe (hash key) m" "?P x" "\<And>m'. m' < m \<Longrightarrow> \<not> ?P (probe (hash key) m')"
    by (auto simp: find_Some_iff slots_def)
  have "m \<le> j" using m(4) [of j] j(2) assms(5) by (auto simp: not_le [symmetric])
  then have "o_id (obj s x) \<noteq> 0"
    using assms(3,4,5) j m(2) by (cases "m = j") (auto simp: dense_def has_def dest: le_neq_implies_less)
  then show ?thesis using create_object_eq [OF assms(1,2) z x] by simp
qed

lemma has_create:
  assumes "o_id (obj s i) = 0" "name_ok key" "0 \<notin> set k" "0 \<le> i"
  shows "has (s\<lparr>obj := (obj s)(i := new_object i key)\<rparr>) x k \<longleftrightarrow> (if x = i then k = key else has s x k)"
proof (cases "x = i")
  case True
  have "k = key \<longleftrightarrow> strncpy32 key = strncpy32 k" using strncpy_inj [OF assms(2,3)] by blast
  then show ?thesis using True assms(4) by (simp add: has_def new_object_def)
qed (simp add: has_def)


definition table_ok :: "store \<Rightarrow> bool"
  where "table_ok s \<longleftrightarrow> tab_ok s \<and> unique_keys s"

lemma table_ok_create:
  assumes "table_ok s" "name_ok key" "o_id (obj s i) = 0" "0 \<le> i" "i < NUM_OBJS" "\<And>x. \<not> has s x key"
  shows "table_ok (s\<lparr>obj := (obj s)(i := new_object i key)\<rparr>)"
proof -
  let ?s = "s\<lparr>obj := (obj s)(i := new_object i key)\<rparr>"
  have n: "o_key (obj s x) \<noteq> strncpy32 key" if "o_id (obj s x) \<noteq> 0" for x using assms(6) [of x] that by (simp add: has_def)
  have t: "tab_ok s" "unique_keys s" using assms(1) by (auto simp: table_ok_def)
  have "tab_ok ?s" using t(1) assms(2,4,5) unfolding tab_ok_def by (simp add: new_object_def) blast
  moreover have "unique_keys ?s"
    unfolding unique_keys_def
  proof (intro allI impI, elim conjE)
    fix x y assume "o_id (obj ?s x) \<noteq> 0" "o_id (obj ?s y) \<noteq> 0" "o_key (obj ?s x) = o_key (obj ?s y)"
    then show "x = y"
      using n [of x] n [of y] t(2) [unfolded unique_keys_def, rule_format, of x y]
      by (cases "x = i"; cases "y = i") (auto simp: new_object_def)
  qed
  ultimately show ?thesis by (simp add: table_ok_def)
qed

lemma dense_create:
  assumes "dense s" "name_ok key" "o_id (obj s (probe (hash key) m)) = 0" "m < nat NUM_OBJS"
    "\<And>m'. m' < m \<Longrightarrow> o_id (obj s (probe (hash key) m')) \<noteq> 0"
  shows "dense (s\<lparr>obj := (obj s)(probe (hash key) m := new_object (probe (hash key) m) key)\<rparr>)"
  unfolding dense_def
proof (intro allI impI, elim conjE)
  fix k j j'
  let ?i = "probe (hash key) m" let ?s = "s\<lparr>obj := (obj s)(?i := new_object ?i key)\<rparr>"
  assume a: "name_ok k" "j < nat NUM_OBJS" "has ?s (probe (hash k) j) k" "j' < j"
  have keep: "o_id (obj ?s x) \<noteq> 0" if "o_id (obj s x) \<noteq> 0" for x
    using that probe_range(1) [of "hash key" m] by (simp add: new_object_def)
  have "if probe (hash k) j = ?i then k = key else has s (probe (hash k) j) k"
    using a(3) has_create [OF assms(3,2)] a(1) probe_range(1) [of "hash key" m] by (simp add: name_ok_def)
  then show "o_id (obj ?s (probe (hash k) j')) \<noteq> 0"
    using a assms(1,4,5) probe_inj [OF a(2) assms(4), of "hash key"] unfolding dense_def by (intro keep) (metis (full_types))
qed

lemma create_absent:
  assumes "\<not> create_object_lock s" "table_ok s" "name_ok key" "\<And>i. \<not> has s i key" "0 \<le> f" "f < NUM_OBJS" "o_id (obj s f) = 0"
  shows "\<exists>i. create_object key s = Some (i + 2, s\<lparr>obj := (obj s)(i := new_object i key)\<rparr>) \<and> 0 \<le> i \<and> i < NUM_OBJS \<and>
    o_id (obj s i) = 0 \<and> (dense s \<longrightarrow> dense (s\<lparr>obj := (obj s)(i := new_object i key)\<rparr>))"
proof -
  let ?P = "\<lambda>i. o_id (obj s i) = 0 \<or> has s i key"
  have z: "0 \<notin> set key" and t: "tab_ok s" using assms(2,3) by (auto simp: name_ok_def table_ok_def)
  obtain x where x: "List.find ?P (slots (hash key) 0) = Some x"
    using assms(5-7) set_slots [of "hash key"] by (cases "List.find ?P (slots (hash key) 0)") (auto simp: find_None_iff)
  then obtain m where m: "m < nat NUM_OBJS" "x = probe (hash key) m" "?P x" "\<And>m'. m' < m \<Longrightarrow> \<not> ?P (probe (hash key) m')"
    by (auto simp: find_Some_iff slots_def)
  have "o_id (obj s x) = 0" using m(3) assms(4) by blast
  then show ?thesis
    using create_object_eq [OF assms(1) t z x] probe_range [of "hash key" m] m dense_create [OF _ assms(3) _ m(1)]
    by (intro exI [of _ x]) auto
qed

lemma create_never_returns:
  assumes "tab_ok s" "name_ok key" "\<And>i. \<not> has s i key" "\<And>i. 0 \<le> i \<Longrightarrow> i < NUM_OBJS \<Longrightarrow> o_id (obj s i) \<noteq> 0"
  shows "create_object key s = None"
proof -
  let ?s = "s\<lparr>create_object_lock := True\<rparr>"
  have "create_loop (hash key) key ?s = None"
    by (rule create_loop_full) (use assms hash_range [of key] in \<open>auto simp: tab_ok_def has_def name_ok_def\<close>)
  then show ?thesis by (simp add: create_object_def lock_create_def)
qed

lemma find_create:
  assumes "table_ok s" "name_ok key" "o_id (obj s i) = 0" "0 \<le> i" "i < NUM_OBJS" "\<And>x. \<not> has s x key" "0 \<notin> set k"
  shows "find_object_id k (s\<lparr>obj := (obj s)(i := new_object i key)\<rparr>) =
    (if k = key then Some (i + 2) else find_object_id k s)"
proof -
  let ?s = "s\<lparr>obj := (obj s)(i := new_object i key)\<rparr>"
  have t': "tab_ok ?s" "unique_keys ?s" and t: "tab_ok s" "unique_keys s"
    using table_ok_create [OF assms(1-6)] assms(1) by (auto simp: table_ok_def)
  note h = has_create [OF assms(3,2,7,4)]
  show ?thesis
  proof (cases "k = key")
    case True
    then show ?thesis using find_has [OF t' assms(7), of i] h by simp
  next
    case False
    show ?thesis
    proof (cases rule: find_cases [OF t assms(7), case_names found absent])
      case (found x)
      then have "x \<noteq> i" using assms(3) by (auto simp: has_def)
      then show ?thesis using found False find_has [OF t' assms(7), of x] h by simp
    next
      case absent
      then show ?thesis using False find_hasnt [OF t'(1) assms(7)] h by simp
    qed
  qed
qed

subsection \<open>Removing and renaming\<close>

lemma find_cong:
  assumes "tab_ok s" "0 \<notin> set k" "\<And>x. o_id (obj s' x) = o_id (obj s x)" "\<And>x. o_key (obj s' x) = o_key (obj s x)"
  shows "find_object_id k s' = find_object_id k s"
proof -
  have "tab_ok s'" using assms(1) by (simp add: tab_ok_def assms(3,4))
  moreover have "has s' = has s" by (simp add: fun_eq_iff has_def assms(3,4))
  ultimately show ?thesis using find_slots [OF _ assms(2)] assms(1) by (simp add: assms(3) split: option.split)
qed

lemma table_ok_cong:
  assumes "\<And>x. o_id (obj s' x) = o_id (obj s x)" "\<And>x. o_key (obj s' x) = o_key (obj s x)"
  shows "table_ok s' = table_ok s"
  unfolding table_ok_def tab_ok_def unique_keys_def assms ..

lemma has_remove: "o_id y = 0 \<Longrightarrow> obj s' = (obj s)(i := y) \<Longrightarrow> has s' x k \<longleftrightarrow> x \<noteq> i \<and> has s x k"
  by (simp add: has_def)

lemma table_ok_remove:
  assumes "table_ok s" "o_id y = 0" "obj s' = (obj s)(i := y)"
  shows "table_ok s'"
proof -
  have o: "obj s' x = obj s x" if "o_id (obj s' x) \<noteq> 0" for x
    using that assms(2,3) by (simp split: if_splits)
  have t: "tab_ok s" "unique_keys s" using assms(1) by (auto simp: table_ok_def)
  have "tab_ok s'" using t(1) o unfolding tab_ok_def by metis
  moreover have "unique_keys s'" using t(2) o unfolding unique_keys_def by metis
  ultimately show ?thesis by (simp add: table_ok_def)
qed

lemma find_remove:
  assumes "table_ok s" "has s i key" "name_ok key" "o_id y = 0" "obj s' = (obj s)(i := y)" "0 \<notin> set k"
  shows "find_object_id k s' = (if k = key then Some (-1) else find_object_id k s)"
proof -
  have t: "tab_ok s" "unique_keys s" "tab_ok s'" "unique_keys s'"
    using assms(1) table_ok_remove [OF assms(1,4,5)] by (auto simp: table_ok_def)
  note h = has_remove [OF assms(4,5)]
  show ?thesis
  proof (cases rule: find_cases [OF t(1,2) assms(6), case_names found absent])
    case (found x)
    have "x = i \<longleftrightarrow> k = key"
    proof
      assume "x = i"
      then show "k = key" using found(1) assms(2) strncpy_inj [OF assms(3,6)] unfolding has_def by metis
    next
      assume "k = key"
      then show "x = i" using found(1) assms(2) t(2) unfolding unique_keys_def has_def by metis
    qed
    moreover have "find_object_id k s' = Some (-1)" if "x = i"
    proof (rule find_hasnt [OF t(3) assms(6)])
      fix z
      show "\<not> has s' z k" using h that found(1) t(2) unfolding unique_keys_def has_def by metis
    qed
    moreover have "find_object_id k s' = Some (x + 2)" if "x \<noteq> i"
      using find_has [OF t(3,4) assms(6)] h that found(1) by blast
    ultimately show ?thesis using found(2) by (cases "x = i") simp_all
  next
    case absent
    then have "k \<noteq> key" using assms(2) by blast
    then show ?thesis using absent h find_hasnt [OF t(3) assms(6)] by simp
  qed
qed

lemma find_foundD:
  assumes "table_ok s" "0 \<notin> set key" "find_object_id key s = Some (i + 2)" "0 \<le> i"
  shows "has s i key"
  using assms(1,3,4) by (cases rule: find_cases [of s key, OF _ _ assms(2)]) (auto simp: table_ok_def)

lemma rename_law:
  assumes "\<not> create_object_lock s" "table_ok s" "name_ok key" "name_ok newname"
    "find_object_id key s = Some (i + 2)" "0 \<le> i" "find_object_id newname s = Some (-1)"
    "0 \<le> f" "f < NUM_OBJS" "o_id (obj s f) = 0"
  shows "\<exists>j s'. rename_object key newname s = Some (j + 2, s') \<and> 0 \<le> j \<and> o_id (obj s j) = 0 \<and>
    s' = s\<lparr>obj := (obj s)(j := (obj s i)\<lparr>o_id := j + 2, o_key := strncpy32 newname\<rparr>, i := (obj s i)\<lparr>o_id := 0\<rparr>)\<rparr> \<and>
    table_ok s' \<and>
    (\<forall>k. 0 \<notin> set k \<longrightarrow> find_object_id k s' =
      (if k = newname then Some (j + 2) else if k = key then Some (-1) else find_object_id k s))"
proof -
  have z: "0 \<notin> set key" "0 \<notin> set newname" using assms(3,4) by (auto simp: name_ok_def)
  have h: "has s i key" using find_foundD [OF assms(2) z(1) assms(5,6)] .
  have no: "\<not> has s x newname" for x
    using find_has [OF _ _ z(2), of s x] has_range [of s x newname] assms(2,7) by (auto simp: table_ok_def)
  obtain j where j: "create_object newname s = Some (j + 2, s\<lparr>obj := (obj s)(j := new_object j newname)\<rparr>)"
      "0 \<le> j" "j < NUM_OBJS" "o_id (obj s j) = 0"
    using create_absent [OF assms(1,2,4) no assms(8-10)] by blast
  have ij: "i \<noteq> j" using h j(4) by (auto simp: has_def)
  let ?s1 = "s\<lparr>obj := (obj s)(j := new_object j newname)\<rparr>"
  let ?s2 = "s\<lparr>obj := (obj s)(j := (obj s i)\<lparr>o_id := j + 2, o_key := strncpy32 newname\<rparr>)\<rparr>"
  let ?s3 = "s\<lparr>obj := (obj s)(j := (obj s i)\<lparr>o_id := j + 2, o_key := strncpy32 newname\<rparr>, i := (obj s i)\<lparr>o_id := 0\<rparr>)\<rparr>"
  have e: "(obj s i)\<lparr>o_id := j + 2, o_key := strncpy32 newname\<rparr> = \<lparr>o_id = j + 2, o_size = o_size (obj s i),
      o_key = strncpy32 newname, data_block_pointers = data_block_pointers (obj s i)\<rparr>" by (cases "obj s i") simp
  have "rename_object key newname s = Some (j + 2, ?s3\<lparr>create_object_lock := False\<rparr>)"
    unfolding e using assms(1,4,5,6) j(1,2) ij
    by (simp add: rename_object_def name_ok_def lock_create_def unlock_create_def upd_obj_def idToIndex_def Let_def new_object_def)
  moreover have "?s3\<lparr>create_object_lock := False\<rparr> = ?s3" using assms(1) by (intro store.equality) simp_all
  ultimately have r: "rename_object key newname s = Some (j + 2, ?s3)" by simp
  have t1: "table_ok ?s1" using table_ok_create [OF assms(2,4) j(4,2,3) no] .
  have t2: "table_ok ?s2" using t1 table_ok_cong [of ?s2 ?s1] by (simp add: new_object_def)
  have f2: "find_object_id k ?s2 = (if k = newname then Some (j + 2) else find_object_id k s)" if "0 \<notin> set k" for k
  proof -
    have "find_object_id k ?s2 = find_object_id k ?s1"
      by (rule find_cong) (use t1 that in \<open>simp_all add: table_ok_def new_object_def\<close>)
    then show ?thesis using find_create [OF assms(2,4) j(4,2,3) no that] by simp
  qed
  have h2: "has ?s2 i key" using h ij by (simp add: has_def)
  have t3: "table_ok ?s3" by (rule table_ok_remove [OF t2, of "(obj s i)\<lparr>o_id := 0\<rparr>" _ i]) simp_all
  have "find_object_id k ?s3 = (if k = newname then Some (j + 2) else if k = key then Some (-1) else find_object_id k s)"
    if "0 \<notin> set k" for k
    using find_remove [OF t2 h2 assms(3), of "(obj s i)\<lparr>o_id := 0\<rparr>" ?s3 k] f2 [OF that] that no h by auto
  then show ?thesis using r t3 j(2,4) by blast
qed

section \<open>Properties of the table\<close>

text \<open>
  C11: In a table without gaps, \<open>create_object\<close> fails for a key that is in the table and otherwise adds an object with
  that key and no data at a free slot: a search for the key finds it, a search for any other key gives what it gave
  before, and the table still has no gaps.  When the key is not in the table and no slot is free, the function does
  not return.
\<close>

theorem create_exact:
  assumes "\<not> create_object_lock s" "table_ok s" "dense s" "name_ok key"
  shows "(find_object_id key s \<noteq> Some (-1) \<longrightarrow> create_object key s = Some (-1, s)) \<and>
    (find_object_id key s = Some (-1) \<and> (\<exists>i. 0 \<le> i \<and> i < NUM_OBJS \<and> o_id (obj s i) = 0) \<longrightarrow>
      (\<exists>i s'. create_object key s = Some (i + 2, s') \<and> 0 \<le> i \<and> i < NUM_OBJS \<and> o_id (obj s i) = 0 \<and>
        s' = s\<lparr>obj := (obj s)(i := new_object i key)\<rparr> \<and> table_ok s' \<and> dense s' \<and>
        (\<forall>k. 0 \<notin> set k \<longrightarrow> find_object_id k s' = (if k = key then Some (i + 2) else find_object_id k s)))) \<and>
    (find_object_id key s = Some (-1) \<and> (\<forall>i. 0 \<le> i \<and> i < NUM_OBJS \<longrightarrow> o_id (obj s i) \<noteq> 0) \<longrightarrow> create_object key s = None)"
proof -
  have z: "0 \<notin> set key" and t: "tab_ok s" "unique_keys s" using assms(2,4) by (auto simp: name_ok_def table_ok_def)
  show ?thesis
  proof (cases rule: find_cases [OF t z, case_names found absent])
    case (found i)
    then show ?thesis using create_present [OF assms(1) t(1) assms(3,4) found(1)] by simp
  next
    case absent
    have "\<exists>i s'. create_object key s = Some (i + 2, s') \<and> 0 \<le> i \<and> i < NUM_OBJS \<and> o_id (obj s i) = 0 \<and>
        s' = s\<lparr>obj := (obj s)(i := new_object i key)\<rparr> \<and> table_ok s' \<and> dense s' \<and>
        (\<forall>k. 0 \<notin> set k \<longrightarrow> find_object_id k s' = (if k = key then Some (i + 2) else find_object_id k s))"
      if f: "0 \<le> f" "f < NUM_OBJS" "o_id (obj s f) = 0" for f
    proof -
      obtain i where i: "create_object key s = Some (i + 2, s\<lparr>obj := (obj s)(i := new_object i key)\<rparr>)" "0 \<le> i" "i < NUM_OBJS"
          "o_id (obj s i) = 0" "dense (s\<lparr>obj := (obj s)(i := new_object i key)\<rparr>)"
        using create_absent [OF assms(1,2,4) absent(1) f] assms(3) by blast
      then show ?thesis
        using table_ok_create [OF assms(2,4) i(4,2,3) absent(1)] find_create [OF assms(2,4) i(4,2,3) absent(1)] by blast
    qed
    then show ?thesis using absent(2) create_never_returns [OF t(1) assms(4) absent(1)] by (intro conjI impI) (simp, blast, blast)
  qed
qed

lemma empty_table: "table_ok empty_store" "dense empty_store" "0 \<le> i \<Longrightarrow> o_id (obj empty_store i) = 0"
  by (simp_all add: table_ok_def tab_ok_def unique_keys_def dense_def has_def empty_store_def)

lemma empty_find: "0 \<notin> set k \<Longrightarrow> find_object_id k empty_store = Some (-1)"
  using empty_table(1) by (intro find_hasnt) (simp_all add: table_ok_def has_def empty_store_def)

theorem create_exact_witness:
  "\<exists>i s'. create_object [97, 66] empty_store = Some (i + 2, s') \<and> find_object_id [97, 66] s' = Some (i + 2) \<and>
    find_object_id [98, 33] s' = Some (-1)"
proof -
  have "\<not> create_object_lock empty_store" "name_ok [97, 66]" by (simp_all add: empty_store_def name_ok_def)
  moreover have "\<exists>i. 0 \<le> i \<and> i < NUM_OBJS \<and> o_id (obj empty_store i) = 0"
    using empty_table(3) [of 0] NUM_OBJS_pos by (intro exI [of _ 0]) simp
  ultimately obtain i s' where "create_object [97, 66] empty_store = Some (i + 2, s')"
      "\<forall>k. 0 \<notin> set k \<longrightarrow> find_object_id k s' = (if k = [97, 66] then Some (i + 2) else find_object_id k empty_store)"
    using create_exact [OF _ empty_table(1,2), of "[97, 66]"] empty_find [of "[97, 66]"] by auto
  then show ?thesis using empty_find [of "[98, 33]"] by auto
qed

text \<open>
  Renaming moves an object to its new key.  When the old key is found, the new one is not, and a slot is free, the
  object is at a free slot afterwards with the same size and the same blocks; the new key finds it, the old key finds
  nothing, and a search for any other key gives what it gave before.
\<close>

theorem rename_exact:
  assumes "\<not> create_object_lock s" "table_ok s" "name_ok key" "name_ok newname"
    "find_object_id key s = Some (i + 2)" "0 \<le> i" "find_object_id newname s = Some (-1)"
    "0 \<le> f" "f < NUM_OBJS" "o_id (obj s f) = 0"
  shows "\<exists>j s'. rename_object key newname s = Some (j + 2, s') \<and> 0 \<le> j \<and> o_id (obj s j) = 0 \<and>
    s' = s\<lparr>obj := (obj s)(j := (obj s i)\<lparr>o_id := j + 2, o_key := strncpy32 newname\<rparr>, i := (obj s i)\<lparr>o_id := 0\<rparr>)\<rparr> \<and>
    table_ok s' \<and>
    (\<forall>k. 0 \<notin> set k \<longrightarrow> find_object_id k s' =
      (if k = newname then Some (j + 2) else if k = key then Some (-1) else find_object_id k s))"
  using rename_law [OF assms] .

definition one_object :: store
  where "one_object = empty_store\<lparr>obj := (obj empty_store)(5 := new_object 5 [97, 66])\<rparr>"

lemma one_object_find:
  "table_ok one_object" "0 \<notin> set k \<Longrightarrow> find_object_id k one_object = (if k = [97, 66] then Some 7 else Some (-1))"
proof -
  have e: "name_ok [97, 66]" "o_id (obj empty_store 5) = 0" "(5 :: int) < NUM_OBJS" "\<And>x. \<not> has empty_store x [97, 66]"
    by (simp_all add: name_ok_def empty_store_def NUM_OBJS_def has_def)
  show "table_ok one_object"
    unfolding one_object_def by (rule table_ok_create [OF empty_table(1) e(1,2) _ e(3,4)]) simp
  show "find_object_id k one_object = (if k = [97, 66] then Some 7 else Some (-1))" if "0 \<notin> set k"
    unfolding one_object_def using find_create [OF empty_table(1) e(1,2) _ e(3,4) that] empty_find [OF that] by simp
qed

theorem rename_exact_witness:
  "\<exists>j s'. rename_object [97, 66] [99] one_object = Some (j + 2, s') \<and> find_object_id [99] s' = Some (j + 2) \<and>
    find_object_id [97, 66] s' = Some (-1)"
proof -
  have p: "\<not> create_object_lock one_object" "name_ok [97, 66]" "name_ok [99]" "o_id (obj one_object 0) = 0"
    by (simp_all add: one_object_def empty_store_def name_ok_def)
  have f: "find_object_id [97, 66] one_object = Some (5 + 2)" "find_object_id [99] one_object = Some (-1)"
    using one_object_find(2) by simp_all
  obtain j s' where "rename_object [97, 66] [99] one_object = Some (j + 2, s')"
      "\<forall>k. 0 \<notin> set k \<longrightarrow> find_object_id k s' =
        (if k = [99] then Some (j + 2) else if k = [97, 66] then Some (-1) else find_object_id k one_object)"
    using rename_exact [OF p(1) one_object_find(1) p(2,3) f(1) _ f(2) _ NUM_OBJS_pos p(4)] by auto
  then show ?thesis by (intro exI [of _ j] exI [of _ s']) simp
qed

text \<open>
  A key of 32 bytes or more is stored without a terminator, and there is no check in \<open>create_object\<close>: in a table
  that did not have it the object is created, and from then on a search for the key reads past the end of the
  array that holds it.
\<close>

theorem long_key_overrun:
  assumes "\<not> create_object_lock s" "\<forall>i. o_id (obj s i) = 0" "0 \<notin> set key" "32 \<le> length key"
  shows "\<exists>s'. create_object key s = Some (hash key + 2, s') \<and> find_object_id key s' = None"
proof -
  have t: "tab_ok s" using assms(2) by (simp add: tab_ok_def)
  have "List.find (\<lambda>i. o_id (obj s i) = 0 \<or> has s i key) (slots (hash key) 0) = Some (hash key)"
    using assms(2) NUM_OBJS_pos by (simp add: slots_Cons)
  note c = create_object_eq [OF assms(1) t assms(3) this]
  have "find_object_id key (s\<lparr>obj := (obj s)(hash key := new_object (hash key) key)\<rparr>) = None"
    using strcmp_long [OF assms(4)] hash_range(1) [of key] by (simp add: find_object_id_def key_matches_def new_object_def)
  then show ?thesis using c assms(2) by simp
qed

theorem long_key_overrun_witness:
  "\<exists>s'. create_object (replicate 32 97) empty_store = Some (hash (replicate 32 97) + 2, s') \<and>
    find_object_id (replicate 32 97) s' = None"
  by (rule long_key_overrun) (simp_all add: empty_store_def)

end
