(* ===== verification/ObjData.thy ===== *)
theory ObjData
  imports ObjTable "HOL-Library.Signed_Division"
begin

text \<open>
  Objects and their data: the operations of \<open>Assignments/assignment4/objstore.c\<close> that read, write, destroy and measure
  objects.  An object has four pointers to indirect blocks, each of which holds 1024 numbers of data blocks.  Buffers are
  lists of bytes, and what an operation writes to the buffer of its caller is part of its result.  \<open>mmap\<close> is taken to
  succeed, and its memory starts with zeros.
\<close>

unbundle bit_operations_syntax

section \<open>Integers in blocks\<close>

definition ENTRIES :: nat
  where "ENTRIES = BLOCK_SIZE div 4"

text \<open>Entry \<open>i\<close> of a block that is used as an array of \<open>int\<close>, in the byte order of the processor.\<close>

definition get_int :: "u8 list \<Rightarrow> nat \<Rightarrow> int"
  where "get_int block i = sint (ucast (block ! (4 * i)) OR push_bit 8 (ucast (block ! (4 * i + 1))) OR
    push_bit 16 (ucast (block ! (4 * i + 2))) OR push_bit 24 (ucast (block ! (4 * i + 3))) :: u32)"

definition put_int :: "u8 list \<Rightarrow> nat \<Rightarrow> int \<Rightarrow> u8 list"
  where "put_int block i v =
    (let w = word_of_int v :: u32 in
     block[4 * i := ucast w, 4 * i + 1 := ucast (drop_bit 8 w), 4 * i + 2 := ucast (drop_bit 16 w), 4 * i + 3 := ucast (drop_bit 24 w)])"

text \<open>The loops that set the entries from \<open>i\<close> on to -1.\<close>

definition clear_from :: "nat \<Rightarrow> u8 list \<Rightarrow> u8 list"
  where "clear_from i block = fold (\<lambda>j block. put_int block j (-1)) [i..<ENTRIES] block"

text \<open>The conversion of a \<open>long\<close> to an \<open>int\<close>.\<close>

definition to_int :: "int \<Rightarrow> int"
  where "to_int x = sint (word_of_int x :: u32)"

text \<open>\<open>patch buf p d\<close> is \<open>buf\<close> with \<open>d\<close> copied to position \<open>p\<close>.\<close>

definition patch :: "u8 list \<Rightarrow> nat \<Rightarrow> u8 list \<Rightarrow> u8 list"
  where "patch buf p d = take p buf @ d @ drop (p + length d) buf"

section \<open>Destroying an object\<close>

primrec free_entries :: "u8 list \<Rightarrow> nat list \<Rightarrow> store \<Rightarrow> store option"
  where
    "free_entries tmp [] s = Some s"
  | "free_entries tmp (i # is) s =
      (let block_num = get_int tmp i in
       if block_num = -1 then Some s
       else do {
         c_assert (0 \<le> block_num \<and> block_num < BITMAP_SIZE);
         let cache_index = uint (block_bitmap s block_num);
         s \<leftarrow> (if cache_index > 1 then do {
                s \<leftarrow> lock_cache s;
                c_assert (cache_index < CACHE_PAGES);
                Some (unlock_cache (s\<lparr>cache_bitmap := (cache_bitmap s)(cache_index := 0),
                                      dirty_flag := (dirty_flag s)(cache_index := False)\<rparr>)) }
              else Some s);
         s \<leftarrow> clear_block_bitmap block_num s;
         free_entries tmp is s })"

definition free_data_block :: "int \<Rightarrow> store \<Rightarrow> store option"
  where "free_data_block data_block_pointer s = do {
    let tmp = snd (read_block data_block_pointer zero_block s);
    s \<leftarrow> free_entries tmp [0..<ENTRIES] s;
    clear_block_bitmap data_block_pointer s }"

primrec free_pointers :: "int list \<Rightarrow> store \<Rightarrow> store option"
  where
    "free_pointers [] s = Some s"
  | "free_pointers (p # ps) s = (if p = -1 then Some s else do { s \<leftarrow> free_data_block p s; free_pointers ps s })"

definition destroy_object :: "u8 list \<Rightarrow> store \<Rightarrow> (int \<times> store) option"
  where "destroy_object key s = do {
    oid \<leftarrow> find_object_id key s;
    if oid = -1 then Some (-1, s)
    else do {
      let index = idToIndex oid;
      if o_id (obj s index) = 0 then Some (-1, s)
      else do {
        s \<leftarrow> free_pointers (data_block_pointers (obj s index)) s;
        Some (0, upd_obj index (\<lambda>x. x\<lparr>o_id := 0\<rparr>) s) } } }"

section \<open>Reading an object\<close>

primrec read_entries :: "bool \<Rightarrow> u8 list \<Rightarrow> nat \<Rightarrow> nat \<Rightarrow> nat \<Rightarrow> nat list \<Rightarrow> u8 list \<Rightarrow> store \<Rightarrow> (u8 list \<times> store) option"
  where
    "read_entries ch block block_offset offset sz [] buf s = Some (buf, s)"
  | "read_entries ch block block_offset offset sz (i # is) buf s =
      (let p = offset + (i - block_offset) * 4 * 1024 in
       if sz \<le> p then Some (buf, s)
       else if get_int block i = -1 then Some (buf, s)
       else do {
         c_assert (p + BLOCK_SIZE \<le> length buf);
         (r, d, s) \<leftarrow> read_cached ch (get_int block i) (take BLOCK_SIZE (drop p buf)) s;
         if r \<noteq> -1 then read_entries ch block block_offset offset sz is (patch buf p d) s
         else let (r, d) = read_block (get_int block i) d s in
           if r < 0 then Some (buf, s)
           else read_entries ch block block_offset offset sz is (patch buf p d) s })"

definition read_indirect_block :: "bool \<Rightarrow> int \<Rightarrow> nat \<Rightarrow> u8 list \<Rightarrow> nat \<Rightarrow> nat \<Rightarrow> store \<Rightarrow> (u8 list \<times> store) option"
  where "read_indirect_block ch block_num block_offset buf offset sz s =
    (if block_num < 0 then Some (buf, s)
     else do {
       (block, s) \<leftarrow> load_block ch block_num zero_block s;
       read_entries ch block block_offset offset sz [block_offset..<ENTRIES] buf s })"

primrec read_pointers :: "bool \<Rightarrow> object \<Rightarrow> nat \<Rightarrow> nat \<Rightarrow> int \<Rightarrow> nat list \<Rightarrow> u8 list \<Rightarrow> store \<Rightarrow> (u8 list \<times> store) option"
  where
    "read_pointers ch ob data_block_pointer_index block_offset sz [] aux_buf s = Some (aux_buf, s)"
  | "read_pointers ch ob data_block_pointer_index block_offset sz (i # is) aux_buf s =
      (let my_offset = (i - data_block_pointer_index) * 4 * 1024 * 1024 in
       if int my_offset \<ge> sz then Some (aux_buf, s)
       else do {
         (aux_buf, s) \<leftarrow> read_indirect_block ch (data_block_pointers ob ! i) block_offset aux_buf my_offset (length aux_buf) s;
         read_pointers ch ob data_block_pointer_index 0 sz is aux_buf s })"

text \<open>The number of blocks of the auxiliary buffer.\<close>

definition aux_blocks :: "int \<Rightarrow> int"
  where "aux_blocks sz =
    (if sz smod int BLOCK_SIZE \<noteq> 0 then sz sdiv int BLOCK_SIZE + 1 else sz sdiv int BLOCK_SIZE)"

text \<open>
  The length of \<open>aux_buf\<close> is \<open>aux_size * BLOCK_SIZE\<close>, the size that the code passes on.  Offsets are below \<open>2 ^ 43\<close>,
  where the number of the block is an \<open>int\<close>.
\<close>

definition objstore_read :: "bool \<Rightarrow> int \<Rightarrow> u8 list \<Rightarrow> int \<Rightarrow> nat \<Rightarrow> store \<Rightarrow> (int \<times> u8 list \<times> store) option"
  where "objstore_read ch objid buf sz offset s =
    (if objid < 2 then Some (-1, buf, s)
     else do {
       c_assert (idToIndex objid < NUM_OBJS \<and> offset < 2 ^ 43);
       let ob = obj s (idToIndex objid);
       if o_id ob = 0 then Some (-1, buf, s)
       else do {
         let sz = (if sz > o_size ob - int offset then to_int (o_size ob - int offset) else sz);
         let block_offset = offset div BLOCK_SIZE;
         let data_block_pointer_index = block_offset div 1024;
         let block_offset = block_offset mod 1024;
         let aux_buf = replicate (nat (aux_blocks sz * int BLOCK_SIZE)) 0;
         (aux_buf, s) \<leftarrow> read_pointers ch ob data_block_pointer_index block_offset sz [data_block_pointer_index..<4] aux_buf s;
         let n = nat sz;
         c_assert (n = 0 \<or> offset mod BLOCK_SIZE + n \<le> length aux_buf \<and> n \<le> length buf);
         Some (sz, patch buf 0 (take n (drop (offset mod BLOCK_SIZE) aux_buf)), s) } })"

section \<open>Writing an object\<close>

definition initialize_block :: "int \<Rightarrow> store \<Rightarrow> store"
  where "initialize_block block_num s = snd (write_block block_num (clear_from 0 zero_block) s)"

text \<open>The loop over the data blocks returns the entry at which it stopped.\<close>

primrec write_entries :: "bool \<Rightarrow> nat \<Rightarrow> u8 list \<Rightarrow> nat \<Rightarrow> nat \<Rightarrow> nat list \<Rightarrow> u8 list \<Rightarrow> store \<Rightarrow> (nat \<times> u8 list \<times> store) option"
  where
    "write_entries ch block_offset buf offset sz [] block s = Some (ENTRIES, block, s)"
  | "write_entries ch block_offset buf offset sz (i # is) block s =
      (let p = offset + (i - block_offset) * 4 * 1024 in
       if sz \<le> p then Some (i, block, s)
       else do {
         (block, s) \<leftarrow> (if get_int block i = -1
                       then do { (b, s) \<leftarrow> reserve_block s; Some (put_int block i b, s) }
                       else Some (block, s));
         c_assert (p + BLOCK_SIZE \<le> length buf);
         let tmp = take BLOCK_SIZE (drop p buf);
         (r, s) \<leftarrow> write_cached ch (get_int block i) tmp s;
         if r \<noteq> -1 then write_entries ch block_offset buf offset sz is block s
         else let (r, s) = write_block (get_int block i) tmp s in
           if r < 0 then Some (i, block, s)
           else write_entries ch block_offset buf offset sz is block s })"

definition write_indirect_block :: "bool \<Rightarrow> int \<Rightarrow> nat \<Rightarrow> u8 list \<Rightarrow> nat \<Rightarrow> nat \<Rightarrow> store \<Rightarrow> (int \<times> store) option"
  where "write_indirect_block ch block_num block_offset buf offset sz s = do {
    (block_num, s) \<leftarrow> (if block_num < 0
                      then do { (b, s) \<leftarrow> reserve_block s; Some (b, initialize_block b s) }
                      else Some (block_num, s));
    (block, s) \<leftarrow> load_block ch block_num zero_block s;
    (i, block, s) \<leftarrow> write_entries ch block_offset buf offset sz [block_offset..<ENTRIES] block s;
    let block = clear_from i block;
    s \<leftarrow> store_block ch block_num block s;
    (block, s) \<leftarrow> load_block ch block_num block s;
    Some (block_num, s) }"

text \<open>The block is used as an array of \<open>char\<close> here.\<close>

definition read_indirect_helper :: "bool \<Rightarrow> int \<Rightarrow> nat \<Rightarrow> u8 list \<Rightarrow> store \<Rightarrow> (u8 list \<times> store) option"
  where "read_indirect_helper ch block_num block_offset buf s = do {
    (block, s) \<leftarrow> load_block ch block_num zero_block s;
    let new_block_num = sint (block ! block_offset);
    if new_block_num < 0 then Some (buf, s)
    else do { c_assert (length buf = BLOCK_SIZE); load_block ch new_block_num buf s } }"

primrec write_pointers :: "bool \<Rightarrow> int \<Rightarrow> nat \<Rightarrow> nat \<Rightarrow> int \<Rightarrow> u8 list \<Rightarrow> nat list \<Rightarrow> nat \<Rightarrow> store \<Rightarrow> (nat \<times> store) option"
  where
    "write_pointers ch index data_block_pointer_index block_offset sz aux_buf [] stop s = Some (stop, s)"
  | "write_pointers ch index data_block_pointer_index block_offset sz aux_buf (i # is) stop s =
      (let my_offset = (i - data_block_pointer_index) * 4 * 1024 * 1024 in
       if int my_offset \<ge> sz then Some (i, s)
       else do {
         (p, s) \<leftarrow> write_indirect_block ch (data_block_pointers (obj s index) ! i) block_offset aux_buf my_offset (length aux_buf) s;
         let s = upd_obj index (\<lambda>x. x\<lparr>data_block_pointers := (data_block_pointers x)[i := p]\<rparr>) s;
         write_pointers ch index data_block_pointer_index 0 sz aux_buf is stop s })"

definition objstore_write :: "bool \<Rightarrow> int \<Rightarrow> u8 list \<Rightarrow> int \<Rightarrow> nat \<Rightarrow> store \<Rightarrow> (int \<times> store) option"
  where "objstore_write ch objid buf sz offset s =
    (if objid < 2 then Some (-1, s)
     else do {
       let index = idToIndex objid;
       c_assert (index < NUM_OBJS \<and> offset < 2 ^ 43);
       if o_id (obj s index) = 0 then Some (-1, s)
       else do {
         let sz = (if sz > 16*1024*1024 - int offset then to_int (16*1024*1024 - int offset) else sz);
         let block_offset = offset div BLOCK_SIZE;
         let data_block_pointer_index = block_offset div 1024;
         let block_offset = block_offset mod 1024;
         let aux_buf = replicate (nat (aux_blocks sz * int BLOCK_SIZE)) 0;
         (aux_buf, s) \<leftarrow> (if offset mod BLOCK_SIZE > 0 then do {
             c_assert (data_block_pointer_index < 4);
             (d, s) \<leftarrow> read_indirect_helper ch (data_block_pointers (obj s index) ! data_block_pointer_index) block_offset
                        (take BLOCK_SIZE aux_buf) s;
             Some (patch aux_buf 0 d, s) }
           else Some (aux_buf, s));
         let n = nat sz;
         c_assert (n = 0 \<or> offset mod BLOCK_SIZE + n \<le> length aux_buf \<and> n \<le> length buf);
         let aux_buf = patch aux_buf (offset mod BLOCK_SIZE) (take n buf);
         (i, s) \<leftarrow> write_pointers ch index data_block_pointer_index block_offset sz aux_buf
                    [data_block_pointer_index..<4] (max 4 data_block_pointer_index) s;
         let s = upd_obj index (\<lambda>x. x\<lparr>data_block_pointers := take i (data_block_pointers x) @ replicate (4 - i) (-1),
                                     o_size := to_int (int offset + sz)\<rparr>) s;
         Some (sz, s) } })"

section \<open>The size of an object\<close>

primrec count_entries :: "u8 list \<Rightarrow> nat list \<Rightarrow> int \<Rightarrow> int"
  where
    "count_entries block [] res = res"
  | "count_entries block (i # is) res = (if get_int block i < 0 then res else count_entries block is (res + 1))"

definition cal_number_blocks :: "bool \<Rightarrow> int \<Rightarrow> store \<Rightarrow> (int \<times> store) option"
  where "cal_number_blocks ch block_num s =
    (if block_num < 0 then Some (0, s)
     else do {
       (block, s) \<leftarrow> load_block ch block_num zero_block s;
       Some (count_entries block [0..<ENTRIES] 0, s) })"

primrec sum_blocks :: "bool \<Rightarrow> int list \<Rightarrow> int \<Rightarrow> store \<Rightarrow> (int \<times> store) option"
  where
    "sum_blocks ch [] num_blocks s = Some (num_blocks, s)"
  | "sum_blocks ch (p # ps) num_blocks s =
      (if p < 0 then Some (num_blocks, s)
       else do { (n, s) \<leftarrow> cal_number_blocks ch p s; sum_blocks ch ps (num_blocks + n) s })"

text \<open>The result has \<open>st_size\<close> and \<open>st_blocks\<close>, when the call succeeds.\<close>

definition fillup_size_details :: "bool \<Rightarrow> int \<Rightarrow> store \<Rightarrow> (int \<times> (int \<times> int) option \<times> store) option"
  where "fillup_size_details ch oid s =
    (if oid < 2 then Some (-1, None, s)
     else do {
       let index = idToIndex oid;
       c_assert (index < NUM_OBJS);
       if o_id (obj s index) = 0 then Some (-1, None, s)
       else do {
         (num_blocks, s) \<leftarrow> sum_blocks ch (data_block_pointers (obj s index)) 0 s;
         Some (0, Some (o_size (obj s index), num_blocks), s) } })"

section \<open>Reading and writing entries\<close>

lemma bytes_word:
  fixes w :: u32
  shows "ucast (ucast w :: u8) OR push_bit 8 (ucast (ucast (drop_bit 8 w) :: u8)) OR
    push_bit 16 (ucast (ucast (drop_bit 16 w) :: u8)) OR push_bit 24 (ucast (ucast (drop_bit 24 w) :: u8)) = w"
proof (rule bit_word_eqI)
  fix n assume "n < LENGTH(32)"
  then consider "n < 8" | "8 \<le> n" "n < 16" | "16 \<le> n" "n < 24" | "24 \<le> n" "n < 32" by fastforce
  then show "bit (ucast (ucast w :: u8) OR push_bit 8 (ucast (ucast (drop_bit 8 w) :: u8)) OR
    push_bit 16 (ucast (ucast (drop_bit 16 w) :: u8)) OR push_bit 24 (ucast (ucast (drop_bit 24 w) :: u8)) :: u32) n = bit w n"
    by cases (auto simp: bit_simps)
qed

lemma length_put_int [simp]: "length (put_int block i v) = length block"
  by (simp add: put_int_def Let_def)

lemma get_put_same:
  assumes "4 * i + 3 < length block" "- (2 ^ 31) \<le> v" "v < 2 ^ 31"
  shows "get_int (put_int block i v) i = v"
proof -
  have "sint (word_of_int v :: u32) = v"
    using assms(2,3) by (subst sint_sbintrunc') (simp add: signed_take_bit_int_eq_self)
  then show ?thesis
    using assms(1) bytes_word [of "word_of_int v"] by (simp add: get_int_def put_int_def Let_def nth_list_update)
qed

lemma nth_put_int: "m div 4 \<noteq> i \<Longrightarrow> put_int block i v ! m = block ! m"
proof -
  assume "m div 4 \<noteq> i"
  then have "4 * i \<noteq> m" "4 * i + 1 \<noteq> m" "4 * i + 2 \<noteq> m" "4 * i + 3 \<noteq> m" by auto
  then show ?thesis unfolding put_int_def Let_def by (simp add: nth_list_update_neq)
qed

lemma get_put_other: "i \<noteq> j \<Longrightarrow> get_int (put_int block i v) j = get_int block j"
  unfolding get_int_def by (simp add: nth_put_int)

lemma clear_from_aux:
  assumes "length block = BLOCK_SIZE" "m \<le> ENTRIES" "i \<le> m"
  shows "length (fold (\<lambda>j block. put_int block j (-1)) [i..<m] block) = BLOCK_SIZE \<and>
    get_int (fold (\<lambda>j block. put_int block j (-1)) [i..<m] block) e = (if i \<le> e \<and> e < m then -1 else get_int block e)"
  using assms(3,2)
proof (induction m rule: dec_induct)
  case base
  then show ?case using assms(1) by simp
next
  case (step m)
  then have "4 * m + 3 < BLOCK_SIZE" by (simp add: ENTRIES_def BLOCK_SIZE_def)
  then show ?case using step by (cases "e = m") (auto simp: get_put_same get_put_other)
qed

lemma clear_from:
  assumes "length block = BLOCK_SIZE" "i \<le> ENTRIES"
  shows "length (clear_from i block) = BLOCK_SIZE"
    "get_int (clear_from i block) e = (if i \<le> e \<and> e < ENTRIES then -1 else get_int block e)"
  using clear_from_aux [OF assms(1) order_refl assms(2), of e] by (simp_all add: clear_from_def)

lemma BLOCK_SIZE_pos [simp]: "0 < BLOCK_SIZE" by (simp add: BLOCK_SIZE_def)

lemma length_zero_block [simp]: "length zero_block = BLOCK_SIZE" by (simp add: zero_block_def)

lemma length_patch: "p + length d \<le> length buf \<Longrightarrow> length (patch buf p d) = length buf"
  by (simp add: patch_def)

lemma notin_image: "(\<And>e. a \<le> e \<Longrightarrow> e < b \<Longrightarrow> f e \<noteq> x) \<Longrightarrow> x \<notin> f ` {a..<b}" for a b :: nat
  by (metis atLeastLessThan_iff imageE)

section \<open>Blocks of equal length\<close>

lemma length_concat_const: "(\<And>k. length (f k) = n) \<Longrightarrow> length (concat (map f ks)) = length ks * n"
  by (induction ks) auto

lemma length_blocks: "(\<And>k. length (f k) = n) \<Longrightarrow> length (concat (map f [a..<b])) = (b - a) * n"
  by (simp only: length_concat_const length_upt)

lemma split_upt: "a \<le> c \<Longrightarrow> c \<le> b \<Longrightarrow> [a..<b] = [a..<c] @ [c..<b]"
  using upt_add_eq_append [of a c "b - c"] by simp

lemma take_blocks:
  assumes "\<And>k. length (f k) = n" "a + m \<le> b"
  shows "take (m * n) (concat (map f [a..<b])) = concat (map f [a..<a + m])"
  using split_upt [of a "a + m" b] assms(2) length_blocks [of f, OF assms(1), where a = a and b = "a + m"] by simp

lemma drop_blocks:
  assumes "\<And>k. length (f k) = n" "a + m \<le> b"
  shows "drop (m * n) (concat (map f [a..<b])) = concat (map f [a + m..<b])"
  using split_upt [of a "a + m" b] assms(2) length_blocks [of f, OF assms(1), where a = a and b = "a + m"] by simp

lemma slices:
  "m * n \<le> length xs \<Longrightarrow> concat (map (\<lambda>t. take n (drop (t * n) xs)) [0..<m]) = take (m * n) xs"
proof (induction m)
  case (Suc m)
  then show ?case by (simp add: add.commute [of n] take_add)
qed simp

text \<open>Writing the blocks of a buffer one by one.\<close>

lemma patch_blocks:
  assumes "\<And>k. length (f k) = n" "length d = n" "length buf = m * n" "t < m"
  shows "patch (concat (map f [0..<t]) @ drop (t * n) buf) (t * n) d = concat (map f [0..<t]) @ d @ drop (Suc t * n) buf"
  using assms(2-4) length_blocks [of f, OF assms(1), where a = 0 and b = t] by (simp add: patch_def add.commute)

section \<open>The loops over data blocks\<close>

lemma load_step:
  assumes "0 \<le> b"
  shows "(read_cached ch b x s \<bind> (\<lambda>(r, d, s). if r \<noteq> -1 then F d s
      else let (r, d) = read_block b d s in if r < 0 then G d s else F d s)) = (load_block ch b x s \<bind> (\<lambda>(d, s). F d s))"
  using assms by (cases "read_cached ch b x s") (auto simp: load_block_def read_block_def)

lemma store_step:
  assumes "0 \<le> b"
  shows "(write_cached ch b x s \<bind> (\<lambda>(r, s). if r \<noteq> -1 then F s
      else let (r, s) = write_block b x s in if r < 0 then G s else F s)) = (store_block ch b x s \<bind> F)"
  using assms by (cases "write_cached ch b x s") (auto simp: store_block_def write_block_def)

definition valid :: "store \<Rightarrow> int \<Rightarrow> bool"
  where "valid s b \<longleftrightarrow> data_block s b \<and> used s b"

lemma valid_pos: "valid s b \<Longrightarrow> 0 \<le> b \<and> b \<noteq> -1"
  by (auto simp: valid_def data_block_def DATA_BLOCKS_START_eq)

lemma valid_keeps: "keeps_objs s s' \<Longrightarrow> used s' = used s \<Longrightarrow> valid s' = valid s"
  by (auto simp: fun_eq_iff valid_def data_block_def keeps_objs_def)

text \<open>One iteration of each loop.\<close>

lemma read_entries_step:
  assumes "i < ENTRIES" "p = (i - bo) * BLOCK_SIZE" "p + BLOCK_SIZE \<le> length buf" "p < sz" "0 \<le> get_int block i"
    "load_block ch (get_int block i) (take BLOCK_SIZE (drop p buf)) s = Some (d, s')"
  shows "read_entries ch block bo 0 sz [i..<ENTRIES] buf s = read_entries ch block bo 0 sz [Suc i..<ENTRIES] (patch buf p d) s'"
proof -
  have "(i - bo) * 4 * 1024 = p" using assms(2) by (simp add: BLOCK_SIZE_def)
  moreover have "[i..<ENTRIES] = i # [Suc i..<ENTRIES]" using assms(1) by (simp add: upt_conv_Cons)
  ultimately show ?thesis
    using assms(3-6) load_step [of "get_int block i" ch "take BLOCK_SIZE (drop p buf)" s
      "\<lambda>d s. read_entries ch block bo 0 sz [Suc i..<ENTRIES] (patch buf p d) s" "\<lambda>d s. Some (buf, s)"]
    by simp
qed

lemma read_entries_done:
  assumes "i \<le> ENTRIES" "sz \<le> (i - bo) * BLOCK_SIZE \<or> i = ENTRIES"
  shows "read_entries ch block bo 0 sz [i..<ENTRIES] buf s = Some (buf, s)"
proof (cases "i = ENTRIES")
  case False
  then have "[i..<ENTRIES] = i # [Suc i..<ENTRIES]" using assms(1) by (simp add: upt_conv_Cons)
  then show ?thesis using assms(2) False by (simp add: BLOCK_SIZE_def)
qed simp

context block_layer
begin

lemma read_entries_law:
  assumes "bo + m \<le> ENTRIES" "length buf = m * BLOCK_SIZE" "t \<le> m"
    "inv s" "room s (k + (m - t))" "\<And>e. bo \<le> e \<Longrightarrow> e < bo + m \<Longrightarrow> valid s (get_int block e)"
  shows "\<exists>s'. read_entries ch block bo 0 (m * BLOCK_SIZE) [bo + t..<ENTRIES]
      (concat (map (\<lambda>t. lblock s (get_int block (bo + t))) [0..<t]) @ drop (t * BLOCK_SIZE) buf) s =
    Some (concat (map (\<lambda>t. lblock s (get_int block (bo + t))) [0..<m]), s') \<and>
    keeps_objs s s' \<and> used s' = used s \<and> lblock s' = lblock s \<and> inv s' \<and> room s' k"
  using assms(3-6)
proof (induction "m - t" arbitrary: t s)
  case 0
  then have "t = m" by simp
  then show ?case
    using 0 assms(1,2) read_entries_done [of "bo + m" "m * BLOCK_SIZE" bo] by auto
next
  case (Suc d)
  let ?f = "\<lambda>t. lblock s (get_int block (bo + t))" and ?b = "get_int block (bo + t)" and ?p = "t * BLOCK_SIZE"
  let ?buf = "concat (map ?f [0..<t]) @ drop ?p buf"
  have t: "t < m" "m - t = Suc d" "d = m - Suc t" using Suc.hyps(2) by auto
  have len: "length (?f x) = BLOCK_SIZE" for x by (rule lengths [OF Suc.prems(2)])
  have v: "valid s ?b" using Suc.prems(4) t(1) by simp
  have l: "length ?buf = m * BLOCK_SIZE" using length_blocks [of ?f, OF len, of 0 t] t(1) assms(2) by simp
  have "Suc t * BLOCK_SIZE \<le> m * BLOCK_SIZE" using t(1) by (intro mult_le_mono1) simp
  then have p: "?p + BLOCK_SIZE \<le> m * BLOCK_SIZE" "?p < m * BLOCK_SIZE"
    by (simp_all add: BLOCK_SIZE_def)
  obtain s' where s': "load_block ch ?b (take BLOCK_SIZE (drop ?p ?buf)) s = Some (lblock s ?b, s')" "keeps_objs s s'"
      "used s' = used s" "lblock s' = lblock s" "inv s'" "room s' (k + d)"
    using load [of s ?b "k + d" "take BLOCK_SIZE (drop ?p ?buf)"] Suc.prems v t(2) by (auto simp: valid_def)
  have pat: "patch ?buf ?p (lblock s ?b) = concat (map ?f [0..<Suc t]) @ drop (Suc t * BLOCK_SIZE) buf"
    using patch_blocks [of ?f, OF len, of "lblock s ?b" buf m t] len assms(2) t(1) by simp
  have "\<exists>s''. read_entries ch block bo 0 (m * BLOCK_SIZE) [bo + Suc t..<ENTRIES]
      (concat (map (\<lambda>t. lblock s' (get_int block (bo + t))) [0..<Suc t]) @ drop (Suc t * BLOCK_SIZE) buf) s' =
      Some (concat (map (\<lambda>t. lblock s' (get_int block (bo + t))) [0..<m]), s'') \<and>
      keeps_objs s' s'' \<and> used s'' = used s' \<and> lblock s'' = lblock s' \<and> inv s'' \<and> room s'' k"
    using Suc.hyps(1) [OF t(3), of s'] s' t Suc.prems(4) valid_keeps [OF s'(2,3)] by simp
  moreover have "read_entries ch block bo 0 (m * BLOCK_SIZE) [bo + t..<ENTRIES] ?buf s =
      read_entries ch block bo 0 (m * BLOCK_SIZE) [bo + Suc t..<ENTRIES] (patch ?buf ?p (lblock s ?b)) s'"
    using read_entries_step [of "bo + t" ?p bo ?buf "m * BLOCK_SIZE" block ch s] t(1) assms(1) p l valid_pos [OF v] s'(1) by simp
  ultimately show ?case
    unfolding pat using s'(3,4) keeps_objs_trans [OF s'(2)] by (simp del: upt_Suc) blast
qed

end

lemma write_entries_old:
  assumes "i < ENTRIES" "p = (i - bo) * BLOCK_SIZE" "p + BLOCK_SIZE \<le> length buf" "p < sz" "get_int block i \<noteq> -1" "0 \<le> get_int block i"
    "store_block ch (get_int block i) (take BLOCK_SIZE (drop p buf)) s = Some s'"
  shows "write_entries ch bo buf 0 sz [i..<ENTRIES] block s = write_entries ch bo buf 0 sz [Suc i..<ENTRIES] block s'"
proof -
  have "(i - bo) * 4 * 1024 = p" using assms(2) by (simp add: BLOCK_SIZE_def)
  moreover have "[i..<ENTRIES] = i # [Suc i..<ENTRIES]" using assms(1) by (simp add: upt_conv_Cons)
  ultimately show ?thesis
    using assms(3-7) store_step [of "get_int block i" ch "take BLOCK_SIZE (drop p buf)" s
      "write_entries ch bo buf 0 sz [Suc i..<ENTRIES] block" "\<lambda>s. Some (i, block, s)"]
    by simp
qed

lemma write_entries_new:
  assumes "i < ENTRIES" "p = (i - bo) * BLOCK_SIZE" "p + BLOCK_SIZE \<le> length buf" "p < sz" "get_int block i = -1"
    "reserve_block s = Some (b, s1)" "0 \<le> get_int (put_int block i b) i"
    "store_block ch (get_int (put_int block i b) i) (take BLOCK_SIZE (drop p buf)) s1 = Some s'"
  shows "write_entries ch bo buf 0 sz [i..<ENTRIES] block s =
    write_entries ch bo buf 0 sz [Suc i..<ENTRIES] (put_int block i b) s'"
proof -
  have "(i - bo) * 4 * 1024 = p" using assms(2) by (simp add: BLOCK_SIZE_def)
  moreover have "[i..<ENTRIES] = i # [Suc i..<ENTRIES]" using assms(1) by (simp add: upt_conv_Cons)
  ultimately show ?thesis
    using assms(3-8) store_step [of "get_int (put_int block i b) i" ch "take BLOCK_SIZE (drop p buf)" s1
      "write_entries ch bo buf 0 sz [Suc i..<ENTRIES] (put_int block i b)" "\<lambda>s. Some (i, put_int block i b, s)"]
    by simp
qed

lemma write_entries_done:
  assumes "i \<le> ENTRIES" "sz \<le> (i - bo) * BLOCK_SIZE \<or> i = ENTRIES"
  shows "write_entries ch bo buf 0 sz [i..<ENTRIES] block s = Some (i, block, s)"
proof (cases "i = ENTRIES")
  case False
  then have "[i..<ENTRIES] = i # [Suc i..<ENTRIES]" using assms(1) by (simp add: upt_conv_Cons)
  then show ?thesis using assms(2) False by (simp add: BLOCK_SIZE_def)
qed simp

text \<open>
  What the loop does: the entries from \<open>i\<close> to \<open>n\<close> refer to distinct blocks, old ones or newly allocated ones, with the
  data \<open>d\<close>; no other block changes.
\<close>

definition wrote :: "nat \<Rightarrow> nat \<Rightarrow> (nat \<Rightarrow> u8 list) \<Rightarrow> u8 list \<Rightarrow> store \<Rightarrow> u8 list \<Rightarrow> store \<Rightarrow> bool"
  where "wrote i n d block s block' s' \<longleftrightarrow> length block' = BLOCK_SIZE \<and>
    (\<forall>e. \<not> (i \<le> e \<and> e < n) \<longrightarrow> get_int block' e = get_int block e) \<and>
    (\<forall>e. i \<le> e \<and> e < n \<longrightarrow> data_block s (get_int block' e) \<and>
      (if get_int block e = -1 then \<not> used s (get_int block' e) else get_int block' e = get_int block e)) \<and>
    inj_on (get_int block') {i..<n} \<and> used s' = (\<lambda>b. used s b \<or> b \<in> get_int block' ` {i..<n}) \<and>
    (\<forall>e. i \<le> e \<and> e < n \<longrightarrow> lblock s' (get_int block' e) = d e) \<and>
    (\<forall>b. b \<notin> get_int block' ` {i..<n} \<longrightarrow> lblock s' b = lblock s b)"

lemma wroteD:
  assumes "wrote i n d block s block' s'"
  shows "length block' = BLOCK_SIZE" "\<not> (i \<le> e \<and> e < n) \<Longrightarrow> get_int block' e = get_int block e"
    "i \<le> e \<Longrightarrow> e < n \<Longrightarrow> data_block s (get_int block' e)"
    "i \<le> e \<Longrightarrow> e < n \<Longrightarrow> get_int block e = -1 \<Longrightarrow> \<not> used s (get_int block' e)"
    "i \<le> e \<Longrightarrow> e < n \<Longrightarrow> get_int block e \<noteq> -1 \<Longrightarrow> get_int block' e = get_int block e"
    "inj_on (get_int block') {i..<n}" "used s' = (\<lambda>b. used s b \<or> b \<in> get_int block' ` {i..<n})"
    "i \<le> e \<Longrightarrow> e < n \<Longrightarrow> lblock s' (get_int block' e) = d e"
    "b \<notin> get_int block' ` {i..<n} \<Longrightarrow> lblock s' b = lblock s b"
  using assms unfolding wrote_def by auto

text \<open>The entries that the loop finds.\<close>

definition entries_ok :: "nat \<Rightarrow> nat \<Rightarrow> u8 list \<Rightarrow> store \<Rightarrow> bool"
  where "entries_ok i n block s \<longleftrightarrow> length block = BLOCK_SIZE \<and>
    (\<forall>e. i \<le> e \<and> e < n \<longrightarrow> get_int block e = -1 \<or> valid s (get_int block e)) \<and>
    (\<forall>e e'. i \<le> e \<and> e < n \<and> i \<le> e' \<and> e' < n \<and> get_int block e \<noteq> -1 \<and> get_int block e = get_int block e' \<longrightarrow> e = e')"

lemma entries_okD:
  assumes "entries_ok i n block s"
  shows "length block = BLOCK_SIZE" "i \<le> e \<Longrightarrow> e < n \<Longrightarrow> get_int block e = -1 \<or> valid s (get_int block e)"
    "i \<le> e \<Longrightarrow> e < n \<Longrightarrow> i \<le> e' \<Longrightarrow> e' < n \<Longrightarrow> get_int block e \<noteq> -1 \<Longrightarrow> get_int block e = get_int block e' \<Longrightarrow> e = e'"
  using assms unfolding entries_ok_def by blast+

lemma wrote_step:
  assumes "entries_ok i n block s" "i < n" "get_int block1 i = b" "\<And>e. e \<noteq> i \<Longrightarrow> get_int block1 e = get_int block e"
    "data_block s b" "get_int block i = -1 \<Longrightarrow> \<not> used s b" "get_int block i \<noteq> -1 \<Longrightarrow> get_int block i = b"
    "keeps_objs s s1" "used s1 = (used s)(b := True)" "lblock s1 = (lblock s)(b := d i)"
    "wrote (Suc i) n d block1 s1 block' s'"
  shows "wrote i n d block s block' s'"
proof -
  note W = wroteD [OF assms(11)]
  have bi: "get_int block' i = b" using W(2) [of i] assms(3) by simp
  have db: "data_block s x = data_block s1 x" for x using assms(8) by (simp add: data_block_def keeps_objs_def)
  have later: "get_int block' e \<noteq> b \<and> (if get_int block e = -1 then \<not> used s (get_int block' e) else get_int block' e = get_int block e)"
    if e: "Suc i \<le> e" "e < n" for e
  proof (cases "get_int block e = -1")
    case True
    then show ?thesis using W(4) [OF e] assms(4) [of e] e(1) by (auto simp: assms(9) split: if_splits)
  next
    case False
    then have eq: "get_int block' e = get_int block e" using W(5) [OF e] assms(4) [of e] e(1) by simp
    have "valid s (get_int block e)" using entries_okD(2) [OF assms(1), of e] e False by simp
    then have "get_int block e \<noteq> b"
      using entries_okD(3) [OF assms(1), of e i] e assms(2,6,7) False unfolding valid_def
      by (cases "get_int block i = -1") auto
    then show ?thesis using eq False by simp
  qed
  have ins: "{i..<n} = insert i {Suc i..<n}" using assms(2) by auto
  have img: "get_int block' ` {i..<n} = insert b (get_int block' ` {Suc i..<n})"
    unfolding ins using bi by simp
  have fresh: "b \<notin> get_int block' ` {Suc i..<n}" by (rule notin_image) (use later in blast)
  show ?thesis
    unfolding wrote_def
  proof (intro conjI allI impI)
    show "length block' = BLOCK_SIZE" by (rule W(1))
    show "get_int block' e = get_int block e" if "\<not> (i \<le> e \<and> e < n)" for e
      using W(2) [of e] assms(4) [of e] that assms(2) by auto
    show "data_block s (get_int block' e)" if "i \<le> e \<and> e < n" for e
      using W(3) [of e] that bi assms(5) by (cases "e = i") (auto simp: db)
    show "if get_int block e = -1 then \<not> used s (get_int block' e) else get_int block' e = get_int block e" if "i \<le> e \<and> e < n" for e
      using later [of e] that bi assms(6,7) by (cases "e = i") auto
    show "inj_on (get_int block') {i..<n}"
      unfolding ins using W(6) fresh bi by simp
    show "used s' = (\<lambda>x. used s x \<or> x \<in> get_int block' ` {i..<n})"
      unfolding W(7) assms(9) img by auto
    show "lblock s' (get_int block' e) = d e" if "i \<le> e \<and> e < n" for e
      using W(8) [of e] W(9) [OF fresh] that bi by (cases "e = i") (auto simp: assms(10))
    show "lblock s' x = lblock s x" if "x \<notin> get_int block' ` {i..<n}" for x
      using that W(9) [of x] unfolding img by (auto simp: assms(10))
  qed
qed

lemma entries_ok_step:
  assumes "entries_ok i n block s" "length block1 = BLOCK_SIZE" "\<And>e. e \<noteq> i \<Longrightarrow> get_int block1 e = get_int block e"
    "keeps_objs s s1" "\<And>b. used s b \<Longrightarrow> used s1 b"
  shows "entries_ok (Suc i) n block1 s1"
  unfolding entries_ok_def
proof (intro conjI allI impI)
  show "length block1 = BLOCK_SIZE" by (rule assms(2))
  show "get_int block1 e = -1 \<or> valid s1 (get_int block1 e)" if "Suc i \<le> e \<and> e < n" for e
    using entries_okD(2) [OF assms(1), of e] assms(3) [of e] assms(4,5) that
    by (auto simp: valid_def data_block_def keeps_objs_def)
  show "e = e'" if "Suc i \<le> e \<and> e < n \<and> Suc i \<le> e' \<and> e' < n \<and> get_int block1 e \<noteq> -1 \<and> get_int block1 e = get_int block1 e'" for e e'
  proof -
    have "get_int block1 e = get_int block e" "get_int block1 e' = get_int block e'" using assms(3) that by auto
    then show ?thesis using entries_okD(3) [OF assms(1), of e e'] that by (metis Suc_leD)
  qed
qed

lemma free_blocks_reserve:
  assumes "keeps_objs s s1" "used s1 = (used s)(b := True)"
  shows "free_blocks s1 = free_blocks s - {b}"
  using assms by (auto simp: free_blocks_def data_block_def keeps_objs_def)

lemma data_block_int: "data_block s b \<Longrightarrow> total_num_disk_blocks s \<le> BITMAP_SIZE \<Longrightarrow> 0 \<le> b \<and> - (2 ^ 31) \<le> b \<and> b < 2 ^ 31"
  by (simp add: data_block_def DATA_BLOCKS_START_eq BITMAP_SIZE_def)

context block_layer
begin

lemma write_entries_law:
  assumes "bo + m \<le> ENTRIES" "length buf = m * BLOCK_SIZE" "bo \<le> i" "i \<le> bo + m"
    "inv s" "total_num_disk_blocks s \<le> BITMAP_SIZE" "room s (k + (bo + m - i))" "entries_ok i (bo + m) block s"
    "bo + m - i \<le> card (free_blocks s)"
  shows "\<exists>block' s'. write_entries ch bo buf 0 (m * BLOCK_SIZE) [i..<ENTRIES] block s = Some (bo + m, block', s') \<and>
    wrote i (bo + m) (\<lambda>e. take BLOCK_SIZE (drop ((e - bo) * BLOCK_SIZE) buf)) block s block' s' \<and>
    keeps_objs s s' \<and> inv s' \<and> room s' k"
  using assms(3-9)
proof (induction "bo + m - i" arbitrary: i block s)
  case 0
  then have "i = bo + m" by simp
  moreover have "wrote (bo + m) (bo + m) d block s block s" for d using entries_okD(1) [OF 0(7)] by (auto simp: wrote_def)
  ultimately show ?case
    using 0 assms(1) write_entries_done [of "bo + m" "m * BLOCK_SIZE" bo] by auto
next
  case (Suc c)
  let ?p = "(i - bo) * BLOCK_SIZE" and ?n = "bo + m"
  let ?d = "\<lambda>e. take BLOCK_SIZE (drop ((e - bo) * BLOCK_SIZE) buf)"
  have i: "i < ?n" "i < ENTRIES" "c = ?n - Suc i" "?n - i = Suc c" using Suc.hyps(2) assms(1) by auto
  have "Suc (i - bo) * BLOCK_SIZE \<le> m * BLOCK_SIZE" using i(1) Suc.prems(1) by (intro mult_le_mono1) simp
  then have p: "?p + BLOCK_SIZE \<le> length buf" "?p < m * BLOCK_SIZE" using assms(2) by (simp_all add: BLOCK_SIZE_def)
  then have ld: "length (?d i) = BLOCK_SIZE" by simp
  have lb: "length block = BLOCK_SIZE" using entries_okD(1) [OF Suc.prems(6)] .
  have "\<exists>block1 s1. write_entries ch bo buf 0 (m * BLOCK_SIZE) [i..<ENTRIES] block s =
      write_entries ch bo buf 0 (m * BLOCK_SIZE) [Suc i..<ENTRIES] block1 s1 \<and>
      length block1 = BLOCK_SIZE \<and> (\<forall>e. e \<noteq> i \<longrightarrow> get_int block1 e = get_int block e) \<and> data_block s (get_int block1 i) \<and>
      (if get_int block i = -1 then \<not> used s (get_int block1 i) else get_int block i = get_int block1 i) \<and>
      keeps_objs s s1 \<and> used s1 = (used s)(get_int block1 i := True) \<and> lblock s1 = (lblock s)(get_int block1 i := ?d i) \<and>
      inv s1 \<and> room s1 (k + c)"
  proof (cases "get_int block i = -1")
    case True
    have "free_blocks s \<noteq> {}" using Suc.prems(7) i(4) by (cases "free_blocks s = {}") simp_all
    then obtain b t where t: "reserve_block s = Some (b, t)" "b \<in> free_blocks s" "keeps_objs s t" "used t = (used s)(b := True)"
        "lblock t = lblock s" "inv t" "room t (Suc (k + c))"
      using reserve [of s "Suc (k + c)"] Suc.prems i(4) by auto
    have b: "data_block s b" "\<not> used s b" using t(2) by (auto simp: free_blocks_def)
    have "4 * i + 3 < length block" using i(2) by (simp add: lb ENTRIES_def BLOCK_SIZE_def)
    then have g: "get_int (put_int block i b) i = b" "0 \<le> b"
      using data_block_int [OF b(1) Suc.prems(4)] by (auto intro: get_put_same)
    have "data_block t b" using b(1) t(3) by (simp add: data_block_def keeps_objs_def)
    then obtain s1 where s1: "store_block ch b (?d i) t = Some s1" "keeps_objs t s1" "used s1 = used t"
        "lblock s1 = (lblock t)(b := ?d i)" "inv s1" "room s1 (k + c)"
      using store [of t b "?d i" "k + c"] t ld by auto
    then show ?thesis
      using write_entries_new [of i ?p bo buf "m * BLOCK_SIZE" block s b t ch s1] i(2) p True t g b lb keeps_objs_trans [OF t(3) s1(2)]
      by (intro exI [of _ "put_int block i b"] exI [of _ s1]) (auto simp: get_put_other)
  next
    case False
    then have v: "data_block s (get_int block i)" "used s (get_int block i)" "0 \<le> get_int block i"
      using entries_okD(2) [OF Suc.prems(6), of i] i(1) valid_pos by (auto simp: valid_def)
    then obtain s1 where s1: "store_block ch (get_int block i) (?d i) s = Some s1" "keeps_objs s s1" "used s1 = used s"
        "lblock s1 = (lblock s)(get_int block i := ?d i)" "inv s1" "room s1 (k + c)"
      using store [of s "get_int block i" "?d i" "k + c"] Suc.prems i(4) ld by auto
    then show ?thesis
      using write_entries_old [of i ?p bo buf "m * BLOCK_SIZE" block ch s s1] i(2) p False v lb
      by (intro exI [of _ block] exI [of _ s1]) (auto simp: fun_eq_iff)
  qed
  then obtain block1 s1 where B: "write_entries ch bo buf 0 (m * BLOCK_SIZE) [i..<ENTRIES] block s =
      write_entries ch bo buf 0 (m * BLOCK_SIZE) [Suc i..<ENTRIES] block1 s1"
      "length block1 = BLOCK_SIZE" "\<And>e. e \<noteq> i \<Longrightarrow> get_int block1 e = get_int block e" "data_block s (get_int block1 i)"
      "if get_int block i = -1 then \<not> used s (get_int block1 i) else get_int block i = get_int block1 i"
      "keeps_objs s s1" "used s1 = (used s)(get_int block1 i := True)" "lblock s1 = (lblock s)(get_int block1 i := ?d i)"
      "inv s1" "room s1 (k + c)" by blast
  have "free_blocks s1 = free_blocks s - {get_int block1 i}" by (rule free_blocks_reserve [OF B(6,7)])
  then have "c \<le> card (free_blocks s1)"
    using Suc.prems(7) i(4) card_Diff_singleton_if [of "free_blocks s" "get_int block1 i"] by (simp split: if_splits)
  then obtain block' s' where W: "write_entries ch bo buf 0 (m * BLOCK_SIZE) [Suc i..<ENTRIES] block1 s1 = Some (?n, block', s')"
      "wrote (Suc i) ?n ?d block1 s1 block' s'" "keeps_objs s1 s'" "inv s'" "room s' k"
    using Suc.hyps(1) [OF i(3), of s1 block1] i(1,3) Suc.prems(1,4) B(6,9,10) entries_ok_step [OF Suc.prems(6) B(2,3,6)] B(7)
    by (auto simp: keeps_objs_def)
  have "wrote i ?n ?d block s block' s'"
    by (rule wrote_step [OF Suc.prems(6) i(1) refl B(3,4) _ _ B(6,7,8) W(2)]) (use B(5) in auto)
  then show ?case using B(1) W keeps_objs_trans [OF B(6) W(3)] by auto
qed

end

text \<open>
  What writing through one indirect block \<open>p\<close> does; \<open>E\<close> are its old entries.
\<close>

definition wrote_ind :: "nat \<Rightarrow> nat \<Rightarrow> (nat \<Rightarrow> u8 list) \<Rightarrow> (nat \<Rightarrow> int) \<Rightarrow> int \<Rightarrow> store \<Rightarrow> store \<Rightarrow> bool"
  where "wrote_ind bo n d E p s s' \<longleftrightarrow>
    (\<forall>e < bo. get_int (lblock s' p) e = E e) \<and>
    (\<forall>e. n \<le> e \<and> e < ENTRIES \<longrightarrow> get_int (lblock s' p) e = -1) \<and>
    (\<forall>e. bo \<le> e \<and> e < n \<longrightarrow> data_block s (get_int (lblock s' p) e) \<and> get_int (lblock s' p) e \<noteq> p \<and>
      (E e = -1 \<longrightarrow> \<not> used s (get_int (lblock s' p) e)) \<and> (E e \<noteq> -1 \<longrightarrow> get_int (lblock s' p) e = E e) \<and>
      lblock s' (get_int (lblock s' p) e) = d e) \<and>
    inj_on (get_int (lblock s' p)) {bo..<n} \<and>
    used s' = (\<lambda>b. used s b \<or> b = p \<or> b \<in> get_int (lblock s' p) ` {bo..<n}) \<and>
    (\<forall>b. b \<noteq> p \<and> b \<notin> get_int (lblock s' p) ` {bo..<n} \<longrightarrow> lblock s' b = lblock s b)"

lemma wrote_indD:
  assumes "wrote_ind bo n d E p s s'"
  shows "e < bo \<Longrightarrow> get_int (lblock s' p) e = E e" "n \<le> e \<Longrightarrow> e < ENTRIES \<Longrightarrow> get_int (lblock s' p) e = -1"
    "bo \<le> e \<Longrightarrow> e < n \<Longrightarrow> data_block s (get_int (lblock s' p) e)" "bo \<le> e \<Longrightarrow> e < n \<Longrightarrow> get_int (lblock s' p) e \<noteq> p"
    "bo \<le> e \<Longrightarrow> e < n \<Longrightarrow> E e = -1 \<Longrightarrow> \<not> used s (get_int (lblock s' p) e)"
    "bo \<le> e \<Longrightarrow> e < n \<Longrightarrow> E e \<noteq> -1 \<Longrightarrow> get_int (lblock s' p) e = E e"
    "bo \<le> e \<Longrightarrow> e < n \<Longrightarrow> lblock s' (get_int (lblock s' p) e) = d e"
    "inj_on (get_int (lblock s' p)) {bo..<n}"
    "used s' = (\<lambda>b. used s b \<or> b = p \<or> b \<in> get_int (lblock s' p) ` {bo..<n})"
    "b \<noteq> p \<Longrightarrow> b \<notin> get_int (lblock s' p) ` {bo..<n} \<Longrightarrow> lblock s' b = lblock s b"
  using assms unfolding wrote_ind_def by blast+

lemma write_indirect_new:
  assumes "p < 0" "reserve_block s = Some (b, t)" "0 \<le> b"
  shows "write_indirect_block ch p bo buf off sz s = write_indirect_block ch b bo buf off sz (initialize_block b t)"
  using assms by (simp add: write_indirect_block_def)

lemma wrote_wrote_ind:
  assumes W: "wrote bo n d (lblock s p) s block' s2" and le: "bo \<le> n" "n \<le> ENTRIES"
    and p: "used s p" "\<And>e. bo \<le> e \<Longrightarrow> e < n \<Longrightarrow> get_int (lblock s p) e \<noteq> p"
    and s': "used s' = used s2" "lblock s' = (lblock s2)(p := clear_from n block')"
  shows "wrote_ind bo n d (get_int (lblock s p)) p s s'"
proof -
  note D = wroteD [OF W]
  let ?E = "get_int (lblock s' p)"
  have E: "?E e = (if n \<le> e \<and> e < ENTRIES then -1 else get_int block' e)" for e
    using clear_from(2) [OF D(1) le(2)] by (simp add: s'(2))
  have in_range: "?E e = get_int block' e" if "e < n" for e using E [of e] that by simp
  have np: "get_int block' e \<noteq> p" if "bo \<le> e" "e < n" for e
    using D(4,5) [OF that] p(1) p(2) [OF that] by (cases "get_int (lblock s p) e = -1") auto
  have img: "?E ` {bo..<n} = get_int block' ` {bo..<n}" using in_range by (intro image_cong) auto
  have pn: "p \<notin> get_int block' ` {bo..<n}" by (rule notin_image) (rule np)
  show ?thesis
    unfolding wrote_ind_def img
  proof (intro conjI allI impI)
    show "?E e = get_int (lblock s p) e" if "e < bo" for e using in_range [of e] D(2) [of e] that le(1) by simp
    show "?E e = -1" if "n \<le> e \<and> e < ENTRIES" for e using E that by simp
    fix e assume e: "bo \<le> e \<and> e < n"
    show "data_block s (?E e)" "?E e \<noteq> p"
      "get_int (lblock s p) e = -1 \<Longrightarrow> \<not> used s (?E e)" "get_int (lblock s p) e \<noteq> -1 \<Longrightarrow> ?E e = get_int (lblock s p) e"
      using D(3,4,5) [of e] np [of e] e in_range [of e] by auto
    show "lblock s' (?E e) = d e"
      using D(8) [of e] np [of e] e in_range [of e] by (simp add: s'(2))
  next
    show "inj_on ?E {bo..<n}" using D(6) in_range by (simp add: inj_on_def)
    show "used s' = (\<lambda>b. used s b \<or> b = p \<or> b \<in> get_int block' ` {bo..<n})"
      unfolding s'(1) D(7) using p(1) by auto
    show "lblock s' b = lblock s b" if "b \<noteq> p \<and> b \<notin> get_int block' ` {bo..<n}" for b
      using D(9) [of b] that by (simp add: s'(2))
  qed
qed

context block_layer
begin

lemma write_indirect_old:
  assumes "inv s" "total_num_disk_blocks s \<le> BITMAP_SIZE" "bo + m \<le> ENTRIES" "length buf = m * BLOCK_SIZE" "room s (k + m + 3)"
    "valid s p" "entries_ok bo (bo + m) (lblock s p) s" "\<And>e. bo \<le> e \<Longrightarrow> e < bo + m \<Longrightarrow> get_int (lblock s p) e \<noteq> p"
    "m \<le> card (free_blocks s)"
  shows "\<exists>s'. write_indirect_block ch p bo buf 0 (m * BLOCK_SIZE) s = Some (p, s') \<and>
    wrote_ind bo (bo + m) (\<lambda>e. take BLOCK_SIZE (drop ((e - bo) * BLOCK_SIZE) buf)) (get_int (lblock s p)) p s s' \<and>
    keeps_objs s s' \<and> inv s' \<and> room s' k"
proof -
  let ?d = "\<lambda>e. take BLOCK_SIZE (drop ((e - bo) * BLOCK_SIZE) buf)"
  obtain s1 where s1: "load_block ch p zero_block s = Some (lblock s p, s1)" "keeps_objs s s1" "used s1 = used s"
      "lblock s1 = lblock s" "inv s1" "room s1 (k + 2 + m)"
    using load [of s p "k + 2 + m" zero_block] assms(1,5,6) by (auto simp: valid_def algebra_simps numeral_3_eq_3)
  have db: "data_block s1 = data_block s" "data_block s p" "used s p" "total_num_disk_blocks s1 = total_num_disk_blocks s"
    using s1(2) assms(6) by (auto simp: data_block_def keeps_objs_def fun_eq_iff valid_def)
  have "entries_ok bo (bo + m) (lblock s p) s1"
    using assms(7) valid_keeps [OF s1(2,3)] by (simp add: entries_ok_def)
  moreover have "free_blocks s1 = free_blocks s" by (simp add: free_blocks_def db s1(3))
  ultimately obtain block' s2 where s2: "write_entries ch bo buf 0 (m * BLOCK_SIZE) [bo..<ENTRIES] (lblock s p) s1 = Some (bo + m, block', s2)"
      "wrote bo (bo + m) ?d (lblock s p) s1 block' s2" "keeps_objs s1 s2" "inv s2" "room s2 (k + 2)"
    using write_entries_law [OF assms(3,4) order_refl, of s1 "k + 2" "lblock s p"] s1(5,6) assms(2,9) db(4) by auto
  have W: "wrote bo (bo + m) ?d (lblock s p) s block' s2"
    using s2(2) unfolding wrote_def db(1) s1(3,4) .
  have "used s2 p" "data_block s2 p"
    using wroteD(7) [OF W] db s2(3) by (auto simp: data_block_def keeps_objs_def)
  moreover have "length (clear_from (bo + m) block') = BLOCK_SIZE"
    using clear_from(1) [OF wroteD(1) [OF W] assms(3)] .
  ultimately obtain s3 where s3: "store_block ch p (clear_from (bo + m) block') s2 = Some s3" "keeps_objs s2 s3" "used s3 = used s2"
      "lblock s3 = (lblock s2)(p := clear_from (bo + m) block')" "inv s3" "room s3 (Suc k)"
    using store [of s2 p "clear_from (bo + m) block'" "Suc k"] s2(4,5) by auto
  have "used s3 p" "data_block s3 p"
    using \<open>used s2 p\<close> \<open>data_block s2 p\<close> s3(2,3) by (auto simp: data_block_def keeps_objs_def)
  then obtain s4 where s4: "load_block ch p (clear_from (bo + m) block') s3 = Some (lblock s3 p, s4)" "keeps_objs s3 s4"
      "used s4 = used s3" "lblock s4 = lblock s3" "inv s4" "room s4 k"
    using load [of s3 p k "clear_from (bo + m) block'"] s3(5,6) by auto
  have "write_indirect_block ch p bo buf 0 (m * BLOCK_SIZE) s = Some (p, s4)"
    using valid_pos [OF assms(6)] s1(1) s2(1) s3(1) s4(1) by (simp add: write_indirect_block_def)
  moreover have "keeps_objs s s4" using s1(2) s2(3) s3(2) s4(2) keeps_objs_trans by blast
  moreover have "wrote_ind bo (bo + m) ?d (get_int (lblock s p)) p s s4"
    by (rule wrote_wrote_ind [OF W _ assms(3) db(3) assms(8)]) (simp_all add: s4(3,4) s3(3,4))
  ultimately show ?thesis using s4(5,6) by blast
qed

end

lemma wrote_ind_fresh:
  assumes "wrote_ind bo n d E p s1 s'" "keeps_objs s s1" "used s1 = (used s)(p := True)" "\<And>b. b \<noteq> p \<Longrightarrow> lblock s1 b = lblock s b"
    "\<And>e. e < ENTRIES \<Longrightarrow> E e = -1" "n \<le> ENTRIES" "bo \<le> n"
  shows "wrote_ind bo n d (\<lambda>_. -1) p s s'"
proof -
  have db: "data_block s1 = data_block s" using assms(2) by (auto simp: data_block_def keeps_objs_def fun_eq_iff)
  let ?E = "get_int (lblock s' p)"
  note W = wrote_indD [OF assms(1)]
  show ?thesis
    unfolding wrote_ind_def
  proof (intro conjI allI impI)
    show "?E e = -1" if "e < bo" for e using W(1) [OF that] assms(5) [of e] assms(6,7) that by simp
    show "?E e = -1" if "n \<le> e \<and> e < ENTRIES" for e using W(2) that by blast
    show "inj_on ?E {bo..<n}" by (rule W(8))
    show "used s' = (\<lambda>b. used s b \<or> b = p \<or> b \<in> ?E ` {bo..<n})" unfolding W(9) assms(3) by auto
    show "lblock s' b = lblock s b" if "b \<noteq> p \<and> b \<notin> ?E ` {bo..<n}" for b using W(10) [of b] assms(4) [of b] that by simp
    fix e assume e: "bo \<le> e \<and> e < n"
    show "-1 \<noteq> (-1 :: int) \<Longrightarrow> ?E e = -1" by simp
    have "E e = -1" using assms(5) [of e] assms(6) e by simp
    then show "data_block s (?E e)" "?E e \<noteq> p" "\<not> used s (?E e)" "lblock s' (?E e) = d e"
      using W(3-5,7) [of e] e by (auto simp: db assms(3))
  qed
qed

context block_layer
begin

lemma write_indirect_law:
  assumes "inv s" "total_num_disk_blocks s \<le> BITMAP_SIZE" "bo + m \<le> ENTRIES" "length buf = m * BLOCK_SIZE" "room s (k + m + 3)"
    "p \<ge> 0 \<Longrightarrow> valid s p \<and> entries_ok bo (bo + m) (lblock s p) s"
    "\<And>e. p \<ge> 0 \<Longrightarrow> bo \<le> e \<Longrightarrow> e < bo + m \<Longrightarrow> get_int (lblock s p) e \<noteq> p" "m < card (free_blocks s)"
  shows "\<exists>p' s'. write_indirect_block ch p bo buf 0 (m * BLOCK_SIZE) s = Some (p', s') \<and>
    wrote_ind bo (bo + m) (\<lambda>e. take BLOCK_SIZE (drop ((e - bo) * BLOCK_SIZE) buf)) (if p < 0 then \<lambda>_. -1 else get_int (lblock s p)) p' s s' \<and>
    (if p < 0 then p' \<in> free_blocks s else p' = p) \<and> keeps_objs s s' \<and> inv s' \<and> room s' k"
proof (cases "p < 0")
  case False
  then show ?thesis using write_indirect_old [OF assms(1-5), of p] assms(6-8) by simp
next
  case True
  have "free_blocks s \<noteq> {}" using assms(8) by (cases "free_blocks s = {}") simp_all
  then obtain b t where t: "reserve_block s = Some (b, t)" "b \<in> free_blocks s" "keeps_objs s t" "used t = (used s)(b := True)"
      "lblock t = lblock s" "block_bitmap t b = 1" "inv t" "room t (k + m + 3)"
    using reserve [of s "k + m + 3"] assms(1,5) by auto
  have b: "data_block s b" "\<not> used s b" "0 \<le> b" using t(2) data_block_int [OF _ assms(2)] by (auto simp: free_blocks_def)
  let ?c = "clear_from 0 zero_block"
  have c: "length ?c = BLOCK_SIZE" "\<And>e. e < ENTRIES \<Longrightarrow> get_int ?c e = -1" using clear_from [of zero_block 0] by auto
  have "data_block t b" using b(1) t(3) by (simp add: data_block_def keeps_objs_def)
  then obtain s1 where s1: "initialize_block b t = s1" "keeps_objs t s1" "used s1 = used t" "lblock s1 = (lblock t)(b := ?c)" "inv s1"
      "room s1 (k + m + 3)"
    using init [OF t(7) _ t(6) c(1) t(8)] by (auto simp: initialize_block_def)
  have k: "keeps_objs s s1" using t(3) s1(2) keeps_objs_trans by blast
  have u: "used s1 = (used s)(b := True)" by (simp add: s1(3) t(4))
  have e: "entries_ok bo (bo + m) (lblock s1 b) s1" using c assms(3) by (auto simp: entries_ok_def s1(4))
  have v: "valid s1 b" using b(1) k by (simp add: valid_def u data_block_def keeps_objs_def)
  have "free_blocks s1 = free_blocks s - {b}" by (rule free_blocks_reserve [OF k u])
  then have "m \<le> card (free_blocks s1)" using assms(8) t(2) by simp
  moreover have "get_int (lblock s1 b) e \<noteq> b" if "bo \<le> e" "e < bo + m" for e
    using c(2) [of e] assms(3) that b(3) by (simp add: s1(4))
  moreover have "total_num_disk_blocks s1 \<le> BITMAP_SIZE" using k assms(2) by (simp add: keeps_objs_def)
  ultimately obtain s' where s': "write_indirect_block ch b bo buf 0 (m * BLOCK_SIZE) s1 = Some (b, s')"
      "wrote_ind bo (bo + m) (\<lambda>e. take BLOCK_SIZE (drop ((e - bo) * BLOCK_SIZE) buf)) (get_int (lblock s1 b)) b s1 s'"
      "keeps_objs s1 s'" "inv s'" "room s' k"
    using write_indirect_old [OF s1(5) _ assms(3,4) s1(6) v e] by auto
  have "wrote_ind bo (bo + m) (\<lambda>e. take BLOCK_SIZE (drop ((e - bo) * BLOCK_SIZE) buf)) (\<lambda>_. -1) b s s'"
    by (rule wrote_ind_fresh [OF s'(2) k u]) (use c(2) assms(3) in \<open>simp_all add: s1(4) t(5)\<close>)
  moreover have "write_indirect_block ch p bo buf 0 (m * BLOCK_SIZE) s = Some (b, s')"
    using write_indirect_new [OF True t(1) b(3)] s1(1) s'(1) by simp
  ultimately show ?thesis using True t(2) keeps_objs_trans [OF k s'(3)] s'(4,5) by auto
qed

end

section \<open>The layout of an object\<close>

definition nblocks :: "object \<Rightarrow> nat"
  where "nblocks x = (nat (o_size x) + 4095) div 4096"

definition pblk :: "object \<Rightarrow> nat \<Rightarrow> int"
  where "pblk x j = data_block_pointers x ! j"

text \<open>The number of the block that holds block \<open>k\<close> of an object.\<close>

definition dblk :: "store \<Rightarrow> object \<Rightarrow> nat \<Rightarrow> int"
  where "dblk s x k = get_int (lblock s (pblk x (k div 1024))) (k mod 1024)"

definition contents :: "store \<Rightarrow> object \<Rightarrow> u8 list"
  where "contents s x = take (nat (o_size x)) (concat (map (\<lambda>k. lblock s (dblk s x k)) [0..<nblocks x]))"

definition owned :: "store \<Rightarrow> object \<Rightarrow> int set"
  where "owned s x = pblk x ` {j. j * 1024 < nblocks x} \<union> dblk s x ` {..<nblocks x}"

definition obj_ok :: "store \<Rightarrow> object \<Rightarrow> bool"
  where "obj_ok s x \<longleftrightarrow> 0 \<le> o_size x \<and> o_size x \<le> 16*1024*1024 \<and> length (data_block_pointers x) = 4 \<and>
    (\<forall>j < 4. nblocks x \<le> j * 1024 \<longrightarrow> pblk x j = -1) \<and> (\<forall>b \<in> owned s x. valid s b) \<and>
    (\<forall>j e. j * 1024 < nblocks x \<and> e < 1024 \<and> nblocks x \<le> j * 1024 + e \<longrightarrow> get_int (lblock s (pblk x j)) e = -1) \<and>
    inj_on (pblk x) {j. j * 1024 < nblocks x} \<and> inj_on (dblk s x) {..<nblocks x} \<and>
    (\<forall>j k. j * 1024 < nblocks x \<and> k < nblocks x \<longrightarrow> pblk x j \<noteq> dblk s x k)"

lemma obj_okD:
  assumes "obj_ok s x"
  shows "0 \<le> o_size x" "o_size x \<le> 16*1024*1024" "length (data_block_pointers x) = 4"
    "j < 4 \<Longrightarrow> nblocks x \<le> j * 1024 \<Longrightarrow> pblk x j = -1" "j * 1024 < nblocks x \<Longrightarrow> valid s (pblk x j)"
    "k < nblocks x \<Longrightarrow> valid s (dblk s x k)"
    "j * 1024 < nblocks x \<Longrightarrow> e < 1024 \<Longrightarrow> nblocks x \<le> j * 1024 + e \<Longrightarrow> get_int (lblock s (pblk x j)) e = -1"
    "inj_on (pblk x) {j. j * 1024 < nblocks x}" "inj_on (dblk s x) {..<nblocks x}"
    "j * 1024 < nblocks x \<Longrightarrow> k < nblocks x \<Longrightarrow> pblk x j \<noteq> dblk s x k"
    "nblocks x \<le> 4096"
proof -
  have "valid s b" if "b \<in> owned s x" for b using assms that unfolding obj_ok_def by blast
  then show "j * 1024 < nblocks x \<Longrightarrow> valid s (pblk x j)" "k < nblocks x \<Longrightarrow> valid s (dblk s x k)"
    by (auto simp: owned_def)
  have "o_size x \<le> 16*1024*1024" using assms unfolding obj_ok_def by blast
  then have "nat (o_size x) + 4095 \<le> 4096 * 4096 + 4095" by simp
  then have "nblocks x \<le> (4096 * 4096 + 4095) div 4096" unfolding nblocks_def by (rule div_le_mono)
  then show "nblocks x \<le> 4096" by simp
qed (use assms in \<open>unfold obj_ok_def, blast+\<close>)

lemma owned_frame:
  assumes "obj_ok s x" "\<And>b. b \<in> owned s x \<Longrightarrow> lblock s' b = lblock s b"
  shows "k < nblocks x \<Longrightarrow> dblk s' x k = dblk s x k" "owned s' x = owned s x" "contents s' x = contents s x"
proof -
  show d: "dblk s' x k = dblk s x k" if "k < nblocks x" for k
  proof -
    have "k div 1024 * 1024 < nblocks x" using that by (meson div_times_less_eq_dividend le_less_trans)
    then have "lblock s' (pblk x (k div 1024)) = lblock s (pblk x (k div 1024))" by (intro assms(2)) (simp add: owned_def)
    then show ?thesis by (simp add: dblk_def)
  qed
  then show "owned s' x = owned s x" unfolding owned_def by (auto intro!: image_cong simp: image_iff)
  have "map (\<lambda>k. lblock s' (dblk s' x k)) [0..<nblocks x] = map (\<lambda>k. lblock s (dblk s x k)) [0..<nblocks x]"
    using d assms(2) by (intro map_cong) (auto simp: owned_def)
  then show "contents s' x = contents s x" unfolding contents_def by (rule arg_cong)
qed

lemma obj_ok_frame:
  assumes "obj_ok s x" "\<And>b. b \<in> owned s x \<Longrightarrow> lblock s' b = lblock s b"
    "\<And>b. b \<in> owned s x \<Longrightarrow> valid s b \<Longrightarrow> valid s' b"
  shows "obj_ok s' x"
proof -
  have F1: "dblk s' x k = dblk s x k" if "k < nblocks x" for k using owned_frame(1) [OF assms(1) _ that] assms(2) by blast
  have F2: "owned s' x = owned s x" using owned_frame(2) [OF assms(1)] assms(2) by blast
  note D = obj_okD [OF assms(1)]
  have "valid s' b" if "b \<in> owned s x" for b
    using assms(1) assms(3) [OF that] that by (auto simp: obj_ok_def)
  moreover have "get_int (lblock s' (pblk x j)) e = -1" if "j * 1024 < nblocks x" "e < 1024" "nblocks x \<le> j * 1024 + e" for j e
    using D(7) [OF that] assms(2) [of "pblk x j"] that(1) by (simp add: owned_def)
  moreover have "inj_on (dblk s' x) {..<nblocks x}" using D(9) F1 by (simp add: inj_on_def)
  moreover have "pblk x j \<noteq> dblk s' x k" if "j * 1024 < nblocks x" "k < nblocks x" for j k
    using D(10) [OF that] F1 [OF that(2)] by simp
  ultimately show ?thesis
    unfolding obj_ok_def F2 using D(1-4,8) by blast
qed

text \<open>
  The effect of a write on the layout of an object: the \<open>m\<close> blocks from \<open>K\<close> on are written through the indirect block
  \<open>p\<close> of pointer \<open>j\<close>.
\<close>

definition obj_wrote :: "store \<Rightarrow> store \<Rightarrow> object \<Rightarrow> object \<Rightarrow> nat \<Rightarrow> nat \<Rightarrow> nat \<Rightarrow> nat \<Rightarrow> int \<Rightarrow> (nat \<Rightarrow> u8 list) \<Rightarrow> bool"
  where "obj_wrote s s' x y K m j bo p d \<longleftrightarrow> obj_ok s x \<and>
    K \<le> nblocks x \<and> K = j * 1024 + bo \<and> 0 < m \<and> bo + m \<le> 1024 \<and> j < 4 \<and>
    wrote_ind bo (bo + m) d (if pblk x j < 0 then \<lambda>_. -1 else get_int (lblock s (pblk x j))) p s s' \<and>
    (if pblk x j < 0 then p \<in> free_blocks s else p = pblk x j) \<and> keeps_objs s s' \<and>
    data_block_pointers y = take (Suc j) ((data_block_pointers x)[j := p]) @ replicate (3 - j) (-1) \<and>
    nblocks y = K + m \<and> 0 \<le> o_size y \<and> o_size y \<le> 16*1024*1024"

lemma obj_wroteD:
  assumes "obj_wrote s s' x y K m j bo p d"
  shows "obj_ok s x" "K \<le> nblocks x" "K = j * 1024 + bo" "0 < m" "bo + m \<le> 1024" "j < 4"
    "wrote_ind bo (bo + m) d (if pblk x j < 0 then \<lambda>_. -1 else get_int (lblock s (pblk x j))) p s s'"
    "if pblk x j < 0 then p \<in> free_blocks s else p = pblk x j" "keeps_objs s s'"
    "data_block_pointers y = take (Suc j) ((data_block_pointers x)[j := p]) @ replicate (3 - j) (-1)"
    "nblocks y = K + m" "0 \<le> o_size y" "o_size y \<le> 16*1024*1024"
  using assms unfolding obj_wrote_def by blast+

lemma no_pointer: "obj_ok s x \<Longrightarrow> j < 4 \<Longrightarrow> pblk x j < 0 \<longleftrightarrow> nblocks x \<le> j * 1024"
  using obj_okD(4) [of s x j] obj_okD(5) [of s x j] valid_pos [of s "pblk x j"] by (cases "nblocks x \<le> j * 1024") auto

lemma wrote_p:
  assumes "obj_wrote s s' x y K m j bo p d"
  shows "j * 1024 < nblocks x \<Longrightarrow> p = pblk x j" "nblocks x \<le> j * 1024 \<Longrightarrow> \<not> used s p \<and> data_block s p"
    "k < nblocks x \<Longrightarrow> dblk s x k \<noteq> p"
proof -
  note A = obj_wroteD [OF assms]
  show old: "p = pblk x j" if "j * 1024 < nblocks x" using A(8) no_pointer [OF A(1,6)] that by (auto split: if_splits)
  show new: "\<not> used s p \<and> data_block s p" if "nblocks x \<le> j * 1024"
    using A(8) no_pointer [OF A(1,6)] that by (auto simp: free_blocks_def)
  show "dblk s x k \<noteq> p" if "k < nblocks x"
    using obj_okD(10) [OF A(1), of j k] old new obj_okD(6) [OF A(1) that] that
    by (cases "j * 1024 < nblocks x") (auto simp: valid_def)
qed

lemma div_mod_1024: "e < 1024 \<Longrightarrow> (j * 1024 + e) div 1024 = j" "e < 1024 \<Longrightarrow> (j * 1024 + e) mod 1024 = e" for e :: nat
  by auto

lemma wrote_entry:
  assumes "obj_wrote s s' x y K m j bo p d" "bo \<le> e" "e < bo + m"
  shows "if j * 1024 + e < nblocks x then get_int (lblock s' p) e = dblk s x (j * 1024 + e) else \<not> used s (get_int (lblock s' p) e)"
proof -
  note A = obj_wroteD [OF assms(1)] and np = no_pointer [OF obj_wroteD(1,6) [OF assms(1)]]
  have e: "e < 1024" using assms(3) A(5) by simp
  show ?thesis
  proof (cases "j * 1024 + e < nblocks x")
    case True
    then have "get_int (lblock s (pblk x j)) e = dblk s x (j * 1024 + e)" by (simp only: dblk_def div_mod_1024 [OF e])
    moreover have "dblk s x (j * 1024 + e) \<noteq> -1" using obj_okD(6) [OF A(1) True] valid_pos by blast
    moreover have "\<not> pblk x j < 0" using np True by simp
    ultimately show ?thesis using wrote_indD(6) [OF A(7) assms(2,3)] True by simp
  next
    case False
    then have "get_int (lblock s (pblk x j)) e = -1" if "\<not> pblk x j < 0"
      using that np obj_okD(7) [OF A(1), of j e] e by simp
    then show ?thesis using wrote_indD(5) [OF A(7) assms(2,3)] False by (cases "pblk x j < 0") auto
  qed
qed

lemma wrote_pblk:
  assumes "obj_wrote s s' x y K m j bo p d"
  shows "i < j \<Longrightarrow> pblk y i = pblk x i" "pblk y j = p" "j < i \<Longrightarrow> i < 4 \<Longrightarrow> pblk y i = -1"
  using obj_okD(3) [OF obj_wroteD(1) [OF assms]] obj_wroteD(6,10) [OF assms] by (auto simp: pblk_def nth_append)

lemma wrote_pointer_kept:
  assumes "obj_wrote s s' x y K m j bo p d" "i < j"
  shows "i * 1024 < nblocks x" "pblk x i \<noteq> p" "lblock s' (pblk x i) = lblock s (pblk x i)"
proof -
  note A = obj_wroteD [OF assms(1)]
  have "i * 1024 < j * 1024" using assms(2) by simp
  then show i: "i * 1024 < nblocks x" using A(2,3) by linarith
  have v: "valid s (pblk x i)" using obj_okD(5) [OF A(1) i] .
  show np: "pblk x i \<noteq> p"
  proof (cases "j * 1024 < nblocks x")
    case True
    then show ?thesis using inj_onD [OF obj_okD(8) [OF A(1)], of i j] wrote_p(1) [OF assms(1)] i assms(2) by auto
  next
    case False
    then show ?thesis using wrote_p(2) [OF assms(1)] v by (auto simp: valid_def)
  qed
  have "get_int (lblock s' p) e \<noteq> pblk x i" if "bo \<le> e" "e < bo + m" for e
    using wrote_entry [OF assms(1) that] obj_okD(10) [OF A(1) i, of "j * 1024 + e"] v
    by (cases "j * 1024 + e < nblocks x") (auto simp: valid_def)
  then have "pblk x i \<notin> get_int (lblock s' p) ` {bo..<bo + m}" by (rule notin_image)
  then show "lblock s' (pblk x i) = lblock s (pblk x i)" using wrote_indD(10) [OF A(7) np] by blast
qed

lemma wrote_dblk_kept:
  assumes "obj_wrote s s' x y K m j bo p d" "k < K"
  shows "dblk s' y k = dblk s x k"
proof (cases "k < j * 1024")
  case True
  then have "k div 1024 < j" by (simp add: less_mult_imp_div_less)
  then show ?thesis using wrote_pointer_kept(3) [OF assms(1)] wrote_pblk(1) [OF assms(1)] by (simp add: dblk_def)
next
  case False
  note A = obj_wroteD [OF assms(1)]
  obtain e where e: "k = j * 1024 + e" "e < bo" "e < 1024"
    using that [of "k - j * 1024"] False assms(2) A(3,5) by auto
  have "\<not> pblk x j < 0" using no_pointer [OF A(1,6)] assms(2) False A(2) by simp
  then have "get_int (lblock s' p) e = get_int (lblock s (pblk x j)) e" using wrote_indD(1) [OF A(7) e(2)] by simp
  then show ?thesis by (simp only: e(1) dblk_def div_mod_1024 [OF e(3)] wrote_pblk(2) [OF assms(1)])
qed

lemma wrote_dblk_new:
  assumes "obj_wrote s s' x y K m j bo p d" "K \<le> k" "k < K + m"
  obtains e where "k = j * 1024 + e" "bo \<le> e" "e < bo + m" "dblk s' y k = get_int (lblock s' p) e"
proof -
  note A = obj_wroteD [OF assms(1)]
  have e: "k = j * 1024 + (k - j * 1024)" "bo \<le> k - j * 1024" "k - j * 1024 < bo + m" "k - j * 1024 < 1024"
    using assms(2,3) A(3,5) by auto
  have "dblk s' y (j * 1024 + (k - j * 1024)) = get_int (lblock s' p) (k - j * 1024)"
    by (simp only: dblk_def div_mod_1024 [OF e(4)] wrote_pblk(2) [OF assms(1)])
  then show thesis using that [of "k - j * 1024"] e by simp
qed

lemma wrote_dblk:
  assumes "obj_wrote s s' x y K m j bo p d" "k < K + m"
  shows "k < nblocks x \<Longrightarrow> dblk s' y k = dblk s x k" "nblocks x \<le> k \<Longrightarrow> \<not> used s (dblk s' y k)"
    "data_block s (dblk s' y k)" "used s' (dblk s' y k)" "dblk s' y k \<noteq> p"
proof -
  note A = obj_wroteD [OF assms(1)]
  have "(k < nblocks x \<longrightarrow> dblk s' y k = dblk s x k) \<and> (nblocks x \<le> k \<longrightarrow> \<not> used s (dblk s' y k)) \<and>
    data_block s (dblk s' y k) \<and> used s' (dblk s' y k) \<and> dblk s' y k \<noteq> p"
  proof (cases "k < K")
    case True
    then have "k < nblocks x" using A(2) by simp
    then show ?thesis
      using wrote_dblk_kept [OF assms(1) True] obj_okD(6) [OF A(1)] wrote_p(3) [OF assms(1)] wrote_indD(9) [OF A(7)]
      by (auto simp: valid_def)
  next
    case False
    then obtain e where e: "k = j * 1024 + e" "bo \<le> e" "e < bo + m" "dblk s' y k = get_int (lblock s' p) e"
      using wrote_dblk_new [OF assms(1)] assms(2) by (metis not_le)
    then show ?thesis
      using wrote_entry [OF assms(1) e(2,3)] wrote_indD(3,4) [OF A(7) e(2,3)] wrote_indD(9) [OF A(7)] by (auto split: if_splits)
  qed
  then show "k < nblocks x \<Longrightarrow> dblk s' y k = dblk s x k" "nblocks x \<le> k \<Longrightarrow> \<not> used s (dblk s' y k)"
    "data_block s (dblk s' y k)" "used s' (dblk s' y k)" "dblk s' y k \<noteq> p" by auto
qed

lemma wrote_inj:
  assumes "obj_wrote s s' x y K m j bo p d"
  shows "inj_on (dblk s' y) {..<K + m}"
proof (rule linorder_inj_onI)
  note A = obj_wroteD [OF assms]
  fix a b :: nat
  assume ab: "a < b" "a \<in> {..<K + m}" "b \<in> {..<K + m}"
  note a = wrote_dblk [OF assms, of a] and b = wrote_dblk [OF assms, of b]
  show "dblk s' y a \<noteq> dblk s' y b"
  proof (cases "a < nblocks x")
    case True
    show ?thesis
    proof (cases "b < nblocks x")
      case True
      then show ?thesis using a(1) b(1) ab inj_onD [OF obj_okD(9) [OF A(1)], of a b] by auto
    next
      case False
      then show ?thesis using a(1) b(2) ab True obj_okD(6) [OF A(1) True] by (auto simp: valid_def)
    qed
  next
    case False
    then have "K \<le> a" "K \<le> b" using A(2) ab(1) by auto
    then obtain e e' where e: "a = j * 1024 + e" "bo \<le> e" "e < bo + m" "dblk s' y a = get_int (lblock s' p) e"
      and e': "b = j * 1024 + e'" "bo \<le> e'" "e' < bo + m" "dblk s' y b = get_int (lblock s' p) e'"
      using wrote_dblk_new [OF assms] ab(2,3) by (metis lessThan_iff)
    then show ?thesis using inj_onD [OF wrote_indD(8) [OF A(7)], of e e'] ab(1) by auto
  qed
qed auto

lemma wrote_pointers:
  assumes "obj_wrote s s' x y K m j bo p d" "i * 1024 < K + m"
  shows "i \<le> j" "valid s' (pblk y i)" "k < K + m \<Longrightarrow> pblk y i \<noteq> dblk s' y k"
    "pblk y i \<in> owned s x \<or> \<not> used s (pblk y i)" "i < j \<Longrightarrow> pblk y i \<noteq> p"
proof -
  note A = obj_wroteD [OF assms(1)] and p = wrote_p [OF assms(1)]
  show ij: "i \<le> j" using assms(2) A(3,5) by linarith
  have db: "data_block s' b = data_block s b" for b using A(9) by (simp add: data_block_def keeps_objs_def)
  have u: "used s' p" "\<And>b. used s b \<Longrightarrow> used s' b" using wrote_indD(9) [OF A(7)] by auto
  show low: "i < j \<Longrightarrow> pblk y i \<noteq> p" using wrote_pblk(1) [OF assms(1)] wrote_pointer_kept(2) [OF assms(1)] by auto
  have old: "valid s (pblk y i) \<and> pblk y i = pblk x i \<and> i * 1024 < nblocks x" if "i < j \<or> j * 1024 < nblocks x"
  proof (cases "i < j")
    case True
    then show ?thesis using wrote_pblk(1) [OF assms(1)] wrote_pointer_kept(1) [OF assms(1)] obj_okD(5) [OF A(1), of i] by simp
  next
    case False
    then show ?thesis using that ij wrote_pblk(2) [OF assms(1)] p(1) obj_okD(5) [OF A(1), of j] by simp
  qed
  have new: "pblk y i = p \<and> \<not> used s p \<and> data_block s p" if "\<not> (i < j \<or> j * 1024 < nblocks x)"
    using that ij wrote_pblk(2) [OF assms(1)] p(2) by auto
  show "valid s' (pblk y i)"
    using old new u by (cases "i < j \<or> j * 1024 < nblocks x") (auto simp: valid_def db)
  show "pblk y i \<in> owned s x \<or> \<not> used s (pblk y i)"
    using old new by (cases "i < j \<or> j * 1024 < nblocks x") (auto simp: owned_def)
  show "pblk y i \<noteq> dblk s' y k" if k: "k < K + m"
  proof (cases "i < j \<or> j * 1024 < nblocks x")
    case True
    then show ?thesis
      using old wrote_dblk(1,2) [OF assms(1) k] obj_okD(10) [OF A(1), of i k] by (cases "k < nblocks x") (auto simp: valid_def)
  next
    case False
    then show ?thesis using new wrote_dblk(5) [OF assms(1) k] by auto
  qed
qed

lemma wrote_ok:
  assumes "obj_wrote s s' x y K m j bo p d"
  shows "obj_ok s' y" "owned s' y \<subseteq> owned s x \<union> {b. \<not> used s b}"
proof -
  note A = obj_wroteD [OF assms] and P = wrote_pointers [OF assms] and D = wrote_dblk [OF assms]
  have db: "data_block s' b = data_block s b" for b using A(9) by (simp add: data_block_def keeps_objs_def)
  have "dblk s' y k \<in> owned s x \<or> \<not> used s (dblk s' y k)" if "k < K + m" for k
    using D(1,2) [OF that] by (cases "k < nblocks x") (auto simp: owned_def)
  then show "owned s' y \<subseteq> owned s x \<union> {b. \<not> used s b}"
    using P(4) unfolding owned_def [of s' y] A(11) by auto
  show "obj_ok s' y"
    unfolding obj_ok_def A(11)
  proof (intro conjI allI impI ballI)
    show "0 \<le> o_size y" "o_size y \<le> 16*1024*1024" using A(12,13) by auto
    show "length (data_block_pointers y) = 4" using A(6,10) obj_okD(3) [OF A(1)] by simp
    show "pblk y i = -1" if "i < 4" "K + m \<le> i * 1024" for i
    proof -
      have "j < i" using that(2) A(3,4) by linarith
      then show ?thesis using wrote_pblk(3) [OF assms] that(1) by blast
    qed
    show "valid s' b" if "b \<in> owned s' y" for b
      using that P(2) D(3,4) unfolding owned_def A(11) by (auto simp: valid_def db)
    show "get_int (lblock s' (pblk y i)) e = -1" if "i * 1024 < K + m \<and> e < 1024 \<and> K + m \<le> i * 1024 + e" for i e
    proof -
      have i: "i \<le> j" using P(1) that by blast
      moreover have "j \<le> i"
      proof (rule ccontr)
        assume "\<not> j \<le> i"
        then have "Suc i * 1024 \<le> j * 1024" by (intro mult_le_mono1) simp
        then show False using that A(3) by simp
      qed
      ultimately have "i = j" by simp
      then show ?thesis using wrote_indD(2) [OF A(7), of e] wrote_pblk(2) [OF assms] that A(3) by (simp add: ENTRIES_def BLOCK_SIZE_def)
    qed
    show "inj_on (pblk y) {i. i * 1024 < K + m}"
    proof (rule inj_onI)
      fix a b assume ab: "a \<in> {i. i * 1024 < K + m}" "b \<in> {i. i * 1024 < K + m}" "pblk y a = pblk y b"
      have le: "a \<le> j" "b \<le> j" using P(1) ab by auto
      show "a = b"
      proof (cases "a = j \<or> b = j")
        case True
        then show ?thesis using ab P(5) [of a] P(5) [of b] le wrote_pblk(2) [OF assms] by (metis le_neq_implies_less mem_Collect_eq)
      next
        case False
        then have l: "a < j" "b < j" using le by auto
        then have "pblk x a = pblk x b" using ab(3) wrote_pblk(1) [OF assms] by simp
        then show ?thesis
          using inj_onD [OF obj_okD(8) [OF A(1)], of a b] wrote_pointer_kept(1) [OF assms l(1)] wrote_pointer_kept(1) [OF assms l(2)] by simp
      qed
    qed
    show "inj_on (dblk s' y) {..<K + m}" by (rule wrote_inj [OF assms])
    show "pblk y i \<noteq> dblk s' y k" if "i * 1024 < K + m \<and> k < K + m" for i k using P(3) that by blast
  qed
qed

lemma wrote_contents:
  assumes "obj_wrote s s' x y K m j bo p d"
  shows "k < K \<Longrightarrow> lblock s' (dblk s' y k) = lblock s (dblk s x k)" "t < m \<Longrightarrow> lblock s' (dblk s' y (K + t)) = d (bo + t)"
    "used s b \<Longrightarrow> b \<notin> owned s x \<Longrightarrow> lblock s' b = lblock s b"
proof -
  note A = obj_wroteD [OF assms]
  show "lblock s' (dblk s' y (K + t)) = d (bo + t)" if t: "t < m"
  proof -
    obtain e where e: "K + t = j * 1024 + e" "bo \<le> e" "e < bo + m" "dblk s' y (K + t) = get_int (lblock s' p) e"
      using wrote_dblk_new [OF assms, of "K + t"] t by auto
    then have "e = bo + t" using A(3) by simp
    then show ?thesis using wrote_indD(7) [OF A(7) e(2,3)] e(4) by simp
  qed
  have kept: "lblock s' b = lblock s b" if "b \<noteq> p" "\<And>e. bo \<le> e \<Longrightarrow> e < bo + m \<Longrightarrow> get_int (lblock s' p) e \<noteq> b" for b
    by (rule wrote_indD(10) [OF A(7) that(1) notin_image]) (rule that(2))
  have ent: "get_int (lblock s' p) e = dblk s' y (j * 1024 + e) \<and> j * 1024 + e < K + m \<and> K \<le> j * 1024 + e" if "bo \<le> e" "e < bo + m" for e
  proof -
    have r: "K \<le> j * 1024 + e" "j * 1024 + e < K + m" using that A(3) by auto
    obtain e' where "j * 1024 + e = j * 1024 + e'" "dblk s' y (j * 1024 + e) = get_int (lblock s' p) e'"
      using wrote_dblk_new [OF assms r] by blast
    then show ?thesis using r by simp
  qed
  show "lblock s' (dblk s' y k) = lblock s (dblk s x k)" if "k < K"
  proof -
    have "lblock s' (dblk s' y k) = lblock s (dblk s' y k)"
    proof (rule kept)
      show "dblk s' y k \<noteq> p" using wrote_dblk(5) [OF assms] that by simp
      show "get_int (lblock s' p) e \<noteq> dblk s' y k" if "bo \<le> e" "e < bo + m" for e
        using ent [OF that] inj_onD [OF wrote_inj [OF assms], of k "j * 1024 + e"] \<open>k < K\<close> by auto
    qed
    then show ?thesis using wrote_dblk_kept [OF assms that] by simp
  qed
  show "lblock s' b = lblock s b" if "used s b" "b \<notin> owned s x"
  proof (rule kept)
    show "b \<noteq> p" using wrote_p(1,2) [OF assms] that by (cases "j * 1024 < nblocks x") (auto simp: owned_def)
    show "get_int (lblock s' p) e \<noteq> b" if "bo \<le> e" "e < bo + m" for e
      using wrote_entry [OF assms that] \<open>used s b\<close> \<open>b \<notin> owned s x\<close> by (auto simp: owned_def split: if_splits)
  qed
qed

end
