(* ===== verification/ObjStore.thy ===== *)
theory ObjStore
  imports ObjData
begin

text \<open>
  The object store as a whole.  The contents of an object are the bytes of its data blocks up to its size; the store is
  well formed when every object has its blocks and no two objects share one.  The theory has the
  operations of the file system over the store (\<open>objfs.c\<close>), shows what each of them does to the contents of all objects,
  and which calls go wrong.
\<close>

section \<open>Well-formed stores\<close>

definition live :: "store \<Rightarrow> int \<Rightarrow> bool"
  where "live s i = (o_id (obj s i) \<noteq> 0)"

definition objs_ok :: "store \<Rightarrow> bool"
  where "objs_ok s \<longleftrightarrow> (\<forall>i. live s i \<longrightarrow> obj_ok s (obj s i)) \<and>
    (\<forall>i i'. live s i \<and> live s i' \<and> i \<noteq> i' \<longrightarrow> owned s (obj s i) \<inter> owned s (obj s i') = {})"

lemma objs_okD:
  assumes "objs_ok s"
  shows "live s i \<Longrightarrow> obj_ok s (obj s i)"
    "live s i \<Longrightarrow> live s i' \<Longrightarrow> i \<noteq> i' \<Longrightarrow> owned s (obj s i) \<inter> owned s (obj s i') = {}"
  using assms unfolding objs_ok_def by blast+

lemma upd_obj_fields [simp]:
  "lblock (s\<lparr>obj := f\<rparr>) = lblock s" "used (s\<lparr>obj := f\<rparr>) = used s" "data_block (s\<lparr>obj := f\<rparr>) = data_block s"
  by (simp_all add: fun_eq_iff lblock_def used_def data_block_def)

lemma layout_fields [simp]:
  "valid (s\<lparr>obj := f\<rparr>) = valid s" "dblk (s\<lparr>obj := f\<rparr>) = dblk s" "free_blocks (s\<lparr>obj := f\<rparr>) = free_blocks s"
  by (simp_all add: fun_eq_iff valid_def dblk_def free_blocks_def)

lemma object_fields [simp]:
  "contents (s\<lparr>obj := f\<rparr>) = contents s" "owned (s\<lparr>obj := f\<rparr>) = owned s" "obj_ok (s\<lparr>obj := f\<rparr>) = obj_ok s"
  by (simp_all add: fun_eq_iff contents_def owned_def obj_ok_def)

lemma obj_entries:
  assumes "obj_ok s x" "\<not> pblk x j < 0" "j < 4" "n \<le> 1024" "length (lblock s (pblk x j)) = BLOCK_SIZE"
  shows "entries_ok bo n (lblock s (pblk x j)) s" "e < n \<Longrightarrow> get_int (lblock s (pblk x j)) e \<noteq> pblk x j"
proof -
  have j: "j * 1024 < nblocks x" using no_pointer [OF assms(1,3)] assms(2) by simp
  have E: "if j * 1024 + e < nblocks x then get_int (lblock s (pblk x j)) e = dblk s x (j * 1024 + e)
      else get_int (lblock s (pblk x j)) e = -1" if "e < n" for e
    using obj_okD(7) [OF assms(1) j, of e] that assms(4) div_mod_1024 [of e j] by (auto simp: dblk_def)
  have V: "valid s (dblk s x k)" if "k < nblocks x" for k by (rule obj_okD(6) [OF assms(1) that])
  show "get_int (lblock s (pblk x j)) e \<noteq> pblk x j" if "e < n"
    using E [OF that] obj_okD(10) [OF assms(1) j, of "j * 1024 + e"] assms(2) by (auto split: if_splits)
  show "entries_ok bo n (lblock s (pblk x j)) s"
    unfolding entries_ok_def
  proof (intro conjI allI impI)
    show "length (lblock s (pblk x j)) = BLOCK_SIZE" by (rule assms(5))
    show "get_int (lblock s (pblk x j)) e = -1 \<or> valid s (get_int (lblock s (pblk x j)) e)" if "bo \<le> e \<and> e < n" for e
      using E [of e] V that by (auto split: if_splits)
    fix e e' assume h: "bo \<le> e \<and> e < n \<and> bo \<le> e' \<and> e' < n \<and> get_int (lblock s (pblk x j)) e \<noteq> -1 \<and>
        get_int (lblock s (pblk x j)) e = get_int (lblock s (pblk x j)) e'"
    then have k: "j * 1024 + e < nblocks x" "j * 1024 + e' < nblocks x" "dblk s x (j * 1024 + e) = dblk s x (j * 1024 + e')"
      using E [of e] E [of e'] by (auto split: if_splits)
    show "e = e'" using inj_onD [OF obj_okD(9) [OF assms(1)] k(3)] k(1,2) by simp
  qed
qed

section \<open>Writing\<close>

text \<open>The number of blocks for \<open>n\<close> bytes.\<close>

definition blocks_for :: "nat \<Rightarrow> nat"
  where "blocks_for n = (n + 4095) div 4096"

lemma blocks_for: "n \<le> blocks_for n * BLOCK_SIZE" "0 < n \<Longrightarrow> 0 < blocks_for n" "blocks_for n * BLOCK_SIZE < n + BLOCK_SIZE"
  by (simp_all add: blocks_for_def BLOCK_SIZE_def)

lemma aux_blocks_eq: "aux_blocks (int n) = int (blocks_for n)"
proof -
  have "int n smod int BLOCK_SIZE = int (n mod 4096)" "int n sdiv int BLOCK_SIZE = int (n div 4096)"
    by (cases "n = 0"; simp add: BLOCK_SIZE_def signed_modulo_int_def signed_divide_int_def zdiv_int zmod_int)+
  moreover have "(n + 4095) div 4096 = (if n mod 4096 \<noteq> 0 then n div 4096 + 1 else n div 4096)"
  proof -
    have "(n mod 4096 + 4095) div 4096 = 1" if "n mod 4096 \<noteq> 0" using that mod_less_divisor [of 4096 n] by (intro div_nat_eqI) simp_all
    moreover have "n + 4095 = n div 4096 * 4096 + (n mod 4096 + 4095)" by simp
    then have "(n + 4095) div 4096 = n div 4096 + (n mod 4096 + 4095) div 4096" by (metis div_mult_self3 zero_neq_numeral)
    ultimately show ?thesis by auto
  qed
  ultimately show ?thesis by (simp add: aux_blocks_def blocks_for_def split: if_splits)
qed

lemma to_int_id: "- (2 ^ 31) \<le> x \<Longrightarrow> x < 2 ^ 31 \<Longrightarrow> to_int x = x"
  unfolding to_int_def by (subst sint_sbintrunc') (simp add: signed_take_bit_int_eq_self)

text \<open>The object after a write through pointer \<open>j\<close>.\<close>

definition written :: "object \<Rightarrow> nat \<Rightarrow> int \<Rightarrow> nat \<Rightarrow> object"
  where "written x j p sz = x\<lparr>data_block_pointers := take (Suc j) ((data_block_pointers x)[j := p]) @ replicate (3 - j) (-1), o_size := int sz\<rparr>"

text \<open>A write of \<open>n\<close> bytes at the start of block \<open>K\<close> that does not leave the range of the pointer.\<close>

lemma objstore_write_eq:
  assumes "0 \<le> i" "i < NUM_OBJS" "o_id (obj s i) \<noteq> 0" "0 < n" "n \<le> length buf" "off = (j * 1024 + bo) * BLOCK_SIZE"
    "bo + blocks_for n \<le> 1024" "j < 4" "length (data_block_pointers (obj s i)) = 4" "obj s1 = obj s"
    "write_indirect_block ch (pblk (obj s i) j) bo (take n buf @ replicate (blocks_for n * BLOCK_SIZE - n) 0) 0 (blocks_for n * BLOCK_SIZE) s =
      Some (p, s1)"
  shows "objstore_write ch (i + 2) buf (int n) off s = Some (int n, s1\<lparr>obj := (obj s)(i := written (obj s i) j p (off + n))\<rparr>)"
proof -
  let ?m = "blocks_for n"
  define aux where "aux = take n buf @ replicate (?m * BLOCK_SIZE - n) 0"
  have bo: "bo < 1024" using assms(7) blocks_for(2) [OF assms(4)] by simp
  have K: "off div BLOCK_SIZE div 1024 = j" "off div BLOCK_SIZE mod 1024 = bo" "off mod BLOCK_SIZE = 0"
    using bo by (simp_all add: assms(6))
  have m: "?m \<le> 1024" using assms(7) by simp
  have le: "n \<le> ?m * BLOCK_SIZE" by (rule blocks_for(1))
  then have "off + n \<le> (j * 1024 + (bo + ?m)) * BLOCK_SIZE" by (simp add: assms(6) algebra_simps)
  also have "\<dots> \<le> (j * 1024 + 1024) * BLOCK_SIZE" using assms(7) by (intro mult_le_mono1) simp
  also have "\<dots> \<le> 4 * 1024 * BLOCK_SIZE" using assms(8) by (intro mult_le_mono1) simp
  finally have sz: "off + n \<le> 16777216" by (simp add: BLOCK_SIZE_def)
  have n4: "n \<le> 4194304" using le m mult_le_mono1 [OF m, of BLOCK_SIZE] by (simp add: BLOCK_SIZE_def)
  have aux: "patch (replicate (?m * BLOCK_SIZE) 0) 0 (take n buf) = aux" "length aux = ?m * BLOCK_SIZE"
    using le assms(5) by (simp_all add: patch_def aux_def)
  have js: "[j..<4] = j # [Suc j..<4]" using assms(8) by (simp add: upt_conv_Cons)
  let ?s2 = "upd_obj i (\<lambda>x. x\<lparr>data_block_pointers := (data_block_pointers x)[j := p]\<rparr>) s1"
  have wp: "write_pointers ch i j bo (int n) aux [j..<4] 4 s = Some (Suc j, ?s2)"
  proof -
    have "write_pointers ch i j 0 (int n) aux [Suc j..<4] 4 ?s2 = Some (Suc j, ?s2)"
    proof (cases "Suc j < 4")
      case True
      then show ?thesis using n4 by (simp add: upt_conv_Cons [of "Suc j"])
    next
      case False
      then have "Suc j = 4" using assms(8) by simp
      then show ?thesis by simp
    qed
    then show ?thesis using assms(4) assms(11) [folded aux_def] aux(2) by (simp add: js pblk_def)
  qed
  have "max 4 j = 4" using assms(8) by simp
  moreover have "to_int (int off + int n) = int (off + n)" using sz by (subst to_int_id) simp_all
  moreover have "\<not> int n > 16*1024*1024 - int off" "off < 2 ^ 43" using sz by simp_all
  moreover have "nat (aux_blocks (int n) * int BLOCK_SIZE) = ?m * BLOCK_SIZE" by (simp add: aux_blocks_eq nat_mult_distrib)
  ultimately show ?thesis
    unfolding objstore_write_def idToIndex_def Let_def K
    using assms(1-5,9,10) wp le by (simp add: aux upd_obj_def written_def K)
qed

lemma owned_valid: "obj_ok s x \<Longrightarrow> b \<in> owned s x \<Longrightarrow> valid s b"
  by (simp add: obj_ok_def)

lemma objs_ok_write:
  assumes "objs_ok s" "live s i" "obj_wrote s s1 (obj s i) y K m j bo p d" "o_id y = o_id (obj s i)" "obj s1 = obj s"
  shows "objs_ok (s1\<lparr>obj := (obj s)(i := y)\<rparr>)" "live s l \<Longrightarrow> l \<noteq> i \<Longrightarrow> contents s1 (obj s l) = contents s (obj s l)"
proof -
  have k: "keeps_objs s s1" by (rule obj_wroteD(9) [OF assms(3)])
  have u: "used s1 b" if "used s b" for b using wrote_indD(9) [OF obj_wroteD(7) [OF assms(3)]] that by auto
  have same: "lblock s1 b = lblock s b" if "live s l" "l \<noteq> i" "b \<in> owned s (obj s l)" for l b
  proof (rule wrote_contents(3) [OF assms(3)])
    show "used s b" using owned_valid [OF objs_okD(1) [OF assms(1) that(1)] that(3)] by (simp add: valid_def)
    show "b \<notin> owned s (obj s i)" using objs_okD(2) [OF assms(1,2) that(1)] that(2,3) by blast
  qed
  show "contents s1 (obj s l) = contents s (obj s l)" if "live s l" "l \<noteq> i" for l
    using owned_frame(3) [OF objs_okD(1) [OF assms(1) that(1)]] same [OF that] by blast
  have ow: "owned s1 (obj s l) = owned s (obj s l)" if "live s l" "l \<noteq> i" for l
    using owned_frame(2) [OF objs_okD(1) [OF assms(1) that(1)]] same [OF that] by blast
  have ok: "obj_ok s1 (obj s l)" if "live s l" "l \<noteq> i" for l
    using obj_ok_frame [OF objs_okD(1) [OF assms(1) that(1)], of s1] same [OF that] k u
    by (auto simp: valid_def data_block_def keeps_objs_def)
  have other: "owned s1 y \<inter> owned s (obj s l) = {}" if "live s l" "l \<noteq> i" for l
  proof -
    have "used s b" if "b \<in> owned s (obj s l)" for b
      using owned_valid [OF objs_okD(1) [OF assms(1) \<open>live s l\<close>] that] by (simp add: valid_def)
    then show ?thesis using wrote_ok(2) [OF assms(3)] objs_okD(2) [OF assms(1,2) that(1)] that(2) by blast
  qed
  let ?s = "s1\<lparr>obj := (obj s)(i := y)\<rparr>"
  have lv: "live ?s l = live s l" for l using assms(2,4) by (simp add: live_def)
  show "objs_ok ?s"
    unfolding objs_ok_def lv
  proof (intro conjI allI impI)
    show "obj_ok ?s (obj ?s l)" if "live s l" for l using ok [OF that] wrote_ok(1) [OF assms(3)] by simp
    show "owned ?s (obj ?s l) \<inter> owned ?s (obj ?s l') = {}" if "live s l \<and> live s l' \<and> l \<noteq> l'" for l l'
      using that other [of l] other [of l'] ow [of l] ow [of l'] objs_okD(2) [OF assms(1), of l l']
      by (cases "l = i"; cases "l' = i") (simp_all add: Int_commute)
  qed
qed

lemma contents_write:
  assumes "obj_wrote s s1 x y K m j bo p (\<lambda>e. take BLOCK_SIZE (drop ((e - bo) * BLOCK_SIZE) aux))" "length aux = m * BLOCK_SIZE"
    "K * BLOCK_SIZE \<le> nat (o_size x)" "o_size y = int (K * BLOCK_SIZE + n)" "n \<le> m * BLOCK_SIZE"
    "\<And>b. length (lblock s b) = BLOCK_SIZE" "\<And>b. length (lblock s1 b) = BLOCK_SIZE"
  shows "contents s1 y = take (K * BLOCK_SIZE) (contents s x) @ take n aux"
proof -
  note A = obj_wroteD [OF assms(1)] and C = wrote_contents [OF assms(1)]
  let ?f = "\<lambda>k. lblock s (dblk s x k)" and ?g = "\<lambda>k. lblock s1 (dblk s1 y k)"
  have "concat (map ?g [0..<K]) = concat (map ?f [0..<K])" using C(1) by (intro arg_cong [of _ _ concat] map_cong) auto
  also have "\<dots> = take (K * BLOCK_SIZE) (concat (map ?f [0..<nblocks x]))"
    using take_blocks [of ?f BLOCK_SIZE 0 K "nblocks x"] assms(6) A(2) by simp
  also have "\<dots> = take (K * BLOCK_SIZE) (contents s x)" using assms(3) by (simp add: contents_def)
  finally have low: "concat (map ?g [0..<K]) = take (K * BLOCK_SIZE) (contents s x)" .
  have "map ?g [K..<K + m] = map (\<lambda>t. ?g (K + t)) [0..<m]"
    by (intro nth_equalityI) auto
  also have "\<dots> = map (\<lambda>t. take BLOCK_SIZE (drop (t * BLOCK_SIZE) aux)) [0..<m]" using C(2) by (intro map_cong) auto
  finally have high: "concat (map ?g [K..<K + m]) = aux" using slices [of m BLOCK_SIZE aux] assms(2) by simp
  have "[0..<nblocks y] = [0..<K] @ [K..<K + m]" using split_upt [of 0 K "K + m"] A(11) by simp
  then have "concat (map ?g [0..<nblocks y]) = take (K * BLOCK_SIZE) (contents s x) @ aux" using low high by simp
  then have c: "contents s1 y = take (K * BLOCK_SIZE + n) (take (K * BLOCK_SIZE) (contents s x) @ aux)"
    unfolding contents_def [of s1 y] assms(4) nat_int by (rule arg_cong)
  have "length (take (K * BLOCK_SIZE) (contents s x)) = K * BLOCK_SIZE"
    using length_blocks [of ?g BLOCK_SIZE 0 K] assms(7) unfolding low [symmetric] by simp
  then show ?thesis unfolding c take_append by simp
qed

context block_layer
begin

lemma objstore_write_law:
  assumes "inv s" "objs_ok s" "live s i" "0 \<le> i" "i < NUM_OBJS" "0 < n" "n \<le> length buf" "off = K * BLOCK_SIZE"
    "int off \<le> o_size (obj s i)" "K mod 1024 + blocks_for n \<le> 1024" "off < 16*1024*1024"
    "room s (k + blocks_for n + 3)" "blocks_for n < card (free_blocks s)"
  shows "\<exists>y s'. objstore_write ch (i + 2) buf (int n) off s = Some (int n, s') \<and> obj s' = (obj s)(i := y) \<and>
    o_id y = o_id (obj s i) \<and> o_key y = o_key (obj s i) \<and> o_size y = int (off + n) \<and>
    contents s' y = take off (contents s (obj s i)) @ take n buf \<and>
    (\<forall>l. live s l \<and> l \<noteq> i \<longrightarrow> contents s' (obj s l) = contents s (obj s l)) \<and>
    objs_ok s' \<and> inv s' \<and> room s' k \<and> total_num_disk_blocks s' = total_num_disk_blocks s \<and> create_object_lock s' = create_object_lock s"
proof -
  let ?x = "obj s i" and ?m = "blocks_for n"
  define j bo where "j = K div 1024" and "bo = K mod 1024"
  define aux where "aux = take n buf @ replicate (?m * BLOCK_SIZE - n) 0"
  have ok: "obj_ok s ?x" by (rule objs_okD(1) [OF assms(2,3)])
  have K: "K = j * 1024 + bo" by (simp add: j_def bo_def)
  have "K < 4096" using assms(8,11) by (simp add: BLOCK_SIZE_def)
  then have j: "j < 4" by (simp add: j_def less_mult_imp_div_less)
  have aux: "length aux = ?m * BLOCK_SIZE" "take n aux = take n buf" using blocks_for(1) [of n] assms(7) by (simp_all add: aux_def)
  have bm: "bo + ?m \<le> ENTRIES" using assms(10) by (simp add: bo_def ENTRIES_def BLOCK_SIZE_def)
  have b1: "bo + ?m \<le> 1024" using assms(10) by (simp add: bo_def)
  have len: "length (lblock s b) = BLOCK_SIZE" for b by (rule lengths [OF assms(1)])
  have ent: "valid s (pblk ?x j) \<and> entries_ok bo (bo + ?m) (lblock s (pblk ?x j)) s" if "0 \<le> pblk ?x j"
    using that obj_entries(1) [OF ok _ j _ len, of "bo + ?m"] bm obj_okD(5) [OF ok, of j] no_pointer [OF ok j]
    by (auto simp: ENTRIES_def BLOCK_SIZE_def)
  have np: "get_int (lblock s (pblk ?x j)) e \<noteq> pblk ?x j" if "0 \<le> pblk ?x j" "e < bo + ?m" for e
    using that obj_entries(2) [OF ok _ j _ len, of "bo + ?m" e] bm by (simp add: ENTRIES_def BLOCK_SIZE_def)
  obtain p s1 where W: "write_indirect_block ch (pblk ?x j) bo aux 0 (?m * BLOCK_SIZE) s = Some (p, s1)"
      "wrote_ind bo (bo + ?m) (\<lambda>e. take BLOCK_SIZE (drop ((e - bo) * BLOCK_SIZE) aux))
        (if pblk ?x j < 0 then \<lambda>_. -1 else get_int (lblock s (pblk ?x j))) p s s1"
      "if pblk ?x j < 0 then p \<in> free_blocks s else p = pblk ?x j" "keeps_objs s s1" "inv s1" "room s1 k"
    using write_indirect_law [OF assms(1) total [OF assms(1)] bm aux(1) assms(12), of "pblk ?x j"] ent np assms(13) by blast
  let ?y = "written ?x j p (off + n)"
  have s1: "obj s1 = obj s" using W(4) by (simp add: keeps_objs_def)
  have sz: "off + n \<le> 16*1024*1024"
  proof -
    have "off + n \<le> (j * 1024 + (bo + ?m)) * BLOCK_SIZE" using blocks_for(1) [of n] by (simp add: assms(8) K algebra_simps)
    also have "\<dots> \<le> (j * 1024 + 1024) * BLOCK_SIZE" using assms(10) by (intro mult_le_mono1) (simp add: bo_def)
    also have "\<dots> \<le> 4 * 1024 * BLOCK_SIZE" using j by (intro mult_le_mono1) simp
    finally show ?thesis by (simp add: BLOCK_SIZE_def)
  qed
  have Ks: "K * BLOCK_SIZE \<le> nat (o_size ?x)" using nat_mono [OF assms(9)] unfolding nat_int assms(8) .
  then have Kn: "K \<le> nblocks ?x" by (simp add: nblocks_def BLOCK_SIZE_def)
  have ny: "nblocks ?y = K + ?m" by (simp add: nblocks_def written_def assms(8) BLOCK_SIZE_def blocks_for_def)
  have ow: "obj_wrote s s1 ?x ?y K ?m j bo p (\<lambda>e. take BLOCK_SIZE (drop ((e - bo) * BLOCK_SIZE) aux))"
    unfolding obj_wrote_def using ok Kn K blocks_for(2) [OF assms(6)] b1 j W(2,3,4) ny sz
    by (simp add: written_def)
  have c: "contents s1 ?y = take off (contents s ?x) @ take n buf"
    using contents_write [OF ow aux(1) Ks, of n] assms(8) blocks_for(1) [of n] len lengths [OF W(5)] aux(2) by (simp add: written_def)
  have "objstore_write ch (i + 2) buf (int n) off s = Some (int n, s1\<lparr>obj := (obj s)(i := ?y)\<rparr>)"
    by (rule objstore_write_eq [OF assms(4,5) _ assms(6,7) _ _ j obj_okD(3) [OF ok] s1 W(1) [unfolded aux_def]])
      (use assms(3) b1 in \<open>simp_all add: live_def assms(8) K\<close>)
  then show ?thesis
    using objs_ok_write [OF assms(2,3) ow _ s1] c W(4-6)
    by (intro exI [of _ ?y] exI [of _ "s1\<lparr>obj := (obj s)(i := ?y)\<rparr>"]) (simp add: written_def keeps_objs_def)
qed

end

section \<open>Reading\<close>

lemma nblocks_bound: "k < nblocks x \<longleftrightarrow> k * BLOCK_SIZE < nat (o_size x)"
proof -
  have "k < nblocks x \<longleftrightarrow> Suc k * 4096 \<le> nat (o_size x) + 4095"
    unfolding nblocks_def Suc_le_eq [symmetric] by (rule less_eq_div_iff_mult_less_eq) simp
  then show ?thesis by (simp add: BLOCK_SIZE_def) linarith
qed

text \<open>A part of the contents, read from the blocks that hold it.\<close>

lemma contents_part:
  assumes "\<And>b. length (lblock s b) = BLOCK_SIZE" "K + m \<le> nblocks x" "r + n \<le> m * BLOCK_SIZE" "K * BLOCK_SIZE + r + n \<le> nat (o_size x)"
  shows "take n (drop r (concat (map (\<lambda>k. lblock s (dblk s x k)) [K..<K + m]))) = take n (drop (K * BLOCK_SIZE + r) (contents s x))"
proof -
  let ?f = "\<lambda>k. lblock s (dblk s x k)" let ?C = "concat (map ?f [0..<nblocks x])"
  have "drop (K * BLOCK_SIZE) ?C = concat (map ?f [K..<nblocks x])"
    using drop_blocks [of ?f BLOCK_SIZE 0 K "nblocks x"] assms(1,2) by simp
  then have "concat (map ?f [K..<K + m]) = take (m * BLOCK_SIZE) (drop (K * BLOCK_SIZE) ?C)"
    using take_blocks [of ?f BLOCK_SIZE K m "nblocks x"] assms(1,2) by simp
  then have "take n (drop r (concat (map ?f [K..<K + m]))) = take n (drop (K * BLOCK_SIZE + r) ?C)"
    using assms(3) by (simp add: drop_take min_def add.commute)
  also have "\<dots> = take n (drop (K * BLOCK_SIZE + r) (contents s x))"
    using assms(4) by (simp add: contents_def drop_take min_def)
  finally show ?thesis .
qed

context block_layer
begin

lemma read_indirect_law:
  assumes "inv s" "valid s p" "bo + m \<le> ENTRIES" "room s (k + m + 1)" "length buf = m * BLOCK_SIZE"
    "\<And>e. bo \<le> e \<Longrightarrow> e < bo + m \<Longrightarrow> valid s (get_int (lblock s p) e)"
  shows "\<exists>s'. read_indirect_block ch p bo buf 0 (m * BLOCK_SIZE) s =
      Some (concat (map (\<lambda>t. lblock s (get_int (lblock s p) (bo + t))) [0..<m]), s') \<and>
    keeps_objs s s' \<and> used s' = used s \<and> lblock s' = lblock s \<and> inv s' \<and> room s' k"
proof -
  obtain s1 where s1: "load_block ch p zero_block s = Some (lblock s p, s1)" "keeps_objs s s1" "used s1 = used s" "lblock s1 = lblock s"
      "inv s1" "room s1 (k + m)"
    using load [of s p "k + m" zero_block] assms(1,2,4) by (auto simp: valid_def)
  have v: "valid s1 = valid s" by (rule valid_keeps [OF s1(2,3)])
  obtain s2 where s2: "read_entries ch (lblock s p) bo 0 (m * BLOCK_SIZE) [bo..<ENTRIES] buf s1 =
      Some (concat (map (\<lambda>t. lblock s (get_int (lblock s p) (bo + t))) [0..<m]), s2)"
      "keeps_objs s1 s2" "used s2 = used s1" "lblock s2 = lblock s1" "inv s2" "room s2 k"
    using read_entries_law [OF assms(3,5), of 0 s1 k "lblock s p"] s1 assms(6) by (auto simp: v)
  show ?thesis
    using s1 s2 valid_pos [OF assms(2)] keeps_objs_trans [OF s1(2) s2(2)] by (intro exI [of _ s2]) (simp add: read_indirect_block_def)
qed

lemma read_pointers_law:
  assumes "inv s" "obj_ok s x" "0 < n" "K * BLOCK_SIZE + n \<le> nat (o_size x)" "K mod 1024 + blocks_for n \<le> 1024"
    "room s (k + blocks_for n + 1)"
  shows "\<exists>s'. read_pointers ch x (K div 1024) (K mod 1024) (int n) [K div 1024..<4] (replicate (blocks_for n * BLOCK_SIZE) 0) s =
      Some (concat (map (\<lambda>k. lblock s (dblk s x k)) [K..<K + blocks_for n]), s') \<and>
    keeps_objs s s' \<and> used s' = used s \<and> lblock s' = lblock s \<and> inv s' \<and> room s' k \<and> K + blocks_for n \<le> nblocks x"
proof -
  let ?m = "blocks_for n" and ?j = "K div 1024" and ?bo = "K mod 1024"
  have m: "0 < ?m" using assms(3) blocks_for(2) by simp
  have "(K + (?m - 1)) * BLOCK_SIZE + BLOCK_SIZE = K * BLOCK_SIZE + ?m * BLOCK_SIZE" using m by (cases ?m) (auto simp: algebra_simps)
  then have "(K + (?m - 1)) * BLOCK_SIZE < nat (o_size x)" using blocks_for(3) [of n] assms(4) by linarith
  then have Km: "K + ?m \<le> nblocks x" using m nblocks_bound [of "K + (?m - 1)" x] by linarith
  have K: "K = ?j * 1024 + ?bo" by (simp only: div_mult_mod_eq)
  have jn: "?j * 1024 < nblocks x" using K Km m by linarith
  have j: "?j < 4" using jn obj_okD(11) [OF assms(2)] by linarith
  have bm: "?bo + ?m \<le> ENTRIES" using assms(5) by (simp add: ENTRIES_def BLOCK_SIZE_def)
  have ent: "get_int (lblock s (pblk x ?j)) (?bo + t) = dblk s x (K + t)" if "t < ?m" for t
  proof -
    have e: "?bo + t < 1024" using that assms(5) by simp
    have "K + t = ?j * 1024 + (?bo + t)" using K by linarith
    then show ?thesis unfolding dblk_def by (simp only: div_mod_1024 [OF e])
  qed
  have v: "valid s (get_int (lblock s (pblk x ?j)) e)" if "?bo \<le> e" "e < ?bo + ?m" for e
    using ent [of "e - ?bo"] obj_okD(6) [OF assms(2), of "K + (e - ?bo)"] that Km by simp
  obtain s' where s': "read_indirect_block ch (pblk x ?j) ?bo (replicate (?m * BLOCK_SIZE) 0) 0 (?m * BLOCK_SIZE) s =
      Some (concat (map (\<lambda>t. lblock s (get_int (lblock s (pblk x ?j)) (?bo + t))) [0..<?m]), s')"
      "keeps_objs s s'" "used s' = used s" "lblock s' = lblock s" "inv s'" "room s' k"
    using read_indirect_law [OF assms(1) obj_okD(5) [OF assms(2) jn] bm assms(6) _ v, of "replicate (?m * BLOCK_SIZE) 0"] by auto
  have "map (\<lambda>t. lblock s (get_int (lblock s (pblk x ?j)) (?bo + t))) [0..<?m] = map (\<lambda>k. lblock s (dblk s x k)) [K..<K + ?m]"
    using ent by (intro nth_equalityI) auto
  moreover have "n \<le> 4194304" using blocks_for(1) [of n] assms(5) mult_le_mono1 [of ?m 1024 BLOCK_SIZE] by (simp add: BLOCK_SIZE_def)
  then have "read_pointers ch x ?j 0 (int n) [Suc ?j..<4] b s' = Some (b, s')" for b
    by (cases "Suc ?j < 4") (simp_all add: upt_conv_Cons)
  moreover have "[?j..<4] = ?j # [Suc ?j..<4]" using j by (rule upt_conv_Cons)
  ultimately show ?thesis using s' assms(3) Km by (simp add: pblk_def)
qed

lemma objstore_read_law:
  assumes "inv s" "objs_ok s" "live s i" "0 \<le> i" "i < NUM_OBJS" "int off \<le> o_size (obj s i)" "sz \<le> length buf"
    "n = min sz (nat (o_size (obj s i)) - off)" "off mod BLOCK_SIZE + n \<le> blocks_for n * BLOCK_SIZE"
    "off div BLOCK_SIZE mod 1024 + blocks_for n \<le> 1024" "room s (k + blocks_for n + 1)"
  shows "\<exists>s'. objstore_read ch (i + 2) buf (int sz) off s = Some (int n, take n (drop off (contents s (obj s i))) @ drop n buf, s') \<and>
    keeps_objs s s' \<and> used s' = used s \<and> lblock s' = lblock s \<and> inv s' \<and> room s' k"
proof -
  let ?x = "obj s i" and ?m = "blocks_for n" and ?K = "off div BLOCK_SIZE"
  let ?j = "?K div 1024" and ?bo = "?K mod 1024"
  have ok: "obj_ok s ?x" by (rule objs_okD(1) [OF assms(2,3)])
  have len: "length (lblock s b) = BLOCK_SIZE" for b by (rule lengths [OF assms(1)])
  have o: "nat (o_size ?x) \<le> 16777216" "int (nat (o_size ?x)) = o_size ?x" "off \<le> nat (o_size ?x)"
    using obj_okD(1,2) [OF ok] assms(6) by auto
  have size: "(if int sz > o_size ?x - int off then to_int (o_size ?x - int off) else int sz) = int n"
  proof (cases "int sz > o_size ?x - int off")
    case True
    then have "int n = o_size ?x - int off" using assms(8) o by linarith
    then show ?thesis using True o by (subst to_int_id) auto
  next
    case False
    then show ?thesis using assms(8) o by auto
  qed
  have aux: "nat (aux_blocks (int n) * int BLOCK_SIZE) = ?m * BLOCK_SIZE" by (simp add: aux_blocks_eq nat_mult_distrib)
  have nb: "n \<le> length buf" "off < 2 ^ 43" using assms(7,8) o by auto
  have "\<exists>s'. read_pointers ch ?x ?j ?bo (int n) [?j..<4] (replicate (?m * BLOCK_SIZE) 0) s =
      Some (concat (map (\<lambda>k. lblock s (dblk s ?x k)) [?K..<?K + ?m]), s') \<and>
      keeps_objs s s' \<and> used s' = used s \<and> lblock s' = lblock s \<and> inv s' \<and> room s' k \<and> (n \<noteq> 0 \<longrightarrow> ?K + ?m \<le> nblocks ?x)"
  proof (cases "n = 0")
    case True
    then have "read_pointers ch ?x ?j ?bo (int n) [?j..<4] (replicate (?m * BLOCK_SIZE) 0) s = Some ([], s)"
      by (cases "?j < 4") (simp_all add: upt_conv_Cons blocks_for_def)
    then show ?thesis using assms(1) room_mono [OF assms(11), of k] True by (simp add: blocks_for_def)
  next
    case False
    moreover have "?K * BLOCK_SIZE + n \<le> nat (o_size ?x)" using assms(8) o(3) div_times_less_eq_dividend [of off BLOCK_SIZE] by linarith
    ultimately show ?thesis using read_pointers_law [OF assms(1) ok _ _ assms(10,11)] by blast
  qed
  then obtain s' where s': "read_pointers ch ?x ?j ?bo (int n) [?j..<4] (replicate (?m * BLOCK_SIZE) 0) s =
      Some (concat (map (\<lambda>k. lblock s (dblk s ?x k)) [?K..<?K + ?m]), s')"
      "keeps_objs s s'" "used s' = used s" "lblock s' = lblock s" "inv s'" "room s' k" "n \<noteq> 0 \<longrightarrow> ?K + ?m \<le> nblocks ?x" by blast
  let ?a = "concat (map (\<lambda>k. lblock s (dblk s ?x k)) [?K..<?K + ?m])"
  have la: "length ?a = ?m * BLOCK_SIZE" using length_blocks [of "\<lambda>k. lblock s (dblk s ?x k)", OF len] by simp
  have t: "take n (drop (off mod BLOCK_SIZE) ?a) = take n (drop off (contents s ?x))"
  proof (cases "n = 0")
    case False
    have e: "?K * BLOCK_SIZE + off mod BLOCK_SIZE = off" by (rule div_mult_mod_eq)
    have "?K * BLOCK_SIZE + off mod BLOCK_SIZE + n \<le> nat (o_size ?x)" unfolding e using assms(8) o(3) by auto
    then have "take n (drop (off mod BLOCK_SIZE) ?a) = take n (drop (?K * BLOCK_SIZE + off mod BLOCK_SIZE) (contents s ?x))"
      using contents_part [OF len, of ?K ?m ?x "off mod BLOCK_SIZE" n] s'(7) False assms(9) by blast
    then show ?thesis unfolding e .
  qed simp
  have lt: "length (take n (drop off (contents s ?x))) = n"
    unfolding t [symmetric] using la assms(9) by simp
  have "\<not> i + 2 < 2" "idToIndex (i + 2) = i" "o_id ?x \<noteq> 0" using assms(3,4) by (simp_all add: idToIndex_def live_def)
  then have "objstore_read ch (i + 2) buf (int sz) off s = Some (int n, take n (drop off (contents s ?x)) @ drop n buf, s')"
    unfolding objstore_read_def using assms(5) nb size aux s'(1) la assms(9) t lt by (simp add: Let_def patch_def)
  then show ?thesis using s'(2-6) by blast
qed

end

section \<open>Destroying\<close>

definition clear_set :: "int set \<Rightarrow> store \<Rightarrow> store"
  where "clear_set S s = s\<lparr>block_bitmap := (\<lambda>b. if b \<in> S then 0 else block_bitmap s b)\<rparr>"

lemma clear_set_simps [simp]:
  "clear_set {} s = s" "clear_set S (clear_set T s) = clear_set (S \<union> T) s" "obj (clear_set S s) = obj s" "disk (clear_set S s) = disk s"
  "disk_len (clear_set S s) = disk_len s" "total_num_disk_blocks (clear_set S s) = total_num_disk_blocks s"
  "create_object_lock (clear_set S s) = create_object_lock s" "used (clear_set S s) b \<longleftrightarrow> used s b \<and> b \<notin> S"
  by (auto simp: clear_set_def used_def fun_eq_iff)

lemma blk_inv_clear: "blk_inv False s \<Longrightarrow> blk_inv False (clear_set S s)"
  by (auto simp: clear_set_def blk_inv_def dev_ok_def)

lemma clear_block_bitmap_eq:
  assumes "blk_inv False s" "0 \<le> b" "b < BITMAP_SIZE"
  shows "clear_block_bitmap b s = Some (clear_set {b} s)"
proof -
  have "(\<lambda>c. if c \<in> {b} then 0 else block_bitmap s c) = (block_bitmap s)(b := 0)" by auto
  then show ?thesis
    using assms by (simp add: clear_block_bitmap_def lock_blocks_def unlock_blocks_def clear_set_def blk_inv_def dev_ok_def)
qed

lemma free_entries_eq:
  assumes "blk_inv False s" "\<And>b. b \<in> set (takeWhile (\<lambda>b. b \<noteq> -1) (map (get_int tmp) is)) \<Longrightarrow> 0 \<le> b \<and> b < BITMAP_SIZE"
  shows "free_entries tmp is s = Some (clear_set (set (takeWhile (\<lambda>b. b \<noteq> -1) (map (get_int tmp) is))) s)"
  using assms
proof (induction "is" arbitrary: s)
  case (Cons i "is")
  let ?b = "get_int tmp i"
  show ?case
  proof (cases "?b = -1")
    case False
    then have r: "0 \<le> ?b" "?b < BITMAP_SIZE" using Cons.prems(2) [of ?b] by auto
    have "block_bitmap s ?b \<le> 1" using Cons.prems(1) by (simp add: blk_inv_def)
    then have "\<not> uint (block_bitmap s ?b) > 1" by (simp add: word_le_def)
    then have "free_entries tmp (i # is) s = free_entries tmp is (clear_set {?b} s)"
      using False r clear_block_bitmap_eq [OF Cons.prems(1) r] by (simp add: Let_def)
    then show ?thesis
      using Cons.IH [OF blk_inv_clear [OF Cons.prems(1)]] Cons.prems(2) False by simp
  qed simp
qed simp

lemma takeWhile_upt:
  assumes "c \<le> n" "\<And>e. a \<le> e \<Longrightarrow> e < c \<Longrightarrow> P (f e)" "c < n \<Longrightarrow> \<not> P (f c)" "a \<le> c"
  shows "takeWhile P (map f [a..<n]) = map f [a..<c]"
proof -
  have "takeWhile P (map f [a..<c] @ map f [c..<n]) = map f [a..<c] @ takeWhile P (map f [c..<n])"
    using assms(2) by (intro takeWhile_append2) auto
  moreover have "takeWhile P (map f [c..<n]) = []" using assms(1,3) by (cases "c < n") (simp_all add: upt_conv_Cons)
  ultimately show ?thesis using split_upt [OF assms(4,1)] by simp
qed

lemma uncached_disk: "blk_inv False s \<Longrightarrow> lblock s = disk s"
  by (auto simp: fun_eq_iff lblock_def blk_inv_def not_less dest: leD)

lemma valid_range: "valid s b \<Longrightarrow> blk_inv ch s \<Longrightarrow> 0 \<le> b \<and> b < BITMAP_SIZE \<and> b < disk_len s"
  using data_block_range [of s b] by (auto simp: valid_def blk_inv_def)

text \<open>The blocks under pointer \<open>j\<close>.\<close>

definition under :: "store \<Rightarrow> object \<Rightarrow> nat \<Rightarrow> int set"
  where "under s x j = insert (pblk x j) (dblk s x ` {k. k < nblocks x \<and> k div 1024 = j})"

lemma free_data_block_eq:
  assumes "blk_inv False s" "obj_ok s x" "j * 1024 < nblocks x" "t = clear_set S s"
  shows "free_data_block (pblk x j) t = Some (clear_set (under s x j) t)"
proof -
  let ?p = "pblk x j"
  have inv: "blk_inv False t" unfolding assms(4) by (rule blk_inv_clear [OF assms(1)])
  have p: "0 \<le> ?p" "?p < BITMAP_SIZE" "?p < disk_len t"
    using valid_range [OF obj_okD(5) [OF assms(2,3)] assms(1)] by (auto simp: assms(4))
  define c where "c = min 1024 (nblocks x - j * 1024)"
  have E: "get_int (disk t ?p) e = dblk s x (j * 1024 + e)" if "e < 1024" for e
    unfolding dblk_def div_mod_1024 [OF that] assms(4) using uncached_disk [OF assms(1)] by simp
  have tw: "takeWhile (\<lambda>b. b \<noteq> -1) (map (get_int (disk t ?p)) [0..<ENTRIES]) = map (get_int (disk t ?p)) [0..<c]"
  proof (rule takeWhile_upt)
    show "c \<le> ENTRIES" by (simp add: c_def ENTRIES_def BLOCK_SIZE_def)
    show "get_int (disk t ?p) e \<noteq> -1" if "e < c" for e
    proof -
      have "e < 1024" "j * 1024 + e < nblocks x" using that by (auto simp: c_def)
      then show ?thesis using E valid_pos [OF obj_okD(6) [OF assms(2)]] by simp
    qed
    show "\<not> get_int (disk t ?p) c \<noteq> -1" if "c < ENTRIES"
    proof -
      have c: "c < 1024" "nblocks x \<le> j * 1024 + c" using that by (auto simp: c_def ENTRIES_def BLOCK_SIZE_def)
      show ?thesis using obj_okD(7) [OF assms(2,3) c] uncached_disk [OF assms(1)] by (simp add: assms(4))
    qed
  qed simp
  have m: "map (get_int (disk t ?p)) [0..<c] = map (\<lambda>e. dblk s x (j * 1024 + e)) [0..<c]" using E by (intro map_cong) (auto simp: c_def)
  have i: "(\<lambda>e. j * 1024 + e) ` {0..<c} = {k. k < nblocks x \<and> k div 1024 = j}"
  proof (rule set_eqI)
    fix k
    show "k \<in> (\<lambda>e. j * 1024 + e) ` {0..<c} \<longleftrightarrow> k \<in> {k. k < nblocks x \<and> k div 1024 = j}"
    proof
      assume "k \<in> {k. k < nblocks x \<and> k div 1024 = j}"
      then have "k = j * 1024 + k mod 1024" "k < nblocks x" using div_mult_mod_eq [of k 1024] by auto
      then have "k = j * 1024 + k mod 1024" "k mod 1024 < c" by (auto simp: c_def)
      then show "k \<in> (\<lambda>e. j * 1024 + e) ` {0..<c}" by (intro image_eqI [of _ _ "k mod 1024"]) auto
    qed (auto simp: c_def)
  qed
  have set: "set (map (get_int (disk t ?p)) [0..<c]) = dblk s x ` {k. k < nblocks x \<and> k div 1024 = j}"
    unfolding m i [symmetric] by (simp only: set_map set_upt image_image)
  have "0 \<le> b \<and> b < BITMAP_SIZE" if "b \<in> dblk s x ` {k. k < nblocks x \<and> k div 1024 = j}" for b
    using that valid_range [OF obj_okD(6) [OF assms(2)] assms(1)] by auto
  then have "free_entries (disk t ?p) [0..<ENTRIES] t = Some (clear_set (dblk s x ` {k. k < nblocks x \<and> k div 1024 = j}) t)"
    using free_entries_eq [OF inv, of "disk t ?p" "[0..<ENTRIES]"] unfolding tw set by blast
  then show ?thesis
    using p clear_block_bitmap_eq [OF blk_inv_clear [OF inv] p(1,2)]
    by (simp add: free_data_block_def read_block_def under_def)
qed

lemma free_pointers_eq:
  assumes "blk_inv False s" "obj_ok s x" "j \<le> 4" "t = clear_set S s"
  shows "free_pointers (drop j (data_block_pointers x)) t = Some (clear_set (\<Union> (under s x ` {i. j \<le> i \<and> i * 1024 < nblocks x})) t)"
  using assms(3,4)
proof (induction "4 - j" arbitrary: j t S)
  case 0
  then have "j = 4" by simp
  have e: "{i. 4 \<le> i \<and> i * 1024 < nblocks x} = {}" using obj_okD(11) [OF assms(2)] by auto
  show ?case using obj_okD(3) [OF assms(2)] unfolding \<open>j = 4\<close> e by simp
next
  case (Suc d)
  then have j: "j < 4" by simp
  have dr: "drop j (data_block_pointers x) = pblk x j # drop (Suc j) (data_block_pointers x)"
    using j obj_okD(3) [OF assms(2)] by (simp add: pblk_def Cons_nth_drop_Suc)
  show ?case
  proof (cases "nblocks x \<le> j * 1024")
    case True
    then have e: "{i. j \<le> i \<and> i * 1024 < nblocks x} = {}" by (auto dest: mult_le_mono1 [of j _ 1024])
    show ?thesis using obj_okD(4) [OF assms(2) j True] dr unfolding e by simp
  next
    case False
    then have jn: "j * 1024 < nblocks x" by simp
    have np: "pblk x j \<noteq> -1" using valid_pos [OF obj_okD(5) [OF assms(2) jn]] by simp
    have e: "{i. j \<le> i \<and> i * 1024 < nblocks x} = insert j {i. Suc j \<le> i \<and> i * 1024 < nblocks x}" using jn by auto
    show ?thesis
      unfolding e
      using free_data_block_eq [OF assms(1,2) jn Suc.prems(2)] np dr Suc.hyps(1) [of "Suc j"] Suc.hyps(2) j Suc.prems(2)
      by (simp add: Un_ac)
  qed
qed

lemma Union_under: "\<Union> (under s x ` {i. 0 \<le> i \<and> i * 1024 < nblocks x}) = owned s x"
proof -
  have "k div 1024 * 1024 < nblocks x" if "k < nblocks x" for k using that by (meson div_times_less_eq_dividend le_less_trans)
  then show ?thesis by (auto simp: under_def owned_def)
qed

section \<open>The store as a map from keys to contents\<close>

definition store_ok :: "bool \<Rightarrow> store \<Rightarrow> bool"
  where "store_ok ch s \<longleftrightarrow> blk_inv ch s \<and> objs_ok s \<and> table_ok s \<and> \<not> create_object_lock s"

definition files :: "store \<Rightarrow> u8 list \<Rightarrow> u8 list option"
  where "files s key =
    (case find_object_id key s of
       None \<Rightarrow> None
     | Some oid \<Rightarrow> if oid = -1 then None else Some (contents s (obj s (idToIndex oid))))"

lemma files_cases:
  assumes "table_ok s" "0 \<notin> set key"
  obtains (found) i where "has s i key" "find_object_id key s = Some (i + 2)" "files s key = Some (contents s (obj s i))" "0 \<le> i" "i < NUM_OBJS"
    | (absent) "\<And>i. \<not> has s i key" "find_object_id key s = Some (-1)" "files s key = None"
proof -
  have t: "tab_ok s" "unique_keys s" using assms(1) by (auto simp: table_ok_def)
  show thesis
  proof (cases rule: find_cases [OF t assms(2), case_names found absent])
    case (found i)
    then show thesis by (intro that(1) [of i]) (simp_all add: files_def idToIndex_def)
  next
    case absent
    then show thesis by (intro that(2)) (simp_all add: files_def)
  qed
qed

lemma live_range: "table_ok s \<Longrightarrow> live s i \<Longrightarrow> 0 \<le> i \<and> i < NUM_OBJS"
  by (auto simp: table_ok_def tab_ok_def live_def)

lemma length_contents:
  assumes "blk_inv ch s" "obj_ok s x"
  shows "length (contents s x) = nat (o_size x)"
proof -
  let ?f = "\<lambda>k. lblock s (dblk s x k)"
  have "length (concat (map ?f [0..<nblocks x])) = nblocks x * BLOCK_SIZE"
    using length_blocks [of ?f BLOCK_SIZE 0 "nblocks x"] lblock_length [OF assms(1)] by simp
  moreover have "nat (o_size x) \<le> nblocks x * BLOCK_SIZE" using blocks_for(1) by (simp add: nblocks_def blocks_for_def)
  ultimately show ?thesis by (simp add: contents_def)
qed

text \<open>An operation that keeps the keys and changes the contents of one object.\<close>

lemma files_update:
  assumes "table_ok s" "obj s' = (obj s)(i := y)" "o_id y = o_id (obj s i)" "o_key y = o_key (obj s i)" "has s i key" "name_ok key"
    "\<And>l. live s l \<Longrightarrow> l \<noteq> i \<Longrightarrow> contents s' (obj s l) = contents s (obj s l)" "0 \<notin> set k"
  shows "files s' k = ((files s)(key \<mapsto> contents s' y)) k" "table_ok s'"
proof -
  have f: "o_id (obj s' x) = o_id (obj s x)" "o_key (obj s' x) = o_key (obj s x)" for x by (simp_all add: assms(2-4))
  show "table_ok s'" using assms(1) table_ok_cong [of s' s] f by simp
  have fk: "find_object_id k s' = find_object_id k s"
    by (rule find_cong [OF _ assms(8) f]) (use assms(1) in \<open>simp add: table_ok_def\<close>)
  show "files s' k = ((files s)(key \<mapsto> contents s' y)) k"
  proof (cases rule: files_cases [OF assms(1,8), case_names found absent])
    case (found x)
    have "x = i \<longleftrightarrow> k = key"
    proof
      assume "x = i"
      then show "k = key" using found(1) assms(5) strncpy_inj [OF assms(6,8)] unfolding has_def by metis
    next
      assume "k = key"
      then show "x = i" using found(1) assms(1,5) unfolding table_ok_def unique_keys_def has_def by metis
    qed
    moreover have "live s x" using found(1) by (simp add: live_def has_def)
    ultimately show ?thesis using found assms(7) [of x] fk by (cases "x = i") (simp_all add: files_def idToIndex_def assms(2))
  next
    case absent
    then have "k \<noteq> key" using assms(5) by blast
    then show ?thesis using absent fk by (simp add: files_def)
  qed
qed

lemma objs_ok_remove:
  assumes "objs_ok s" "obj s' = (obj s)(i := y)" "o_id y = 0"
    "\<And>l. live s l \<Longrightarrow> l \<noteq> i \<Longrightarrow> obj_ok s' (obj s l) \<and> owned s' (obj s l) = owned s (obj s l)"
  shows "objs_ok s'"
proof -
  have l: "live s' x \<longleftrightarrow> live s x \<and> x \<noteq> i" for x using assms(2,3) by (simp add: live_def)
  show ?thesis
    unfolding objs_ok_def l
  proof (intro conjI allI impI)
    show "obj_ok s' (obj s' x)" if "live s x \<and> x \<noteq> i" for x using assms(2,4) that by simp
    show "owned s' (obj s' x) \<inter> owned s' (obj s' z) = {}" if "(live s x \<and> x \<noteq> i) \<and> (live s z \<and> z \<noteq> i) \<and> x \<noteq> z" for x z
      using assms(4) [of x] assms(4) [of z] objs_okD(2) [OF assms(1), of x z] that by (simp add: assms(2))
  qed
qed

lemma files_remove:
  assumes "table_ok s" "obj s' = (obj s)(i := y)" "o_id y = 0" "has s i key" "name_ok key"
    "\<And>l. live s l \<Longrightarrow> l \<noteq> i \<Longrightarrow> contents s' (obj s l) = contents s (obj s l)" "0 \<notin> set k"
  shows "files s' k = ((files s)(key := None)) k"
proof (cases "k = key")
  case True
  then show ?thesis using find_remove [OF assms(1,4,5,3,2,7)] by (simp add: files_def)
next
  case False
  have f: "find_object_id k s' = find_object_id k s" using find_remove [OF assms(1,4,5,3,2,7)] False by simp
  show ?thesis
  proof (cases rule: files_cases [OF assms(1,7), case_names found absent])
    case (found x)
    have "x \<noteq> i" using found(1) assms(4) strncpy_inj [OF assms(5,7)] False unfolding has_def by metis
    then show ?thesis using found assms(6) [of x] f False by (simp add: files_def idToIndex_def assms(2) live_def has_def)
  next
    case absent
    then show ?thesis using f False by (simp add: files_def)
  qed
qed

text \<open>Destroying an object in the build without the cache.\<close>

lemma destroy_law:
  assumes "store_ok False s" "has s i key" "name_ok key"
  shows "\<exists>s'. destroy_object key s = Some (0, s') \<and> obj s' = (obj s)(i := (obj s i)\<lparr>o_id := 0\<rparr>) \<and>
    (\<forall>b. used s' b \<longleftrightarrow> used s b \<and> b \<notin> owned s (obj s i)) \<and> store_ok False s' \<and>
    (\<forall>k. 0 \<notin> set k \<longrightarrow> files s' k = ((files s)(key := None)) k)"
proof -
  have S: "blk_inv False s" "objs_ok s" "table_ok s" "\<not> create_object_lock s" using assms(1) by (auto simp: store_ok_def)
  have z: "0 \<notin> set key" using assms(3) by (simp add: name_ok_def)
  have lv: "live s i" using assms(2) by (simp add: live_def has_def)
  have f: "find_object_id key s = Some (i + 2)" using find_has [OF _ _ z assms(2)] S(3) by (simp add: table_ok_def)
  have ok: "obj_ok s (obj s i)" by (rule objs_okD(1) [OF S(2) lv])
  let ?t = "clear_set (owned s (obj s i)) s" let ?s = "?t\<lparr>obj := (obj s)(i := (obj s i)\<lparr>o_id := 0\<rparr>)\<rparr>"
  have fp: "free_pointers (data_block_pointers (obj s i)) s = Some ?t"
    using free_pointers_eq [OF S(1) ok, of 0 s "{}"] Union_under [of s "obj s i"] by simp
  have d: "destroy_object key s = Some (0, ?s)"
    using f fp lv live_range [OF S(3) lv] by (simp add: destroy_object_def idToIndex_def upd_obj_def live_def)
  have inv: "blk_inv False ?s" using blk_inv_clear [OF S(1)] by simp
  have lb: "lblock ?t = lblock s" using uncached_disk [OF blk_inv_clear [OF S(1)]] uncached_disk [OF S(1)] by simp
  have u: "used ?s b \<longleftrightarrow> used s b \<and> b \<notin> owned s (obj s i)" for b by simp
  have ow: "owned ?t x = owned s x" "contents ?t x = contents s x" for x using lb by (simp_all add: owned_def contents_def dblk_def fun_eq_iff)
  have other: "obj_ok ?s (obj s l) \<and> owned ?s (obj s l) = owned s (obj s l)" if "live s l" "l \<noteq> i" for l
  proof
    show "obj_ok ?s (obj s l)"
      using objs_okD(2) [OF S(2) that(1) lv that(2)] u
      by (intro obj_ok_frame [OF objs_okD(1) [OF S(2) that(1)]]) (auto simp: lb valid_def data_block_def)
  qed (simp add: ow)
  have "objs_ok ?s" by (rule objs_ok_remove [OF S(2) _ _ other, of i "(obj s i)\<lparr>o_id := 0\<rparr>"]) simp_all
  moreover have "table_ok ?s" by (rule table_ok_remove [OF S(3), of "(obj s i)\<lparr>o_id := 0\<rparr>" _ i]) simp_all
  ultimately have "store_ok False ?s" using inv S(4) by (simp add: store_ok_def)
  moreover have "files ?s k = ((files s)(key := None)) k" if "0 \<notin> set k" for k
    by (rule files_remove [OF S(3) _ _ assms(2,3) _ that, of _ "(obj s i)\<lparr>o_id := 0\<rparr>"]) (simp_all add: ow)
  ultimately show ?thesis using d u by (intro exI [of _ ?s]) simp
qed

section \<open>The file system\<close>

text \<open>
  The operations of \<open>objfs.c\<close> that FUSE calls, with the result codes of \<open>errno.h\<close>.  A path is a slash and the key of an
  object.  Opening a file gives a handle, which is the number of the object.
\<close>

definition ENOENT :: int where "ENOENT = 2"
definition EBADF :: int where "EBADF = 9"
definition EEXIST :: int where "EEXIST = 17"
definition EINVAL :: int where "EINVAL = 22"
definition ROOT_OBJID :: int where "ROOT_OBJID = 1"

text \<open>The result of \<open>objfs_getattr\<close> has \<open>st_ino\<close> and, for a file, \<open>st_size\<close> and \<open>st_blocks\<close>.\<close>

definition objfs_getattr :: "bool \<Rightarrow> u8 list \<Rightarrow> store \<Rightarrow> (int \<times> (int \<times> (int \<times> int) option) option \<times> store) option"
  where "objfs_getattr ch key s =
    (if key = [47] then Some (0, Some (ROOT_OBJID, None), s)
     else do {
       c_assert (key \<noteq> []);
       retval \<leftarrow> find_object_id (tl key) s;
       if retval < 0 then Some (- ENOENT, None, s)
       else do {
         (r, st, s) \<leftarrow> fillup_size_details ch retval s;
         if r < 0 then Some (- EBADF, None, s) else Some (0, Some (retval, st), s) } })"

definition objfs_unlink :: "u8 list \<Rightarrow> store \<Rightarrow> (int \<times> store) option"
  where "objfs_unlink key s = do {
    c_assert (key \<noteq> []);
    (_, s) \<leftarrow> destroy_object (tl key) s;
    Some (0, s) }"

definition objfs_rename_key :: "u8 list \<Rightarrow> u8 list \<Rightarrow> store \<Rightarrow> (int \<times> store) option"
  where "objfs_rename_key oldkey newkey s = do {
    c_assert (oldkey \<noteq> [] \<and> newkey \<noteq> []);
    (r, s) \<leftarrow> rename_object (tl oldkey) (tl newkey) s;
    if r < 0 then Some (- EINVAL, s) else Some (0, s) }"

text \<open>The handle, where there is one, is part of the result.\<close>

definition objfs_create :: "u8 list \<Rightarrow> store \<Rightarrow> (int \<times> int option \<times> store) option"
  where "objfs_create key s = do {
    c_assert (key \<noteq> []);
    (retval, s) \<leftarrow> create_object (tl key) s;
    if retval < 0 then Some (- EEXIST, None, s) else Some (0, Some retval, s) }"

definition objfs_open :: "u8 list \<Rightarrow> store \<Rightarrow> (int \<times> int option) option"
  where "objfs_open key s = do {
    c_assert (key \<noteq> []);
    retval \<leftarrow> find_object_id (tl key) s;
    if retval < 0 then Some (- ENOENT, None) else Some (0, Some retval) }"

definition objfs_read :: "bool \<Rightarrow> u8 list \<Rightarrow> nat \<Rightarrow> nat \<Rightarrow> int \<Rightarrow> store \<Rightarrow> (int \<times> u8 list \<times> store) option"
  where "objfs_read ch buf sz offset fh s = do {
    (retval, buf, s) \<leftarrow> objstore_read ch fh buf (to_int (int sz)) offset s;
    if retval < 0 then Some (- EINVAL, buf, s) else Some (retval, buf, s) }"

definition objfs_write :: "bool \<Rightarrow> u8 list \<Rightarrow> nat \<Rightarrow> nat \<Rightarrow> int \<Rightarrow> store \<Rightarrow> (int \<times> store) option"
  where "objfs_write ch buf sz offset fh s = do {
    (retval, s) \<leftarrow> objstore_write ch fh buf (to_int (int sz)) offset s;
    if retval < 0 then Some (- EINVAL, s) else Some (retval, s) }"

definition objfs_release :: "int \<Rightarrow> store \<Rightarrow> int \<times> store"
  where "objfs_release fh s = (let (_, s) = release_object fh s in (- EINVAL, s))"

subsection \<open>The abstract file system\<close>

text \<open>
  The operations on files.  A write goes through a handle that was opened for the path.
\<close>

datatype fs_op =
    Create "u8 list"
  | Write "u8 list" nat "u8 list"
  | Rename "u8 list" "u8 list"
  | Unlink "u8 list"

definition exec_op :: "bool \<Rightarrow> fs_op \<Rightarrow> store \<Rightarrow> (int \<times> store) option"
  where "exec_op ch op s =
    (case op of
       Create key \<Rightarrow> do { (r, _, s) \<leftarrow> objfs_create (47 # key) s; Some (r, s) }
     | Write key offset d \<Rightarrow> do {
         (r, fh) \<leftarrow> objfs_open (47 # key) s;
         (case fh of None \<Rightarrow> Some (r, s) | Some h \<Rightarrow> objfs_write ch d (length d) offset h s) }
     | Rename key newkey \<Rightarrow> objfs_rename_key (47 # key) (47 # newkey) s
     | Unlink key \<Rightarrow> objfs_unlink (47 # key) s)"

primrec abs_op :: "fs_op \<Rightarrow> (u8 list \<rightharpoonup> u8 list) \<Rightarrow> (u8 list \<rightharpoonup> u8 list)"
  where
    "abs_op (Create key) m = m(key \<mapsto> [])"
  | "abs_op (Write key offset d) m = m(key \<mapsto> take offset (the (m key)) @ d)"
  | "abs_op (Rename key newkey) m = m(newkey := m key, key := None)"
  | "abs_op (Unlink key) m = m(key := None)"

text \<open>
  When the operations are used as the store supports them: a write starts at a block boundary inside the file or at its
  end and stays in the range of one pointer, and there are enough free blocks and pages.
\<close>

definition has_slot :: "store \<Rightarrow> bool"
  where "has_slot s \<longleftrightarrow> (\<exists>i. 0 \<le> i \<and> i < NUM_OBJS \<and> o_id (obj s i) = 0)"

definition write_fits :: "bool \<Rightarrow> nat \<Rightarrow> nat \<Rightarrow> store \<Rightarrow> bool"
  where "write_fits ch offset n s \<longleftrightarrow> offset mod BLOCK_SIZE = 0 \<and> 0 < n \<and> offset < 16*1024*1024 \<and>
    offset div BLOCK_SIZE mod 1024 + blocks_for n \<le> 1024 \<and> cache_room ch s (blocks_for n + 3) \<and> blocks_for n < card (free_blocks s)"

primrec op_ok :: "bool \<Rightarrow> fs_op \<Rightarrow> store \<Rightarrow> bool"
  where
    "op_ok ch (Create key) s \<longleftrightarrow> name_ok key \<and> files s key = None \<and> has_slot s"
  | "op_ok ch (Write key offset d) s \<longleftrightarrow> name_ok key \<and> write_fits ch offset (length d) s \<and>
       (case files s key of None \<Rightarrow> False | Some c \<Rightarrow> offset \<le> length c)"
  | "op_ok ch (Rename key newkey) s \<longleftrightarrow> name_ok key \<and> name_ok newkey \<and> files s key \<noteq> None \<and> files s newkey = None \<and> has_slot s"
  | "op_ok ch (Unlink key) s \<longleftrightarrow> name_ok key \<and> files s key \<noteq> None \<and> \<not> ch"

subsection \<open>Refinement\<close>

lemma layout_cong [simp]:
  "nblocks (x\<lparr>o_id := a\<rparr>) = nblocks x" "nblocks (x\<lparr>o_key := b\<rparr>) = nblocks x" "pblk (x\<lparr>o_id := a\<rparr>) = pblk x" "pblk (x\<lparr>o_key := b\<rparr>) = pblk x"
  by (simp_all add: nblocks_def pblk_def fun_eq_iff)

lemma dblk_cong [simp]: "dblk s (x\<lparr>o_id := a\<rparr>) = dblk s x" "dblk s (x\<lparr>o_key := b\<rparr>) = dblk s x"
  by (simp_all add: dblk_def fun_eq_iff)

lemma object_cong [simp]:
  "contents s (x\<lparr>o_id := a\<rparr>) = contents s x" "contents s (x\<lparr>o_key := b\<rparr>) = contents s x"
  "owned s (x\<lparr>o_id := a\<rparr>) = owned s x" "owned s (x\<lparr>o_key := b\<rparr>) = owned s x"
  "obj_ok s (x\<lparr>o_id := a\<rparr>) = obj_ok s x" "obj_ok s (x\<lparr>o_key := b\<rparr>) = obj_ok s x"
  by (simp_all add: contents_def owned_def obj_ok_def)

lemma new_object_ok: "obj_ok s (new_object i key)" "owned s (new_object i key) = {}" "contents s (new_object i key) = []"
  by (simp_all add: new_object_def obj_ok_def owned_def contents_def nblocks_def pblk_def)

lemma create_refines:
  assumes "store_ok ch s" "name_ok key" "files s key = None" "has_slot s"
  shows "\<exists>i s'. create_object key s = Some (i + 2, s') \<and> 0 \<le> i \<and> store_ok ch s' \<and>
    (\<forall>k. 0 \<notin> set k \<longrightarrow> files s' k = ((files s)(key \<mapsto> [])) k)"
proof -
  have S: "blk_inv ch s" "objs_ok s" "table_ok s" "\<not> create_object_lock s" using assms(1) by (auto simp: store_ok_def)
  have z: "0 \<notin> set key" using assms(2) by (simp add: name_ok_def)
  have no: "\<not> has s i key" for i using assms(3) by (cases rule: files_cases [OF S(3) z]) auto
  obtain f where f: "0 \<le> f" "f < NUM_OBJS" "o_id (obj s f) = 0" using assms(4) by (auto simp: has_slot_def)
  obtain i where i: "create_object key s = Some (i + 2, s\<lparr>obj := (obj s)(i := new_object i key)\<rparr>)" "0 \<le> i" "i < NUM_OBJS" "o_id (obj s i) = 0"
    using create_absent [OF S(4,3) assms(2) no f] by blast
  let ?s = "s\<lparr>obj := (obj s)(i := new_object i key)\<rparr>"
  have "objs_ok ?s"
    using S(2) i(4) new_object_ok unfolding objs_ok_def live_def by (auto simp: new_object_def [of i key, symmetric])
  then have "store_ok ch ?s" using S table_ok_create [OF S(3) assms(2) i(4,2,3) no] by (simp add: store_ok_def)
  moreover have "files ?s k = ((files s)(key \<mapsto> [])) k" if k: "0 \<notin> set k" for k
  proof (cases rule: files_cases [OF S(3) k, case_names found absent])
    case (found x)
    then have "x \<noteq> i" "k \<noteq> key" using i(4) no by (auto simp: has_def)
    then show ?thesis using found find_create [OF S(3) assms(2) i(4,2,3) no k] by (simp add: files_def idToIndex_def)
  next
    case absent
    then show ?thesis using find_create [OF S(3) assms(2) i(4,2,3) no k] i(2) by (simp add: files_def idToIndex_def new_object_ok)
  qed
  ultimately show ?thesis using i(1,2) by blast
qed

lemma objs_ok_move:
  assumes "objs_ok s" "live s i" "\<not> live s j" "obj s' = (obj s)(j := (obj s i)\<lparr>o_id := a, o_key := b\<rparr>, i := (obj s i)\<lparr>o_id := 0\<rparr>)"
    "\<And>x. obj_ok s' x = obj_ok s x" "\<And>x. owned s' x = owned s x"
  shows "objs_ok s'"
proof -
  define g where "g l = (if l = j then i else l)" for l
  have ij: "i \<noteq> j" using assms(2,3) by auto
  have same: "obj_ok s' (obj s' l) = obj_ok s (obj s (g l))" "owned s' (obj s' l) = owned s (obj s (g l))" "live s (g l)" if "live s' l" for l
    using that assms(2,3) ij by (auto simp: assms(4-6) g_def live_def split: if_splits)
  have inj: "g l \<noteq> g l'" if "live s' l" "live s' l'" "l \<noteq> l'" for l l'
    using that ij assms(3) by (auto simp: assms(4) g_def live_def split: if_splits)
  show ?thesis
    unfolding objs_ok_def
    using objs_okD(1) [OF assms(1) same(3)] objs_okD(2) [OF assms(1) same(3) same(3) inj] same(1,2) by simp
qed

lemma rename_refines:
  assumes "store_ok ch s" "name_ok key" "name_ok newkey" "files s key \<noteq> None" "files s newkey = None" "has_slot s"
  shows "\<exists>j s'. rename_object key newkey s = Some (j + 2, s') \<and> 0 \<le> j \<and> store_ok ch s' \<and>
    (\<forall>k. 0 \<notin> set k \<longrightarrow> files s' k = ((files s)(newkey := files s key, key := None)) k)"
proof -
  have S: "blk_inv ch s" "objs_ok s" "table_ok s" "\<not> create_object_lock s" using assms(1) by (auto simp: store_ok_def)
  have z: "0 \<notin> set key" "0 \<notin> set newkey" using assms(2,3) by (auto simp: name_ok_def)
  obtain i where i: "has s i key" "find_object_id key s = Some (i + 2)" "files s key = Some (contents s (obj s i))" "0 \<le> i"
    using assms(4) by (cases rule: files_cases [OF S(3) z(1)]) auto
  have no: "find_object_id newkey s = Some (-1)" using assms(5) by (cases rule: files_cases [OF S(3) z(2)]) auto
  obtain f where f: "0 \<le> f" "f < NUM_OBJS" "o_id (obj s f) = 0" using assms(6) by (auto simp: has_slot_def)
  obtain j s' where j: "rename_object key newkey s = Some (j + 2, s')" "o_id (obj s j) = 0"
      "s' = s\<lparr>obj := (obj s)(j := (obj s i)\<lparr>o_id := j + 2, o_key := strncpy32 newkey\<rparr>, i := (obj s i)\<lparr>o_id := 0\<rparr>)\<rparr>" "table_ok s'"
      "\<And>k. 0 \<notin> set k \<Longrightarrow> find_object_id k s' =
        (if k = newkey then Some (j + 2) else if k = key then Some (-1) else find_object_id k s)" and j0: "0 \<le> j"
    using rename_law [OF S(4,3) assms(2,3) i(2,4) no f] by blast
  have lv: "live s i" "\<not> live s j" using i(1) j(2) by (auto simp: has_def live_def)
  then have ij: "i \<noteq> j" by auto
  have "objs_ok s'" by (rule objs_ok_move [OF S(2) lv]) (simp_all add: j(3))
  then have "store_ok ch s'" using S(1,4) j(4) by (simp add: store_ok_def j(3))
  moreover have "files s' k = ((files s)(newkey := files s key, key := None)) k" if k: "0 \<notin> set k" for k
  proof -
    have nk: "newkey \<noteq> key" using no i(2,4) by auto
    consider "k = newkey" | "k = key" | "k \<noteq> newkey" "k \<noteq> key" by blast
    then show ?thesis
    proof cases
      case 1
      have "obj s' j = (obj s i)\<lparr>o_id := j + 2, o_key := strncpy32 newkey\<rparr>" using ij by (simp add: j(3))
      then have "contents s' (obj s' j) = contents s (obj s i)" by (simp add: j(3))
      then show ?thesis using 1 nk j(5) [OF k] j0 i(3) by (simp add: files_def idToIndex_def)
    next
      case 2
      then show ?thesis using nk j(5) [OF k] by (simp add: files_def)
    next
      case 3
      have fk: "find_object_id k s' = find_object_id k s" using j(5) [OF k] 3 by simp
      show ?thesis
      proof (cases rule: files_cases [OF S(3) k, case_names found absent])
        case (found x)
        have "x \<noteq> j" using found(1) j(2) by (auto simp: has_def)
        moreover have "x \<noteq> i" using found(1) i(1) 3(2) strncpy_inj [OF assms(2) k] unfolding has_def by metis
        ultimately have "obj s' x = obj s x" by (simp add: j(3))
        then have "contents s' (obj s' x) = contents s (obj s x)" by (simp add: j(3))
        then show ?thesis using fk 3 found(2-4) by (simp add: files_def idToIndex_def)
      next
        case absent
        then show ?thesis using fk 3 by (simp add: files_def)
      qed
    qed
  qed
  ultimately show ?thesis using j(1) j0 by blast
qed

lemma write_law:
  assumes "blk_inv ch s" "objs_ok s" "live s i" "0 \<le> i" "i < NUM_OBJS" "0 < n" "n \<le> length buf" "off = K * BLOCK_SIZE"
    "int off \<le> o_size (obj s i)" "K mod 1024 + blocks_for n \<le> 1024" "off < 16*1024*1024"
    "cache_room ch s (k + blocks_for n + 3)" "blocks_for n < card (free_blocks s)"
  shows "\<exists>y s'. objstore_write ch (i + 2) buf (int n) off s = Some (int n, s') \<and> obj s' = (obj s)(i := y) \<and>
    o_id y = o_id (obj s i) \<and> o_key y = o_key (obj s i) \<and> o_size y = int (off + n) \<and>
    contents s' y = take off (contents s (obj s i)) @ take n buf \<and>
    (\<forall>l. live s l \<and> l \<noteq> i \<longrightarrow> contents s' (obj s l) = contents s (obj s l)) \<and>
    objs_ok s' \<and> blk_inv ch s' \<and> cache_room ch s' k \<and> total_num_disk_blocks s' = total_num_disk_blocks s \<and> create_object_lock s' = create_object_lock s"
proof (cases ch)
  case True
  then have ch: "ch = True" by simp
  show ?thesis using cached.objstore_write_law [OF assms [unfolded ch]] unfolding ch .
next
  case False
  then have ch: "ch = False" by simp
  show ?thesis using uncached.objstore_write_law [OF assms [unfolded ch]] unfolding ch .
qed

lemma read_law:
  assumes "blk_inv ch s" "objs_ok s" "live s i" "0 \<le> i" "i < NUM_OBJS" "int off \<le> o_size (obj s i)" "sz \<le> length buf"
    "n = min sz (nat (o_size (obj s i)) - off)" "off mod BLOCK_SIZE + n \<le> blocks_for n * BLOCK_SIZE"
    "off div BLOCK_SIZE mod 1024 + blocks_for n \<le> 1024" "cache_room ch s (k + blocks_for n + 1)"
  shows "\<exists>s'. objstore_read ch (i + 2) buf (int sz) off s = Some (int n, take n (drop off (contents s (obj s i))) @ drop n buf, s') \<and>
    keeps_objs s s' \<and> used s' = used s \<and> lblock s' = lblock s \<and> blk_inv ch s' \<and> cache_room ch s' k"
proof (cases ch)
  case True
  then have ch: "ch = True" by simp
  show ?thesis using cached.objstore_read_law [OF assms [unfolded ch]] unfolding ch .
next
  case False
  then have ch: "ch = False" by simp
  show ?thesis using uncached.objstore_read_law [OF assms [unfolded ch]] unfolding ch .
qed

lemma write_refines:
  assumes "store_ok ch s" "name_ok key" "write_fits ch off (length d) s" "files s key = Some c" "off \<le> length c"
  shows "\<exists>i s'. find_object_id key s = Some (i + 2) \<and> 0 \<le> i \<and> objstore_write ch (i + 2) d (int (length d)) off s = Some (int (length d), s') \<and>
    store_ok ch s' \<and> length d \<le> 4194304 \<and> (\<forall>k. 0 \<notin> set k \<longrightarrow> files s' k = ((files s)(key \<mapsto> take off c @ d)) k)"
proof -
  have S: "blk_inv ch s" "objs_ok s" "table_ok s" "\<not> create_object_lock s" using assms(1) by (auto simp: store_ok_def)
  have z: "0 \<notin> set key" using assms(2) by (simp add: name_ok_def)
  have F: "off mod BLOCK_SIZE = 0" "0 < length d" "off < 16*1024*1024" "off div BLOCK_SIZE mod 1024 + blocks_for (length d) \<le> 1024"
    "cache_room ch s (0 + blocks_for (length d) + 3)" "blocks_for (length d) < card (free_blocks s)" using assms(3) by (auto simp: write_fits_def)
  obtain i where i: "has s i key" "find_object_id key s = Some (i + 2)" "c = contents s (obj s i)" "0 \<le> i" "i < NUM_OBJS"
    using assms(4) by (cases rule: files_cases [OF S(3) z]) auto
  have lv: "live s i" using i(1) by (simp add: live_def has_def)
  have o: "int off \<le> o_size (obj s i)"
    using assms(5) length_contents [OF S(1) objs_okD(1) [OF S(2) lv]] obj_okD(1) [OF objs_okD(1) [OF S(2) lv]] i(3) by simp
  have off: "off = off div BLOCK_SIZE * BLOCK_SIZE" using F(1) by auto
  obtain y s' where w: "objstore_write ch (i + 2) d (int (length d)) off s = Some (int (length d), s')" "obj s' = (obj s)(i := y)"
      "o_id y = o_id (obj s i)" "o_key y = o_key (obj s i)" "contents s' y = take off c @ d"
      "\<And>l. live s l \<Longrightarrow> l \<noteq> i \<Longrightarrow> contents s' (obj s l) = contents s (obj s l)" "objs_ok s'" "blk_inv ch s'"
      "create_object_lock s' = create_object_lock s"
    using write_law [OF S(1,2) lv i(4,5) F(2) order_refl off o F(4,3,5,6)] i(3) by auto
  have "store_ok ch s'"
    using w(7-9) S(4) files_update(2) [OF S(3) w(2-4) i(1) assms(2) w(6) z] by (simp add: store_ok_def)
  moreover have "length d \<le> 4194304"
    using blocks_for(1) [of "length d"] F(4) mult_le_mono1 [of "blocks_for (length d)" 1024 BLOCK_SIZE] by (simp add: BLOCK_SIZE_def)
  ultimately show ?thesis
    using i(2,4) w(1) files_update(1) [OF S(3) w(2-4) i(1) assms(2) w(6)] unfolding w(5) by blast
qed

lemma open_key: "find_object_id key s = Some (i + 2) \<Longrightarrow> 0 \<le> i \<Longrightarrow> objfs_open (47 # key) s = Some (0, Some (i + 2))"
  by (simp add: objfs_open_def)

text \<open>
  C2: The file system over the object store is a map from names to contents.  Creating a file adds an empty one; writing
  \<open>d\<close> at a block boundary of a file keeps what is before it and makes \<open>d\<close> the rest; renaming moves the contents to a new
  name; and, in the build without the cache, unlinking removes the file.  Each operation succeeds, no other file changes,
  and the store stays well formed.
\<close>

theorem store_refines_files:
  assumes "store_ok ch s" "op_ok ch op s"
  shows "\<exists>r s'. exec_op ch op s = Some (r, s') \<and> 0 \<le> r \<and> store_ok ch s' \<and>
    (\<forall>k. 0 \<notin> set k \<longrightarrow> files s' k = abs_op op (files s) k)"
proof (cases op)
  case (Create key)
  have "name_ok key" "files s key = None" "has_slot s" using assms(2) by (simp_all add: Create)
  then obtain i s' where "create_object key s = Some (i + 2, s')" "0 \<le> i" "store_ok ch s'"
      "\<forall>k. 0 \<notin> set k \<longrightarrow> files s' k = ((files s)(key \<mapsto> [])) k"
    using create_refines [OF assms(1)] by blast
  then show ?thesis by (simp add: Create exec_op_def objfs_create_def)
next
  case (Write key off d)
  then obtain c where c: "name_ok key" "write_fits ch off (length d) s" "files s key = Some c" "off \<le> length c"
    using assms(2) by (auto split: option.splits)
  obtain i s' where i: "find_object_id key s = Some (i + 2)" "0 \<le> i"
      "objstore_write ch (i + 2) d (int (length d)) off s = Some (int (length d), s')" "store_ok ch s'" "length d \<le> 4194304"
      "\<forall>k. 0 \<notin> set k \<longrightarrow> files s' k = ((files s)(key \<mapsto> take off c @ d)) k"
    using write_refines [OF assms(1) c] by blast
  have "to_int (int (length d)) = int (length d)" using i(5) by (intro to_int_id) auto
  then show ?thesis
    using i c(3) open_key [OF i(1,2)] by (simp add: Write exec_op_def objfs_write_def)
next
  case (Rename key newkey)
  have "name_ok key" "name_ok newkey" "files s key \<noteq> None" "files s newkey = None" "has_slot s" using assms(2) by (simp_all add: Rename)
  then obtain j s' where "rename_object key newkey s = Some (j + 2, s')" "0 \<le> j" "store_ok ch s'"
      "\<forall>k. 0 \<notin> set k \<longrightarrow> files s' k = ((files s)(newkey := files s key, key := None)) k"
    using rename_refines [OF assms(1)] by blast
  then show ?thesis by (simp add: Rename exec_op_def objfs_rename_key_def)
next
  case (Unlink key)
  then have k: "name_ok key" "files s key \<noteq> None" "store_ok False s" "ch = False" using assms by auto
  have "table_ok s" "0 \<notin> set key" using k(1,3) by (auto simp: store_ok_def name_ok_def)
  then obtain i where "has s i key" using k(2) by (cases rule: files_cases [of s key]) auto
  then obtain s' where "destroy_object key s = Some (0, s')" "store_ok False s'"
      "\<forall>k. 0 \<notin> set k \<longrightarrow> files s' k = ((files s)(key := None)) k"
    using destroy_law [OF k(3) _ k(1)] by blast
  then show ?thesis by (simp add: Unlink exec_op_def objfs_unlink_def k(4))
qed

lemma one_object_ok: "store_ok ch one_object" "files one_object [97, 66] = Some []" "write_fits ch 0 1 one_object" "has one_object 5 [97, 66]"
proof -
  have "objs_ok one_object"
    unfolding objs_ok_def by (auto simp: live_def one_object_def empty_store_def new_object_ok)
  moreover have "blk_inv ch one_object" using empty_store_ok [of ch] by (simp add: one_object_def)
  ultimately show "store_ok ch one_object"
    using one_object_find(1) by (simp add: store_ok_def one_object_def empty_store_def)
  show "files one_object [97, 66] = Some []"
    using one_object_find(2) [of "[97, 66]"] by (simp add: files_def idToIndex_def one_object_def new_object_ok)
  have "free_blocks one_object = {17808..<262144}"
    by (auto simp: free_blocks_def data_block_def used_def one_object_def empty_store_def DATA_BLOCKS_START_eq)
  then show "write_fits ch 0 1 one_object"
    by (simp add: write_fits_def blocks_for_def cache_room_def one_object_def empty_store_def CACHE_PAGES_def)
  show "has one_object 5 [97, 66]" by (simp add: has_def one_object_def new_object_def)
qed

theorem store_refines_files_witness:
  "\<exists>r s'. exec_op True (Write [97, 66] 0 [1]) one_object = Some (r, s') \<and> 0 \<le> r \<and> files s' [97, 66] = Some [1]"
proof -
  have "op_ok True (Write [97, 66] 0 [1]) one_object" using one_object_ok(2,3) by (simp add: name_ok_def)
  then obtain r s' where "exec_op True (Write [97, 66] 0 [1]) one_object = Some (r, s')" "0 \<le> r"
      "\<forall>k. 0 \<notin> set k \<longrightarrow> files s' k = abs_op (Write [97, 66] 0 [1]) (files one_object) k"
    using store_refines_files [OF one_object_ok(1)] by blast
  then show ?thesis by (intro exI [of _ r] exI [of _ s']) simp
qed

lemma frame_store:
  assumes "store_ok ch s" "keeps_objs s s'" "used s' = used s" "lblock s' = lblock s" "blk_inv ch s'" "0 \<notin> set k"
  shows "store_ok ch s'" "files s' k = files s k"
proof -
  have o: "obj s' = obj s" "create_object_lock s' = create_object_lock s" "data_block s' = data_block s"
    using assms(2) by (auto simp: keeps_objs_def data_block_def fun_eq_iff)
  have d: "dblk s' = dblk s" by (simp add: fun_eq_iff dblk_def assms(4))
  have l: "contents s' = contents s" "owned s' = owned s" "valid s' = valid s"
    by (simp_all add: fun_eq_iff contents_def owned_def valid_def assms(3,4) d o(3))
  have "obj_ok s' = obj_ok s" by (simp add: fun_eq_iff obj_ok_def l d assms(4))
  then have "objs_ok s' = objs_ok s" by (simp add: objs_ok_def live_def o l)
  moreover have "table_ok s' = table_ok s" by (rule table_ok_cong) (simp_all add: o)
  ultimately show "store_ok ch s'" using assms(1,5) by (simp add: store_ok_def o)
  have "find_object_id k s' = find_object_id k s"
    by (rule find_cong [OF _ assms(6)]) (use assms(1) in \<open>simp_all add: store_ok_def table_ok_def o\<close>)
  then show "files s' k = files s k" by (simp add: files_def o l split: option.split)
qed

text \<open>
  C10: Reading a file returns its contents.  When the part that is read lies in as many blocks as its length needs and in
  the range of one pointer, \<open>objfs_read\<close> copies exactly these bytes to the buffer and returns how many there are, at most
  up to the end of the file; the files stay as they are.  The assignment asks for the requested size as result also
  when the file ends before.
\<close>

theorem read_exact:
  assumes "store_ok ch s" "name_ok key" "files s key = Some c" "off \<le> length c" "sz \<le> length buf" "sz < 2 ^ 31"
    "n = min sz (length c - off)" "off mod BLOCK_SIZE + n \<le> blocks_for n * BLOCK_SIZE"
    "off div BLOCK_SIZE mod 1024 + blocks_for n \<le> 1024" "cache_room ch s (blocks_for n + 1)"
  shows "\<exists>h s'. objfs_open (47 # key) s = Some (0, Some h) \<and>
    objfs_read ch buf sz off h s = Some (int n, take n (drop off c) @ drop n buf, s') \<and> store_ok ch s' \<and>
    (\<forall>k. 0 \<notin> set k \<longrightarrow> files s' k = files s k)"
proof -
  have S: "blk_inv ch s" "objs_ok s" "table_ok s" using assms(1) by (auto simp: store_ok_def)
  have z: "0 \<notin> set key" using assms(2) by (simp add: name_ok_def)
  obtain i where i: "has s i key" "find_object_id key s = Some (i + 2)" "c = contents s (obj s i)" "0 \<le> i" "i < NUM_OBJS"
    using assms(3) by (cases rule: files_cases [OF S(3) z]) auto
  have lv: "live s i" using i(1) by (simp add: live_def has_def)
  have ok: "obj_ok s (obj s i)" by (rule objs_okD(1) [OF S(2) lv])
  have c: "length c = nat (o_size (obj s i))" using length_contents [OF S(1) ok] i(3) by simp
  have off: "int off \<le> o_size (obj s i)" using assms(4) c obj_okD(1) [OF ok] by simp
  obtain s' where s': "objstore_read ch (i + 2) buf (int sz) off s = Some (int n, take n (drop off c) @ drop n buf, s')"
      "keeps_objs s s'" "used s' = used s" "lblock s' = lblock s" "blk_inv ch s'"
    using read_law [OF S(1,2) lv i(4,5) off assms(5) assms(7) [unfolded c] assms(8,9), of 0] assms(10) i(3) by auto
  have "to_int (int sz) = int sz" using assms(6) by (intro to_int_id) auto
  then show ?thesis
    using s'(1) open_key [OF i(2,4)] frame_store [OF assms(1) s'(2-5)] z by (auto simp: objfs_read_def)
qed

lemma one_file: "\<exists>s. store_ok False s \<and> files s [97, 66] = Some [1] \<and> has s 5 [97, 66]"
proof -
  obtain y s' where "obj s' = (obj one_object)(5 := y)" "o_id y = o_id (obj one_object 5)" "o_key y = o_key (obj one_object 5)"
      "contents s' y = take 0 (contents one_object (obj one_object 5)) @ take 1 [1]"
      "\<And>l. live one_object l \<Longrightarrow> l \<noteq> 5 \<Longrightarrow> contents s' (obj one_object l) = contents one_object (obj one_object l)"
      "objs_ok s'" "blk_inv False s'" "create_object_lock s' = create_object_lock one_object"
    using write_law [of False one_object 5 1 "[1]" 0 0 0] one_object_ok(1,3) [of False]
    by (auto simp: store_ok_def write_fits_def live_def one_object_def new_object_def NUM_OBJS_def BLOCK_SIZE_def)
  note w = this
  have t: "table_ok one_object" and n: "name_ok [97, 66]" using one_object_find(1) by (auto simp: name_ok_def)
  note u = files_update [OF t w(1-3) one_object_ok(4) n w(5)]
  have "store_ok False s'" using w(6-8) u(2) [of "[97, 66]"] one_object_ok(1) [of False] by (simp add: store_ok_def)
  moreover have "files s' [97, 66] = Some [1]" using u(1) [of "[97, 66]"] w(4) by simp
  moreover have "has s' 5 [97, 66]" using one_object_ok(4) w(1-3) by (simp add: has_def)
  ultimately show ?thesis by blast
qed

theorem read_exact_witness:
  "\<exists>s h s'. files s [97, 66] = Some [1] \<and> objfs_read False [0, 0] 2 0 h s = Some (1, [1, 0], s')"
proof -
  obtain s where s: "store_ok False s" "files s [97, 66] = Some [1]" using one_file by blast
  have b: "blocks_for 1 = 1" by (simp add: blocks_for_def)
  obtain h s' where "objfs_read False [0, 0] 2 0 h s = Some (int 1, take 1 (drop 0 [1]) @ drop 1 [0, 0], s')"
    using read_exact [OF s(1) _ s(2), of 0 2 "[0, 0]" 1] b by (auto simp: name_ok_def BLOCK_SIZE_def cache_room_def)
  then show ?thesis using s(2) by auto
qed

text \<open>
  C32: In the build without the cache, destroying an object gives back its indirect blocks and its data blocks and no
  others, and its key is not found any more.
\<close>

theorem destroy_frees:
  assumes "store_ok False s" "name_ok key" "find_object_id key s = Some (i + 2)" "0 \<le> i"
  shows "\<exists>s'. destroy_object key s = Some (0, s') \<and> find_object_id key s' = Some (-1) \<and> store_ok False s' \<and>
    (\<forall>b. used s' b \<longleftrightarrow> used s b \<and> b \<notin> owned s (obj s i))"
proof -
  have z: "0 \<notin> set key" and t: "table_ok s" using assms(1,2) by (auto simp: name_ok_def store_ok_def)
  have h: "has s i key" by (rule find_foundD [OF t z assms(3,4)])
  obtain s' where s': "destroy_object key s = Some (0, s')" "obj s' = (obj s)(i := (obj s i)\<lparr>o_id := 0\<rparr>)"
      "\<forall>b. used s' b \<longleftrightarrow> used s b \<and> b \<notin> owned s (obj s i)" "store_ok False s'"
    using destroy_law [OF assms(1) h assms(2)] by blast
  then show ?thesis using find_remove [OF t h assms(2) _ s'(2) z] by simp
qed

theorem destroy_frees_witness:
  "\<exists>s s'. find_object_id [97, 66] s = Some 7 \<and> destroy_object [97, 66] s = Some (0, s') \<and> find_object_id [97, 66] s' = Some (-1)"
proof -
  obtain s where s: "store_ok False s" "has s 5 [97, 66]" using one_file by blast
  have f: "find_object_id [97, 66] s = Some (5 + 2)" using find_has [OF _ _ _ s(2)] s(1) by (simp add: store_ok_def table_ok_def)
  then show ?thesis using destroy_frees [OF s(1) _ f] by (auto simp: name_ok_def)
qed

section \<open>Errors\<close>

lemma find_slots_first:
  "o_id (obj s (hash key)) = 0 \<Longrightarrow> List.find (\<lambda>i. o_id (obj s i) = 0 \<or> has s i key) (slots (hash key) 0) = Some (hash key)"
  using NUM_OBJS_pos by (simp add: slots_Cons)

lemma find_slots_second:
  assumes "o_id (obj s (hash key)) \<noteq> 0" "\<not> has s (hash key) key" "o_id (obj s (probe (hash key) 1)) = 0"
  shows "List.find (\<lambda>i. o_id (obj s i) = 0 \<or> has s i key) (slots (hash key) 0) = Some (probe (hash key) 1)"
proof -
  have "0 < nat NUM_OBJS" "Suc 0 < nat NUM_OBJS" by (simp_all add: NUM_OBJS_def)
  then show ?thesis using assms by (simp add: slots_Cons)
qed

text \<open>
  C34: A key can be created twice.  Two keys with the same hash are created; the first one is destroyed; and then the
  second one can be created again, because the search stops at the slot that has become free.  The table has two objects
  with that key afterwards.
\<close>

theorem create_twice:
  assumes "\<not> create_object_lock s" "\<forall>i. o_id (obj s i) = 0" "name_ok a" "name_ok b" "a \<noteq> b" "hash a = hash b"
  shows "\<exists>s1 j s2 s3 s4. create_object a s = Some (hash b + 2, s1) \<and> create_object b s1 = Some (j + 2, s2) \<and>
    destroy_object a s2 = Some (0, s3) \<and> create_object b s3 = Some (hash b + 2, s4) \<and>
    hash b \<noteq> j \<and> has s4 (hash b) b \<and> has s4 j b"
proof -
  let ?h = "hash b" and ?j = "probe (hash b) 1"
  let ?s1 = "s\<lparr>obj := (obj s)(?h := new_object ?h a)\<rparr>"
  let ?s2 = "?s1\<lparr>obj := (obj ?s1)(?j := new_object ?j b)\<rparr>"
  let ?s3 = "?s2\<lparr>obj := (obj ?s2)(?h := (new_object ?h a)\<lparr>o_id := 0\<rparr>)\<rparr>"
  have z: "0 \<notin> set a" "0 \<notin> set b" using assms(3,4) by (auto simp: name_ok_def)
  have h: "0 \<le> ?h" "?h < NUM_OBJS" "0 \<le> ?j" "?j < NUM_OBJS" using hash_range probe_range by auto
  have hj: "?h \<noteq> ?j" using probe_inj [of 0 1 ?h] by (simp add: NUM_OBJS_def)
  have t: "table_ok s" using assms(2) by (simp add: table_ok_def tab_ok_def unique_keys_def)
  have no: "\<not> has s x k" for x k using assms(2) by (simp add: has_def)
  have t1: "table_ok ?s1" by (rule table_ok_create [OF t assms(3) _ h(1,2) no]) (use assms(2) in simp)
  have h1: "has ?s1 x k \<longleftrightarrow> x = ?h \<and> k = a" if "0 \<notin> set k" for x k
    using has_create [OF _ assms(3) that h(1), of s x] assms(2) no by simp
  have nb: "\<not> has ?s1 x b" for x using h1 [OF z(2)] assms(5) by simp
  have j1: "o_id (obj ?s1 ?j) = 0" using assms(2) hj by simp
  have t2: "table_ok ?s2" by (rule table_ok_create [OF t1 assms(4) j1 h(3,4) nb])
  have c1: "create_object a s = Some (?h + 2, ?s1)"
    using create_object_eq [OF assms(1) _ z(1) find_slots_first] t assms(2,6) by (simp add: table_ok_def)
  have h0: "o_id (obj ?s1 ?h) \<noteq> 0" using h(1) by (simp add: new_object_def)
  have "List.find (\<lambda>i. o_id (obj ?s1 i) = 0 \<or> has ?s1 i b) (slots ?h 0) = Some ?j"
    by (rule find_slots_second [OF h0 nb j1])
  then have c2: "create_object b ?s1 = Some (?j + 2, ?s2)"
    using create_object_eq [of ?s1 b ?j] t1 z(2) assms(1) j1 by (simp add: table_ok_def)
  have a2: "has ?s2 ?h a" using hj h(1) by (simp add: has_def new_object_def)
  have "find_object_id a ?s2 = Some (?h + 2)" using find_has [OF _ _ z(1) a2] t2 by (simp add: table_ok_def)
  then have d: "destroy_object a ?s2 = Some (0, ?s3)"
    using hj h(1) by (simp add: destroy_object_def idToIndex_def upd_obj_def new_object_def numeral_eq_Suc Let_def)
  have t3: "table_ok ?s3" by (rule table_ok_remove [OF t2, of "(new_object ?h a)\<lparr>o_id := 0\<rparr>" _ ?h]) simp_all
  have f3: "List.find (\<lambda>i. o_id (obj ?s3 i) = 0 \<or> has ?s3 i b) (slots ?h 0) = Some ?h" by (rule find_slots_first) simp
  have c3: "create_object b ?s3 = Some (?h + 2, ?s3\<lparr>obj := (obj ?s3)(?h := new_object ?h b)\<rparr>)"
    using create_object_eq [OF _ _ z(2) f3] t3 assms(1) by (simp add: table_ok_def)
  let ?s4 = "?s3\<lparr>obj := (obj ?s3)(?h := new_object ?h b)\<rparr>"
  have "has ?s4 ?h b" "has ?s4 ?j b" using h hj by (simp_all add: has_def new_object_def)
  then show ?thesis using c1 c2 d c3 hj by blast
qed

theorem create_twice_witness:
  "\<exists>s1 j s2 s3 s4. create_object [97, 66] empty_store = Some (hash [98, 33] + 2, s1) \<and> create_object [98, 33] s1 = Some (j + 2, s2) \<and>
    destroy_object [97, 66] s2 = Some (0, s3) \<and> create_object [98, 33] s3 = Some (hash [98, 33] + 2, s4)"
proof -
  have "hash [97, 66] = hash [98, 33]" by (simp add: hash_def)
  then show ?thesis
    using create_twice [of empty_store "[97, 66]" "[98, 33]"] by (auto simp: name_ok_def empty_store_def)
qed

subsection \<open>Offsets that are not at a block boundary\<close>

definition lens_ok :: "store \<Rightarrow> bool"
  where "lens_ok s \<longleftrightarrow> (\<forall>b. length (disk s b) = BLOCK_SIZE) \<and> (\<forall>i. length (cache s i) = BLOCK_SIZE)"

lemma lens_ok_page: "lens_ok s \<Longrightarrow> get_free_cache_page ch s = Some (i, s') \<Longrightarrow> lens_ok s'"
  by (cases ch) (auto simp: get_free_cache_page_def flush_cache_def lock_cache_def unlock_cache_def write_block_def Let_def
    lens_ok_def split: if_splits)

lemma load_block_length:
  assumes "lens_ok s" "length buf = BLOCK_SIZE" "load_block ch b buf s = Some (d, s')"
  shows "length d = BLOCK_SIZE"
  using assms lens_ok_page [OF assms(1)]
  by (auto simp: load_block_def read_cached_def read_block_def Let_def lens_ok_def split: if_splits Option.bind_splits)

lemma load_block_lens: "lens_ok s \<Longrightarrow> load_block ch b buf s = Some (d, s') \<Longrightarrow> length buf = BLOCK_SIZE \<Longrightarrow> lens_ok s'"
  using lens_ok_page [of s ch]
  by (auto simp: load_block_def read_cached_def read_block_def Let_def split: if_splits Option.bind_splits)
     (auto simp: lens_ok_def)

lemma helper_length:
  assumes "lens_ok s" "length buf = BLOCK_SIZE" "read_indirect_helper ch b bo buf s = Some (d, s')"
  shows "length d = BLOCK_SIZE"
proof -
  obtain blk t where t: "load_block ch b zero_block s = Some (blk, t)"
    using assms(3) by (auto simp: read_indirect_helper_def split: Option.bind_splits)
  have "lens_ok t" by (rule load_block_lens [OF assms(1) t]) simp
  then show ?thesis
    using assms(2,3) t load_block_length [of t buf ch _ d s']
    by (auto simp: read_indirect_helper_def Let_def split: if_splits Option.bind_splits)
qed

text \<open>
  C35: A write that starts inside a block can overrun its buffer.  The buffer has room for the blocks that the number of
  bytes needs from a block boundary, and the bytes are copied to it from the position inside the block; if that does not
  fit, the copy leaves the buffer.
\<close>

theorem unaligned_write_overruns:
  assumes "lens_ok s" "0 \<le> i" "i < NUM_OBJS" "live s i" "0 < n" "off + n \<le> 16 * 1024 * 1024"
    "blocks_for n * BLOCK_SIZE < off mod BLOCK_SIZE + n"
  shows "objstore_write ch (i + 2) buf (int n) off s = None"
proof -
  have aux: "nat (aux_blocks (int n) * int BLOCK_SIZE) = blocks_for n * BLOCK_SIZE" by (simp add: aux_blocks_eq nat_mult_distrib)
  have m: "0 < off mod BLOCK_SIZE" using assms(7) blocks_for(1) [of n] by simp
  have B: "BLOCK_SIZE \<le> blocks_for n * BLOCK_SIZE" using blocks_for(2) [OF assms(5)] by simp
  have "length (patch (replicate (blocks_for n * BLOCK_SIZE) 0) 0 d) = blocks_for n * BLOCK_SIZE"
    if "read_indirect_helper ch b bo (replicate BLOCK_SIZE 0) s = Some (d, s')" for b bo d s'
    using helper_length [OF assms(1) _ that] B by (subst length_patch) simp_all
  then show ?thesis
    unfolding objstore_write_def idToIndex_def Let_def
    using assms(2-7) m B by (auto simp: aux min_absorb1 live_def split: Option.bind_splits)
qed

theorem unaligned_write_overruns_witness: "objstore_write True 7 (replicate 4096 1) 4096 1 one_object = None"
proof -
  have "lens_ok one_object" by (simp add: lens_ok_def one_object_def empty_store_def)
  moreover have "live one_object 5" by (simp add: live_def one_object_def new_object_def)
  ultimately show ?thesis
    using unaligned_write_overruns [of one_object 5 4096 1 True "replicate 4096 1"]
    by (simp add: NUM_OBJS_def BLOCK_SIZE_def blocks_for_def)
qed

subsection \<open>Blocks that are not freed\<close>

text \<open>
  C33: In the build with the cache, destroying an object leaks its data blocks when the first page of block numbers has not
  been written back: \<open>free_data_block\<close> reads the page from the disk, where it still has no entries.
\<close>

theorem destroy_leaks:
  assumes "store_ok True s" "name_ok key" "has s i key" "0 < nblocks (obj s i)" "nblocks (obj s i) \<le> 1024"
    "get_int (disk s (pblk (obj s i) 0)) 0 = -1"
  shows "\<exists>s'. destroy_object key s = Some (0, s') \<and> find_object_id key s' = Some (-1) \<and>
    (\<forall>k < nblocks (obj s i). used s' (dblk s (obj s i) k))"
proof -
  let ?x = "obj s i" and ?s1 = "s\<lparr>block_bitmap := (block_bitmap s)(pblk (obj s i) 0 := 0)\<rparr>"
  have z: "0 \<notin> set key" and t: "table_ok s" and B: "blk_inv True s" and o: "objs_ok s"
    using assms(1,2) by (auto simp: name_ok_def store_ok_def)
  have r: "0 \<le> i" "i < NUM_OBJS" "o_id ?x = i + 2" using has_range [OF _ assms(3)] t by (auto simp: table_ok_def)
  have ok: "obj_ok s ?x" using objs_okD(1) [OF o, of i] r by (simp add: live_def)
  have v: "valid s (pblk ?x 0)" using obj_okD(5) [OF ok, of 0] assms(4) by simp
  have n1: "pblk ?x 1 = -1" using obj_okD(4) [OF ok, of 1] assms(5) by simp
  obtain a b c where ps: "data_block_pointers ?x = [pblk ?x 0, -1, b, c]"
    using obj_okD(3) [OF ok] n1 by (auto simp: numeral_eq_Suc length_Suc_conv pblk_def)
  have d: "0 \<le> pblk ?x 0" "pblk ?x 0 \<noteq> -1" "pblk ?x 0 < BITMAP_SIZE" "pblk ?x 0 < disk_len s" "\<not> block_bitmap_mutex s"
    using v B valid_pos [OF v] by (auto simp: valid_def data_block_def blk_inv_def dev_ok_def)
  have e: "[0..<ENTRIES] = 0 # [Suc 0..<ENTRIES]" by (rule upt_conv_Cons) (simp add: ENTRIES_def BLOCK_SIZE_def)
  have "free_data_block (pblk ?x 0) s = Some ?s1"
    using d assms(6) unfolding free_data_block_def e
    by (simp add: read_block_def clear_block_bitmap_def lock_blocks_def unlock_blocks_def)
  then have f: "free_pointers (data_block_pointers ?x) s = Some ?s1" using d(2) unfolding ps by simp
  have "find_object_id key s = Some (i + 2)" using find_has [OF _ _ z assms(3)] t by (simp add: table_ok_def)
  then have D: "destroy_object key s = Some (0, ?s1\<lparr>obj := (obj s)(i := ?x\<lparr>o_id := 0\<rparr>)\<rparr>)"
    using r f by (simp add: destroy_object_def idToIndex_def upd_obj_def Let_def)
  have "used ?s1 (dblk s ?x k)" if "k < nblocks ?x" for k
    using obj_okD(6) [OF ok that] obj_okD(10) [OF ok _ that, of 0] assms(4) by (simp add: valid_def used_def)
  then show ?thesis using D find_remove [OF t assms(3,2), of "?x\<lparr>o_id := 0\<rparr>"] z by simp
qed

text \<open>A store with a file of one byte whose two blocks are in the cache.\<close>

definition cached_file :: store
  where "cached_file = one_object\<lparr>obj := (obj one_object)(5 := (new_object 5 [97, 66])\<lparr>o_size := 1, data_block_pointers := [17808, -1, -1, -1]\<rparr>),
    block_bitmap := (\<lambda>_. 0)(17808 := 2, 17809 := 3), cache_bitmap := (\<lambda>_. 0)(2 := 17808, 3 := 17809),
    dirty_flag := (\<lambda>i. i = 2 \<or> i = 3), last_cache_index := 3,
    cache := (\<lambda>_. zero_block)(2 := put_int (clear_from 0 zero_block) 0 17809),
    disk := (\<lambda>_. zero_block)(17808 := clear_from 0 zero_block)\<rparr>"

lemma cached_file_ok:
  "store_ok True cached_file" "has cached_file 5 [97, 66]" "nblocks (obj cached_file 5) = 1"
  "get_int (disk cached_file (pblk (obj cached_file 5) 0)) 0 = -1"
proof -
  let ?x = "obj cached_file 5"
  have x: "?x = (new_object 5 [97, 66])\<lparr>o_size := 1, data_block_pointers := [17808, -1, -1, -1]\<rparr>"
    by (simp add: cached_file_def)
  show n: "nblocks ?x = 1" by (simp add: x nblocks_def)
  have l: "length (clear_from 0 zero_block) = BLOCK_SIZE" by (rule clear_from(1)) simp_all
  have g: "get_int (clear_from 0 zero_block) e = -1" if "e < 1024" for e
    using clear_from(2) [of zero_block 0 e] that by (simp add: ENTRIES_def BLOCK_SIZE_def)
  show "get_int (disk cached_file (pblk ?x 0)) 0 = -1"
    using g [of 0] by (simp add: x pblk_def cached_file_def)
  show h: "has cached_file 5 [97, 66]" by (simp add: has_def x new_object_def)
  have lb: "lblock cached_file 17808 = put_int (clear_from 0 zero_block) 0 17809"
    by (simp add: lblock_def cached_file_def)
  have d: "dblk cached_file ?x 0 = 17809"
    using get_put_same [of 0 "clear_from 0 zero_block" 17809] l by (simp add: dblk_def x pblk_def lb BLOCK_SIZE_def)
  have v: "valid cached_file 17808" "valid cached_file 17809"
    by (simp_all add: valid_def data_block_def used_def cached_file_def one_object_def empty_store_def DATA_BLOCKS_START_eq)
  have "get_int (lblock cached_file 17808) e = -1" if "0 < e" "e < 1024" for e
    using that g by (simp add: lb get_put_other)
  then have ok: "obj_ok cached_file ?x"
    using d v unfolding obj_ok_def owned_def n by (auto simp: x pblk_def inj_on_def nth_Cons')
  have "live cached_file k \<longleftrightarrow> k = 5" for k
    by (simp add: live_def cached_file_def one_object_def empty_store_def new_object_def)
  then have "objs_ok cached_file" using ok by (simp add: objs_ok_def)
  moreover have "dev_ok cached_file" "cache_ok cached_file" using l
    by (auto simp: dev_ok_def cache_ok_def cached_file_def one_object_def empty_store_def BITMAP_SIZE_def CACHE_PAGES_def
      data_block_def DATA_BLOCKS_START_eq)
  moreover have "table_ok cached_file"
    using table_ok_cong [of cached_file one_object] one_object_find(1) by (simp add: cached_file_def one_object_def new_object_def)
  ultimately show "store_ok True cached_file"
    by (simp add: store_ok_def blk_inv_def cached_file_def one_object_def empty_store_def)
qed

theorem destroy_leaks_witness:
  "\<exists>s'. destroy_object [97, 66] cached_file = Some (0, s') \<and> used s' (dblk cached_file (obj cached_file 5) 0)"
  using destroy_leaks [OF cached_file_ok(1) _ cached_file_ok(2) _ _ cached_file_ok(4)] cached_file_ok(3)
  by (auto simp: name_ok_def)

section \<open>The size of a file\<close>

lemma count_entries_eq:
  assumes "\<And>e. i \<le> e \<Longrightarrow> e < m \<Longrightarrow> \<not> get_int block e < 0" "m < n \<Longrightarrow> get_int block m < 0" "i \<le> m" "m \<le> n"
  shows "count_entries block [i..<n] res = res + int (m - i)"
  using assms(1,3)
proof (induction "m - i" arbitrary: i res)
  case 0
  then show ?case using assms(2,4) by (cases "m < n") (simp_all add: upt_conv_Cons)
next
  case (Suc d)
  then have "i < m" "[i..<n] = i # [Suc i..<n]" using assms(4) by (simp_all add: upt_conv_Cons)
  then show ?case using Suc.hyps(1) [of "Suc i"] Suc.hyps(2) Suc.prems by simp
qed

lemma count_object:
  assumes "obj_ok s x" "j * 1024 < nblocks x"
  shows "count_entries (lblock s (pblk x j)) [0..<ENTRIES] 0 = int (min 1024 (nblocks x - j * 1024))"
proof -
  let ?m = "min 1024 (nblocks x - j * 1024)"
  have E: "ENTRIES = 1024" by (simp add: ENTRIES_def BLOCK_SIZE_def)
  have p: "\<not> get_int (lblock s (pblk x j)) e < 0" if "e < ?m" for e
  proof -
    have "e < 1024" "j * 1024 + e < nblocks x" using that by auto
    then show ?thesis
      using obj_okD(6) [OF assms(1), of "j * 1024 + e"] div_mod_1024 [of e j] valid_pos [of s "dblk s x (j * 1024 + e)"]
      by (simp add: dblk_def)
  qed
  have q: "get_int (lblock s (pblk x j)) ?m < 0" if "?m < ENTRIES"
    using obj_okD(7) [OF assms, of ?m] that E by simp
  have "?m \<le> ENTRIES" using E by simp
  then show ?thesis using count_entries_eq [of 0 ?m "lblock s (pblk x j)" ENTRIES 0, OF p q] by simp
qed

context block_layer
begin

lemma sum_blocks_law:
  assumes "inv s" "obj_ok s x" "room s (k + (4 - j))" "j \<le> 4" "int (nblocks x - j * 1024) = n"
  shows "\<exists>s'. sum_blocks ch (drop j (data_block_pointers x)) acc s = Some (acc + n, s') \<and> keeps_objs s s' \<and>
    used s' = used s \<and> lblock s' = lblock s \<and> inv s'"
  using assms
proof (induction "4 - j" arbitrary: j acc s n)
  case 0
  then show ?case using obj_okD(3,11) [OF 0(3)] by (intro exI [of _ s]) simp
next
  case (Suc d)
  then have j: "j < 4" by simp
  have dr: "drop j (data_block_pointers x) = pblk x j # drop (Suc j) (data_block_pointers x)"
    using obj_okD(3) [OF Suc(4)] j by (simp add: pblk_def Cons_nth_drop_Suc)
  show ?case
  proof (cases "j * 1024 < nblocks x")
    case False
    then have "pblk x j = -1" using obj_okD(4) [OF Suc(4) j] by simp
    then show ?thesis unfolding dr using Suc(3,7) False by (intro exI [of _ s]) simp
  next
    case True
    have v: "valid s (pblk x j)" by (rule obj_okD(5) [OF Suc(4) True])
    have "k + (4 - j) = Suc (k + (4 - Suc j))" using j by simp
    then obtain s1 where s1: "load_block ch (pblk x j) zero_block s = Some (lblock s (pblk x j), s1)" "keeps_objs s s1" "used s1 = used s"
        "lblock s1 = lblock s" "inv s1" "room s1 (k + (4 - Suc j))"
      using load [OF Suc(3), of "pblk x j" "k + (4 - Suc j)" zero_block] v Suc(5) by (auto simp: valid_def)
    have ok: "obj_ok s1 x" using obj_ok_frame [OF Suc(4), of s1] s1(2-4) valid_keeps [OF s1(2,3)] by simp
    have d: "d = 4 - Suc j" using Suc(2) by simp
    let ?c = "int (min 1024 (nblocks x - j * 1024))" and ?n = "int (nblocks x - Suc j * 1024)"
    obtain s' where s': "sum_blocks ch (drop (Suc j) (data_block_pointers x)) (acc + ?c) s1 = Some (acc + ?c + ?n, s')"
        "keeps_objs s1 s'" "used s' = used s1" "lblock s' = lblock s1" "inv s'"
      using Suc(1) [OF d s1(5) ok s1(6) _ refl] j by auto
    have "n = ?c + ?n" using True Suc(7) by simp
    then show ?thesis
      unfolding dr using s' s1 valid_pos [OF v] count_object [OF Suc(4) True] keeps_objs_trans [OF s1(2) s'(2)]
      by (intro exI [of _ s']) (simp add: cal_number_blocks_def)
  qed
qed

end

lemma sum_blocks_layer:
  assumes "blk_inv ch s" "obj_ok s x" "cache_room ch s 4"
  shows "\<exists>s'. sum_blocks ch (data_block_pointers x) 0 s = Some (int (nblocks x), s') \<and> keeps_objs s s' \<and>
    used s' = used s \<and> lblock s' = lblock s \<and> blk_inv ch s'"
proof (cases ch)
  case True
  then have ch: "ch = True" by simp
  show ?thesis using cached.sum_blocks_law [of s x 0 0 "int (nblocks x)" 0] assms unfolding ch by simp
next
  case False
  then have ch: "ch = False" by simp
  show ?thesis using uncached.sum_blocks_law [of s x 0 0 "int (nblocks x)" 0] assms unfolding ch by simp
qed

text \<open>
  C36: \<open>objfs_getattr\<close> reports the number of the object, the number of its bytes and the number of its blocks of 4096
  bytes, and changes no file.
\<close>

theorem getattr_exact:
  assumes "store_ok ch s" "name_ok key" "files s key = Some c" "cache_room ch s 4" "key \<noteq> []"
  shows "\<exists>h s'. objfs_open (47 # key) s = Some (0, Some h) \<and>
    objfs_getattr ch (47 # key) s = Some (0, Some (h, Some (int (length c), int (blocks_for (length c)))), s') \<and> store_ok ch s' \<and>
    (\<forall>k. 0 \<notin> set k \<longrightarrow> files s' k = files s k)"
proof -
  have S: "blk_inv ch s" "objs_ok s" "table_ok s" using assms(1) by (auto simp: store_ok_def)
  have z: "0 \<notin> set key" "key \<noteq> []" using assms(2,5) by (auto simp: name_ok_def)
  obtain i where i: "has s i key" "find_object_id key s = Some (i + 2)" "c = contents s (obj s i)" "0 \<le> i" "i < NUM_OBJS"
    using assms(3) by (cases rule: files_cases [OF S(3) z(1)]) auto
  have ok: "obj_ok s (obj s i)" using objs_okD(1) [OF S(2), of i] i(1) by (simp add: live_def has_def)
  have c: "int (length c) = o_size (obj s i)" "blocks_for (length c) = nblocks (obj s i)"
    using length_contents [OF S(1) ok] i(3) obj_okD(1) [OF ok] by (simp_all add: blocks_for_def nblocks_def)
  obtain s' where s': "sum_blocks ch (data_block_pointers (obj s i)) 0 s = Some (int (nblocks (obj s i)), s')" "keeps_objs s s'"
      "used s' = used s" "lblock s' = lblock s" "blk_inv ch s'"
    using sum_blocks_layer [OF S(1) ok assms(4)] by blast
  have "obj s' = obj s" using s'(2) by (simp add: keeps_objs_def)
  then have "fillup_size_details ch (i + 2) s = Some (0, Some (int (length c), int (blocks_for (length c))), s')"
    using i(1,4,5) s'(1) c by (simp add: fillup_size_details_def idToIndex_def has_def Let_def)
  then show ?thesis
    using i(2,4) open_key [OF i(2,4)] z frame_store [OF assms(1) s'(2-5)] by (auto simp: objfs_getattr_def)
qed

theorem getattr_exact_witness: "\<exists>h s'. objfs_getattr True [47, 97, 66] one_object = Some (0, Some (h, Some (0, 0)), s')"
proof -
  have "cache_room True one_object 4" by (simp add: cache_room_def one_object_def empty_store_def CACHE_PAGES_def)
  then show ?thesis
    using getattr_exact [OF one_object_ok(1) _ one_object_ok(2), of True] by (auto simp: name_ok_def blocks_for_def)
qed

end
