(* ===== verification/ObjMount.thy ===== *)
theory ObjMount
  imports ObjStore
begin

text \<open>
  Mounting and unmounting the object store: \<open>objstore_init\<close> and \<open>objstore_destroy\<close> of \<open>objstore.c\<close> with the layout of the
  super object in the first blocks of the disk image.  Unmounting writes the pages of the cache and the super object back,
  and mounting reads the super object; the theory shows that no file is lost in between.
\<close>

section \<open>The bytes of the super object\<close>

definition int_bytes :: "int \<Rightarrow> u8 list"
  where "int_bytes v = put_int [0, 0, 0, 0] 0 v"

definition int_at :: "(int \<Rightarrow> u8) \<Rightarrow> int \<Rightarrow> int"
  where "int_at mem a = get_int [mem a, mem (a + 1), mem (a + 2), mem (a + 3)] 0"

definition ushort_at :: "(int \<Rightarrow> u8) \<Rightarrow> int \<Rightarrow> u16"
  where "ushort_at mem a = ucast (mem a) OR push_bit 8 (ucast (mem (a + 1)))"

definition obj_bytes :: "object \<Rightarrow> u8 list"
  where "obj_bytes x = int_bytes (o_id x) @ int_bytes (o_size x) @ o_key x @ concat (map int_bytes (data_block_pointers x))"

definition obj_at :: "(int \<Rightarrow> u8) \<Rightarrow> int \<Rightarrow> object"
  where "obj_at mem a = \<lparr>o_id = int_at mem a, o_size = int_at mem (a + 4), o_key = map (\<lambda>k. mem (a + 8 + int k)) [0..<32],
    data_block_pointers = map (\<lambda>k. int_at mem (a + 40 + 4 * int k)) [0..<4]\<rparr>"

text \<open>Where the members of the struct start.\<close>

definition off_block_bitmap :: int where "off_block_bitmap = 40"
definition off_dirty_flag :: int where "off_dirty_flag = off_block_bitmap + 2 * BITMAP_SIZE"
definition off_obj :: int where "off_obj = off_dirty_flag + CACHE_PAGES"
definition off_cache_bitmap_mutex :: int where "off_cache_bitmap_mutex = off_obj + 56 * NUM_OBJS"
definition off_cache_bitmap :: int where "off_cache_bitmap = off_cache_bitmap_mutex + 40"
definition off_last_cache_index :: int where "off_last_cache_index = off_cache_bitmap + 4 * CACHE_PAGES"
definition off_dummy :: int where "off_dummy = off_last_cache_index + 4"

text \<open>
  The byte at an offset of the struct.  The argument \<open>m\<close> has the bytes of the mutexes and of the padding, which the
  program never reads.
\<close>

definition super_byte :: "(int \<Rightarrow> u8) \<Rightarrow> store \<Rightarrow> int \<Rightarrow> u8"
  where "super_byte m s a =
    (if a < off_block_bitmap then m a
     else if a < off_dirty_flag then
       (let w = block_bitmap s ((a - off_block_bitmap) div 2) in ucast (if (a - off_block_bitmap) mod 2 = 0 then w else drop_bit 8 w))
     else if a < off_obj then (if dirty_flag s (a - off_dirty_flag) then 1 else 0)
     else if a < off_cache_bitmap_mutex then obj_bytes (obj s ((a - off_obj) div 56)) ! nat ((a - off_obj) mod 56)
     else if a < off_cache_bitmap then m a
     else if a < off_last_cache_index then int_bytes (cache_bitmap s ((a - off_cache_bitmap) div 4)) ! nat ((a - off_cache_bitmap) mod 4)
     else if a < off_dummy then int_bytes (last_cache_index s) ! nat (a - off_last_cache_index)
     else m a)"

section \<open>Unmounting and mounting\<close>

definition super_blocks :: "int list"
  where "super_blocks = [0..(sizeof_super_object - 1) div int BLOCK_SIZE]"

definition super_block :: "(int \<Rightarrow> u8) \<Rightarrow> int \<Rightarrow> u8 list"
  where "super_block mem j = map (\<lambda>k. mem (j * int BLOCK_SIZE + int k)) [0..<BLOCK_SIZE]"

fun write_super :: "(int \<Rightarrow> u8) \<Rightarrow> int list \<Rightarrow> store \<Rightarrow> store"
  where
    "write_super m [] s = s"
  | "write_super m (j # js) s = write_super m js (snd (write_block j (super_block (super_byte m s) j) s))"

text \<open>Destroying a mutex that is held is undefined.\<close>

definition objstore_destroy :: "bool \<Rightarrow> (int \<Rightarrow> u8) \<Rightarrow> store \<Rightarrow> (int \<times> store) option"
  where "objstore_destroy ch m s = do {
    c_assert (\<not> block_bitmap_mutex s);
    c_assert (\<not> cache_bitmap_mutex s);
    c_assert (\<not> create_object_lock s);
    s \<leftarrow> cache_sync ch s;
    Some (0, write_super m super_blocks s) }"

text \<open>
  \<open>read_super\<close> is the loop that fills the memory of the super object, which starts with zeros; \<^term>\<open>None\<close> when a block
  cannot be read.
\<close>

fun read_super :: "int list \<Rightarrow> (int \<Rightarrow> u8) \<Rightarrow> store \<Rightarrow> (int \<Rightarrow> u8) option"
  where
    "read_super [] mem s = Some mem"
  | "read_super (j # js) mem s =
      (let (r, buf) = read_block j (super_block mem j) s in
       if r < 0 then None
       else read_super js (\<lambda>a. if j * int BLOCK_SIZE \<le> a \<and> a < (j + 1) * int BLOCK_SIZE then buf ! nat (a - j * int BLOCK_SIZE) else mem a) s)"

definition zero_object :: object
  where "zero_object = \<lparr>o_id = 0, o_size = 0, o_key = replicate 32 0, data_block_pointers = replicate 4 0\<rparr>"

definition objstore_init :: "store \<Rightarrow> int \<times> store"
  where "objstore_init s =
    (case read_super super_blocks (\<lambda>_. 0) s of
       None \<Rightarrow> (-1, s)
     | Some mem \<Rightarrow>
       (0, s\<lparr>block_bitmap := (\<lambda>b. if 0 \<le> b \<and> b < BITMAP_SIZE then ushort_at mem (off_block_bitmap + 2 * b) else 0),
             obj := (\<lambda>i. if 0 \<le> i \<and> i < NUM_OBJS then obj_at mem (off_obj + 56 * i) else zero_object),
             block_bitmap_mutex := False, cache_bitmap_mutex := False, create_object_lock := False,
             last_cache_index := 1, cache_bitmap := (\<lambda>_. 0), dirty_flag := (\<lambda>_. False),
             total_num_disk_blocks := to_int (disk_len s)\<rparr>))"

definition objfs_init :: "store \<Rightarrow> store"
  where "objfs_init s = snd (objstore_init s)"

definition objfs_destroy :: "bool \<Rightarrow> (int \<Rightarrow> u8) \<Rightarrow> store \<Rightarrow> store option"
  where "objfs_destroy ch m s = do { (_, s) \<leftarrow> objstore_destroy ch m s; Some s }"

section \<open>The layout\<close>

lemma int_at_bytes:
  assumes "- (2 ^ 31) \<le> v" "v < 2 ^ 31" "\<And>k. k < 4 \<Longrightarrow> mem (a + int k) = int_bytes v ! k"
  shows "int_at mem a = v"
proof -
  have l: "length (int_bytes v) = 4" by (simp add: int_bytes_def)
  have "[mem a, mem (a + 1), mem (a + 2), mem (a + 3)] = int_bytes v"
    using assms(3) [of 0] assms(3) [of 1] assms(3) [of 2] assms(3) [of 3] l
    by (intro nth_equalityI) (auto simp: less_Suc_eq numeral_eq_Suc nth_Cons')
  then show ?thesis using get_put_same [of 0 "[0, 0, 0, 0]" v] assms(1,2) by (simp add: int_at_def int_bytes_def)
qed

lemma ushort_at_bytes: "mem a = ucast w \<Longrightarrow> mem (a + 1) = ucast (drop_bit 8 w) \<Longrightarrow> ushort_at mem a = w"
  unfolding ushort_at_def
  by (rule bit_word_eqI) (auto simp: bit_simps)

lemma write_super_eq:
  "0 \<le> a \<Longrightarrow> b < disk_len s \<Longrightarrow> write_super m [a..b] s =
    s\<lparr>disk := (\<lambda>j. if a \<le> j \<and> j \<le> b then super_block (super_byte m s) j else disk s j)\<rparr>"
proof (induction "nat (b + 1 - a)" arbitrary: a s)
  case 0
  then show ?case by (auto simp: fun_eq_iff intro!: store.equality)
next
  case (Suc n)
  let ?s = "s\<lparr>disk := (disk s)(a := super_block (super_byte m s) a)\<rparr>"
  have "[a..b] = a # [a + 1..b]" using Suc(2) by (simp add: upto_rec1)
  moreover have sb: "super_byte m ?s = super_byte m s" by (simp add: fun_eq_iff super_byte_def)
  moreover have "(\<lambda>j. if a + 1 \<le> j \<and> j \<le> b then super_block (super_byte m s) j else ((disk s)(a := super_block (super_byte m s) a)) j) =
      (\<lambda>j. if a \<le> j \<and> j \<le> b then super_block (super_byte m s) j else disk s j)"
    using Suc(2) by (auto simp: fun_eq_iff)
  ultimately show ?case using Suc(1) [of "a + 1" ?s] Suc(2-4) by (simp add: write_block_def cong: if_cong)
qed

lemma read_super_eq:
  "0 \<le> a \<Longrightarrow> b < disk_len s \<Longrightarrow> read_super [a..b] mem s = Some (\<lambda>x.
    if a \<le> x div int BLOCK_SIZE \<and> x div int BLOCK_SIZE \<le> b then disk s (x div int BLOCK_SIZE) ! nat (x mod int BLOCK_SIZE) else mem x)"
proof (induction "nat (b + 1 - a)" arbitrary: a mem)
  case 0
  then show ?case by (auto simp: fun_eq_iff)
next
  case (Suc n)
  let ?B = "int BLOCK_SIZE"
  have d: "a * ?B \<le> x \<and> x < (a + 1) * ?B \<longleftrightarrow> x div ?B = a" for x
    using div_mult_mod_eq [of x ?B] by (auto simp: BLOCK_SIZE_def)
  have m: "x - a * ?B = x mod ?B" if "x div ?B = a" for x using that div_mult_mod_eq [of x ?B] by simp
  have "[a..b] = a # [a + 1..b]" using Suc(2) by (simp add: upto_rec1)
  then show ?case
    using Suc(1) [of "a + 1"] Suc(2-4) m by (auto simp: read_block_def d fun_eq_iff)
qed

lemmas layout = off_block_bitmap_def off_dirty_flag_def off_obj_def off_cache_bitmap_mutex_def off_cache_bitmap_def
  off_last_cache_index_def off_dummy_def BITMAP_SIZE_def CACHE_PAGES_def NUM_OBJS_def

lemma super_blocks_eq: "super_blocks = [0..DATA_BLOCKS_START - 1]"
  by (simp add: super_blocks_def DATA_BLOCKS_START_eq sizeof_super_object_def BLOCK_SIZE_def BITMAP_SIZE_def CACHE_PAGES_def)

lemma bitmap_bytes:
  assumes "0 \<le> b" "b < BITMAP_SIZE"
  shows "ushort_at (super_byte m s) (off_block_bitmap + 2 * b) = block_bitmap s b"
proof (rule ushort_at_bytes)
  have "off_block_bitmap + 2 * b + 1 < off_dirty_flag" using assms(2) by (simp add: off_dirty_flag_def)
  moreover have "(2 * b + 1) div 2 = b" "(2 * b + 1) mod 2 = 1" by presburger+
  ultimately show "super_byte m s (off_block_bitmap + 2 * b) = ucast (block_bitmap s b)"
    "super_byte m s (off_block_bitmap + 2 * b + 1) = ucast (drop_bit 8 (block_bitmap s b))"
    using assms(1) by (simp_all add: super_byte_def Let_def add.assoc)
qed

lemma obj_byte:
  assumes "0 \<le> i" "i < NUM_OBJS" "k < 56"
  shows "super_byte m s (off_obj + 56 * i + int k) = obj_bytes (obj s i) ! k"
proof -
  have "(56 * i + int k) div 56 = i" "(56 * i + int k) mod 56 = int k" using assms(3) by simp_all
  moreover have "56 * i + int k < 56 * NUM_OBJS" using assms(2,3) by simp
  moreover have "0 \<le> 56 * i + int k" using assms(1) by simp
  moreover have "off_block_bitmap \<le> off_obj" "off_dirty_flag \<le> off_obj" by (simp_all add: layout)
  ultimately show ?thesis by (simp add: super_byte_def off_cache_bitmap_mutex_def add.assoc)
qed

lemma length_obj_bytes: "length (int_bytes v) = 4"
  by (simp add: int_bytes_def)

lemma obj_at_bytes:
  assumes "0 \<le> i" "i < NUM_OBJS" "length (o_key (obj s i)) = 32" "length (data_block_pointers (obj s i)) = 4"
    "\<forall>v \<in> {o_id (obj s i), o_size (obj s i)} \<union> set (data_block_pointers (obj s i)). - (2 ^ 31) \<le> v \<and> v < 2 ^ 31"
  shows "obj_at (super_byte m s) (off_obj + 56 * i) = obj s i"
proof -
  let ?x = "obj s i" and ?a = "off_obj + 56 * i"
  note B = obj_byte [OF assms(1,2)]
  obtain p0 p1 p2 p3 where p: "data_block_pointers ?x = [p0, p1, p2, p3]"
    using assms(4) by (auto simp: numeral_eq_Suc length_Suc_conv)
  have w: "int_at (super_byte m s) (?a + int c) = v"
    if "- (2 ^ 31) \<le> v \<and> v < 2 ^ 31" "\<And>k. k < 4 \<Longrightarrow> obj_bytes ?x ! (c + k) = int_bytes v ! k" "c \<le> 52" for c v
  proof (rule int_at_bytes)
    show "super_byte m s (?a + int c + int k) = int_bytes v ! k" if "k < 4" for k
      using B [of "c + k"] \<open>\<And>k. k < 4 \<Longrightarrow> obj_bytes ?x ! (c + k) = int_bytes v ! k\<close> [OF that] \<open>c \<le> 52\<close> that by (simp add: add.assoc)
  qed (use that in auto)
  note N = obj_bytes_def p nth_append length_obj_bytes assms(3)
  have "int_at (super_byte m s) ?a = o_id ?x" using w [of "o_id ?x" 0] assms(5) by (simp add: N)
  moreover have "int_at (super_byte m s) (?a + 4) = o_size ?x" using w [of "o_size ?x" 4] assms(5) by (simp add: N)
  moreover have K: "map (\<lambda>k. super_byte m s (?a + 8 + int k)) [0..<32] = o_key ?x"
  proof (rule nth_equalityI)
    show "map (\<lambda>k. super_byte m s (?a + 8 + int k)) [0..<32] ! k = o_key ?x ! k"
      if "k < length (map (\<lambda>k. super_byte m s (?a + 8 + int k)) [0..<32])" for k
      using B [of "8 + k"] that by (simp add: N add.assoc)
  qed (simp add: assms(3))
  moreover have "int_at (super_byte m s) (?a + 40) = p0" "int_at (super_byte m s) (?a + 44) = p1"
    "int_at (super_byte m s) (?a + 48) = p2" "int_at (super_byte m s) (?a + 52) = p3"
    using w [of p0 40] w [of p1 44] w [of p2 48] w [of p3 52] assms(5) by (simp_all add: N)
  then have "map (\<lambda>k. int_at (super_byte m s) (?a + 40 + 4 * int k)) [0..<4] = data_block_pointers ?x" by (simp add: p upt_conv_Cons add.assoc)
  ultimately show ?thesis unfolding obj_at_def K by simp
qed

lemma obj_at_id:
  assumes "0 \<le> i" "i < NUM_OBJS" "o_id (obj s i) = 0"
  shows "o_id (obj_at (super_byte m s) (off_obj + 56 * i)) = 0"
proof -
  have "int_at (super_byte m s) (off_obj + 56 * i) = 0"
  proof (rule int_at_bytes)
    show "super_byte m s (off_obj + 56 * i + int k) = int_bytes 0 ! k" if "k < 4" for k
      using obj_byte [OF assms(1,2), of k m s] assms(3) that by (simp add: obj_bytes_def nth_append length_obj_bytes)
  qed simp_all
  then show ?thesis by (simp add: obj_at_def)
qed

section \<open>Mounting again\<close>

lemma same_files:
  assumes "store_ok ch s" "\<And>i. o_id (obj u i) = o_id (obj s i)" "\<And>i. live s i \<Longrightarrow> obj u i = obj s i"
    "\<And>b. data_block s b \<Longrightarrow> lblock u b = lblock s b \<and> used u b = used s b"
    "total_num_disk_blocks u = total_num_disk_blocks s" "blk_inv ch u" "\<not> create_object_lock u"
  shows "store_ok ch u" "0 \<notin> set k \<Longrightarrow> files u k = files s k"
proof -
  have S: "objs_ok s" "table_ok s" "tab_ok s" "unique_keys s" using assms(1) by (auto simp: store_ok_def table_ok_def)
  have live: "live u = live s" by (simp add: fun_eq_iff live_def assms(2))
  have v: "lblock u b = lblock s b" "valid u b" if "valid s b" for b
    using that assms(4) [of b] assms(5) by (auto simp: valid_def data_block_def)
  have ow: "b \<in> owned s (obj s i) \<Longrightarrow> valid s b" if "live s i" for i b
    using objs_okD(1) [OF S(1) that] unfolding obj_ok_def by blast
  have F: "contents u (obj s i) = contents s (obj s i)" "owned u (obj s i) = owned s (obj s i)" "obj_ok u (obj s i)" if "live s i" for i
    using owned_frame(2,3) [OF objs_okD(1) [OF S(1) that], of u] obj_ok_frame [OF objs_okD(1) [OF S(1) that], of u] ow [OF that] v
    by auto
  have "objs_ok u"
    unfolding objs_ok_def live
  proof (intro conjI allI impI)
    show "obj_ok u (obj u i)" if "live s i" for i using F(3) [OF that] assms(3) [OF that] by simp
    show "owned u (obj u i) \<inter> owned u (obj u i') = {}" if "live s i \<and> live s i' \<and> i \<noteq> i'" for i i'
      using that F(2) assms(3) objs_okD(2) [OF S(1), of i i'] by simp
  qed
  moreover have h: "has u i k \<longleftrightarrow> has s i k" for i k using assms(2,3) [of i] by (auto simp: has_def live_def)
  have t: "tab_ok u" using S(3) assms(2,3) unfolding tab_ok_def live_def by metis
  have q: "unique_keys u" using S(4) assms(2,3) unfolding unique_keys_def live_def by metis
  ultimately show "store_ok ch u" using t q assms(6,7) by (simp add: store_ok_def table_ok_def)
  show "files u k = files s k" if k: "0 \<notin> set k"
  proof (cases rule: find_cases [OF S(3,4) k, case_names found absent])
    case (found i)
    then have "find_object_id k u = Some (i + 2)" "live s i" using find_has [OF t q k] h by (auto simp: live_def has_def)
    then show ?thesis using found F(1) assms(3) by (simp add: files_def idToIndex_def)
  next
    case absent
    then have "find_object_id k u = Some (-1)" using find_hasnt [OF t k] h by blast
    then show ?thesis using absent by (simp add: files_def)
  qed
qed

lemma int_range:
  assumes "store_ok ch s" "live s i"
  shows "\<forall>v \<in> {o_id (obj s i), o_size (obj s i)} \<union> set (data_block_pointers (obj s i)). - (2 ^ 31) \<le> v \<and> v < 2 ^ 31"
    "length (o_key (obj s i)) = 32" "length (data_block_pointers (obj s i)) = 4" "0 \<le> i" "i < NUM_OBJS"
proof -
  let ?x = "obj s i"
  have S: "obj_ok s ?x" "tab_ok s" "dev_ok s" using assms objs_okD(1) [of s i] by (auto simp: store_ok_def table_ok_def blk_inv_def)
  show r: "0 \<le> i" "i < NUM_OBJS" "length (o_key ?x) = 32" "length (data_block_pointers ?x) = 4"
    using S(2) assms(2) obj_okD(3) [OF S(1)] unfolding tab_ok_def live_def by (auto simp: strncpy32_def)
  have "o_id ?x = i + 2" using S(2) assms(2) unfolding tab_ok_def live_def by blast
  moreover have "- (2 ^ 31) \<le> v \<and> v < 2 ^ 31" if v: "v \<in> set (data_block_pointers ?x)" for v
  proof -
    obtain j where j: "j < 4" "v = pblk ?x j" using v r(4) by (auto simp: in_set_conv_nth pblk_def)
    show ?thesis
    proof (cases "j * 1024 < nblocks ?x")
      case True
      then show ?thesis
        using obj_okD(5) [OF S(1) True] S(3) j(2) by (auto simp: valid_def data_block_def dev_ok_def BITMAP_SIZE_def DATA_BLOCKS_START_eq)
    next
      case False
      then show ?thesis using obj_okD(4) [OF S(1) j(1)] j(2) by simp
    qed
  qed
  ultimately show "\<forall>v \<in> {o_id ?x, o_size ?x} \<union> set (data_block_pointers ?x). - (2 ^ 31) \<le> v \<and> v < 2 ^ 31"
    using obj_okD(1,2) [OF S(1)] r(1,2) by (auto simp: NUM_OBJS_def)
qed

lemma super_roundtrip:
  assumes "DATA_BLOCKS_START \<le> disk_len s" "disk t = disk (write_super m super_blocks s)" "disk_len t = disk_len s"
  shows "\<exists>m'. read_super super_blocks (\<lambda>_. 0) t = Some (super_byte m' s)"
proof -
  let ?B = "int BLOCK_SIZE" and ?m = "\<lambda>a. if 0 \<le> a div int BLOCK_SIZE \<and> a div int BLOCK_SIZE \<le> DATA_BLOCKS_START - 1 then m a else 0"
  have w: "disk t j = super_block (super_byte m s) j" if "0 \<le> j" "j \<le> DATA_BLOCKS_START - 1" for j
    using that assms(1) by (simp add: assms(2) super_blocks_eq write_super_eq)
  have "disk t (x div ?B) ! nat (x mod ?B) = super_byte ?m s x" if "0 \<le> x div ?B" "x div ?B \<le> DATA_BLOCKS_START - 1" for x
  proof -
    have "nat (x mod ?B) < BLOCK_SIZE" "x div ?B * ?B + x mod ?B = x" "0 \<le> x mod ?B" by (simp_all add: BLOCK_SIZE_def nat_less_iff)
    then have "disk t (x div ?B) ! nat (x mod ?B) = super_byte m s x" by (simp add: w [OF that] super_block_def)
    then show ?thesis using that by (simp add: super_byte_def)
  qed
  moreover have "super_byte ?m s x = 0" if "\<not> (0 \<le> x div ?B \<and> x div ?B \<le> DATA_BLOCKS_START - 1)" for x
  proof -
    have "x < 0 \<or> DATA_BLOCKS_START * ?B \<le> x" using that by (auto simp: BLOCK_SIZE_def DATA_BLOCKS_START_eq)
    then have "x < off_block_bitmap \<or> off_dummy \<le> x" by (auto simp: layout BLOCK_SIZE_def DATA_BLOCKS_START_eq)
    moreover have "off_block_bitmap \<le> off_dirty_flag" "off_dirty_flag \<le> off_obj" "off_obj \<le> off_cache_bitmap_mutex"
      "off_cache_bitmap_mutex \<le> off_cache_bitmap" "off_cache_bitmap \<le> off_last_cache_index" "off_last_cache_index \<le> off_dummy"
      by (simp_all add: layout)
    ultimately show ?thesis unfolding super_byte_def using that by auto
  qed
  ultimately have "read_super super_blocks (\<lambda>_. 0) t = Some (super_byte ?m s)"
    using assms(1,3) unfolding super_blocks_eq by (subst read_super_eq) (auto simp: fun_eq_iff)
  then show ?thesis by blast
qed

lemma init_fields:
  assumes "read_super super_blocks (\<lambda>_. 0) t = Some (super_byte m s1)" "u = snd (objstore_init t)"
  shows "objstore_init t = (0, u)" "block_bitmap u b = (if 0 \<le> b \<and> b < BITMAP_SIZE then block_bitmap s1 b else 0)"
    "obj u i = (if 0 \<le> i \<and> i < NUM_OBJS then obj_at (super_byte m s1) (off_obj + 56 * i) else zero_object)"
    "disk u = disk t" "disk_len u = disk_len t" "total_num_disk_blocks u = to_int (disk_len t)" "cache u = cache t"
    "last_cache_index u = 1" "cache_bitmap u = (\<lambda>_. 0)" "\<not> block_bitmap_mutex u" "\<not> cache_bitmap_mutex u" "\<not> create_object_lock u"
  by (simp_all add: assms(2) objstore_init_def assms(1) bitmap_bytes)

lemma init_blk_inv:
  assumes "read_super super_blocks (\<lambda>_. 0) t = Some (super_byte m s1)" "u = snd (objstore_init t)" "\<forall>b. block_bitmap s1 b \<le> 1"
    "\<forall>b. length (disk t b) = BLOCK_SIZE" "\<forall>i. length (cache t i) = BLOCK_SIZE" "0 \<le> disk_len t" "disk_len t \<le> BITMAP_SIZE"
  shows "blk_inv ch u" "lblock u = disk t" "total_num_disk_blocks u = disk_len t"
proof -
  note U = init_fields [OF assms(1,2)]
  show tot: "total_num_disk_blocks u = disk_len t"
    using U(6) assms(6,7) to_int_id [of "disk_len t"] by (simp add: BITMAP_SIZE_def)
  have le: "block_bitmap u b \<le> 1" for b using assms(3) by (simp add: U(2))
  then have no: "\<not> 1 < block_bitmap u b" for b by (simp add: not_less)
  show "lblock u = disk t" using no by (simp add: fun_eq_iff lblock_def U(4))
  have "dev_ok u" using U(4,5,10,11) tot assms(4,7) by (simp add: dev_ok_def)
  moreover have "cache_ok u" using U(7-9) assms(5) no by (simp add: cache_ok_def CACHE_PAGES_def)
  ultimately show "blk_inv ch u" using le by (simp add: blk_inv_def)
qed

lemma init_objects:
  assumes "read_super super_blocks (\<lambda>_. 0) t = Some (super_byte m s1)" "u = snd (objstore_init t)" "store_ok ch s" "obj s1 = obj s"
  shows "live s i \<Longrightarrow> obj u i = obj s i" "o_id (obj u i) = o_id (obj s i)"
proof -
  note U = init_fields(3) [OF assms(1,2)]
  show lv: "obj u i = obj s i" if "live s i"
    using int_range [OF assms(3) that] obj_at_bytes [of i s1 m] by (simp add: U assms(4))
  show "o_id (obj u i) = o_id (obj s i)"
  proof (cases "live s i")
    case False
    then show ?thesis using obj_at_id [of i s1 m] by (simp add: U assms(4) live_def zero_object_def)
  qed (simp add: lv)
qed

text \<open>
  C3: Unmounting keeps every file.  \<open>objstore_destroy\<close> returns, and a later \<open>objstore_init\<close> on the disk image it leaves,
  with any contents of the other memory, gives a well-formed store with the same files, whether the dirty pages were
  in the cache or on the disk.
\<close>

theorem remount_keeps_files:
  assumes "store_ok ch s" "total_num_disk_blocks s = disk_len s" "DATA_BLOCKS_START \<le> disk_len s"
  shows "\<exists>s'. objfs_destroy ch m s = Some s' \<and>
    (\<forall>t. disk t = disk s' \<and> disk_len t = disk_len s' \<and> (\<forall>i. length (cache t i) = BLOCK_SIZE) \<longrightarrow>
      fst (objstore_init t) = 0 \<and> store_ok ch (objfs_init t) \<and> (\<forall>k. 0 \<notin> set k \<longrightarrow> files (objfs_init t) k = files s k))"
proof -
  have S: "blk_inv ch s" "dev_ok s" "\<not> create_object_lock s" "tab_ok s" using assms(1) by (auto simp: store_ok_def blk_inv_def table_ok_def)
  obtain s1 where s1: "cache_sync ch s = Some s1" "keeps_objs s s1" "disk s1 = lblock s" "used s1 = used s"
      "\<forall>b. block_bitmap s1 b \<le> 1" "dev_ok s1" "disk_len s1 = disk_len s"
    using cache_sync_law [OF S(1)] by blast
  let ?s2 = "write_super m super_blocks s1"
  have "objstore_destroy ch m s = Some (0, ?s2)" using s1(1) S(2,3) by (simp add: objstore_destroy_def dev_ok_def)
  then have "objfs_destroy ch m s = Some ?s2" by (simp add: objfs_destroy_def)
  moreover have s2: "?s2 = s1\<lparr>disk := (\<lambda>j. if 0 \<le> j \<and> j \<le> DATA_BLOCKS_START - 1 then super_block (super_byte m s1) j else disk s1 j)\<rparr>"
    unfolding super_blocks_eq using s1(7) assms(3) by (intro write_super_eq) simp_all
  have "fst (objstore_init t) = 0 \<and> store_ok ch (objfs_init t) \<and> (\<forall>k. 0 \<notin> set k \<longrightarrow> files (objfs_init t) k = files s k)"
    if t: "disk t = disk ?s2" "disk_len t = disk_len ?s2" "\<forall>i. length (cache t i) = BLOCK_SIZE" for t
  proof -
    have tl: "disk_len t = disk_len s1" using t(2) s2 by simp
    obtain m' where m': "read_super super_blocks (\<lambda>_. 0) t = Some (super_byte m' s1)"
      using super_roundtrip [OF _ t(1) tl] s1(7) assms(3) by auto
    define u where "u = snd (objstore_init t)"
    have o: "obj s1 = obj s" using s1(2) by (simp add: keeps_objs_def)
    have len: "\<forall>b. length (disk t b) = BLOCK_SIZE" using s1(6) by (simp add: t(1) s2 super_block_def dev_ok_def)
    have r: "0 \<le> disk_len t" "disk_len t \<le> BITMAP_SIZE"
      using S(2) assms(2,3) tl s1(7) by (simp_all add: dev_ok_def DATA_BLOCKS_START_eq)
    note I = init_blk_inv [OF m' u_def s1(5) len t(3) r]
    note U = init_fields [OF m' u_def]
    note O = init_objects [OF m' u_def assms(1) o]
    have d: "lblock u b = lblock s b \<and> used u b = used s b" if "data_block s b" for b
    proof -
      have b: "DATA_BLOCKS_START \<le> b" "0 \<le> b" "b < BITMAP_SIZE"
        using that S(2) by (auto simp: data_block_def dev_ok_def DATA_BLOCKS_START_eq)
      have "used u b = used s1 b" using b(2,3) by (simp add: used_def U(2))
      then show ?thesis using b(1) s1(3,4) by (simp add: I(2) t(1) s2)
    qed
    have "total_num_disk_blocks u = total_num_disk_blocks s" using I(3) assms(2) tl s1(7) by simp
    then have "store_ok ch u" "\<forall>k. 0 \<notin> set k \<longrightarrow> files u k = files s k" using same_files [OF assms(1) O(2,1) d _ I(1) U(12)] by blast+
    moreover have "objfs_init t = u" "fst (objstore_init t) = 0" using U(1) by (simp_all add: objfs_init_def)
    ultimately show ?thesis by simp
  qed
  ultimately show ?thesis by blast
qed

theorem remount_keeps_files_witness:
  "\<exists>s'. objfs_destroy True (\<lambda>_. 0) cached_file = Some s' \<and>
    files (objfs_init (s'\<lparr>cache := (\<lambda>_. zero_block)\<rparr>)) [97, 66] = files cached_file [97, 66]"
proof -
  have t: "total_num_disk_blocks cached_file = disk_len cached_file" "DATA_BLOCKS_START \<le> disk_len cached_file"
    by (simp_all add: cached_file_def one_object_def empty_store_def DATA_BLOCKS_START_eq)
  obtain s' where s': "objfs_destroy True (\<lambda>_. 0) cached_file = Some s'"
      "\<forall>t. disk t = disk s' \<and> disk_len t = disk_len s' \<and> (\<forall>i. length (cache t i) = BLOCK_SIZE) \<longrightarrow>
        fst (objstore_init t) = 0 \<and> store_ok True (objfs_init t) \<and> (\<forall>k. 0 \<notin> set k \<longrightarrow> files (objfs_init t) k = files cached_file k)"
    using remount_keeps_files [OF cached_file_ok(1) t, of "\<lambda>_. 0"] by blast
  then show ?thesis using spec [OF s'(2), of "s'\<lparr>cache := (\<lambda>_. zero_block)\<rparr>"] by fastforce
qed

end
