(* ===== verification/AddrRange.thy ===== *)
theory AddrRange
  imports IntMath
begin

text \<open>
  Address ranges of gem5 (\<open>base/addr_range.hh\<close>): plain ranges, and ranges that are interleaved with others by a slice of
  the address, optionally hashed with a second slice.  \<^term>\<open>None\<close> is a call of \<open>fatal\<close> or \<open>panic\<close>.
\<close>

unbundle bit_operations_syntax

section \<open>The class\<close>

record addr_range =
  ar_start :: u64
  ar_end :: u64
  intlvHighBit :: u8
  xorHighBit :: u8
  intlvBits :: u8
  intlvMatch :: u8

definition AddrRange_default :: addr_range
  where "AddrRange_default = \<lparr>ar_start = 1, ar_end = 0, intlvHighBit = 0, xorHighBit = 0, intlvBits = 0, intlvMatch = 0\<rparr>"

text \<open>The constructor of an interleaved range, with its sanity checks.\<close>

definition AddrRange_intlv :: "u64 \<Rightarrow> u64 \<Rightarrow> u8 \<Rightarrow> u8 \<Rightarrow> u8 \<Rightarrow> u8 \<Rightarrow> addr_range option"
  where "AddrRange_intlv start stop intlv_high_bit xor_high_bit intlv_bits intlv_match = do {
    c_assert (intlv_bits \<noteq> 0 \<longrightarrow> unat intlv_bits < 64);
    c_assert (\<not> (intlv_bits \<noteq> 0 \<and> ucast intlv_match \<ge> (push_bit (unat intlv_bits) 1 :: u64)));
    c_assert (intlv_bits \<noteq> 0 \<and> xor_high_bit \<noteq> 0 \<longrightarrow>
      (if xor_high_bit = intlv_high_bit then False
       else if xor_high_bit > intlv_high_bit then \<not> (uint xor_high_bit - uint intlv_high_bit < uint intlv_bits)
       else \<not> (uint intlv_high_bit - uint xor_high_bit < uint intlv_bits)));
    Some \<lparr>ar_start = start, ar_end = stop, intlvHighBit = intlv_high_bit, xorHighBit = xor_high_bit, intlvBits = intlv_bits,
      intlvMatch = intlv_match\<rparr> }"

definition AddrRange_plain :: "u64 \<Rightarrow> u64 \<Rightarrow> addr_range"
  where "AddrRange_plain start stop =
    \<lparr>ar_start = start, ar_end = stop, intlvHighBit = 0, xorHighBit = 0, intlvBits = 0, intlvMatch = 0\<rparr>"

definition interleaved :: "addr_range \<Rightarrow> bool"
  where "interleaved r = (intlvBits r \<noteq> 0)"

definition hashed :: "addr_range \<Rightarrow> bool"
  where "hashed r = (interleaved r \<and> xorHighBit r \<noteq> 0)"

text \<open>The low end of the slice with a given high bit.\<close>

definition low_bit :: "u8 \<Rightarrow> addr_range \<Rightarrow> int"
  where "low_bit high r = uint high - uint (intlvBits r) + 1"

definition granularity :: "addr_range \<Rightarrow> u64"
  where "granularity r = push_bit (nat (low_bit (intlvHighBit r) r)) 1"

definition stripes :: "addr_range \<Rightarrow> u32"
  where "stripes r = ucast (push_bit (unat (intlvBits r)) 1 :: u64)"

definition ar_size :: "addr_range \<Rightarrow> u64"
  where "ar_size r = drop_bit (unat (intlvBits r)) (ar_end r - ar_start r + 1)"

definition ar_valid :: "addr_range \<Rightarrow> bool"
  where "ar_valid r = (ar_start r \<le> ar_end r)"

definition mergesWith :: "addr_range \<Rightarrow> addr_range \<Rightarrow> bool"
  where "mergesWith this r \<longleftrightarrow> ar_start r = ar_start this \<and> ar_end r = ar_end this \<and> intlvHighBit r = intlvHighBit this \<and>
    xorHighBit r = xorHighBit this \<and> intlvBits r = intlvBits this"

text \<open>The loop of the merging constructor checks the ranges in turn.\<close>

primrec merge_check :: "addr_range \<Rightarrow> addr_range list \<Rightarrow> u8 \<Rightarrow> unit option"
  where
    "merge_check this [] match = Some ()"
  | "merge_check this (r # rs) match = do {
      c_assert (mergesWith this r);
      c_assert (intlvMatch r = match);
      merge_check this rs (match + 1) }"

definition AddrRange_merge :: "addr_range list \<Rightarrow> addr_range option"
  where "AddrRange_merge ranges =
    (case ranges of
       [] \<Rightarrow> Some AddrRange_default
     | r # _ \<Rightarrow> do {
         let this = r\<lparr>intlvMatch := 0\<rparr>;
         c_assert (unat (intlvBits this) < 64 \<and> int (length ranges) = 2 ^ unat (intlvBits this));
         merge_check this ranges 0;
         Some (this\<lparr>intlvHighBit := 0, xorHighBit := 0, intlvBits := 0\<rparr>) })"

definition contains :: "addr_range \<Rightarrow> u64 \<Rightarrow> bool"
  where "contains r a =
    (let in_range = a \<ge> ar_start r \<and> a \<le> ar_end r in
     if \<not> interleaved r then in_range
     else if in_range then
       (if \<not> hashed r then bits a (uint (intlvHighBit r)) (low_bit (intlvHighBit r) r) = ucast (intlvMatch r)
        else bits a (uint (intlvHighBit r)) (low_bit (intlvHighBit r) r) XOR bits a (uint (xorHighBit r)) (low_bit (xorHighBit r) r) =
          ucast (intlvMatch r))
     else False)"

definition intersects :: "addr_range \<Rightarrow> addr_range \<Rightarrow> bool option"
  where "intersects this r =
    (if ar_start this > ar_end r \<or> ar_end this < ar_start r then Some False
     else if \<not> interleaved this \<and> \<not> interleaved r then Some True
     else if ar_size r = 1 then Some (contains this (ar_start r))
     else if mergesWith this r then Some (intlvMatch this = intlvMatch r)
     else None)"

definition isSubset :: "addr_range \<Rightarrow> addr_range \<Rightarrow> bool option"
  where "isSubset this r = do {
    c_assert (\<not> interleaved this);
    Some (ar_start this \<ge> ar_start r \<and> ar_end this \<le> ar_end r) }"

definition removeIntlvBits :: "addr_range \<Rightarrow> u64 \<Rightarrow> u64"
  where "removeIntlvBits r a =
    (let intlv_low_bit = low_bit (intlvHighBit r) r in insertBits (drop_bit (unat (intlvBits r)) a) (intlv_low_bit - 1) 0 a)"

definition ar_MaxAddr :: u64
  where "ar_MaxAddr = -1"

definition ar_getOffset :: "addr_range \<Rightarrow> u64 \<Rightarrow> u64"
  where "ar_getOffset r a =
    (let in_range = a \<ge> ar_start r \<and> a \<le> ar_end r in
     if \<not> in_range then ar_MaxAddr
     else if interleaved r then removeIntlvBits r a - removeIntlvBits r (ar_start r)
     else a - ar_start r)"

definition ar_less :: "addr_range \<Rightarrow> addr_range \<Rightarrow> bool"
  where "ar_less this r = (if ar_start this \<noteq> ar_start r then ar_start this < ar_start r else intlvMatch this < intlvMatch r)"

definition ar_eq :: "addr_range \<Rightarrow> addr_range \<Rightarrow> bool"
  where "ar_eq this r \<longleftrightarrow> ar_start this = ar_start r \<and> ar_end this = ar_end r \<and> intlvBits this = intlvBits r \<and>
    (intlvBits this \<noteq> 0 \<longrightarrow> intlvHighBit this = intlvHighBit r \<and> intlvMatch this = intlvMatch r)"

definition RangeEx :: "u64 \<Rightarrow> u64 \<Rightarrow> addr_range"
  where "RangeEx start stop = AddrRange_plain start (stop - 1)"

definition RangeIn :: "u64 \<Rightarrow> u64 \<Rightarrow> addr_range"
  where "RangeIn start stop = AddrRange_plain start stop"

definition RangeSize :: "u64 \<Rightarrow> u64 \<Rightarrow> addr_range"
  where "RangeSize start sz = AddrRange_plain start (start + sz - 1)"

section \<open>Addresses of a range\<close>

text \<open>
  The slices lie in the address and do not overlap, and the value to match fits.  Outside of this the shifts of the code
  are undefined or no address matches.
\<close>

definition ar_ok :: "addr_range \<Rightarrow> bool"
  where "ar_ok r \<longleftrightarrow> (interleaved r \<longrightarrow>
    0 \<le> low_bit (intlvHighBit r) r \<and> uint (intlvHighBit r) < 64 \<and> unat (intlvMatch r) < 2 ^ unat (intlvBits r) \<and>
    (hashed r \<longrightarrow> 0 \<le> low_bit (xorHighBit r) r \<and> uint (xorHighBit r) < 64 \<and>
      uint (intlvBits r) \<le> \<bar>uint (xorHighBit r) - uint (intlvHighBit r)\<bar>))"

text \<open>The value that is compared with \<open>intlvMatch\<close>.\<close>

definition slice :: "addr_range \<Rightarrow> u64 \<Rightarrow> u64"
  where "slice r a =
    (let k = unat (intlvBits r); s = take_bit k (drop_bit (nat (low_bit (intlvHighBit r) r)) a)
     in if hashed r then s XOR take_bit k (drop_bit (nat (low_bit (xorHighBit r) r)) a) else s)"

lemma slice_bits:
  assumes "intlvBits r \<noteq> 0" "0 \<le> low_bit h r" "uint h < 64"
  shows "bits a (uint h) (low_bit h r) = take_bit (unat (intlvBits r)) (drop_bit (nat (low_bit h r)) a)"
    "nat (low_bit h r) + unat (intlvBits r) = unat h + 1" "unat h < 64"
proof -
  have k: "0 < unat (intlvBits r)" using assms(1) by (simp add: unat_gt_0)
  have "int (nat (low_bit h r)) + int (unat (intlvBits r)) = int (unat h) + 1"
    using assms(2) unfolding low_bit_def by simp
  then show e: "nat (low_bit h r) + unat (intlvBits r) = unat h + 1" by linarith
  have u: "uint h = int (unat h)" by simp
  show h: "unat h < 64" using assms(3) unfolding u by linarith
  have "uint h = int (nat (low_bit h r) + unat (intlvBits r)) - 1" using e u by linarith
  then show "bits a (uint h) (low_bit h r) = take_bit (unat (intlvBits r)) (drop_bit (nat (low_bit h r)) a)"
    using bits_field [OF k, of "nat (low_bit h r)" a] e h assms(2) by (simp del: of_nat_add)
qed

lemma contains_iff:
  assumes "ar_ok r"
  shows "contains r a \<longleftrightarrow> ar_start r \<le> a \<and> a \<le> ar_end r \<and> (interleaved r \<longrightarrow> slice r a = ucast (intlvMatch r))"
proof (cases "interleaved r")
  case True
  then have k: "intlvBits r \<noteq> 0" by (simp add: interleaved_def)
  have h: "0 \<le> low_bit (intlvHighBit r) r" "uint (intlvHighBit r) < 64" using assms True by (auto simp: ar_ok_def)
  show ?thesis
  proof (cases "hashed r")
    case True
    then have "0 \<le> low_bit (xorHighBit r) r" "uint (xorHighBit r) < 64" using assms \<open>interleaved r\<close> by (auto simp: ar_ok_def)
    then show ?thesis
      using slice_bits(1) [OF k h] slice_bits(1) [OF k] True \<open>interleaved r\<close> by (auto simp: contains_def slice_def Let_def)
  next
    case False
    then show ?thesis using slice_bits(1) [OF k h] \<open>interleaved r\<close> by (auto simp: contains_def slice_def Let_def)
  qed
qed (simp add: contains_def)

lemma slice_less: "unat (slice r a) < 2 ^ unat (intlvBits r)"
proof -
  let ?k = "unat (intlvBits r)"
  have "take_bit ?k (slice r a) = slice r a" by (simp add: slice_def Let_def take_bit_xor)
  then have "unat (slice r a) = take_bit ?k (unat (slice r a))" by (metis unsigned_take_bit_eq)
  then show ?thesis by (metis take_bit_nat_less_exp)
qed

lemma slice_match [simp]: "slice (r\<lparr>intlvMatch := m\<rparr>) = slice r" "slice (r\<lparr>ar_start := s, ar_end := e\<rparr>) = slice r"
  by (simp_all add: fun_eq_iff slice_def hashed_def interleaved_def low_bit_def Let_def cong: if_cong)

lemma merges_slice: "mergesWith this r \<Longrightarrow> slice r = slice this \<and> interleaved r = interleaved this"
  by (simp add: mergesWith_def fun_eq_iff slice_def hashed_def interleaved_def low_bit_def Let_def cong: if_cong)

lemma u8_less_256:
  assumes "unat (x :: u64) < 256"
  shows "ucast (ucast x :: u8) = x"
proof -
  have "ucast (ucast x :: u8) = take_bit 8 x" by (rule bit_word_eqI) (simp add: bit_simps)
  then show ?thesis using take_bit_word_eq_self [of x 8] assms by simp
qed

section \<open>Merging the stripes\<close>

lemma merge_check_iff:
  "merge_check this rs m = Some () \<longleftrightarrow> (\<forall>i < length rs. mergesWith this (rs ! i) \<and> intlvMatch (rs ! i) = m + of_nat i)"
proof (induction rs arbitrary: m)
  case (Cons r rs)
  show ?case by (auto simp: Cons All_less_Suc2 add.assoc)
qed simp

lemma unat_u8: "i < 256 \<Longrightarrow> unat (ucast (of_nat i :: u8) :: u64) = i"
  by (simp add: unsigned_ucast_eq unat_of_nat take_bit_nat_eq_self)

lemma merge_SomeD:
  assumes "AddrRange_merge rs = Some q" "rs \<noteq> []"
  shows "length rs = 2 ^ unat (intlvBits (hd rs))" "q = (hd rs)\<lparr>intlvMatch := 0, intlvHighBit := 0, xorHighBit := 0, intlvBits := 0\<rparr>"
    "i < length rs \<Longrightarrow> mergesWith (hd rs) (rs ! i) \<and> intlvMatch (rs ! i) = of_nat i"
proof -
  obtain r rs' where rs: "rs = r # rs'" using assms(2) by (cases rs) auto
  have "int (length rs) = 2 ^ unat (intlvBits r)" and M: "merge_check (r\<lparr>intlvMatch := 0\<rparr>) rs 0 = Some ()"
    and q: "q = r\<lparr>intlvMatch := 0, intlvHighBit := 0, xorHighBit := 0, intlvBits := 0\<rparr>"
    using assms(1) by (auto simp: rs AddrRange_merge_def Let_def simp del: merge_check.simps split: Option.bind_splits)
  then show "length rs = 2 ^ unat (intlvBits (hd rs))" "q = (hd rs)\<lparr>intlvMatch := 0, intlvHighBit := 0, xorHighBit := 0, intlvBits := 0\<rparr>"
    by (simp_all add: rs flip: of_nat_eq_iff [where 'a = int])
  show "mergesWith (hd rs) (rs ! i) \<and> intlvMatch (rs ! i) = of_nat i" if "i < length rs"
    using M that unfolding merge_check_iff by (simp add: rs mergesWith_def)
qed

text \<open>
  C37: Merging gives the union of the stripes.  When the merging constructor accepts a list of well-formed ranges with at
  most eight interleaving bits, the merged range has exactly the addresses of the ranges of the list, and no address is
  in two of them.
\<close>

theorem merge_is_union:
  assumes "AddrRange_merge rs = Some q" "rs \<noteq> []" "\<forall>r \<in> set rs. ar_ok r" "unat (intlvBits (hd rs)) \<le> 8"
  shows "(contains q a \<longleftrightarrow> (\<exists>r \<in> set rs. contains r a)) \<and>
    (i < length rs \<and> j < length rs \<and> contains (rs ! i) a \<and> contains (rs ! j) a \<longrightarrow> i = j)"
proof -
  let ?k = "unat (intlvBits (hd rs))" and ?r = "hd rs"
  note D = merge_SomeD [OF assms(1,2)]
  have len: "length rs \<le> 256" using power_increasing [OF assms(4), of "2::nat"] by (simp add: D(1))
  have C: "contains (rs ! n) a \<longleftrightarrow> ar_start ?r \<le> a \<and> a \<le> ar_end ?r \<and> unat (slice ?r a) = n" if "n < length rs" for n
  proof -
    have m: "mergesWith ?r (rs ! n)" "intlvMatch (rs ! n) = of_nat n" "ar_ok (rs ! n)" using D(3) [OF that] assms(3) that by auto
    have s: "slice (rs ! n) = slice ?r" "interleaved (rs ! n) = interleaved ?r" using merges_slice [OF m(1)] by auto
    have "slice ?r a = ucast (of_nat n :: u8) \<longleftrightarrow> unat (slice ?r a) = n"
      using unat_u8 [of n] that len by (auto simp: word_unat_eq_iff)
    moreover have "unat (slice ?r a) = n" if "\<not> interleaved ?r"
      using slice_less [of ?r a] that \<open>n < length rs\<close> D(1) by (simp add: interleaved_def)
    ultimately show ?thesis using contains_iff [OF m(3), of a] m(1,2) s by (auto simp: mergesWith_def)
  qed
  have "contains q a \<longleftrightarrow> ar_start ?r \<le> a \<and> a \<le> ar_end ?r" by (simp add: contains_def D(2) interleaved_def)
  moreover have "unat (slice ?r a) < length rs" using slice_less [of ?r a] by (simp add: D(1))
  ultimately have "contains q a \<longleftrightarrow> (\<exists>n < length rs. contains (rs ! n) a)" using C by blast
  moreover have "(\<exists>r \<in> set rs. contains r a) \<longleftrightarrow> (\<exists>n < length rs. contains (rs ! n) a)" by (metis in_set_conv_nth)
  ultimately show ?thesis using C by blast
qed

theorem merge_is_union_witness:
  "AddrRange_merge [\<lparr>ar_start = 0, ar_end = 255, intlvHighBit = 6, xorHighBit = 0, intlvBits = 1, intlvMatch = 0\<rparr>,
      \<lparr>ar_start = 0, ar_end = 255, intlvHighBit = 6, xorHighBit = 0, intlvBits = 1, intlvMatch = 1\<rparr>] = Some (AddrRange_plain 0 255) \<and>
    (contains \<lparr>ar_start = 0, ar_end = 255, intlvHighBit = 6, xorHighBit = 0, intlvBits = 1, intlvMatch = 0\<rparr> 64 \<or>
     contains \<lparr>ar_start = 0, ar_end = 255, intlvHighBit = 6, xorHighBit = 0, intlvBits = 1, intlvMatch = 1\<rparr> 64)"
proof -
  let ?rs = "[\<lparr>ar_start = 0, ar_end = 255, intlvHighBit = 6, xorHighBit = 0, intlvBits = 1, intlvMatch = 0\<rparr>,
      \<lparr>ar_start = 0, ar_end = 255, intlvHighBit = 6, xorHighBit = 0, intlvBits = 1, intlvMatch = 1\<rparr>]"
  have m: "AddrRange_merge ?rs = Some (AddrRange_plain 0 255)" by (simp add: AddrRange_merge_def AddrRange_plain_def mergesWith_def)
  have "\<forall>r \<in> set ?rs. ar_ok r" by (simp add: ar_ok_def low_bit_def hashed_def)
  moreover have "contains (AddrRange_plain 0 255) 64" by (simp add: contains_def AddrRange_plain_def interleaved_def)
  ultimately show ?thesis using merge_is_union [OF m, of 64] m by simp
qed

section \<open>Offsets\<close>

text \<open>The slice is from bit \<open>lo r\<close> up to, and without, bit \<open>hi r\<close>.\<close>

definition lo :: "addr_range \<Rightarrow> nat"
  where "lo r = nat (low_bit (intlvHighBit r) r)"

definition hi :: "addr_range \<Rightarrow> nat"
  where "hi r = unat (intlvHighBit r) + 1"

lemma lo_hi:
  assumes "ar_ok r" "interleaved r"
  shows "lo r + unat (intlvBits r) = hi r" "hi r \<le> 64" "0 < unat (intlvBits r)" "int (lo r) = low_bit (intlvHighBit r) r"
proof -
  have k: "intlvBits r \<noteq> 0" and h: "0 \<le> low_bit (intlvHighBit r) r" "uint (intlvHighBit r) < 64"
    using assms by (auto simp: ar_ok_def interleaved_def)
  show "lo r + unat (intlvBits r) = hi r" "hi r \<le> 64" "0 < unat (intlvBits r)" "int (lo r) = low_bit (intlvHighBit r) r"
    using slice_bits(2,3) [OF k h] k h(1) by (simp_all add: lo_def hi_def unat_gt_0)
qed

lemma bit_removeIntlvBits:
  assumes "ar_ok r" "interleaved r"
  shows "bit (removeIntlvBits r a) i \<longleftrightarrow> (if i < lo r then bit a i else bit a (i + unat (intlvBits r)))"
proof (cases "i < 64")
  case True
  note l = lo_hi [OF assms]
  show ?thesis
  proof (cases "lo r = 0")
    case True
    then have "low_bit (intlvHighBit r) r = 0" using l(4) by simp
    then show ?thesis using True by (simp add: removeIntlvBits_def insertBits_def bf_mask_def bit_simps add.commute)
  next
    case False
    have "low_bit (intlvHighBit r) r - 1 < 64" "0 \<le> low_bit (intlvHighBit r) r - 1" "nat (low_bit (intlvHighBit r) r - 1) = lo r - 1"
      using l False by simp_all
    then show ?thesis
      using True l False by (auto simp: removeIntlvBits_def bit_insertBits bit_simps add.commute)
  qed
next
  case False
  then show ?thesis using lo_hi [OF assms] by (auto dest: bit_imp_le_length)
qed

lemma uint_removeIntlvBits:
  assumes "ar_ok r" "interleaved r"
  shows "uint (removeIntlvBits r a) = uint a mod 2 ^ lo r + 2 ^ lo r * (uint a div 2 ^ hi r)"
proof -
  have "uint (removeIntlvBits r a) = concat_bit (lo r) (uint a) (drop_bit (hi r) (uint a))"
    using lo_hi(1) [OF assms, symmetric]
    by (intro bit_eqI) (auto simp: bit_uint_iff bit_concat_bit_iff bit_drop_bit_eq bit_removeIntlvBits [OF assms] add.commute
        dest: bit_imp_le_length)
  then show ?thesis by (simp add: concat_bit_eq take_bit_eq_mod drop_bit_eq_div push_bit_eq_mult mult.commute)
qed

text \<open>Two addresses that agree outside the slice.\<close>

definition same_outside :: "addr_range \<Rightarrow> u64 \<Rightarrow> u64 \<Rightarrow> bool"
  where "same_outside r a b \<longleftrightarrow> (\<forall>i. i < lo r \<or> hi r \<le> i \<longrightarrow> bit a i = bit b i)"

lemma same_outside_remove:
  assumes "ar_ok r" "interleaved r"
  shows "same_outside r a b \<longleftrightarrow> removeIntlvBits r a = removeIntlvBits r b"
proof
  note l = lo_hi [OF assms]
  assume s: "same_outside r a b"
  show "removeIntlvBits r a = removeIntlvBits r b"
    by (rule bit_word_eqI) (use s l in \<open>auto simp: bit_removeIntlvBits [OF assms] same_outside_def\<close>)
next
  note l = lo_hi [OF assms]
  assume e: "removeIntlvBits r a = removeIntlvBits r b"
  show "same_outside r a b"
    unfolding same_outside_def
  proof (intro allI impI)
    fix i assume "i < lo r \<or> hi r \<le> i"
    then show "bit a i = bit b i"
    proof
      assume "i < lo r"
      then show ?thesis using e bit_removeIntlvBits [OF assms, of a i] bit_removeIntlvBits [OF assms, of b i] by simp
    next
      assume h: "hi r \<le> i"
      then have "\<not> i - unat (intlvBits r) < lo r" "i - unat (intlvBits r) + unat (intlvBits r) = i" using l(1) by simp_all
      then show ?thesis
        using e bit_removeIntlvBits [OF assms, of a "i - unat (intlvBits r)"] bit_removeIntlvBits [OF assms, of b "i - unat (intlvBits r)"]
        by simp
    qed
  qed
qed

text \<open>The part of the value to match that comes from the hash.\<close>

definition xslice :: "addr_range \<Rightarrow> u64 \<Rightarrow> u64"
  where "xslice r a = (if hashed r then take_bit (unat (intlvBits r)) (drop_bit (nat (low_bit (xorHighBit r) r)) a) else 0)"

lemma slice_eq: "slice r a = take_bit (unat (intlvBits r)) (drop_bit (lo r) a) XOR xslice r a"
  by (simp add: slice_def xslice_def lo_def Let_def)

lemma same_outside_xslice:
  assumes "ar_ok r" "interleaved r" "same_outside r a b"
  shows "xslice r a = xslice r b"
proof (cases "hashed r")
  case True
  let ?k = "unat (intlvBits r)" and ?x = "nat (low_bit (xorHighBit r) r)"
  have k: "intlvBits r \<noteq> 0" and x: "0 \<le> low_bit (xorHighBit r) r" "uint (xorHighBit r) < 64"
      "uint (intlvBits r) \<le> \<bar>uint (xorHighBit r) - uint (intlvHighBit r)\<bar>"
    using assms(1,2) True by (auto simp: ar_ok_def interleaved_def)
  have u: "uint (intlvBits r) = int ?k" "uint (xorHighBit r) = int (unat (xorHighBit r))" "uint (intlvHighBit r) = int (unat (intlvHighBit r))"
    by simp_all
  have "?x + ?k \<le> lo r \<or> hi r \<le> ?x"
    using slice_bits(2) [OF k x(1,2)] lo_hi(1) [OF assms(1,2)] x(3) unfolding u hi_def by linarith
  then have "bit a (?x + i) = bit b (?x + i)" if "i < ?k" for i
    using assms(3) that unfolding same_outside_def by auto
  then have "take_bit ?k (drop_bit ?x a) = take_bit ?k (drop_bit ?x b)"
    by (intro bit_word_eqI) (auto simp: bit_simps)
  then show ?thesis using True by (simp add: xslice_def)
qed (simp add: xslice_def)

lemma same_address:
  assumes "ar_ok r" "interleaved r" "same_outside r a b" "slice r a = slice r b"
  shows "a = b"
proof (rule bit_word_eqI)
  fix i
  let ?k = "unat (intlvBits r)" and ?T = "\<lambda>x. take_bit (unat (intlvBits r)) (drop_bit (lo r) x)" and ?X = "xslice r b"
  have "?T a XOR ?X = ?T b XOR ?X" using assms(4) same_outside_xslice [OF assms(1-3)] by (simp add: slice_eq)
  then have "(?T a XOR ?X) XOR ?X = (?T b XOR ?X) XOR ?X" by simp
  then have T: "?T a = ?T b" by (simp add: xor.assoc)
  have E: "bit a (lo r + j) = bit b (lo r + j)" if "j < ?k" for j
    using arg_cong [OF T, of "\<lambda>w. bit w j"] that by (auto simp: bit_simps dest: bit_imp_le_length)
  show "bit a i = bit b i"
  proof (cases "i < lo r \<or> hi r \<le> i")
    case True
    then show ?thesis using assms(3) unfolding same_outside_def by blast
  next
    case False
    then have "i - lo r < ?k" "lo r + (i - lo r) = i" using lo_hi(1) [OF assms(1,2)] by linarith+
    then show ?thesis using E [of "i - lo r"] by simp
  qed
qed

text \<open>A range whose ends are multiples of the unit that the slice divides.\<close>

definition aligned :: "addr_range \<Rightarrow> bool"
  where "aligned r \<longleftrightarrow> ar_valid r \<and> (interleaved r \<longrightarrow> 2 ^ hi r dvd uint (ar_start r) \<and> 2 ^ hi r dvd uint (ar_end r) + 1)"

definition addresses :: "addr_range \<Rightarrow> nat"
  where "addresses r = nat ((uint (ar_end r) + 1 - uint (ar_start r)) div 2 ^ unat (intlvBits r))"

lemma aligned_units:
  assumes "ar_ok r" "aligned r" "interleaved r"
  obtains P Q where "uint (ar_start r) = P * 2 ^ hi r" "uint (ar_end r) + 1 = Q * 2 ^ hi r" "0 \<le> P" "P < Q"
    "int (addresses r) = (Q - P) * 2 ^ lo r"
proof -
  obtain P Q where u: "uint (ar_start r) = P * 2 ^ hi r" "uint (ar_end r) + 1 = Q * 2 ^ hi r"
    using assms(2,3) unfolding aligned_def by (metis dvdE mult.commute)
  have "0 \<le> uint (ar_start r)" "uint (ar_start r) \<le> uint (ar_end r)" using assms(2) by (simp_all add: aligned_def ar_valid_def word_le_def)
  then have "0 \<le> P * 2 ^ hi r" "P * 2 ^ hi r < Q * 2 ^ hi r" using u by linarith+
  then have r: "0 \<le> P" "P < Q" by (simp_all add: zero_le_mult_iff)
  have "(2 :: int) ^ hi r = 2 ^ lo r * 2 ^ unat (intlvBits r)" using lo_hi(1) [OF assms(1,3)] by (simp flip: power_add)
  then have "(uint (ar_end r) + 1 - uint (ar_start r)) div 2 ^ unat (intlvBits r) = (Q - P) * 2 ^ lo r"
    unfolding u by (simp add: left_diff_distrib flip: mult.assoc)
  then have "int (addresses r) = (Q - P) * 2 ^ lo r" using r by (simp add: addresses_def)
  then show ?thesis using that u r by blast
qed

lemma unit_bound: "0 < m \<Longrightarrow> P * m \<le> x \<longleftrightarrow> P \<le> x div m" for m x P :: int
proof
  assume m: "0 < m" and "P * m \<le> x"
  then have "P * m div m \<le> x div m" by (intro zdiv_mono1) simp_all
  then show "P \<le> x div m" using m by simp
next
  assume m: "0 < m" and "P \<le> x div m"
  then have "P * m \<le> x div m * m" by (intro mult_right_mono) simp_all
  moreover have "0 \<le> x mod m" using m by simp
  ultimately show "P * m \<le> x" using div_mult_mod_eq [of x m] by linarith
qed

lemma in_range_units:
  assumes "uint (ar_start r) = P * 2 ^ hi r" "uint (ar_end r) + 1 = Q * 2 ^ hi r"
  shows "ar_start r \<le> a \<and> a \<le> ar_end r \<longleftrightarrow> P \<le> uint a div 2 ^ hi r \<and> uint a div 2 ^ hi r < Q"
proof -
  have "(0 :: int) < 2 ^ hi r" by simp
  then have "P * 2 ^ hi r \<le> uint a \<longleftrightarrow> P \<le> uint a div 2 ^ hi r" "uint a < Q * 2 ^ hi r \<longleftrightarrow> uint a div 2 ^ hi r < Q"
    using unit_bound [of "2 ^ hi r" P "uint a"] unit_bound [of "2 ^ hi r" Q "uint a"] by (auto simp: not_le [symmetric])
  then show ?thesis using assms by (auto simp: word_le_def)
qed

lemma uint_getOffset:
  assumes "ar_ok r" "interleaved r" "uint (ar_start r) = P * 2 ^ hi r" "uint (ar_end r) + 1 = Q * 2 ^ hi r"
    "ar_start r \<le> a" "a \<le> ar_end r"
  shows "uint (ar_getOffset r a) = uint a mod 2 ^ lo r + 2 ^ lo r * (uint a div 2 ^ hi r - P)"
proof -
  have d: "(2 :: int) ^ hi r = 2 ^ lo r * 2 ^ unat (intlvBits r)" using lo_hi(1) [OF assms(1,2)] by (simp flip: power_add)
  have s: "uint (removeIntlvBits r (ar_start r)) = 2 ^ lo r * P"
    using uint_removeIntlvBits [OF assms(1,2), of "ar_start r"] by (simp add: assms(3) d)
  have p: "P \<le> uint a div 2 ^ hi r" using in_range_units [OF assms(3,4)] assms(5,6) by blast
  have e: "uint (removeIntlvBits r a) = uint a mod 2 ^ lo r + 2 ^ lo r * (uint a div 2 ^ hi r)" by (rule uint_removeIntlvBits [OF assms(1,2)])
  have "2 ^ lo r * P \<le> 2 ^ lo r * (uint a div 2 ^ hi r)" using p by simp
  moreover have "0 \<le> uint a mod 2 ^ lo r" by simp
  ultimately have "removeIntlvBits r (ar_start r) \<le> removeIntlvBits r a" unfolding word_le_def s e by linarith
  then have "uint (removeIntlvBits r a - removeIntlvBits r (ar_start r)) = uint (removeIntlvBits r a) - uint (removeIntlvBits r (ar_start r))"
    by (simp add: uint_minus_simple_alt [THEN iffD1])
  then show ?thesis using assms(2,5,6) by (simp add: ar_getOffset_def s e right_diff_distrib)
qed

lemma getOffset_inj:
  assumes "ar_ok r" "aligned r" "contains r a" "contains r b" "ar_getOffset r a = ar_getOffset r b"
  shows "a = b"
proof (cases "interleaved r")
  case True
  have c: "ar_start r \<le> a" "a \<le> ar_end r" "ar_start r \<le> b" "b \<le> ar_end r" "slice r a = slice r b"
    using assms(3,4) contains_iff [OF assms(1)] True by auto
  then have "removeIntlvBits r a = removeIntlvBits r b" using assms(5) True by (simp add: ar_getOffset_def)
  then show ?thesis using same_address [OF assms(1) True _ c(5)] same_outside_remove [OF assms(1) True] by blast
next
  case False
  then show ?thesis using assms(3-5) contains_iff [OF assms(1)] by (simp add: ar_getOffset_def)
qed

text \<open>The address with given bits outside the slice that matches the range.\<close>

lemma matching_address:
  assumes "ar_ok r" "interleaved r"
  shows "\<exists>a. same_outside r a b \<and> slice r a = ucast (intlvMatch r)"
proof -
  let ?k = "unat (intlvBits r)"
  define m where "m = ucast (intlvMatch r) XOR xslice r b"
  define a where "a = (b AND NOT (push_bit (lo r) (mask ?k))) OR push_bit (lo r) (take_bit ?k m)"
  note l = lo_hi [OF assms]
  have so: "same_outside r a b"
    unfolding same_outside_def a_def using l(1) by (auto simp: bit_simps dest: bit_imp_le_length)
  have "take_bit ?k (drop_bit (lo r) a) = take_bit ?k m"
    by (rule bit_word_eqI) (use l in \<open>auto simp: a_def bit_simps\<close>)
  moreover have "unat (ucast (intlvMatch r) :: u64) < 2 ^ ?k"
    using assms le_less_trans [OF take_bit_nat_less_eq_self] by (simp add: ar_ok_def unsigned_ucast_eq)
  then have "take_bit ?k (ucast (intlvMatch r) :: u64) = ucast (intlvMatch r)" by (rule take_bit_word_eq_self)
  then have "take_bit ?k m = m" by (simp add: m_def take_bit_xor xslice_def)
  ultimately have "slice r a = m XOR xslice r b" using same_outside_xslice [OF assms so] by (simp add: slice_eq)
  then show ?thesis using so by (intro exI [of _ a]) (simp add: m_def xor.assoc)
qed

lemma addresses_plain:
  assumes "aligned r" "\<not> interleaved r"
  shows "int (addresses r) = uint (ar_end r) + 1 - uint (ar_start r)"
proof -
  have "uint (ar_start r) \<le> uint (ar_end r)" using assms(1) by (simp add: aligned_def ar_valid_def word_le_def)
  moreover have "unat (intlvBits r) = 0" using assms(2) by (simp add: interleaved_def)
  ultimately show ?thesis by (simp only: addresses_def) simp
qed

lemma getOffset_less:
  assumes "ar_ok r" "aligned r" "contains r a"
  shows "unat (ar_getOffset r a) < addresses r"
proof (cases "interleaved r")
  case True
  obtain P Q where u: "uint (ar_start r) = P * 2 ^ hi r" "uint (ar_end r) + 1 = Q * 2 ^ hi r" "0 \<le> P" "P < Q"
      "int (addresses r) = (Q - P) * 2 ^ lo r"
    by (rule aligned_units [OF assms(1,2) True])
  have c: "ar_start r \<le> a" "a \<le> ar_end r" using assms(3) contains_iff [OF assms(1)] by auto
  have "uint a div 2 ^ hi r - P \<le> Q - P - 1" using in_range_units [OF u(1,2)] c by auto
  then have "2 ^ lo r * (uint a div 2 ^ hi r - P) \<le> 2 ^ lo r * (Q - P - 1)" by (rule mult_left_mono) simp
  moreover have "uint a mod 2 ^ lo r < 2 ^ lo r" by simp
  moreover have "2 ^ lo r * (Q - P - 1) = (Q - P) * 2 ^ lo r - 2 ^ lo r" by (simp add: algebra_simps)
  ultimately have "uint (ar_getOffset r a) < int (addresses r)"
    unfolding uint_getOffset [OF assms(1) True u(1,2) c] u(5) by linarith
  then show ?thesis by (metis of_nat_less_iff uint_nat)
next
  case False
  have c: "ar_start r \<le> a" "a \<le> ar_end r" using assms(3) contains_iff [OF assms(1)] by auto
  then have "uint (ar_getOffset r a) = uint a - uint (ar_start r)" using False by (simp add: ar_getOffset_def uint_minus_simple_alt [THEN iffD1])
  moreover have "uint a \<le> uint (ar_end r)" using c by (simp add: word_le_def)
  ultimately have "uint (ar_getOffset r a) < int (addresses r)" using addresses_plain [OF assms(2) False] by linarith
  then show ?thesis by (metis of_nat_less_iff uint_nat)
qed

lemma uint_of_int64: "0 \<le> x \<Longrightarrow> x < 2 ^ 64 \<Longrightarrow> uint (word_of_int x :: u64) = x"
  by (simp only: uint_word_of_int_eq) (simp add: take_bit_int_eq_self)

lemma unit_mod: "0 \<le> s \<Longrightarrow> s < m \<Longrightarrow> (p * (m * k) + s) mod m = s" for s m k :: int
proof -
  assume s: "0 \<le> s" "s < m"
  have "p * (m * k) + s = s + (p * k) * m" by (simp add: ac_simps)
  then have "(p * (m * k) + s) mod m = s mod m" by (simp only: mod_mult_self1)
  then show ?thesis using s by simp
qed

lemma unit_div: "0 \<le> s \<Longrightarrow> s < m \<Longrightarrow> (p * m + s) div m = p" for s m :: int
  by (simp add: div_pos_pos_trivial)

lemma getOffset_surj:
  assumes "ar_ok r" "aligned r" "n < addresses r"
  shows "\<exists>a. contains r a \<and> unat (ar_getOffset r a) = n"
proof (cases "interleaved r")
  case True
  obtain P Q where u: "uint (ar_start r) = P * 2 ^ hi r" "uint (ar_end r) + 1 = Q * 2 ^ hi r" "0 \<le> P" "P < Q"
      "int (addresses r) = (Q - P) * 2 ^ lo r"
    by (rule aligned_units [OF assms(1,2) True])
  note l = lo_hi [OF assms(1) True]
  have d: "(2 :: int) ^ hi r = 2 ^ lo r * 2 ^ unat (intlvBits r)" using l(1) by (simp flip: power_add)
  define p where "p = P + int n div 2 ^ lo r"
  define s where "s = int n mod 2 ^ lo r"
  have n: "int n < (Q - P) * 2 ^ lo r" using assms(3) u(5) by simp
  have p: "P \<le> p" "p < Q" using unit_bound [of "2 ^ lo r" "Q - P" "int n"] n by (auto simp: p_def not_le [symmetric] pos_imp_zdiv_nonneg_iff)
  have s: "0 \<le> s" "s < 2 ^ lo r" "s < 2 ^ hi r" by (simp_all add: s_def d less_le_trans [OF pos_mod_bound])
  have pd: "(p * 2 ^ hi r + s) div 2 ^ hi r = p" by (rule unit_div [OF s(1,3)])
  have "\<not> Q \<le> (p * 2 ^ hi r + s) div 2 ^ hi r" unfolding pd using p(2) by simp
  then have "p * 2 ^ hi r + s < Q * 2 ^ hi r" using unit_bound [of "2 ^ hi r" Q "p * 2 ^ hi r + s"] by auto
  moreover have "Q * 2 ^ hi r \<le> 2 ^ 64" using u(2) uint_bounded [of "ar_end r"] by simp
  moreover have "0 \<le> p * 2 ^ hi r" using p(1) u(3) by simp
  ultimately have "0 \<le> p * 2 ^ hi r + s" "p * 2 ^ hi r + s < 2 ^ 64" using s(1) by linarith+
  then obtain b :: u64 where b: "uint b = p * 2 ^ hi r + s" using uint_of_int64 by blast
  obtain a where a: "same_outside r a b" "slice r a = ucast (intlvMatch r)"
    using matching_address [OF assms(1) True, of b] by blast
  have pm: "(p * 2 ^ hi r + s) mod 2 ^ lo r = s" unfolding d by (rule unit_mod [OF s(1,2)])
  have e: "removeIntlvBits r a = removeIntlvBits r b" by (rule iffD1 [OF same_outside_remove [OF assms(1) True] a(1)])
  have R: "uint a mod 2 ^ lo r + 2 ^ lo r * (uint a div 2 ^ hi r) = s + 2 ^ lo r * p"
    unfolding uint_removeIntlvBits [OF assms(1) True, symmetric] e by (simp only: uint_removeIntlvBits [OF assms(1) True] b pd pm)
  have "uint a div 2 ^ hi r = (uint a mod 2 ^ lo r + 2 ^ lo r * (uint a div 2 ^ hi r)) div 2 ^ lo r" by simp
  also have "\<dots> = p" unfolding R using s by simp
  finally have h: "uint a div 2 ^ hi r = p" .
  then have c: "ar_start r \<le> a" "a \<le> ar_end r" using in_range_units [OF u(1,2), of a] p by auto
  have "uint a mod 2 ^ lo r = s" using R unfolding h by linarith
  then have "uint (ar_getOffset r a) = s + 2 ^ lo r * (p - P)"
    by (simp only: uint_getOffset [OF assms(1) True u(1,2) c] h)
  also have "\<dots> = int n" by (simp add: s_def p_def)
  finally have "int (unat (ar_getOffset r a)) = int n" by simp
  then have "unat (ar_getOffset r a) = n" by linarith
  then show ?thesis using contains_iff [OF assms(1)] c a(2) by blast
next
  case False
  have n: "int n < uint (ar_end r) + 1 - uint (ar_start r)" using addresses_plain [OF assms(2) False] assms(3) by linarith
  have B: "uint (ar_end r) < 2 ^ 64" "0 \<le> uint (ar_start r)" using uint_bounded [of "ar_end r"] by simp_all
  then have "0 \<le> uint (ar_start r) + int n" "uint (ar_start r) + int n < 2 ^ 64" using n by linarith+
  then obtain a :: u64 where a: "uint a = uint (ar_start r) + int n" using uint_of_int64 by blast
  then have c: "ar_start r \<le> a" "a \<le> ar_end r" using n by (simp_all add: word_le_def)
  then have "uint (ar_getOffset r a) = uint a - uint (ar_start r)" using False by (simp add: ar_getOffset_def uint_minus_simple_alt [THEN iffD1])
  then have "int (unat (ar_getOffset r a)) = int n" using a by simp
  then have "unat (ar_getOffset r a) = n" by linarith
  then show ?thesis using contains_iff [OF assms(1)] c False by blast
qed

text \<open>The method \<open>size\<close>, except for the range of all addresses, where it wraps to 0.\<close>

lemma size_addresses:
  assumes "aligned r" "ar_end r - ar_start r + 1 \<noteq> 0"
  shows "unat (ar_size r) = addresses r"
proof -
  let ?w = "ar_end r - ar_start r"
  have "ar_start r \<le> ar_end r" using assms(1) by (simp add: aligned_def ar_valid_def)
  then have "uint ?w = uint (ar_end r) - uint (ar_start r)" by (simp add: uint_minus_simple_alt [THEN iffD1])
  moreover have "unat (?w + 1) = Suc (unat ?w)" using unatSuc [of ?w] assms(2) by (simp add: add.commute)
  then have "int (unat (?w + 1)) = uint ?w + 1" by simp
  ultimately have "int (unat (?w + 1)) = uint (ar_end r) + 1 - uint (ar_start r)" by linarith
  then have "int (unat (ar_size r)) = (uint (ar_end r) + 1 - uint (ar_start r)) div 2 ^ unat (intlvBits r)"
    unfolding ar_size_def unat_drop_bit_div by (simp add: zdiv_int)
  then show ?thesis unfolding addresses_def by (metis nat_int)
qed

text \<open>
  C7: Offsets number the addresses of a range.  For a range whose ends are aligned to the interleaving, \<open>getOffset\<close> is a
  bijection from its addresses to the numbers below its size, with or without hashing, unless the range has all addresses.
\<close>

theorem getOffset_bijective:
  assumes "ar_ok r" "aligned r" "ar_end r - ar_start r + 1 \<noteq> 0"
  shows "bij_betw (\<lambda>a. unat (ar_getOffset r a)) {a. contains r a} {..< unat (ar_size r)}"
  unfolding size_addresses [OF assms(2,3)]
proof (rule bij_betw_imageI)
  show "inj_on (\<lambda>a. unat (ar_getOffset r a)) {a. contains r a}"
    using getOffset_inj [OF assms(1,2)] by (intro inj_onI) (metis mem_Collect_eq word_unat_eq_iff)
  show "(\<lambda>a. unat (ar_getOffset r a)) ` {a. contains r a} = {..< addresses r}"
    using getOffset_less [OF assms(1,2)] getOffset_surj [OF assms(1,2)] by (auto simp: image_iff intro: sym)
qed

theorem getOffset_bijective_witness:
  "bij_betw (\<lambda>a. unat (ar_getOffset \<lparr>ar_start = 0, ar_end = 255, intlvHighBit = 6, xorHighBit = 7, intlvBits = 1, intlvMatch = 1\<rparr> a))
    {a. contains \<lparr>ar_start = 0, ar_end = 255, intlvHighBit = 6, xorHighBit = 7, intlvBits = 1, intlvMatch = 1\<rparr> a} {..< 128}"
proof -
  let ?r = "\<lparr>ar_start = 0, ar_end = 255, intlvHighBit = 6, xorHighBit = 7, intlvBits = 1, intlvMatch = 1\<rparr>"
  have "ar_ok ?r" by (simp add: ar_ok_def low_bit_def hashed_def)
  moreover have "aligned ?r" by (simp add: aligned_def ar_valid_def hi_def)
  moreover have "unat (ar_size ?r) = 128" by (simp add: ar_size_def drop_bit_eq_div)
  ultimately show ?thesis using getOffset_bijective [of ?r] by simp
qed

section \<open>Intersection\<close>

lemma ucast_u8_inj: "(ucast a :: u64) = ucast b \<Longrightarrow> a = b" for a b :: u8
proof -
  assume "(ucast a :: u64) = ucast b"
  then have "(ucast (ucast a :: u64) :: u8) = ucast (ucast b :: u64)" by simp
  moreover have "(ucast (ucast x :: u64) :: u8) = x" for x :: u8 by (rule bit_word_eqI) (simp add: bit_simps)
  ultimately show ?thesis by simp
qed

text \<open>
  C38: When \<open>intersects\<close> answers, it tells whether some address is in both ranges.  The ranges have to be well formed and
  not empty, and the argument must not be one of several stripes with a single address each.
\<close>

theorem intersects_exact:
  assumes "ar_ok r" "ar_ok q" "contains r c" "contains q c'" "interleaved q \<Longrightarrow> ar_size q \<noteq> 1" "intersects r q = Some b"
  shows "b \<longleftrightarrow> (\<exists>a. contains r a \<and> contains q a)"
proof -
  have v: "ar_start r \<le> ar_end r" "ar_start q \<le> ar_end q" 
    using assms(3,4) contains_iff [OF assms(1)] contains_iff [OF assms(2)] by (auto intro: order_trans)
  consider "ar_start r > ar_end q \<or> ar_end r < ar_start q" "\<not> b"
    | "\<not> interleaved r" "\<not> interleaved q" "\<not> (ar_start r > ar_end q \<or> ar_end r < ar_start q)" b
    | "ar_size q = 1" "b = contains r (ar_start q)" "\<not> interleaved q"
    | "mergesWith r q" "b = (intlvMatch r = intlvMatch q)" "interleaved r \<or> interleaved q"
    using assms(5,6) unfolding intersects_def by (auto split: if_splits)
  then show ?thesis
  proof cases
    case 1
    then show ?thesis using contains_iff [OF assms(1)] contains_iff [OF assms(2)] by (auto dest: order_trans)
  next
    case 2
    then have "contains r (max (ar_start r) (ar_start q))" "contains q (max (ar_start r) (ar_start q))"
      using v by (auto simp: contains_def max_def)
    then show ?thesis using 2(4) by blast
  next
    case 3
    then have "ar_end q - ar_start q + 1 = 1" by (simp add: ar_size_def interleaved_def)
    then have "ar_end q = ar_start q" by simp
    then have "contains q a \<longleftrightarrow> a = ar_start q" for a using 3(3) by (auto simp: contains_def)
    then show ?thesis using 3(2) by auto
  next
    case 4
    have m: "slice q = slice r" "interleaved q = interleaved r" "ar_start q = ar_start r" "ar_end q = ar_end r"
      using merges_slice [OF 4(1)] 4(1) by (auto simp: mergesWith_def)
    have i: "interleaved r" using 4(3) m(2) by simp
    show ?thesis
    proof
      assume b
      then have "contains q c" using assms(3) 4(2) m contains_iff [OF assms(1)] contains_iff [OF assms(2)] by simp
      then show "\<exists>a. contains r a \<and> contains q a" using assms(3) by blast
    next
      assume "\<exists>a. contains r a \<and> contains q a"
      then have "(ucast (intlvMatch r) :: u64) = ucast (intlvMatch q)"
        using m i contains_iff [OF assms(1)] contains_iff [OF assms(2)] by auto
      then show b using 4(2) ucast_u8_inj by blast
    qed
  qed
qed

theorem intersects_exact_witness:
  "intersects (AddrRange_plain 0 15) (AddrRange_plain 8 31) = Some True \<and>
    (\<exists>a. contains (AddrRange_plain 0 15) a \<and> contains (AddrRange_plain 8 31) a)"
proof -
  have e: "intersects (AddrRange_plain 0 15) (AddrRange_plain 8 31) = Some True"
    by (simp add: intersects_def AddrRange_plain_def interleaved_def)
  have "ar_ok (AddrRange_plain x y)" "\<not> interleaved (AddrRange_plain x y)" for x y
    by (simp_all add: ar_ok_def AddrRange_plain_def interleaved_def)
  moreover have "contains (AddrRange_plain 0 15) 0" "contains (AddrRange_plain 8 31) 8"
    by (simp_all add: contains_def AddrRange_plain_def interleaved_def)
  ultimately show ?thesis using intersects_exact [of "AddrRange_plain 0 15" "AddrRange_plain 8 31" 0 8 True] e by blast
qed

end
