(* ===== verification/AddrRangeMap.thy ===== *)
theory AddrRangeMap
  imports AddrRange
begin

text \<open>
  The map from address ranges to values that gem5 decodes addresses with (\<open>base/addr_range_map.hh\<close>): a search tree of
  ranges with a short list of recently found entries in front.  The tree is the sorted list of its entries; an iterator is
  the key of its entry, and following one whose entry is gone is \<^term>\<open>None\<close>, as is a panic.
\<close>

section \<open>The class\<close>

record 'v range_map =
  tree :: "(addr_range \<times> 'v) list"
  rm_cache :: "addr_range list"

definition empty_map :: "'v range_map"
  where "empty_map = \<lparr>tree = [], rm_cache = []\<rparr>"

text \<open>\<open>std::list::remove\<close> removes every element equal to the iterator.\<close>

definition erase_entry :: "addr_range \<Rightarrow> 'v range_map \<Rightarrow> 'v range_map"
  where "erase_entry p m = m\<lparr>rm_cache := removeAll p (rm_cache m), tree := filter (\<lambda>e. fst e \<noteq> p) (tree m)\<rparr>"

text \<open>The second \<open>erase\<close> takes the entries from \<open>p\<close> up to, and without, \<open>q\<close>; its loop removes \<open>p\<close> each time.\<close>

primrec erase_loop :: "addr_range \<Rightarrow> addr_range list \<Rightarrow> addr_range list \<Rightarrow> addr_range list"
  where
    "erase_loop p [] c = c"
  | "erase_loop p (it # its) c = erase_loop p its (removeAll p c)"

definition erase_range :: "nat \<Rightarrow> nat \<Rightarrow> 'v range_map \<Rightarrow> 'v range_map"
  where "erase_range p q m =
    (let es = take (q - p) (drop p (tree m)) in
     m\<lparr>rm_cache := erase_loop (fst (tree m ! p)) (map fst es) (rm_cache m), tree := take p (tree m) @ drop q (tree m)\<rparr>)"

definition clear_map :: "'v range_map \<Rightarrow> 'v range_map"
  where "clear_map m = m\<lparr>rm_cache := [], tree := []\<rparr>"

definition addNewEntryToCache :: "nat \<Rightarrow> addr_range \<Rightarrow> 'v range_map \<Rightarrow> 'v range_map"
  where "addNewEntryToCache max_cache_size it m =
    (if max_cache_size \<noteq> 0 then
       (if length (rm_cache m) \<ge> max_cache_size then m\<lparr>rm_cache := it # butlast (rm_cache m)\<rparr>
        else m\<lparr>rm_cache := it # rm_cache m\<rparr>)
     else m)"

text \<open>The loop over the cache returns the entry that meets the condition, and the cache with it in front.\<close>

fun cache_loop :: "(addr_range \<Rightarrow> bool option) \<Rightarrow> addr_range list \<Rightarrow> addr_range list \<Rightarrow> 'v range_map \<Rightarrow>
    ((addr_range \<times> 'v) option \<times> 'v range_map) option"
  where
    "cache_loop cond seen [] m = Some (None, m)"
  | "cache_loop cond seen (c # cs) m =
      (case map_of (tree m) c of
         None \<Rightarrow> None
       | Some v \<Rightarrow> do {
           b \<leftarrow> cond c;
           if b then Some (Some (c, v), m\<lparr>rm_cache := c # rev seen @ cs\<rparr>) else cache_loop cond (c # seen) cs m })"

text \<open>The loop that walks backwards from an entry while the ranges merge.  Its argument is the list of entries down to the first.\<close>

fun back_loop :: "(addr_range \<Rightarrow> bool option) \<Rightarrow> (addr_range \<times> 'v) list \<Rightarrow> (addr_range \<times> 'v) option option"
  where
    "back_loop cond [] = Some None"
  | "back_loop cond (i # es) = do {
      b \<leftarrow> cond (fst i);
      if b then Some (Some i)
      else case es of
          [] \<Rightarrow> Some None
        | n # _ \<Rightarrow> if mergesWith (fst n) (fst i) then back_loop cond es else Some None }"

definition upper_bound :: "addr_range \<Rightarrow> (addr_range \<times> 'v) list \<Rightarrow> nat"
  where "upper_bound r es = length (takeWhile (\<lambda>e. \<not> ar_less r (fst e)) es)"

definition find_entry :: "nat \<Rightarrow> addr_range \<Rightarrow> (addr_range \<Rightarrow> bool option) \<Rightarrow> 'v range_map \<Rightarrow>
    ((addr_range \<times> 'v) option \<times> 'v range_map) option"
  where "find_entry max_cache_size r cond m = do {
    (hit, m) \<leftarrow> cache_loop cond [] (rm_cache m) m;
    case hit of
      Some e \<Rightarrow> Some (Some e, m)
    | None \<Rightarrow> do {
        let next = upper_bound r (tree m);
        b \<leftarrow> (if next < length (tree m) then cond (fst (tree m ! next)) else Some False);
        if b then Some (Some (tree m ! next), addNewEntryToCache max_cache_size (fst (tree m ! next)) m)
        else if next = 0 then Some (None, m)
        else do {
          i \<leftarrow> back_loop cond (rev (take next (tree m)));
          case i of None \<Rightarrow> Some (None, m) | Some e \<Rightarrow> Some (Some e, addNewEntryToCache max_cache_size (fst e) m) } } }"

definition contains_range :: "nat \<Rightarrow> addr_range \<Rightarrow> 'v range_map \<Rightarrow> ((addr_range \<times> 'v) option \<times> 'v range_map) option"
  where "contains_range max_cache_size r m = find_entry max_cache_size r (\<lambda>r1. isSubset r r1) m"

definition contains_addr :: "nat \<Rightarrow> u64 \<Rightarrow> 'v range_map \<Rightarrow> ((addr_range \<times> 'v) option \<times> 'v range_map) option"
  where "contains_addr max_cache_size a m = contains_range max_cache_size (RangeSize a 1) m"

definition map_intersects :: "nat \<Rightarrow> addr_range \<Rightarrow> 'v range_map \<Rightarrow> ((addr_range \<times> 'v) option \<times> 'v range_map) option"
  where "map_intersects max_cache_size r m = find_entry max_cache_size r (\<lambda>r1. intersects r r1) m"

text \<open>\<open>std::map::insert\<close> keeps the order, and changes nothing when an equivalent key is there.\<close>

fun tree_insert :: "addr_range \<Rightarrow> 'v \<Rightarrow> (addr_range \<times> 'v) list \<Rightarrow> (addr_range \<times> 'v) list"
  where
    "tree_insert r d [] = [(r, d)]"
  | "tree_insert r d (e # es) =
      (if ar_less r (fst e) then (r, d) # e # es else if ar_less (fst e) r then e # tree_insert r d es else e # es)"

text \<open>The result tells whether the range was inserted.\<close>

definition map_insert :: "nat \<Rightarrow> addr_range \<Rightarrow> 'v \<Rightarrow> 'v range_map \<Rightarrow> (bool \<times> 'v range_map) option"
  where "map_insert max_cache_size r d m = do {
    (hit, m) \<leftarrow> map_intersects max_cache_size r m;
    if hit \<noteq> None then Some (False, m) else Some (True, m\<lparr>tree := tree_insert r d (tree m)\<rparr>) }"

section \<open>Maps of plain ranges\<close>

definition plain :: "addr_range \<Rightarrow> bool"
  where "plain r \<longleftrightarrow> \<not> interleaved r \<and> ar_valid r"

definition map_ok :: "'v range_map \<Rightarrow> bool"
  where "map_ok m \<longleftrightarrow> (\<forall>e \<in> set (tree m). plain (fst e)) \<and>
    sorted_wrt (\<lambda>e e'. ar_end (fst e) < ar_start (fst e')) (tree m) \<and> set (rm_cache m) \<subseteq> fst ` set (tree m)"

definition lookup :: "'v range_map \<Rightarrow> u64 \<Rightarrow> 'v option"
  where "lookup m a = map_option snd (List.find (\<lambda>e. contains (fst e) a) (tree m))"

lemma plain_contains: "plain r \<Longrightarrow> contains r a \<longleftrightarrow> ar_start r \<le> a \<and> a \<le> ar_end r"
  by (simp add: plain_def contains_def)

lemma plain_le: "plain r \<Longrightarrow> ar_start r \<le> ar_end r"
  by (simp add: plain_def ar_valid_def)

lemma map_okD:
  assumes "map_ok m"
  shows "e \<in> set (tree m) \<Longrightarrow> plain (fst e)" "i < j \<Longrightarrow> j < length (tree m) \<Longrightarrow> ar_end (fst (tree m ! i)) < ar_start (fst (tree m ! j))"
    "c \<in> set (rm_cache m) \<Longrightarrow> c \<in> fst ` set (tree m)"
  using assms by (auto simp: map_ok_def sorted_wrt_iff_nth_less)

text \<open>Two entries that share an address are the same.\<close>

lemma entries_disjoint:
  assumes "map_ok m" "e \<in> set (tree m)" "e' \<in> set (tree m)" "ar_start (fst e) \<le> ar_end (fst e')" "ar_start (fst e') \<le> ar_end (fst e)"
  shows "e = e'"
proof -
  obtain i j where ij: "i < length (tree m)" "tree m ! i = e" "j < length (tree m)" "tree m ! j = e'"
    using assms(2,3) by (auto simp: in_set_conv_nth)
  then show ?thesis
    using assms(4,5) map_okD(2) [OF assms(1), of i j] map_okD(2) [OF assms(1), of j i] by (cases i j rule: linorder_cases) auto
qed

lemma lookup_iff:
  assumes "map_ok m"
  shows "lookup m a = Some v \<longleftrightarrow> (\<exists>r. (r, v) \<in> set (tree m) \<and> contains r a)"
proof
  assume "lookup m a = Some v"
  then obtain e where e: "List.find (\<lambda>e. contains (fst e) a) (tree m) = Some e" "v = snd e" by (auto simp: lookup_def)
  then have "e \<in> set (tree m)" "contains (fst e) a" by (auto simp: find_Some_iff)
  then show "\<exists>r. (r, v) \<in> set (tree m) \<and> contains r a" using e(2) by (intro exI [of _ "fst e"]) simp
next
  assume "\<exists>r. (r, v) \<in> set (tree m) \<and> contains r a"
  then obtain r where r: "(r, v) \<in> set (tree m)" "contains r a" by blast
  then have "List.find (\<lambda>e. contains (fst e) a) (tree m) \<noteq> None" unfolding find_None_iff by force
  then obtain e where e: "List.find (\<lambda>e. contains (fst e) a) (tree m) = Some e" by blast
  then have m: "e \<in> set (tree m)" "contains (fst e) a" by (auto simp: find_Some_iff)
  have "plain (fst e)" "plain r" using map_okD(1) [OF assms m(1)] map_okD(1) [OF assms r(1)] by simp_all
  then have "ar_start (fst e) \<le> a" "a \<le> ar_end (fst e)" "ar_start r \<le> a" "a \<le> ar_end r" using plain_contains m(2) r(2) by blast+
  then have "ar_start (fst e) \<le> ar_end r" "ar_start r \<le> ar_end (fst e)" by (meson order_trans)+
  then have "e = (r, v)" using entries_disjoint [OF assms m(1) r(1)] by simp
  then show "lookup m a = Some v" using e by (simp add: lookup_def)
qed

lemma lookup_tree: "tree m' = tree m \<Longrightarrow> lookup m' = lookup m"
  by (simp add: fun_eq_iff lookup_def)

lemma map_of_key:
  assumes "map_ok m" "(r, v) \<in> set (tree m)"
  shows "map_of (tree m) r = Some v"
proof -
  have "distinct (map fst (tree m))"
    unfolding distinct_conv_nth
  proof (intro allI impI)
    fix i j assume l: "i < length (map fst (tree m))" "j < length (map fst (tree m))" "i \<noteq> j"
    have "ar_start (fst (tree m ! k)) \<le> ar_end (fst (tree m ! k))" if "k < length (tree m)" for k
      using map_okD(1) [OF assms(1)] plain_le that by simp
    then show "map fst (tree m) ! i \<noteq> map fst (tree m) ! j"
      using map_okD(2) [OF assms(1), of i j] map_okD(2) [OF assms(1), of j i] l
      by (cases i j rule: linorder_cases) (auto simp: not_le [symmetric])
  qed
  then show ?thesis using assms(2) by simp
qed

section \<open>The search\<close>

lemma cache_loop_spec:
  assumes "\<forall>c \<in> set cs. \<exists>v. map_of (tree m) c = Some v" "\<forall>c \<in> set cs. cond c = Some (P c)"
  shows "\<exists>hit m'. cache_loop cond seen cs m = Some (hit, m') \<and>
    (case hit of None \<Rightarrow> m' = m \<and> (\<forall>c \<in> set cs. \<not> P c)
     | Some e \<Rightarrow> map_of (tree m) (fst e) = Some (snd e) \<and> P (fst e) \<and> tree m' = tree m \<and>
         set (rm_cache m') \<subseteq> set seen \<union> set cs \<and> length (rm_cache m') = length seen + length cs)"
  using assms
proof (induction cs arbitrary: seen)
  case (Cons c cs)
  then obtain v where v: "map_of (tree m) c = Some v" by auto
  show ?case
  proof (cases "P c")
    case True
    then show ?thesis using v Cons.prems(2) by auto
  next
    case False
    obtain hit m' where h: "cache_loop cond (c # seen) cs m = Some (hit, m')"
      "case hit of None \<Rightarrow> m' = m \<and> (\<forall>c \<in> set cs. \<not> P c)
       | Some e \<Rightarrow> map_of (tree m) (fst e) = Some (snd e) \<and> P (fst e) \<and> tree m' = tree m \<and>
         set (rm_cache m') \<subseteq> set (c # seen) \<union> set cs \<and> length (rm_cache m') = length (c # seen) + length cs"
      using Cons.IH [of "c # seen"] Cons.prems by auto
    then show ?thesis using v False Cons.prems(2) by (auto split: option.splits)
  qed
qed simp

lemma back_loop_plain:
  assumes "map_ok m" "k \<le> length (tree m)" "0 < k" "\<forall>e \<in> set (tree m). cond (fst e) = Some (P (fst e))"
  shows "back_loop cond (rev (take k (tree m))) = Some (if P (fst (tree m ! (k - 1))) then Some (tree m ! (k - 1)) else None)"
proof -
  have e: "rev (take k (tree m)) = tree m ! (k - 1) # rev (take (k - 1) (tree m))"
    using take_Suc_conv_app_nth [of "k - 1" "tree m"] assms(2,3) by simp
  have "\<not> mergesWith (fst n) (fst (tree m ! (k - 1)))" if n: "rev (take (k - 1) (tree m)) = n # ns" for n ns
  proof -
    have "n \<in> set (take (k - 1) (tree m))" using arg_cong [OF n, of set] by simp
    then obtain i where i: "i < k - 1" "n = tree m ! i" using assms(2) by (auto simp: in_set_conv_nth)
    then have "ar_end (fst n) < ar_start (fst (tree m ! (k - 1)))" using map_okD(2) [OF assms(1), of i "k - 1"] assms(2,3) by simp
    moreover have "ar_start (fst n) \<le> ar_end (fst n)" using map_okD(1) [OF assms(1)] plain_le i assms(2) by simp
    ultimately show ?thesis by (auto simp: mergesWith_def)
  qed
  moreover have "tree m ! (k - 1) \<in> set (tree m)" using assms(2,3) by simp
  ultimately show ?thesis using assms(4) unfolding e by (auto split: list.split)
qed

lemma upper_bound_le: "upper_bound r es \<le> length es"
  by (simp add: upper_bound_def length_takeWhile_le)

lemma upper_bound_before: "i < upper_bound r es \<Longrightarrow> \<not> ar_less r (fst (es ! i))"
  unfolding upper_bound_def by (metis nth_mem set_takeWhileD takeWhile_nth)

lemma upper_bound_at: "upper_bound r es < length es \<Longrightarrow> ar_less r (fst (es ! upper_bound r es))"
  unfolding upper_bound_def using nth_length_takeWhile by fastforce

text \<open>
  A condition can be decided next to the place of a range: when it holds of some entry, it holds of the one after the
  place or of the one before it.
\<close>

definition local :: "addr_range \<Rightarrow> (addr_range \<Rightarrow> bool) \<Rightarrow> 'v range_map \<Rightarrow> bool"
  where "local r P m \<longleftrightarrow> (let k = upper_bound r (tree m) in
    (\<exists>e \<in> set (tree m). P (fst e)) \<longrightarrow> k < length (tree m) \<and> P (fst (tree m ! k)) \<or> 0 < k \<and> P (fst (tree m ! (k - 1))))"

lemma place:
  assumes "map_ok m" "i < length (tree m)"
  shows "i < upper_bound r (tree m) \<Longrightarrow> ar_start (fst (tree m ! i)) \<le> ar_start r"
    "upper_bound r (tree m) \<le> i \<Longrightarrow> ar_start r \<le> ar_start (fst (tree m ! i))"
    "upper_bound r (tree m) < i \<Longrightarrow> ar_start (fst (tree m ! upper_bound r (tree m))) < ar_start (fst (tree m ! i))"
proof -
  let ?k = "upper_bound r (tree m)"
  show "i < ?k \<Longrightarrow> ar_start (fst (tree m ! i)) \<le> ar_start r"
    using upper_bound_before [of i r "tree m"] by (auto simp: ar_less_def split: if_splits)
  have lt: "ar_start (fst (tree m ! j)) < ar_start (fst (tree m ! i))" if "j < i" for j
    using map_okD(2) [OF assms(1) that assms(2)] map_okD(1) [OF assms(1), of "tree m ! j"] plain_le that assms(2)
    by (auto intro: le_less_trans)
  then show "?k < i \<Longrightarrow> ar_start (fst (tree m ! ?k)) < ar_start (fst (tree m ! i))" .
  assume k: "?k \<le> i"
  then have "ar_start r \<le> ar_start (fst (tree m ! ?k))"
    using upper_bound_at [of r "tree m"] assms(2) by (auto simp: ar_less_def split: if_splits)
  then show "ar_start r \<le> ar_start (fst (tree m ! i))" using lt [of ?k] k by (cases "?k = i") auto
qed

lemma intersects_plain: "plain r \<Longrightarrow> plain q \<Longrightarrow> intersects r q = Some (ar_start r \<le> ar_end q \<and> ar_start q \<le> ar_end r)"
  by (auto simp: intersects_def plain_def)

lemma isSubset_plain: "plain r \<Longrightarrow> isSubset r q = Some (ar_start q \<le> ar_start r \<and> ar_end r \<le> ar_end q)"
  by (auto simp: isSubset_def plain_def)

lemma local_intersects:
  assumes "map_ok m" "plain r"
  shows "local r (\<lambda>q. ar_start r \<le> ar_end q \<and> ar_start q \<le> ar_end r) m"
  unfolding local_def Let_def
proof
  let ?k = "upper_bound r (tree m)"
  assume "\<exists>e \<in> set (tree m). ar_start r \<le> ar_end (fst e) \<and> ar_start (fst e) \<le> ar_end r"
  then obtain i where i: "i < length (tree m)" "ar_start r \<le> ar_end (fst (tree m ! i))" "ar_start (fst (tree m ! i)) \<le> ar_end r"
    by (auto simp: in_set_conv_nth)
  have p: "ar_start (fst (tree m ! j)) \<le> ar_end (fst (tree m ! j))" if "j < length (tree m)" for j
    using map_okD(1) [OF assms(1)] plain_le that by simp
  show "?k < length (tree m) \<and> ar_start r \<le> ar_end (fst (tree m ! ?k)) \<and> ar_start (fst (tree m ! ?k)) \<le> ar_end r \<or>
    0 < ?k \<and> ar_start r \<le> ar_end (fst (tree m ! (?k - 1))) \<and> ar_start (fst (tree m ! (?k - 1))) \<le> ar_end r"
  proof (cases "?k \<le> i")
    case True
    then have k: "?k < length (tree m)" using i(1) by simp
    have "ar_start r \<le> ar_start (fst (tree m ! ?k))" by (rule place(2) [OF assms(1) k]) simp
    moreover have "ar_start (fst (tree m ! ?k)) \<le> ar_start (fst (tree m ! i))"
      using place(3) [OF assms(1) i(1), of r] True by (cases "?k = i") auto
    ultimately show ?thesis using k p [OF k] i(3) by (meson order_trans)
  next
    case False
    then have k: "?k - 1 < length (tree m)" "i \<le> ?k - 1" "0 < ?k" using upper_bound_le [of r "tree m"] i(1) by linarith+
    have s: "ar_start (fst (tree m ! (?k - 1))) \<le> ar_start r" using place(1) [OF assms(1) k(1)] k(3) by simp
    have "\<not> i < ?k - 1" using map_okD(2) [OF assms(1) _ k(1), of i] i(2) s by (meson le_less_trans not_le order_trans)
    then have "i = ?k - 1" using k(2) by simp
    then show ?thesis using i k(3) by simp
  qed
qed

lemma local_subset:
  assumes "map_ok m" "plain r"
  shows "local r (\<lambda>q. ar_start q \<le> ar_start r \<and> ar_end r \<le> ar_end q) m"
  unfolding local_def Let_def
proof
  let ?k = "upper_bound r (tree m)"
  assume "\<exists>e \<in> set (tree m). ar_start (fst e) \<le> ar_start r \<and> ar_end r \<le> ar_end (fst e)"
  then obtain i where i: "i < length (tree m)" "ar_start (fst (tree m ! i)) \<le> ar_start r" "ar_end r \<le> ar_end (fst (tree m ! i))"
    by (auto simp: in_set_conv_nth)
  show "?k < length (tree m) \<and> ar_start (fst (tree m ! ?k)) \<le> ar_start r \<and> ar_end r \<le> ar_end (fst (tree m ! ?k)) \<or>
    0 < ?k \<and> ar_start (fst (tree m ! (?k - 1))) \<le> ar_start r \<and> ar_end r \<le> ar_end (fst (tree m ! (?k - 1)))"
  proof (cases "?k \<le> i")
    case True
    then have k: "?k < length (tree m)" using i(1) by simp
    have "ar_start r \<le> ar_start (fst (tree m ! ?k))" by (rule place(2) [OF assms(1) k]) simp
    then have "\<not> ?k < i" using place(3) [OF assms(1) i(1), of r] i(2) by (meson le_less_trans not_le)
    then show ?thesis using True i k by simp
  next
    case False
    then have k: "?k - 1 < length (tree m)" "i \<le> ?k - 1" "0 < ?k" using upper_bound_le [of r "tree m"] i(1) by linarith+
    have s: "ar_start (fst (tree m ! (?k - 1))) \<le> ar_start r" using place(1) [OF assms(1) k(1)] k(3) by simp
    have "\<not> i < ?k - 1"
      using map_okD(2) [OF assms(1) _ k(1), of i] i(3) s plain_le [OF assms(2)] by (meson le_less_trans not_le order_trans)
    then have "i = ?k - 1" using k(2) by simp
    then show ?thesis using i k(3) by simp
  qed
qed

lemma add_cache:
  assumes "map_ok m" "c \<in> fst ` set (tree m)"
  shows "map_ok (addNewEntryToCache n c m)" "tree (addNewEntryToCache n c m) = tree m"
  using assms by (auto simp: map_ok_def addNewEntryToCache_def dest: in_set_butlastD)

lemma find_entry_spec:
  assumes "map_ok m" "\<forall>e \<in> set (tree m). cond (fst e) = Some (P (fst e))" "local r P m"
  shows "\<exists>hit m'. find_entry n r cond m = Some (hit, m') \<and> map_ok m' \<and> tree m' = tree m \<and>
    (case hit of None \<Rightarrow> \<forall>e \<in> set (tree m). \<not> P (fst e) | Some e \<Rightarrow> e \<in> set (tree m) \<and> P (fst e))"
proof -
  let ?k = "upper_bound r (tree m)"
  have c: "\<forall>c \<in> set (rm_cache m). \<exists>v. map_of (tree m) c = Some v" "\<forall>c \<in> set (rm_cache m). cond c = Some (P c)"
    using map_okD(3) [OF assms(1)] map_of_key [OF assms(1)] assms(2) by fastforce+
  obtain hit m' where h: "cache_loop cond [] (rm_cache m) m = Some (hit, m')"
    "case hit of None \<Rightarrow> m' = m | Some e \<Rightarrow> map_of (tree m) (fst e) = Some (snd e) \<and> P (fst e) \<and> tree m' = tree m \<and>
      set (rm_cache m') \<subseteq> set (rm_cache m)"
    using cache_loop_spec [OF c, of "[]"] by (auto split: option.splits)
  show ?thesis
  proof (cases hit)
    case (Some e)
    then have "map_ok m'" "e \<in> set (tree m)" using h(2) assms(1) by (auto simp: map_ok_def dest: map_of_SomeD)
    then show ?thesis using h Some by (auto simp: find_entry_def)
  next
    case None
    have a: "e \<in> set (tree m) \<Longrightarrow> map_ok (addNewEntryToCache n (fst e) m) \<and> tree (addNewEntryToCache n (fst e) m) = tree m" for e
      using add_cache [OF assms(1), of "fst e" n] by simp
    have k: "?k \<le> length (tree m)" by (rule upper_bound_le)
    note L = assms(3) [unfolded local_def Let_def]
    consider "?k < length (tree m)" "P (fst (tree m ! ?k))" | "?k < length (tree m) \<longrightarrow> \<not> P (fst (tree m ! ?k))" "?k = 0"
      | "?k < length (tree m) \<longrightarrow> \<not> P (fst (tree m ! ?k))" "0 < ?k" by blast
    then show ?thesis
    proof cases
      case 1
      then have "tree m ! ?k \<in> set (tree m)" by simp
      then show ?thesis using 1 h None assms(2) a [of "tree m ! ?k"] by (auto simp: find_entry_def Let_def)
    next
      case 2
      then have "\<forall>e \<in> set (tree m). \<not> P (fst e)" using L by auto
      then show ?thesis using 2 h None assms(1,2) by (auto simp: find_entry_def)
    next
      case 3
      then have mem: "tree m ! (?k - 1) \<in> set (tree m)" using k by simp
      note B = back_loop_plain [OF assms(1) k 3(2) assms(2)]
      have "(if ?k < length (tree m) then cond (fst (tree m ! ?k)) else Some False) = Some False" using 3(1) assms(2) by simp
      then have F: "find_entry n r cond m = (if P (fst (tree m ! (?k - 1)))
          then Some (Some (tree m ! (?k - 1)), addNewEntryToCache n (fst (tree m ! (?k - 1))) m) else Some (None, m))"
        using h None 3(2) by (simp add: find_entry_def B Let_def)
      have "\<forall>e \<in> set (tree m). \<not> P (fst e)" if "\<not> P (fst (tree m ! (?k - 1)))" using L 3 that by blast
      then show ?thesis unfolding F using a [OF mem] mem assms(1) by auto
    qed
  qed
qed

section \<open>Operations\<close>

lemma set_tree_insert:
  assumes "\<forall>e \<in> set es. ar_start (fst e) \<noteq> ar_start r"
  shows "set (tree_insert r d es) = insert (r, d) (set es)"
  using assms by (induction es) (auto simp: ar_less_def)

lemma sorted_tree_insert:
  assumes "sorted_wrt (\<lambda>e e'. ar_end (fst e) < ar_start (fst e')) es" "plain r" "\<forall>e \<in> set es. plain (fst e)"
    "\<forall>e \<in> set es. ar_end r < ar_start (fst e) \<or> ar_end (fst e) < ar_start r"
  shows "sorted_wrt (\<lambda>e e'. ar_end (fst e) < ar_start (fst e')) (tree_insert r d es)"
  using assms
proof (induction es)
  case (Cons e es)
  have v: "ar_start r \<le> ar_end r" "ar_start (fst e) \<le> ar_end (fst e)" using Cons.prems plain_le by auto
  have ne: "ar_start (fst x) \<noteq> ar_start r" if "x \<in> set (e # es)" for x
    using Cons.prems(3,4) that plain_le [OF Cons.prems(2)] plain_le [of "fst x"] by fastforce
  show ?case
  proof (cases "ar_start r < ar_start (fst e)")
    case True
    then have "ar_end r < ar_start (fst e)" using Cons.prems(4) v by (auto dest: less_trans)
    moreover have "ar_end r < ar_start (fst x)" if "x \<in> set es" for x
    proof -
      have "ar_end (fst e) < ar_start (fst x)" using Cons.prems(1) that by simp
      then show ?thesis using \<open>ar_end r < ar_start (fst e)\<close> v(2) by (meson le_less_trans less_trans)
    qed
    ultimately show ?thesis using True Cons.prems(1) by (auto simp: ar_less_def)
  next
    case False
    then have f: "ar_start (fst e) < ar_start r" using ne [of e] by simp
    then have "ar_end (fst e) < ar_start r" using Cons.prems(4) v by (auto dest: less_trans le_less_trans)
    moreover have "set (tree_insert r d es) = insert (r, d) (set es)" by (rule set_tree_insert) (use ne in auto)
    ultimately show ?thesis using f Cons by (auto simp: ar_less_def)
  qed
qed simp

lemma contains_addr_law:
  assumes "map_ok m"
  shows "\<exists>hit m'. contains_addr n a m = Some (hit, m') \<and> map_ok m' \<and> tree m' = tree m \<and> map_option snd hit = lookup m a"
proof -
  have r: "plain (RangeSize a 1)" "ar_start (RangeSize a 1) = a" "ar_end (RangeSize a 1) = a"
    by (simp_all add: plain_def RangeSize_def AddrRange_plain_def interleaved_def ar_valid_def)
  note S = isSubset_plain [OF r(1), unfolded r]
  obtain hit m' where h: "contains_addr n a m = Some (hit, m')" "map_ok m'" "tree m' = tree m"
      "case hit of None \<Rightarrow> \<forall>e \<in> set (tree m). \<not> (ar_start (fst e) \<le> a \<and> a \<le> ar_end (fst e))
       | Some e \<Rightarrow> e \<in> set (tree m) \<and> ar_start (fst e) \<le> a \<and> a \<le> ar_end (fst e)"
    using find_entry_spec [OF assms _ local_subset [OF assms r(1), unfolded r], of "isSubset (RangeSize a 1)" n] S
    unfolding contains_addr_def contains_range_def by auto
  have "map_option snd hit = lookup m a"
  proof (cases hit)
    case None
    then have "lookup m a \<noteq> Some v" for v
      using h(4) lookup_iff [OF assms, of a v] map_okD(1) [OF assms] plain_contains by fastforce
    then show ?thesis using None by (cases "lookup m a") auto
  next
    case (Some e)
    then have "(fst e, snd e) \<in> set (tree m)" "contains (fst e) a" using h(4) map_okD(1) [OF assms] plain_contains by auto
    then have "lookup m a = Some (snd e)" using lookup_iff [OF assms] by blast
    then show ?thesis using Some by simp
  qed
  then show ?thesis using h by blast
qed

lemma map_insert_law:
  assumes "map_ok m" "plain r"
  shows "\<exists>b m'. map_insert n r d m = Some (b, m') \<and> map_ok m' \<and> (b \<longleftrightarrow> (\<forall>a. contains r a \<longrightarrow> lookup m a = None)) \<and>
    lookup m' = (if b then (\<lambda>a. if contains r a then Some d else lookup m a) else lookup m)"
proof -
  let ?P = "\<lambda>q. ar_start r \<le> ar_end q \<and> ar_start q \<le> ar_end r"
  obtain hit m1 where h: "map_intersects n r m = Some (hit, m1)" "map_ok m1" "tree m1 = tree m"
      "case hit of None \<Rightarrow> \<forall>e \<in> set (tree m). \<not> ?P (fst e) | Some e \<Rightarrow> e \<in> set (tree m) \<and> ?P (fst e)"
    using find_entry_spec [OF assms(1) _ local_intersects [OF assms], of "intersects r" n] intersects_plain [OF assms(2)] map_okD(1) [OF assms(1)]
    unfolding map_intersects_def by auto
  have v: "ar_start r \<le> ar_end r" by (rule plain_le [OF assms(2)])
  show ?thesis
  proof (cases hit)
    case (Some e)
    then have e: "e \<in> set (tree m)" "?P (fst e)" "plain (fst e)" using h(4) map_okD(1) [OF assms(1)] by auto
    let ?a = "max (ar_start r) (ar_start (fst e))"
    have "contains r ?a" "contains (fst e) ?a"
      using e(2) v plain_le [OF e(3)] plain_contains [OF e(3)] plain_contains [OF assms(2)] by (auto simp: max_def)
    then have "lookup m ?a = Some (snd e)" using lookup_iff [OF assms(1)] e(1) by (metis prod.collapse)
    then show ?thesis using h Some \<open>contains r ?a\<close> lookup_tree [OF h(3)] by (auto simp: map_insert_def)
  next
    case None
    let ?m = "m1\<lparr>tree := tree_insert r d (tree m)\<rparr>"
    have d: "\<forall>e \<in> set (tree m). ar_end r < ar_start (fst e) \<or> ar_end (fst e) < ar_start r" using h(4) None by auto
    have ne: "\<forall>e \<in> set (tree m). ar_start (fst e) \<noteq> ar_start r"
      using d v map_okD(1) [OF assms(1)] plain_le by fastforce
    note T = set_tree_insert [OF ne, of d]
    have ok: "map_ok ?m"
      using h(2,3) assms sorted_tree_insert [OF _ assms(2) _ d, of d] T by (auto simp: map_ok_def)
    have i: "map_insert n r d m = Some (True, ?m)" using h None by (simp add: map_insert_def)
    have out: "lookup m a = None" if "contains r a" for a
    proof (rule ccontr)
      assume "lookup m a \<noteq> None"
      then obtain q v where q: "(q, v) \<in> set (tree m)" "contains q a" using lookup_iff [OF assms(1)] by blast
      then have "ar_start q \<le> a" "a \<le> ar_end q" "ar_start r \<le> a" "a \<le> ar_end r"
        using that plain_contains [OF assms(2)] plain_contains map_okD(1) [OF assms(1) q(1)] by auto
      then show False using d q(1) by fastforce
    qed
    have "lookup ?m a = (if contains r a then Some d else lookup m a)" for a
    proof (cases "contains r a")
      case True
      then have "lookup ?m a = Some d" using lookup_iff [OF ok, of a d] T by auto
      then show ?thesis using True by simp
    next
      case False
      then have "lookup ?m a = Some v \<longleftrightarrow> lookup m a = Some v" for v using lookup_iff [OF ok] lookup_iff [OF assms(1)] T by auto
      then show ?thesis using False by (cases "lookup m a"; cases "lookup ?m a") auto
    qed
    then show ?thesis using i ok out by auto
  qed
qed

lemma erase_law:
  assumes "map_ok m"
  shows "map_ok (erase_entry p m)" "p \<in> fst ` set (tree m) \<Longrightarrow> lookup (erase_entry p m) = (\<lambda>a. if contains p a then None else lookup m a)"
proof -
  let ?m = "erase_entry p m"
  show ok: "map_ok ?m" using assms by (auto simp: map_ok_def erase_entry_def sorted_wrt_filter)
  have T: "set (tree ?m) = {e \<in> set (tree m). fst e \<noteq> p}" by (simp add: erase_entry_def)
  assume "p \<in> fst ` set (tree m)"
  then obtain v where p: "(p, v) \<in> set (tree m)" by auto
  show "lookup ?m = (\<lambda>a. if contains p a then None else lookup m a)"
  proof
    fix a
    show "lookup ?m a = (if contains p a then None else lookup m a)"
    proof (cases "contains p a")
      case True
      then have "lookup m a = Some v" using lookup_iff [OF assms] p by blast
      have "lookup ?m a \<noteq> Some w" for w
      proof
        assume "lookup ?m a = Some w"
        then obtain q where q: "(q, w) \<in> set (tree m)" "q \<noteq> p" "contains q a" using lookup_iff [OF ok, of a w] T by auto
        have "ar_start q \<le> ar_end p" "ar_start p \<le> ar_end q"
          using q(3) True plain_contains map_okD(1) [OF assms q(1)] map_okD(1) [OF assms p] by (auto dest: order_trans)
        then show False using entries_disjoint [OF assms q(1) p] q(2) by simp
      qed
      then show ?thesis using True by (cases "lookup ?m a") auto
    next
      case False
      then have "lookup ?m a = Some w \<longleftrightarrow> lookup m a = Some w" for w using lookup_iff [OF ok] lookup_iff [OF assms] T by auto
      then show ?thesis using False by (cases "lookup m a"; cases "lookup ?m a") auto
    qed
  qed
qed

text \<open>What a search leaves of the map, whatever its condition.\<close>

lemma cache_loop_keeps:
  "cache_loop cond seen cs m = Some (hit, m') \<Longrightarrow> set seen \<union> set cs \<subseteq> set (rm_cache m) \<Longrightarrow>
    tree m' = tree m \<and> set (rm_cache m') \<subseteq> set (rm_cache m)"
proof (induction cond seen cs m rule: cache_loop.induct)
  case (2 cond seen c cs m)
  then show ?case by (auto split: option.splits bind_splits if_splits)
qed auto

lemma back_loop_mem: "back_loop cond es = Some (Some e) \<Longrightarrow> e \<in> set es"
  by (induction cond es rule: back_loop.induct) (auto split: bind_splits if_splits list.splits)

lemma find_entry_keeps:
  assumes "map_ok m" "find_entry n r cond m = Some (hit, m')"
  shows "map_ok m' \<and> tree m' = tree m"
proof -
  obtain h m1 where c: "cache_loop cond [] (rm_cache m) m = Some (h, m1)"
    using assms(2) by (auto simp: find_entry_def split: bind_splits)
  have m1: "tree m1 = tree m" "set (rm_cache m1) \<subseteq> set (rm_cache m)" using cache_loop_keeps [OF c] by simp_all
  then have ok: "map_ok m1" using assms(1) by (auto simp: map_ok_def)
  have add: "map_ok (addNewEntryToCache n (fst e) m1) \<and> tree (addNewEntryToCache n (fst e) m1) = tree m" if "e \<in> set (tree m)" for e
    using add_cache [OF ok, of "fst e" n] m1(1) that by simp
  show ?thesis
  proof (cases h)
    case (Some e)
    then show ?thesis using assms(2) c ok m1(1) by (simp add: find_entry_def)
  next
    case None
    let ?k = "upper_bound r (tree m)"
    have b: "e \<in> set (tree m)" if "back_loop cond (rev (take ?k (tree m))) = Some (Some e)" for e
      using back_loop_mem [OF that] in_set_takeD by fastforce
    have "m' = m1 \<or> ?k < length (tree m) \<and> m' = addNewEntryToCache n (fst (tree m ! ?k)) m1 \<or>
        (\<exists>e. back_loop cond (rev (take ?k (tree m))) = Some (Some e) \<and> m' = addNewEntryToCache n (fst e) m1)"
      using assms(2) c None by (auto simp: find_entry_def Let_def m1(1) split: bind_splits if_splits option.splits)
    then show ?thesis using ok m1(1) add b nth_mem by blast
  qed
qed

text \<open>Erasing a sequence of entries.\<close>

lemma erase_loop_eq: "erase_loop p its c = (if its = [] then c else removeAll p c)"
  by (induction its arbitrary: c) auto

lemma keys_distinct:
  assumes "map_ok m" "i < length (tree m)" "k < length (tree m)" "k \<noteq> i"
  shows "fst (tree m ! k) \<noteq> fst (tree m ! i)"
proof -
  have "ar_start (fst (tree m ! k)) \<le> ar_end (fst (tree m ! k))" "ar_start (fst (tree m ! i)) \<le> ar_end (fst (tree m ! i))"
    using map_okD(1) [OF assms(1)] plain_le assms(2,3) by simp_all
  then show ?thesis
    using map_okD(2) [OF assms(1), of k i] map_okD(2) [OF assms(1), of i k] assms(2-4)
    by (cases k i rule: linorder_cases) (auto simp: not_le [symmetric])
qed

lemma kept_entries:
  assumes "map_ok m" "p \<le> q" "q \<le> length (tree m)"
  shows "e \<in> set (take p (tree m) @ drop q (tree m)) \<longleftrightarrow>
    e \<in> set (tree m) \<and> (\<forall>i. p \<le> i \<and> i < q \<longrightarrow> fst e \<noteq> fst (tree m ! i))" (is "?l = ?r")
proof
  assume ?l
  then obtain k where k: "k < p \<or> q \<le> k" "k < length (tree m)" "e = tree m ! k"
  proof (cases "e \<in> set (take p (tree m))")
    case True
    then obtain k where "k < p" "k < length (tree m)" "e = tree m ! k" by (auto simp: in_set_conv_nth)
    then show ?thesis using that by blast
  next
    case False
    then obtain k where "k < length (drop q (tree m))" "drop q (tree m) ! k = e" using \<open>?l\<close> by (metis Un_iff in_set_conv_nth set_append)
    then show ?thesis using that [of "q + k"] assms(3) by simp
  qed
  then have "fst e \<noteq> fst (tree m ! i)" if "p \<le> i" "i < q" for i
    using keys_distinct [OF assms(1), of i k] that assms(3) by auto
  then show ?r using k by auto
next
  assume r: ?r
  then obtain k where k: "k < length (tree m)" "e = tree m ! k" by (metis in_set_conv_nth)
  have "\<not> (p \<le> k \<and> k < q)" using r k(2) by blast
  then have "k < p \<or> q \<le> k" by linarith
  then show ?l
  proof
    assume "k < p"
    then have "take p (tree m) ! k = e" "k < length (take p (tree m))" using k by simp_all
    then show ?l by (metis Un_iff nth_mem set_append)
  next
    assume "q \<le> k"
    then have "drop q (tree m) ! (k - q) = e" "k - q < length (drop q (tree m))" using k by simp_all
    then show ?l by (metis Un_iff nth_mem set_append)
  qed
qed

lemma erase_range_law:
  assumes "map_ok m" "p \<le> q" "q \<le> length (tree m)"
    and "\<forall>i. p < i \<and> i < q \<longrightarrow> fst (tree m ! i) \<notin> set (rm_cache m)"
  shows "map_ok (erase_range p q m)"
    "lookup (erase_range p q m) a =
      (if \<exists>i. p \<le> i \<and> i < q \<and> contains (fst (tree m ! i)) a then None else lookup m a)"
proof -
  let ?m = "erase_range p q m"
  have t: "tree ?m = take p (tree m) @ drop q (tree m)" by (simp add: erase_range_def Let_def)
  note K = kept_entries [OF assms(1-3), folded t]
  have "ar_end (fst e) < ar_start (fst e')" if e: "e \<in> set (take p (tree m))" "e' \<in> set (drop q (tree m))" for e e'
  proof -
    obtain i where "i < p" "i < length (tree m)" "e = tree m ! i" using e(1) by (auto simp: in_set_conv_nth)
    moreover obtain k where "k < length (drop q (tree m))" "drop q (tree m) ! k = e'" using e(2) by (metis in_set_conv_nth)
    then have "q + k < length (tree m)" "e' = tree m ! (q + k)" using assms(3) by simp_all
    ultimately show ?thesis using map_okD(2) [OF assms(1), of i "q + k"] assms(2) by simp
  qed
  then have "sorted_wrt (\<lambda>e e'. ar_end (fst e) < ar_start (fst e')) (tree ?m)"
    using assms(1) by (simp add: t sorted_wrt_append map_ok_def sorted_wrt_take sorted_wrt_drop)
  moreover have "set (rm_cache ?m) \<subseteq> fst ` set (tree ?m)"
  proof
    fix x assume x: "x \<in> set (rm_cache ?m)"
    then have x': "x \<in> set (rm_cache m)" by (auto simp: erase_range_def Let_def erase_loop_eq split: if_splits)
    then obtain e where e: "e \<in> set (tree m)" "x = fst e" using map_okD(3) [OF assms(1)] by blast
    have "fst (tree m ! i) \<noteq> x" if i: "p \<le> i" "i < q" for i
    proof (cases "i = p")
      case True
      then have "take (q - p) (drop p (tree m)) \<noteq> []" using i assms(3) by simp
      then show ?thesis using x True by (auto simp: erase_range_def Let_def erase_loop_eq)
    next
      case False
      then show ?thesis using assms(4) i x' by (metis le_neq_implies_less)
    qed
    then show "x \<in> fst ` set (tree ?m)" using K [of e] e by (metis imageI)
  qed
  moreover have "\<forall>e \<in> set (tree ?m). plain (fst e)" using K map_okD(1) [OF assms(1)] by blast
  ultimately show ok: "map_ok ?m" by (simp add: map_ok_def)
  have some: "lookup ?m a = Some v \<longleftrightarrow> lookup m a = Some v \<and> \<not> (\<exists>i. p \<le> i \<and> i < q \<and> contains (fst (tree m ! i)) a)" for v
  proof -
    have "fst (tree m ! i) = r" if "(r, v) \<in> set (tree m)" "contains r a" "i < q" "contains (fst (tree m ! i)) a" for r i
    proof -
      have i: "tree m ! i \<in> set (tree m)" using that(3) assms(3) by simp
      have "ar_start r \<le> ar_end (fst (tree m ! i))" "ar_start (fst (tree m ! i)) \<le> ar_end r"
        using that(2,4) plain_contains map_okD(1) [OF assms(1) that(1)] map_okD(1) [OF assms(1) i] by (auto dest: order_trans)
      then show ?thesis using entries_disjoint [OF assms(1) that(1) i] by (metis fst_conv)
    qed
    then show ?thesis using lookup_iff [OF ok, of a v] lookup_iff [OF assms(1), of a v] K by (metis fst_conv)
  qed
  show "lookup ?m a = (if \<exists>i. p \<le> i \<and> i < q \<and> contains (fst (tree m ! i)) a then None else lookup m a)"
  proof (cases "\<exists>i. p \<le> i \<and> i < q \<and> contains (fst (tree m ! i)) a")
    case True
    then have "lookup ?m a \<noteq> Some v" for v using some by blast
    then show ?thesis unfolding if_P [OF True] by (metis option.exhaust)
  next
    case False
    then have "lookup ?m a = Some v \<longleftrightarrow> lookup m a = Some v" for v using some by blast
    then show ?thesis unfolding if_not_P [OF False] by (metis option.exhaust)
  qed
qed

text \<open>
  The maps that the operations reach, each with the partial function it stands for: inserting plain ranges, erasing
  entries, clearing, and the three searches, of which the insertion also uses one.  Erasing a sequence of entries counts
  when the cache holds none of them but the first; what it does otherwise is the subject of the last section.  With no
  cache (\<open>max_cache_size = 0\<close>, the default) that condition always holds.
\<close>

inductive decodes :: "nat \<Rightarrow> 'v range_map \<Rightarrow> (u64 \<Rightarrow> 'v option) \<Rightarrow> bool" for n
  where
    empty: "decodes n empty_map (\<lambda>_. None)"
  | insert: "decodes n m f \<Longrightarrow> plain r \<Longrightarrow> map_insert n r d m = Some (b, m') \<Longrightarrow>
      decodes n m' (if b then (\<lambda>a. if contains r a then Some d else f a) else f)"
  | erase: "decodes n m f \<Longrightarrow> p \<in> fst ` set (tree m) \<Longrightarrow> decodes n (erase_entry p m) (\<lambda>a. if contains p a then None else f a)"
  | erase_several: "decodes n m f \<Longrightarrow> p \<le> q \<Longrightarrow> q \<le> length (tree m) \<Longrightarrow>
      \<forall>i. p < i \<and> i < q \<longrightarrow> fst (tree m ! i) \<notin> set (rm_cache m) \<Longrightarrow>
      decodes n (erase_range p q m) (\<lambda>a. if \<exists>i. p \<le> i \<and> i < q \<and> contains (fst (tree m ! i)) a then None else f a)"
  | clear: "decodes n m f \<Longrightarrow> decodes n (clear_map m) (\<lambda>_. None)"
  | find: "decodes n m f \<Longrightarrow> contains_addr n a m = Some (hit, m') \<Longrightarrow> decodes n m' f"
  | find_range: "decodes n m f \<Longrightarrow> contains_range n r m = Some (hit, m') \<Longrightarrow> decodes n m' f"
  | find_intersecting: "decodes n m f \<Longrightarrow> map_intersects n r m = Some (hit, m') \<Longrightarrow> decodes n m' f"

lemma decodes_ok: "decodes n m f \<Longrightarrow> map_ok m \<and> lookup m = f"
proof (induction rule: decodes.induct)
  case empty
  show ?case by (simp add: map_ok_def lookup_def empty_map_def fun_eq_iff)
next
  case (insert m f r d b m')
  then show ?case using map_insert_law [of m r n d] by auto
next
  case (erase m f p)
  then show ?case using erase_law [of m p] by auto
next
  case (erase_several m f p q)
  then show ?case using erase_range_law [of m p q] by auto
next
  case (clear m f)
  show ?case by (simp add: map_ok_def lookup_def clear_map_def fun_eq_iff)
next
  case (find m f a hit m')
  then show ?case using contains_addr_law [of m n a] lookup_tree [of m' m] by auto
next
  case (find_range m f r hit m')
  then show ?case using find_entry_keeps lookup_tree [of m' m] unfolding contains_range_def by blast
next
  case (find_intersecting m f r hit m')
  then show ?case using find_entry_keeps lookup_tree [of m' m] unfolding map_intersects_def by blast
qed

lemma find_no_cache:
  assumes "rm_cache m = []" "find_entry 0 r cond m = Some (hit, m')"
  shows "m' = m"
  using assms by (auto simp: find_entry_def addNewEntryToCache_def Let_def split: bind_splits if_splits option.splits)

lemma no_cache: "decodes 0 m f \<Longrightarrow> rm_cache m = []"
proof (induction rule: decodes.induct)
  case (insert m f r d b m')
  then obtain hit m1 where m1: "find_entry 0 r (intersects r) m = Some (hit, m1)" "rm_cache m' = rm_cache m1"
    by (auto simp: map_insert_def map_intersects_def split: bind_splits if_splits)
  then show ?case using find_no_cache [OF insert.IH m1(1)] insert.IH by simp
next
  case (erase_several m f p q)
  then show ?case by (simp add: erase_range_def erase_loop_eq Let_def)
next
  case (find m f a hit m')
  then show ?case using find_no_cache unfolding contains_addr_def contains_range_def by blast
next
  case (find_range m f r hit m')
  then show ?case using find_no_cache unfolding contains_range_def by blast
next
  case (find_intersecting m f r hit m')
  then show ?case using find_no_cache unfolding map_intersects_def by blast
qed (simp_all add: empty_map_def erase_entry_def clear_map_def)

text \<open>
  C6: A map of plain ranges decodes addresses.  In every state that insertions, erasures, clearing and searches reach, a
  lookup returns the value of the range that has the address and none if there is no such range, whatever is in the cache;
  and an insertion succeeds exactly when no address of the new range is taken.  Erasing a sequence of entries is among
  the operations as long as the cache holds none of them but the first.
\<close>

theorem range_map_exact:
  assumes "decodes n m f" "plain r"
  shows "(\<exists>hit m'. contains_addr n a m = Some (hit, m') \<and> map_option snd hit = f a) \<and>
    (\<exists>m'. map_insert n r d m = Some (\<forall>a. contains r a \<longrightarrow> f a = None, m'))"
proof -
  have ok: "map_ok m" "lookup m = f" using decodes_ok [OF assms(1)] by auto
  then show ?thesis using contains_addr_law [OF ok(1), of n a] map_insert_law [OF ok(1) assms(2), of n d] by auto
qed

theorem range_map_exact_witness:
  "\<exists>m hit m'. map_insert 1 (RangeSize 16 8) ''mem'' empty_map = Some (True, m) \<and>
    contains_addr 1 20 m = Some (hit, m') \<and> map_option snd hit = Some ''mem''"
proof -
  let ?r = "RangeSize 16 8"
  have r: "plain ?r" by (simp add: plain_def RangeSize_def AddrRange_plain_def interleaved_def ar_valid_def)
  obtain m where m: "map_insert 1 ?r ''mem'' empty_map = Some (True, m)"
    using range_map_exact [OF decodes.empty r, of 1 0 "''mem''"] by auto
  have "decodes 1 m (\<lambda>a. if contains ?r a then Some ''mem'' else None)" using decodes.insert [OF decodes.empty r m] by simp
  moreover have "contains ?r 20" by (simp add: contains_def RangeSize_def AddrRange_plain_def interleaved_def)
  ultimately show ?thesis using range_map_exact [OF _ r, of 1 m _ 20] m by fastforce
qed

section \<open>Interleaved ranges\<close>

text \<open>
  C39: Lookups ignore interleaving.  In a map with two stripes of one range, every address after the first is decoded to
  the second stripe, also the addresses that are in the first one only, because \<open>isSubset\<close> compares only the ends.
\<close>

theorem stripes_decode_wrongly:
  assumes "mergesWith r0 r1" "intlvMatch r0 = 0" "intlvMatch r1 = 1" "ar_start r0 < a" "a \<le> ar_end r0" "contains r0 a"
    "ar_ok r0" "ar_ok r1" "interleaved r0"
  shows "contains_addr 0 a \<lparr>tree = [(r0, v0), (r1, v1)], rm_cache = []\<rparr> =
      Some (Some (r1, v1), \<lparr>tree = [(r0, v0), (r1, v1)], rm_cache = []\<rparr>) \<and> \<not> contains r1 a"
proof -
  let ?q = "RangeSize a 1"
  have q: "ar_start ?q = a" "ar_end ?q = a" "\<not> interleaved ?q" by (simp_all add: RangeSize_def AddrRange_plain_def interleaved_def)
  have r: "ar_start r1 = ar_start r0" "ar_end r1 = ar_end r0" "slice r1 = slice r0" "interleaved r1"
    using assms(1,9) merges_slice [OF assms(1)] by (auto simp: mergesWith_def)
  have "upper_bound ?q [(r0, v0), (r1, v1)] = 2" using assms(4) q r by (auto simp: upper_bound_def ar_less_def)
  moreover have "isSubset ?q r1 = Some True" using assms(4,5) q r by (simp add: isSubset_def)
  ultimately have "contains_addr 0 a \<lparr>tree = [(r0, v0), (r1, v1)], rm_cache = []\<rparr> =
      Some (Some (r1, v1), \<lparr>tree = [(r0, v0), (r1, v1)], rm_cache = []\<rparr>)"
    by (simp add: contains_addr_def contains_range_def find_entry_def addNewEntryToCache_def)
  moreover have "\<not> contains r1 a"
    using assms(2,3,6,9) r contains_iff [OF assms(7)] contains_iff [OF assms(8)] by auto
  ultimately show ?thesis by blast
qed

theorem stripes_decode_wrongly_witness:
  "\<exists>r0 r1. contains r0 1 \<and> \<not> contains r1 1 \<and>
    contains_addr 0 1 \<lparr>tree = [(r0, ''a''), (r1, ''b'')], rm_cache = []\<rparr> =
      Some (Some (r1, ''b''), \<lparr>tree = [(r0, ''a''), (r1, ''b'')], rm_cache = []\<rparr>)"
proof -
  let ?r = "\<lambda>m. \<lparr>ar_start = 0, ar_end = 255, intlvHighBit = 6, xorHighBit = 0, intlvBits = 1, intlvMatch = m\<rparr>"
  have ok: "ar_ok (?r 0)" "ar_ok (?r 1)" "interleaved (?r 0)" by (simp_all add: ar_ok_def low_bit_def hashed_def interleaved_def)
  have c: "contains (?r 0) 1" by (simp add: contains_def hashed_def interleaved_def low_bit_def bits_def bf_mask_def drop_bit_eq_div)
  have m: "mergesWith (?r 0) (?r 1)" by (simp add: mergesWith_def)
  have "contains_addr 0 1 \<lparr>tree = [(?r 0, ''a''), (?r 1, ''b'')], rm_cache = []\<rparr> =
      Some (Some (?r 1, ''b''), \<lparr>tree = [(?r 0, ''a''), (?r 1, ''b'')], rm_cache = []\<rparr>) \<and> \<not> contains (?r 1) 1"
    by (rule stripes_decode_wrongly [OF m _ _ _ _ c ok]) simp_all
  then show ?thesis using c by blast
qed

section \<open>Erasing several entries\<close>

lemma follow_dangling: "map_of (tree m) c = None \<Longrightarrow> rm_cache m = c # cs \<Longrightarrow> contains_addr n a m = None"
  by (simp add: contains_addr_def contains_range_def find_entry_def)

text \<open>
  C40: Erasing several entries leaves dangling iterators.  The loop removes its first entry from the cache again and
  again, so another erased entry that is first in the cache stays there, and the next lookup follows it.
\<close>

theorem erase_range_dangles:
  assumes "map_ok m" "p < i" "i < q" "q \<le> length (tree m)" "rm_cache m = fst (tree m ! i) # cs"
  shows "contains_addr n a (erase_range p q m) = None"
proof -
  let ?c = "fst (tree m ! i)" and ?t = "take p (tree m) @ drop q (tree m)"
  have "p \<le> q" using assms(2,3) by simp
  then have "?c \<notin> fst ` set ?t"
    using kept_entries [OF assms(1) _ assms(4), of p] assms(2,3) by (metis imageE less_imp_le)
  then have "map_of ?t ?c = None" by (rule iffD2 [OF map_of_eq_None_iff])
  moreover have "fst (tree m ! p) \<noteq> ?c" using keys_distinct [OF assms(1), of i p] assms(2-4) by simp
  moreover have "take (q - p) (drop p (tree m)) \<noteq> []" using assms(2-4) by simp
  ultimately have "rm_cache (erase_range p q m) = ?c # removeAll (fst (tree m ! p)) cs" "tree (erase_range p q m) = ?t"
    by (simp_all add: erase_range_def erase_loop_eq assms(5) Let_def)
  then show ?thesis using follow_dangling [of "erase_range p q m" ?c] \<open>map_of ?t ?c = None\<close> by metis
qed

theorem erase_range_dangles_witness:
  "contains_addr 1 0 (erase_range 0 2 \<lparr>tree = [(RangeSize 0 8, ''a''), (RangeSize 16 8, ''b'')], rm_cache = [RangeSize 16 8]\<rparr>) = None"
  by (rule erase_range_dangles [where i = 1 and cs = "[]"])
    (simp_all add: map_ok_def plain_def RangeSize_def AddrRange_plain_def interleaved_def ar_valid_def)

end
