(* ===== verification/Spec2Isabelle.thy ===== *)
theory Spec2Isabelle
  imports EventQueue Sched BPredUnit CacheTags ObjMount AddrRangeMap
begin

text \<open>
  Verification of parts of the CS330 repository: the assignments of an operating-systems course, which extend
  a small teaching kernel written in C (\<open>src/Assignments\<close>), and the computer-architecture simulator gem5 in
  C++ (\<open>src/gem5/src\<close>).

  \<^bold>\<open>The programs.\<close>  In the kernel, \<open>assignment1/context_mm.c\<close> builds and tears down the page tables of a
  process; \<open>assignment2/entry.c\<close> handles its system calls and page faults over such tables; and
  \<open>assignment3/schedule.c\<close> saves, restores and switches processes on timer ticks.  \<open>assignment4\<close> is a file system in
  user space: \<open>objfs.c\<close> has the handlers, \<open>objstore.c\<close> keeps objects in blocks of a disk image behind a cache, and
  \<open>lib.c\<close> reads and writes the blocks.  In gem5, events run
  from the event queue (\<open>sim/eventq\<close>); the processor models predict branches with the unit of \<open>cpu/pred\<close>,
  which combines a direction predictor with a return address stack, a branch target buffer and an indirect
  predictor; the caches keep their blocks in set-associative tags (\<open>mem/cache/tags\<close>) and choose victims by a
  replacement policy (\<open>mem/cache/replacement_policies\<close>); buses decode addresses with the range map of \<open>base\<close>; all
  use the integer and bit-field helpers of \<open>base\<close>.

  \<^bold>\<open>How code is modelled.\<close>  Structs and classes are records, enums are datatypes, and integers are words of
  their width wherever wrap-around can matter.  A function that can stop (a failed \<open>assert\<close>, \<open>panic\<close> or
  \<open>fatal\<close>, an access through a null pointer, a division by zero) returns an option, with \<^term>\<open>None\<close> for
  stopping.  Mutable objects are passed as state and returned; pointers that matter are addresses in an
  explicit heap.  Code outside the repository, such as the object files of the course, is a
  record of functions that the definitions take as an argument; what the proofs assume of it is a named
  hypothesis, and the witnesses instantiate it with concrete functions.  Random numbers and the current tick
  are arguments.  Statistics, debug output and probe points are left out throughout.

  \<^bold>\<open>The theories.\<close>

  \<^item> \<open>Prelude\<close>: machine types, \<open>c_assert\<close>, and shared lemmas on words, lists and heaps.

  \<^item> \<open>IntMath\<close>: \<open>base/intmath.hh\<close>, \<open>base/intmath.cc\<close>, \<open>base/bitfield.hh\<close>.  Logarithms, powers of two and
  rounding are exact; writing a bit field and reading it back is the identity; \<open>prevPrime\<close> is the
  largest prime only for some arguments.

  \<^item> \<open>AddrRange\<close>: \<open>base/addr_range.hh\<close>.  Interleaved ranges, hashed or not, partition the addresses; offsets number
  the addresses of a stripe without gaps; merging gives the union.

  \<^item> \<open>AddrRangeMap\<close>: \<open>base/addr_range_map.hh\<close>.  For ranges that are not interleaved the map implements a partial function
  on addresses, whatever its cache holds, as long as no sequence of entries is erased of which a later one is cached; with
  interleaved ones it decodes wrongly.

  \<^item> \<open>EventQueue\<close>: \<open>sim/eventq.hh\<close>, \<open>sim/eventq.cc\<close>, \<open>sim/eventq_impl.hh\<close>, at the level of pointers.  The
  linked bins represent a sorted list of stacks, with no event before the clock, in every state of a run (\<open>eq_run\<close>) that
  operates on events, services them and sets the clock; scheduling and servicing returns the events in order;
  \<open>serviceOne\<close> runs the handler of the least event on the queue without it; \<open>deschedule\<close> undoes \<open>schedule\<close>;
  \<open>serviceEvents\<close> returns when the handlers it comes to do.  Handlers are arguments.  The locale
  \<open>event_pq\<close> is the priority-queue contract, and the queue is its instance.

  \<^item> \<open>PageTable\<close>: \<open>assignment1/context_mm.c\<close>.  The walk of the processor over the tables that
  \<open>prepare_context_mm\<close> built finds the three pages of the process, and \<open>cleanup_context_mm\<close> frees exactly the
  frames that were taken.

  \<^item> \<open>Syscall\<close>: \<open>assignment2/entry.c\<close>.  The page-fault handler maps the faulting page and nothing
  else.  \<open>write\<close> prints byte by byte, and a byte that is not mapped goes through the page-fault handler: buffers of at
  most 4097 bytes never fault, a hole in a longer one ends the process.  \<open>expand\<close> and \<open>shrink\<close> keep the segment bounds.

  \<^item> \<open>Sched\<close>: \<open>assignment3/schedule.c\<close>.  In every reachable state at most one process is running, the current
  one, and none only after an exit that returned to the process it ended; a sleeping process
  wakes when its ticks are over and no other sleeper is due; an alarm enters the handler.

  \<^item> \<open>DirPred\<close>: \<open>sat_counter.hh\<close>, \<open>2bit_local\<close>, \<open>tournament\<close>, \<open>bi_mode\<close> of \<open>cpu/pred\<close>.  The locale
  \<open>dir_predictor\<close> is what the prediction unit relies on, with the three predictors as instances.

  \<^item> \<open>BPredUnit\<close>: \<open>ras\<close>, \<open>btb\<close>, \<open>indirect\<close>, \<open>bpred_unit\<close> of \<open>cpu/pred\<close>.  Squashing undoes younger
  predictions; the return address stack refines a bounded stack.

  \<^item> \<open>Replacement\<close>: \<open>mem/cache/replacement_policies\<close>.  The locales \<open>replacement_policy\<close>, \<open>invalid_first\<close> and
  \<open>free_first\<close> are increasingly strong contracts; each policy is an instance of the strongest one that it meets.

  \<^item> \<open>CacheTags\<close>: the block, set and tag classes (\<open>mem/cache/blk\<close>, \<open>tags/cacheset.hh\<close>, \<open>tags/base\<close>,
  \<open>tags/base_set_assoc\<close>) and the part of \<open>mem/cache/base.cc\<close> and \<open>cache.cc\<close> that fills and evicts blocks, for
  any policy of \<open>Replacement\<close>.  A fill brings in one block, evicts at most one and leaves every other lookup
  as it was; with the default policy a set holds the most recently read blocks; store-conditionals are atomic.

  \<^item> \<open>BlockCache\<close>: \<open>lib.c\<close> and the cache and block bitmap of \<open>objstore.c\<close>, in the builds with and without \<open>CACHE\<close>.
  The locale \<open>block_layer\<close> is what the objects rely on (loading, storing, reserving and initialising blocks), with both
  builds as instances; a sync brings all blocks to the disk; the first reuse of a cache page deadlocks.

  \<^item> \<open>ObjTable\<close>: the hash table of objects.  Creating and renaming do what they should in a table of short keys, and
  long keys overrun their array.

  \<^item> \<open>ObjData\<close>: reading, writing, destroying and measuring one object through its indirect blocks, and the
  invariant of an object.

  \<^item> \<open>ObjStore\<close>: the whole store and the handlers of \<open>objfs.c\<close>.  The handlers refine a map from names to contents; reads
  return the contents; destroying frees the blocks without the cache and may leak them with it.

  \<^item> \<open>ObjMount\<close>: \<open>objstore_init\<close> and \<open>objstore_destroy\<close> with the byte layout of the super object.  Unmounting and
  mounting again keeps every file.

  \<^bold>\<open>Bounds and loops.\<close>  Loops over arrays and lists are structural recursions.  The loops that follow
  pointers in the event queue are \<open>partial_function (option)\<close>, and the representation invariant gives that they
  return; \<open>serviceEvents\<close> is one too, and its property states when it returns.  So are the two searches of the object
  table, of which the one in \<open>create_object\<close> really may not end; \<open>create_exact\<close> states when it does.  The
  second-chance search is a \<open>function\<close> whose measure is the number of candidates with a second chance.  No
  definition has fuel.

  \<^bold>\<open>Not modelled.\<close>  The rest of gem5: its processor pipelines, the LTAGE branch predictor, the decoders generated from
  instruction-set descriptions, Ruby's generated coherence controllers, devices, the GPU model, SystemC,
  statistics and the Python configuration.  Of the kernel, the inline
  assembly that saves registers around the handlers, and the object files of the course.  Of the object
  store, threads that interleave inside an operation, I/O errors, allocations that fail, and opening the disk image.  Of the
  assignments, the FUSE library, the example file system and the user test programs.
\<close>

end
